(* ===== verification/Aff4_Prelude.thy ===== *)
theory Aff4_Prelude
  imports Main "HOL-Library.Word"
begin

text \<open>
  Shared vocabulary of the development: bytes and C strings, the machine integers of the C
  code, objects in memory with their bounds, little-endian layout of packed structs, the error
  codes of \<^verbatim>\<open>include/aff4_errors.h\<close>, and the generic lemmas and collections used by every component.

  Conventions.
  \<^item> A byte is a HOL \<open>char\<close>, as the code's buffers are \<^verbatim>\<open>char *\<close>; a C string is the list of its bytes
    without the terminating NUL.
  \<^item> A C integer is an \<open>int\<close>; each place where the code stores a result in a type of a given width
    applies the conversion of that width (\<open>u64\<close>, \<open>u32\<close>, \<open>u16\<close>, \<open>s32\<close>), so wrap-around is part of the model.
  \<^item> A memory object is a list whose length is the size of its allocation. An access outside it has
    no meaning in C: the operation returns \<open>None\<close>.
\<close>

named_theorems c_int \<open>conversions of C integers that are in range\<close>
named_theorems mem_simps \<open>reads and writes of memory objects\<close>

section \<open>Bytes and C strings\<close>

type_synonym byte = char
type_synonym buf = "char list"

abbreviation NUL :: byte where "NUL \<equiv> CHR 0x00"

definition cstr :: "buf \<Rightarrow> bool" where
  "cstr s \<longleftrightarrow> NUL \<notin> set s"

definition schar :: "byte \<Rightarrow> int" where
  "schar c = (let n = of_char c in if 128 \<le> n then n - 256 else n)"

definition strlen :: "buf \<Rightarrow> nat" where
  "strlen s = length (takeWhile (\<lambda>c. c \<noteq> NUL) s)"

section \<open>Machine integers\<close>

definition u64 :: "int \<Rightarrow> int" where "u64 x = x mod 2 ^ 64"
definition u32 :: "int \<Rightarrow> int" where "u32 x = x mod 2 ^ 32"
definition u16 :: "int \<Rightarrow> int" where "u16 x = x mod 2 ^ 16"
definition s32 :: "int \<Rightarrow> int" where "s32 x = (x + 2 ^ 31) mod 2 ^ 32 - 2 ^ 31"
definition s64 :: "int \<Rightarrow> int" where "s64 x = (x + 2 ^ 63) mod 2 ^ 64 - 2 ^ 63"

lemma u64_id [c_int]: "0 \<le> x \<Longrightarrow> x < 2 ^ 64 \<Longrightarrow> u64 x = x"
  by (simp add: u64_def)

lemma u32_id [c_int]: "0 \<le> x \<Longrightarrow> x < 2 ^ 32 \<Longrightarrow> u32 x = x"
  by (simp add: u32_def)

lemma u16_id [c_int]: "0 \<le> x \<Longrightarrow> x < 2 ^ 16 \<Longrightarrow> u16 x = x"
  by (simp add: u16_def)

lemma s32_id [c_int]: "- (2 ^ 31) \<le> x \<Longrightarrow> x < 2 ^ 31 \<Longrightarrow> s32 x = x"
  by (simp add: s32_def)

lemma s64_id [c_int]: "- (2 ^ 63) \<le> x \<Longrightarrow> x < 2 ^ 63 \<Longrightarrow> s64 x = x"
  by (simp add: s64_def)

lemma u64_range: "0 \<le> u64 x \<and> u64 x < 2 ^ 64"
  by (simp add: u64_def)

lemma u32_range: "0 \<le> u32 x \<and> u32 x < 2 ^ 32"
  by (simp add: u32_def)

lemma u16_range: "0 \<le> u16 x \<and> u16 x < 2 ^ 16"
  by (simp add: u16_def)

lemma u64_u64 [simp]: "u64 (u64 x) = u64 x"
  by (simp add: u64_def)

section \<open>Memory objects\<close>

definition mem_write :: "nat \<Rightarrow> 'a list \<Rightarrow> 'a list \<Rightarrow> 'a list option" where
  "mem_write off src dst =
     (if off + length src \<le> length dst
      then Some (take off dst @ src @ drop (off + length src) dst) else None)"

definition mem_read :: "nat \<Rightarrow> nat \<Rightarrow> 'a list \<Rightarrow> 'a list option" where
  "mem_read off n src =
     (if off + n \<le> length src then Some (take n (drop off src)) else None)"

lemma mem_write_length [mem_simps]: "mem_write off src dst = Some d \<Longrightarrow> length d = length dst"
  by (auto simp: mem_write_def split: if_splits)

lemma mem_read_length [mem_simps]: "mem_read off n src = Some d \<Longrightarrow> length d = n"
  by (auto simp: mem_read_def split: if_splits)

text \<open>Reading back what was just written.\<close>

lemma mem_read_write [mem_simps]:
  "mem_write off src dst = Some d \<Longrightarrow> mem_read off (length src) d = Some src"
  by (auto simp: mem_write_def mem_read_def split: if_splits)

definition MAX_TALLOC_SIZE :: int where
  "MAX_TALLOC_SIZE = 0x10000000"

text \<open>
  \<open>talloc_realloc\<close> keeps the common prefix; what the allocator leaves in the bytes it adds is the
  parameter \<open>junk\<close>. A size of zero frees the object and a size of at least \<open>MAX_TALLOC_SIZE\<close> is refused:
  both return NULL, which has no accessible byte.
\<close>

definition talloc_realloc :: "(nat \<Rightarrow> byte) \<Rightarrow> int \<Rightarrow> buf \<Rightarrow> buf" where
  "talloc_realloc junk sz d =
     (if sz = 0 then []
      else if MAX_TALLOC_SIZE \<le> sz then []
      else take (nat sz) d @ map junk [length d ..< nat sz])"

lemma talloc_realloc_length:
  "0 \<le> sz \<Longrightarrow> sz < MAX_TALLOC_SIZE \<Longrightarrow> length (talloc_realloc junk sz d) = nat sz"
  by (auto simp: talloc_realloc_def min_def)

lemma talloc_realloc_take:
  "0 \<le> sz \<Longrightarrow> sz < MAX_TALLOC_SIZE \<Longrightarrow> n \<le> nat sz \<Longrightarrow> n \<le> length d \<Longrightarrow>
     take n (talloc_realloc junk sz d) = take n d"
  by (auto simp: talloc_realloc_def min_def)

section \<open>Positional overwrite\<close>

text \<open>
  The effect of writing \<open>b\<close> at offset \<open>p\<close> of a byte sequence \<open>c\<close>, as every stream of the library
  promises it: a gap between the end of \<open>c\<close> and \<open>p\<close> reads as zero bytes.
\<close>

definition overwrite :: "nat \<Rightarrow> buf \<Rightarrow> buf \<Rightarrow> buf" where
  "overwrite p b c = take p (c @ replicate (p - length c) NUL) @ b @ drop (p + length b) c"

lemma length_overwrite [simp]: "length (overwrite p b c) = max (length c) (p + length b)"
  by (auto simp: overwrite_def)

lemma take_drop_overwrite [simp]:
  "take (length b) (drop p (overwrite p b c)) = b"
  by (simp add: overwrite_def)

lemma take_overwrite: "n \<le> p \<Longrightarrow> n \<le> length c \<Longrightarrow> take n (overwrite p b c) = take n c"
  by (simp add: overwrite_def min_def)

lemma drop_overwrite: "p + length b \<le> n \<Longrightarrow> p \<le> length c \<Longrightarrow> drop n (overwrite p b c) = drop n c"
  by (simp add: overwrite_def)

lemma overwrite_end [simp]: "overwrite (length c) b c = c @ b"
  by (simp add: overwrite_def)

lemma overwrite_Nil [simp]: "p \<le> length c \<Longrightarrow> overwrite p [] c = c"
  by (simp add: overwrite_def)

lemma overwrite_0: "length c \<le> length b \<Longrightarrow> overwrite 0 b c = b"
  by (simp add: overwrite_def)

section \<open>Little-endian layout\<close>

fun le_bytes :: "nat \<Rightarrow> nat \<Rightarrow> buf" where
  "le_bytes 0 v = []"
| "le_bytes (Suc n) v = char_of (v mod 256) # le_bytes n (v div 256)"

fun le_val :: "buf \<Rightarrow> nat" where
  "le_val [] = 0"
| "le_val (c # cs) = of_char c + 256 * le_val cs"

lemma length_le_bytes [simp]: "length (le_bytes n v) = n"
  by (induction n arbitrary: v) auto

lemma le_val_le_bytes: "le_val (le_bytes n v) = v mod 256 ^ n"
proof (induction n arbitrary: v)
  case 0
  then show ?case by simp
next
  case (Suc n)
  have "le_val (le_bytes (Suc n) v) = v mod 256 + 256 * (v div 256 mod 256 ^ n)"
    by (simp add: Suc.IH)
  also have "\<dots> = v mod (256 * 256 ^ n)"
    by (simp add: mod_mult2_eq)
  finally show ?case by simp
qed

lemma le_val_le_bytes_id [simp]: "v < 256 ^ n \<Longrightarrow> le_val (le_bytes n v) = v"
  by (simp add: le_val_le_bytes)

lemma le_val_bound: "le_val b < 256 ^ length b"
proof (induction b)
  case (Cons c b)
  have c: "of_char c < (256::nat)" by simp
  have "Suc (le_val b) \<le> 256 ^ length b" using Cons by simp
  then have "256 * Suc (le_val b) \<le> 256 * 256 ^ length b" by (rule mult_le_mono2)
  from c have "of_char c + 256 * le_val b < 256 + 256 * le_val b" by (rule add_strict_right_mono)
  also have "\<dots> \<le> 256 * 256 ^ length b"
    using \<open>256 * Suc (le_val b) \<le> 256 * 256 ^ length b\<close> by simp
  finally show ?case by simp
qed simp

lemma le_bytes_inject: "le_bytes n v = le_bytes n w \<Longrightarrow> v < 256 ^ n \<Longrightarrow> w < 256 ^ n \<Longrightarrow> v = w"
  by (metis le_val_le_bytes_id)

lemma le_bytes_le_val: "le_bytes (length b) (le_val b) = b"
  by (induction b) auto

lemma le_bytes_mod: "le_bytes n (v mod 256 ^ n) = le_bytes n v"
proof (induction n arbitrary: v)
  case (Suc n)
  have "v mod 256 ^ Suc n mod 256 = v mod 256" by (simp add: mod_mod_cancel)
  moreover have "v mod 256 ^ Suc n div 256 = v div 256 mod 256 ^ n" by (simp add: mod_mult2_eq)
  ultimately show ?case using Suc by simp
qed simp

lemma le_bytes_add: "le_bytes (m + n) v = le_bytes m v @ le_bytes n (v div 256 ^ m)"
  by (induction m arbitrary: v) (simp_all add: div_mult2_eq)

lemma le_val_append: "le_val (a @ b) = le_val a + 256 ^ length a * le_val b"
  by (induction a) (simp_all add: algebra_simps)

section \<open>Error codes\<close>

text \<open>The codes of \<^verbatim>\<open>aff4_errors.h\<close>; an operation that calls \<^verbatim>\<open>RaiseError\<close> returns the code it raised.\<close>

datatype aff4_err = EZero | EGeneric | EOverflow | EWarning | EUnderflow | EIOError | ENoMemory
  | EInvalidParameter | ERuntimeError | EKeyError | EProgrammingError

section \<open>Constants of the library\<close>

definition BUFF_SIZE :: nat where "BUFF_SIZE = 40960"

definition HASH_TABLE_SIZE :: nat where "HASH_TABLE_SIZE = 256"

section \<open>Lists\<close>

definition occurs_at :: "'a list \<Rightarrow> nat \<Rightarrow> 'a list \<Rightarrow> bool" where
  "occurs_at needle i c \<longleftrightarrow> i + length needle \<le> length c \<and> take (length needle) (drop i c) = needle"

lemma find_upt_Some:
  "List.find P [0 ..< n] = Some i \<longleftrightarrow> i < n \<and> P i \<and> (\<forall>j<i. \<not> P j)"
  by (auto simp: find_Some_iff)

lemma find_upt_None: "List.find P [0 ..< n] = None \<longleftrightarrow> (\<forall>j<n. \<not> P j)"
  by (auto simp: find_None_iff)

lemma filter_remove1_other: "\<not> P x \<Longrightarrow> filter P (remove1 x xs) = filter P xs"
  by (induction xs) auto

lemma map_filter_hd: "filter P xs \<noteq> [] \<Longrightarrow> List.find P xs = Some (hd (filter P xs))"
  by (induction xs) auto

lemma find_None_filter: "List.find P xs = None \<longleftrightarrow> filter P xs = []"
  by (auto simp: find_None_iff filter_empty_conv)

end
