(* ===== verification/Zip_Format.thy ===== *)
theory Zip_Format
  imports Aff4_Prelude
begin

text \<open>
  The packed structs of \<^verbatim>\<open>include/aff4_zip.h\<close> and their layout in a file. A struct is a record of natural numbers, one for
  each member; packing writes each member little endian at its width, and unpacking reads each member at
  its offset, as the casts between the structs and byte buffers in \<^verbatim>\<open>lib/aff4_zip.c\<close> do.
\<close>

section \<open>Structs\<close>

record EndCentralDirectory =
  end_magic :: nat
  number_of_this_disk :: nat
  end_disk_with_cd :: nat
  total_entries_in_cd_on_disk :: nat
  total_entries_in_cd :: nat
  end_size_of_cd :: nat
  end_offset_of_cd :: nat
  comment_len :: nat

record CDFileHeader =
  cd_magic :: nat
  version_made_by :: nat
  version_needed :: nat
  cd_flags :: nat
  cd_compression_method :: nat
  dostime :: nat
  dosdate :: nat
  cd_crc32 :: nat
  compress_size :: nat
  file_size :: nat
  file_name_length :: nat
  extra_field_len :: nat
  file_comment_length :: nat
  disk_number_start :: nat
  internal_file_attr :: nat
  external_file_attr :: nat
  relative_offset_local_header :: nat

record ZipFileHeader =
  zfh_magic :: nat
  zfh_version :: nat
  zfh_flags :: nat
  zfh_compression_method :: nat
  lastmodtime :: nat
  lastmoddate :: nat
  zfh_crc32 :: nat
  zfh_compress_size :: nat
  zfh_file_size :: nat
  zfh_file_name_length :: nat
  zfh_extra_field_len :: nat

record Zip64EndCD =
  z64_magic :: nat
  size_of_header :: nat
  z64_version_made_by :: nat
  z64_version_needed :: nat
  number_of_disk :: nat
  number_of_disk_with_cd :: nat
  number_of_entries_in_volume :: nat
  number_of_entries_in_total :: nat
  z64_size_of_cd :: nat
  z64_offset_of_cd :: nat

record Zip64CDLocator =
  loc_magic :: nat
  loc_disk_with_cd :: nat
  offset_of_end_cd :: nat
  number_of_disks :: nat

section \<open>Layout\<close>

definition pack :: "(nat \<times> nat) list \<Rightarrow> buf" where
  "pack fs = concat (map (\<lambda>(w, v). le_bytes w v) fs)"

definition field :: "nat \<Rightarrow> nat \<Rightarrow> buf \<Rightarrow> nat" where
  "field off w b = le_val (take w (drop off b))"

definition fits :: "(nat \<times> nat) list \<Rightarrow> bool" where
  "fits fs \<longleftrightarrow> (\<forall>(w, v) \<in> set fs. v < 256 ^ w)"

definition end_fields :: "EndCentralDirectory \<Rightarrow> (nat \<times> nat) list" where
  "end_fields e = [(4, end_magic e), (2, number_of_this_disk e), (2, end_disk_with_cd e), (2, total_entries_in_cd_on_disk e),
     (2, total_entries_in_cd e), (4, end_size_of_cd e), (4, end_offset_of_cd e), (2, comment_len e)]"

definition end_unpack :: "buf \<Rightarrow> EndCentralDirectory" where
  "end_unpack b = \<lparr>end_magic = field 0 4 b, number_of_this_disk = field 4 2 b, end_disk_with_cd = field 6 2 b,
     total_entries_in_cd_on_disk = field 8 2 b, total_entries_in_cd = field 10 2 b, end_size_of_cd = field 12 4 b,
     end_offset_of_cd = field 16 4 b, comment_len = field 20 2 b\<rparr>"

definition cd_fields :: "CDFileHeader \<Rightarrow> (nat \<times> nat) list" where
  "cd_fields c = [(4, cd_magic c), (2, version_made_by c), (2, version_needed c), (2, cd_flags c), (2, cd_compression_method c),
     (2, dostime c), (2, dosdate c), (4, cd_crc32 c), (4, compress_size c), (4, file_size c), (2, file_name_length c),
     (2, extra_field_len c), (2, file_comment_length c), (2, disk_number_start c), (2, internal_file_attr c),
     (4, external_file_attr c), (4, relative_offset_local_header c)]"

definition cd_unpack :: "buf \<Rightarrow> CDFileHeader" where
  "cd_unpack b = \<lparr>cd_magic = field 0 4 b, version_made_by = field 4 2 b, version_needed = field 6 2 b, cd_flags = field 8 2 b,
     cd_compression_method = field 10 2 b, dostime = field 12 2 b, dosdate = field 14 2 b, cd_crc32 = field 16 4 b,
     compress_size = field 20 4 b, file_size = field 24 4 b, file_name_length = field 28 2 b, extra_field_len = field 30 2 b,
     file_comment_length = field 32 2 b, disk_number_start = field 34 2 b, internal_file_attr = field 36 2 b,
     external_file_attr = field 38 4 b, relative_offset_local_header = field 42 4 b\<rparr>"

definition zfh_fields :: "ZipFileHeader \<Rightarrow> (nat \<times> nat) list" where
  "zfh_fields h = [(4, zfh_magic h), (2, zfh_version h), (2, zfh_flags h), (2, zfh_compression_method h), (2, lastmodtime h),
     (2, lastmoddate h), (4, zfh_crc32 h), (4, zfh_compress_size h), (4, zfh_file_size h), (2, zfh_file_name_length h),
     (2, zfh_extra_field_len h)]"

definition zfh_unpack :: "buf \<Rightarrow> ZipFileHeader" where
  "zfh_unpack b = \<lparr>zfh_magic = field 0 4 b, zfh_version = field 4 2 b, zfh_flags = field 6 2 b, zfh_compression_method = field 8 2 b,
     lastmodtime = field 10 2 b, lastmoddate = field 12 2 b, zfh_crc32 = field 14 4 b, zfh_compress_size = field 18 4 b,
     zfh_file_size = field 22 4 b, zfh_file_name_length = field 26 2 b, zfh_extra_field_len = field 28 2 b\<rparr>"

definition z64_fields :: "Zip64EndCD \<Rightarrow> (nat \<times> nat) list" where
  "z64_fields e = [(4, z64_magic e), (8, size_of_header e), (2, z64_version_made_by e), (2, z64_version_needed e),
     (4, number_of_disk e), (4, number_of_disk_with_cd e), (8, number_of_entries_in_volume e), (8, number_of_entries_in_total e),
     (8, z64_size_of_cd e), (8, z64_offset_of_cd e)]"

definition z64_unpack :: "buf \<Rightarrow> Zip64EndCD" where
  "z64_unpack b = \<lparr>z64_magic = field 0 4 b, size_of_header = field 4 8 b, z64_version_made_by = field 12 2 b,
     z64_version_needed = field 14 2 b, number_of_disk = field 16 4 b, number_of_disk_with_cd = field 20 4 b,
     number_of_entries_in_volume = field 24 8 b, number_of_entries_in_total = field 32 8 b, z64_size_of_cd = field 40 8 b,
     z64_offset_of_cd = field 48 8 b\<rparr>"

definition loc_fields :: "Zip64CDLocator \<Rightarrow> (nat \<times> nat) list" where
  "loc_fields l = [(4, loc_magic l), (4, loc_disk_with_cd l), (8, offset_of_end_cd l), (4, number_of_disks l)]"

definition loc_unpack :: "buf \<Rightarrow> Zip64CDLocator" where
  "loc_unpack b = \<lparr>loc_magic = field 0 4 b, loc_disk_with_cd = field 4 4 b, offset_of_end_cd = field 8 8 b,
     number_of_disks = field 16 4 b\<rparr>"

section \<open>Reading back a packed struct\<close>

lemma pack_Cons [simp]: "pack ((w, v) # fs) = le_bytes w v @ pack fs"
  by (simp add: pack_def)

lemma pack_Nil [simp]: "pack [] = []"
  by (simp add: pack_def)

lemma length_pack: "length (pack fs) = sum_list (map fst fs)"
  by (induction fs) auto

text \<open>The first member, and the members after it: a read beyond a member skips it.\<close>

lemma field_here: "v < 256 ^ w \<Longrightarrow> field 0 w (le_bytes w v @ r) = v"
  by (simp add: field_def)

lemma field_skip: "n \<le> off \<Longrightarrow> field off w (le_bytes n v @ r) = field (off - n) w r"
  by (simp add: field_def)

lemmas field_simps_pack = field_here field_skip fits_def

lemma length_packed [simp]:
  "length (pack (end_fields e)) = 22" "length (pack (cd_fields c)) = 46" "length (pack (zfh_fields h)) = 30"
  "length (pack (z64_fields z)) = 56" "length (pack (loc_fields l)) = 20"
  by (simp_all add: length_pack end_fields_def cd_fields_def zfh_fields_def z64_fields_def loc_fields_def)

lemma end_unpack_pack: "fits (end_fields e) \<Longrightarrow> end_unpack (pack (end_fields e) @ r) = e"
  by (simp add: end_fields_def end_unpack_def field_simps_pack)

lemma cd_unpack_pack: "fits (cd_fields c) \<Longrightarrow> cd_unpack (pack (cd_fields c) @ r) = c"
  by (simp add: cd_fields_def cd_unpack_def field_simps_pack)

lemma zfh_unpack_pack: "fits (zfh_fields h) \<Longrightarrow> zfh_unpack (pack (zfh_fields h) @ r) = h"
  by (simp add: zfh_fields_def zfh_unpack_def field_simps_pack)

lemma z64_unpack_pack: "fits (z64_fields e) \<Longrightarrow> z64_unpack (pack (z64_fields e) @ r) = e"
  by (simp add: z64_fields_def z64_unpack_def field_simps_pack)

lemma loc_unpack_pack: "fits (loc_fields l) \<Longrightarrow> loc_unpack (pack (loc_fields l) @ r) = l"
  by (simp add: loc_fields_def loc_unpack_def field_simps_pack)

lemma field_fits: "field off w b < 256 ^ w"
proof -
  have "field off w b < 256 ^ length (take w (drop off b))" unfolding field_def by (rule le_val_bound)
  also have "\<dots> \<le> 256 ^ w" by (rule power_increasing) auto
  finally show ?thesis .
qed

lemma pack_field: "off + w \<le> length b \<Longrightarrow> le_bytes w (field off w b) = take w (drop off b)"
  using le_bytes_le_val [of "take w (drop off b)"] by (simp add: field_def)

end
