(* ===== verification/Byte_Stream.thy ===== *)
theory Byte_Stream
  imports Aff4_Prelude
begin

text \<open>
  The contract of a seekable byte stream, the interface between the objects that store bytes
  (the in-memory \<^verbatim>\<open>StringIO\<close>, the file backed \<^verbatim>\<open>FileBackedObject\<close>) and the code that lays out archives and
  images on them. \<open>content\<close> and \<open>pos\<close> abstract a stream to its bytes and its read pointer; \<open>room\<close> is the
  condition under which so many bytes can be written. The client lemmas are proved once here.
\<close>

locale byte_stream =
  fixes content :: "'s \<Rightarrow> buf"
    and pos :: "'s \<Rightarrow> nat"
    and ok :: "'s \<Rightarrow> bool"
    and room :: "'s \<Rightarrow> nat \<Rightarrow> bool"
    and wr :: "'s \<Rightarrow> buf \<Rightarrow> 's option"
    and rd :: "'s \<Rightarrow> nat \<Rightarrow> ('s \<times> buf) option"
    and sk :: "'s \<Rightarrow> nat \<Rightarrow> 's option"
  assumes wr_spec: "ok s \<Longrightarrow> room s (length b) \<Longrightarrow>
      \<exists>s'. wr s b = Some s' \<and> ok s' \<and> content s' = overwrite (pos s) b (content s) \<and>
           pos s' = pos s + length b"
    and rd_spec: "ok s \<Longrightarrow> n < 2 ^ 31 \<Longrightarrow> pos s \<le> length (content s) \<Longrightarrow>
      \<exists>s'. rd s n = Some (s', take n (drop (pos s) (content s))) \<and> ok s' \<and>
           content s' = content s \<and> pos s' = min (pos s + n) (length (content s))"
    and sk_spec: "ok s \<Longrightarrow> p \<le> length (content s) \<Longrightarrow>
      \<exists>s'. sk s p = Some s' \<and> ok s' \<and> content s' = content s \<and> pos s' = p"
    and room_wr: "ok s \<Longrightarrow> room s (m + n) \<Longrightarrow> length b = m \<Longrightarrow> wr s b = Some s' \<Longrightarrow> room s' n"
    and room_mono: "room s n \<Longrightarrow> m \<le> n \<Longrightarrow> room s m"
begin

text \<open>What was written at the current position is what a seek back and a read return.\<close>

lemma write_seek_read:
  assumes "ok s" "room s (length b)" "length b < 2 ^ 31"
  shows "\<exists>s1 s2 s3. wr s b = Some s1 \<and> sk s1 (pos s) = Some s2 \<and> rd s2 (length b) = Some (s3, b)"
proof -
  obtain s1 where s1: "wr s b = Some s1" "ok s1" "content s1 = overwrite (pos s) b (content s)"
    using wr_spec assms(1,2) by blast
  then obtain s2 where s2: "sk s1 (pos s) = Some s2" "ok s2" "content s2 = content s1" "pos s2 = pos s"
    using sk_spec [of s1 "pos s"] by (auto simp: le_max_iff_disj)
  then obtain s3 where "rd s2 (length b) = Some (s3, take (length b) (drop (pos s2) (content s2)))"
    using rd_spec [of s2 "length b"] assms(3) s1(3) by (auto simp: le_max_iff_disj)
  with s1 s2 show ?thesis by auto
qed

text \<open>Writing a list of blocks one after the other at the end of the stream appends them all.\<close>

fun wr_all :: "'s \<Rightarrow> buf list \<Rightarrow> 's option" where
  "wr_all s [] = Some s"
| "wr_all s (b # bs) = (case wr s b of None \<Rightarrow> None | Some s' \<Rightarrow> wr_all s' bs)"

lemma wr_all_append:
  "ok s \<Longrightarrow> pos s = length (content s) \<Longrightarrow> room s (length (concat bs)) \<Longrightarrow>
    \<exists>s'. wr_all s bs = Some s' \<and> ok s' \<and> content s' = content s @ concat bs \<and>
         pos s' = length (content s')"
proof (induction bs arbitrary: s)
  case Nil
  then show ?case by simp
next
  case (Cons b bs)
  have "room s (length b)" using Cons.prems(3) room_mono by simp
  then obtain s1 where s1: "wr s b = Some s1" "ok s1" "content s1 = content s @ b"
      "pos s1 = length (content s1)"
    using wr_spec [OF Cons.prems(1), of b] Cons.prems(2) by auto
  have "room s1 (length (concat bs))"
    using room_wr [OF Cons.prems(1) _ refl s1(1)] Cons.prems(3) by simp
  with Cons.IH [OF s1(2,4)] s1 show ?case by auto
qed

end

end
