(* ===== verification/StringIO.thy ===== *)
theory StringIO
  imports Aff4_Prelude Byte_Stream
begin

text \<open>
  The in-memory stream of \<^verbatim>\<open>lib/stringio.c\<close> (class \<^verbatim>\<open>StringIO\<close> of \<^verbatim>\<open>include/stringio.h\<close>): the buffer in which
  segments and central directories are assembled. The model keeps the four fields of the class;
  \<open>sio_data\<close> is the allocated object, so a copy that leaves it is visible as \<open>None\<close>.
  The theory shows that the write, read, seek, truncate and skip operations implement the
  byte stream of \<open>Byte_Stream\<close> for as long as the recorded \<open>alloc_size\<close> does not exceed the allocation,
  and that a seek beyond the end breaks exactly that condition.
\<close>

section \<open>State\<close>

record stringio =
  sio_size :: int
  alloc_size :: int
  sio_readptr :: int
  sio_data :: buf
  sio_junk :: "nat \<Rightarrow> byte"

definition StringIO_constructor :: "(nat \<Rightarrow> byte) \<Rightarrow> stringio" where
  "StringIO_constructor junk =
     \<lparr>sio_size = 0, alloc_size = 1024, sio_readptr = 0, sio_data = map junk [0 ..< 1024], sio_junk = junk\<rparr>"

section \<open>Operations\<close>

definition StringIO_write :: "stringio \<Rightarrow> buf \<Rightarrow> (stringio \<times> int) option" where
  "StringIO_write s src =
     (let len = int (length src);
          rl = u64 (sio_readptr s + len);
          s1 = (if u64 (alloc_size s) \<le> rl
                then let a = s32 (alloc_size s + rl)
                     in s\<lparr>alloc_size := a, sio_data := talloc_realloc (sio_junk s) (u64 a) (sio_data s)\<rparr>
                else s);
          s2 = (if u64 (sio_size s1) < rl then s1\<lparr>sio_size := s32 rl\<rparr> else s1)
      in case mem_write (nat (sio_readptr s2)) src (sio_data s2) of
           None \<Rightarrow> None
         | Some d \<Rightarrow> Some (s2\<lparr>sio_data := d, sio_readptr := rl\<rparr>, s32 len))"

text \<open>\<^verbatim>\<open>sprintf\<close> takes the text that \<^verbatim>\<open>talloc_vasprintf\<close> has formatted.\<close>

definition StringIO_sprintf :: "stringio \<Rightarrow> buf \<Rightarrow> (stringio \<times> int) option" where
  "StringIO_sprintf s txt =
     (let len = int (length txt);
          rl = u64 (sio_readptr s + len);
          s1 = (if u64 (sio_size s) < rl
                then let n = s32 rl
                     in s\<lparr>sio_size := n, sio_data := talloc_realloc (sio_junk s) (u64 (n + 1)) (sio_data s)\<rparr>
                else s)
      in case mem_write (nat (sio_readptr s1)) txt (sio_data s1) of
           None \<Rightarrow> None
         | Some d \<Rightarrow> Some (s1\<lparr>sio_data := d, sio_readptr := rl\<rparr>, s32 len))"

definition StringIO_read :: "stringio \<Rightarrow> int \<Rightarrow> (stringio \<times> buf) option" where
  "StringIO_read s len0 =
     (let len = (if u64 (sio_size s) < u64 (sio_readptr s + len0)
                 then s32 (sio_size s - sio_readptr s) else len0)
      in if len < 0 then None
         else case mem_read (nat (sio_readptr s)) (nat len) (sio_data s) of
                None \<Rightarrow> None
              | Some d \<Rightarrow> Some (s\<lparr>sio_readptr := u64 (sio_readptr s + len)\<rparr>, d))"

function StringIO_read_stream ::
    "stringio \<Rightarrow> stringio \<Rightarrow> int \<Rightarrow> (stringio \<times> stringio \<times> int) option" where
  "StringIO_read_stream s t n =
     (if 0 < n then
        (case StringIO_read t (min n (int BUFF_SIZE)) of
           None \<Rightarrow> None
         | Some (t', b) \<Rightarrow>
             (if b = [] then Some (s, t', n)
              else case StringIO_write s b of
                     None \<Rightarrow> None
                   | Some (s', _) \<Rightarrow> StringIO_read_stream s' t' (n - int (length b))))
      else Some (s, t, n))"
  by pat_completeness auto
termination
  by (relation "measure (\<lambda>(s, t, n). nat n)") auto

definition StringIO_write_stream ::
    "stringio \<Rightarrow> stringio \<Rightarrow> int \<Rightarrow> (stringio \<times> stringio \<times> int) option" where
  "StringIO_write_stream s t n =
     (case StringIO_read_stream t s n of None \<Rightarrow> None | Some (t', s', r) \<Rightarrow> Some (s', t', r))"

datatype whence = SEEK_SET | SEEK_CUR | SEEK_END | SEEK_OTHER

definition StringIO_seek :: "stringio \<Rightarrow> int \<Rightarrow> whence \<Rightarrow> stringio \<times> int \<times> aff4_err option" where
  "StringIO_seek s off w =
     (let fin = (\<lambda>p. let s1 = s\<lparr>sio_readptr := p\<rparr>
                 in if u64 (sio_size s1) < p
                    then (s1\<lparr>sio_data := talloc_realloc (sio_junk s1) p (sio_data s1), sio_size := s32 p\<rparr>,
                          p, None)
                    else (s1, p, None))
      in case w of
           SEEK_SET \<Rightarrow> fin (u64 off)
         | SEEK_CUR \<Rightarrow> fin (u64 (sio_readptr s + off))
         | SEEK_END \<Rightarrow> fin (u64 (sio_size s + off))
         | SEEK_OTHER \<Rightarrow> (s, 0, Some EInvalidParameter))"

definition StringIO_eof :: "stringio \<Rightarrow> bool" where
  "StringIO_eof s \<longleftrightarrow> sio_readptr s = u64 (sio_size s)"

definition StringIO_get_buffer :: "stringio \<Rightarrow> buf \<times> int" where
  "StringIO_get_buffer s =
     (drop (nat (sio_readptr s)) (sio_data s), s32 (sio_size s - sio_readptr s))"

definition StringIO_truncate :: "stringio \<Rightarrow> int \<Rightarrow> stringio" where
  "StringIO_truncate s len =
     (let s1 = s\<lparr>sio_size := len\<rparr>
      in if u64 (sio_size s1) < sio_readptr s1 then s1\<lparr>sio_readptr := u64 (sio_size s1)\<rparr> else s1)"

definition StringIO_skip :: "stringio \<Rightarrow> int \<Rightarrow> stringio option" where
  "StringIO_skip s len0 =
     (let len = (if sio_size s < len0 then sio_size s else len0)
      in if len < 0 then None
         else case mem_read (nat len) (nat (sio_size s - len)) (sio_data s) of
                None \<Rightarrow> None
              | Some m \<Rightarrow>
                  (case mem_write 0 m (sio_data s) of
                     None \<Rightarrow> None
                   | Some d \<Rightarrow> Some (s\<lparr>sio_data := d, sio_size := sio_size s - len, sio_readptr := 0\<rparr>)))"

text \<open>\<^verbatim>\<open>find\<close> and \<^verbatim>\<open>ifind\<close> return a pointer into the buffer: here its offset.\<close>

definition StringIO_find :: "stringio \<Rightarrow> buf \<Rightarrow> nat option" where
  "StringIO_find s needle =
     (if sio_size s < int (length needle) then None
      else List.find (\<lambda>i. take (length needle) (drop i (sio_data s)) = needle)
             [0 ..< nat (sio_size s) - length needle + 1])"

definition to_lower :: "byte \<Rightarrow> byte" where
  "to_lower c = (if of_char c \<in> {65 .. 90 :: nat} then char_of (of_char c + 32 :: nat) else c)"

definition StringIO_ifind :: "stringio \<Rightarrow> buf \<Rightarrow> nat option" where
  "StringIO_ifind s needle =
     (if sio_size s < int (length needle) then None
      else List.find (\<lambda>i. map to_lower (take (length needle) (drop i (sio_data s))) = map to_lower needle)
             [0 ..< nat (sio_size s) - length needle + 1])"

section \<open>The well-formed stream and what it stands for\<close>

definition sio_ok :: "stringio \<Rightarrow> bool" where
  "sio_ok s \<longleftrightarrow> 0 \<le> sio_readptr s \<and> sio_readptr s \<le> sio_size s \<and> sio_size s \<le> alloc_size s \<and>
     alloc_size s \<le> int (length (sio_data s)) \<and> int (length (sio_data s)) < MAX_TALLOC_SIZE"

definition sio_content :: "stringio \<Rightarrow> buf" where
  "sio_content s = take (nat (sio_size s)) (sio_data s)"

definition sio_pos :: "stringio \<Rightarrow> nat" where
  "sio_pos s = nat (sio_readptr s)"

text \<open>Growing doubles the position at most, so this much room is left for \<open>n\<close> bytes.\<close>

definition sio_room :: "stringio \<Rightarrow> nat \<Rightarrow> bool" where
  "sio_room s n \<longleftrightarrow> 2 * (sio_readptr s + int n) < MAX_TALLOC_SIZE"

definition sio_wr :: "stringio \<Rightarrow> buf \<Rightarrow> stringio option" where
  "sio_wr s b = map_option fst (StringIO_write s b)"

definition sio_rd :: "stringio \<Rightarrow> nat \<Rightarrow> (stringio \<times> buf) option" where
  "sio_rd s n = StringIO_read s (int n)"

definition sio_sk :: "stringio \<Rightarrow> nat \<Rightarrow> stringio option" where
  "sio_sk s p = Some (fst (StringIO_seek s (int p) SEEK_SET))"

lemmas sio_defs = sio_ok_def sio_content_def sio_pos_def sio_room_def MAX_TALLOC_SIZE_def

lemma length_sio_content [simp]: "sio_ok s \<Longrightarrow> length (sio_content s) = nat (sio_size s)"
  by (auto simp: sio_defs min_def)

lemma sio_pos_le: "sio_ok s \<Longrightarrow> sio_pos s \<le> length (sio_content s)"
  by (auto simp: sio_defs min_def)

lemma sio_Con_ok: "sio_ok (StringIO_constructor junk) \<and> sio_content (StringIO_constructor junk) = []"
  by (simp add: StringIO_constructor_def sio_defs)

text \<open>
  The branch of the write that has made room: from here the copy is in bounds and its effect is the
  positional overwrite.
\<close>

lemma mem_write_content:
  assumes "p \<le> z" "z \<le> length d" "p + length b \<le> length d"
  shows "\<exists>d'. mem_write p b d = Some d' \<and> length d' = length d \<and>
          take (max z (p + length b)) d' = overwrite p b (take z d)"
proof -
  have "take (max z (p + length b)) (take p d @ b @ drop (p + length b) d) = overwrite p b (take z d)"
    using assms by (auto simp: overwrite_def min_def max_def take_drop)
  then show ?thesis using assms by (simp add: mem_write_def)
qed

lemma StringIO_write_spec:
  assumes ok: "sio_ok s" and room: "sio_room s (length b)"
  shows "\<exists>s'. StringIO_write s b = Some (s', int (length b)) \<and> sio_ok s' \<and>
     sio_content s' = overwrite (sio_pos s) b (sio_content s) \<and> sio_pos s' = sio_pos s + length b"
proof -
  define rl where "rl = sio_readptr s + int (length b)"
  define al where "al = (if alloc_size s \<le> rl then alloc_size s + rl else alloc_size s)"
  define d0 where "d0 = (if alloc_size s \<le> rl then talloc_realloc (sio_junk s) al (sio_data s) else sio_data s)"
  have b: "0 \<le> sio_readptr s" "sio_readptr s \<le> sio_size s" "sio_size s \<le> alloc_size s"
    "alloc_size s \<le> int (length (sio_data s))" "int (length (sio_data s)) < 268435456"
    "2 * rl < 268435456" "sio_readptr s \<le> rl"
    using ok room by (auto simp: sio_defs rl_def)
  have al: "alloc_size s \<le> al" "al < 268435456" "rl \<le> al"
    using b by (auto simp: al_def)
  have len0: "al \<le> int (length d0)" "int (length d0) < 268435456"
    using b al talloc_realloc_length [of al "sio_junk s" "sio_data s"]
    by (auto simp: d0_def al_def MAX_TALLOC_SIZE_def)
  have c0: "take (nat (sio_size s)) d0 = sio_content s"
    using b al talloc_realloc_take [of al "nat (sio_size s)" "sio_data s" "sio_junk s"]
    by (auto simp: d0_def sio_content_def MAX_TALLOC_SIZE_def)
  have pre: "nat (sio_readptr s) \<le> nat (sio_size s)" "nat (sio_size s) \<le> length d0"
      "nat (sio_readptr s) + length b \<le> length d0"
    using b al len0 unfolding rl_def by linarith+
  obtain d where d: "mem_write (nat (sio_readptr s)) b d0 = Some d" "length d = length d0"
      "take (max (nat (sio_size s)) (nat (sio_readptr s) + length b)) d
        = overwrite (nat (sio_readptr s)) b (take (nat (sio_size s)) d0)"
    using mem_write_content [OF pre] by blast
  define sz where "sz = (if sio_size s < rl then rl else sio_size s)"
  have cv: "u64 rl = rl" "u64 (alloc_size s) = alloc_size s" "s32 rl = rl" "s32 (alloc_size s + rl) = al \<or> rl < alloc_size s"
      "u64 al = al" "u64 (sio_size s) = sio_size s" "s32 (int (length b)) = int (length b)"
    using b al by (auto simp: al_def rl_def intro!: c_int)
  have w: "StringIO_write s b = Some (s\<lparr>alloc_size := al, sio_size := sz, sio_data := d, sio_readptr := rl\<rparr>,
      int (length b))"
  proof (cases "alloc_size s \<le> rl")
    case True
    then have "d0 = talloc_realloc (sio_junk s) al (sio_data s)" "s32 (alloc_size s + rl) = al"
      using cv by (auto simp: d0_def)
    with True d(1) show ?thesis
      by (simp add: StringIO_write_def Let_def rl_def [symmetric] cv sz_def)
  next
    case False
    then have "d0 = sio_data s" "al = alloc_size s" by (auto simp: d0_def al_def)
    with False d(1) show ?thesis
      by (simp add: StringIO_write_def Let_def rl_def [symmetric] cv sz_def)
  qed
  have szn: "nat sz = max (nat (sio_size s)) (nat (sio_readptr s) + length b)"
    using b by (auto simp: sz_def rl_def max_def)
  have "sio_ok (s\<lparr>alloc_size := al, sio_size := sz, sio_data := d, sio_readptr := rl\<rparr>)"
    using b al len0 d(2) by (simp add: sio_ok_def MAX_TALLOC_SIZE_def sz_def)
  moreover have "nat rl = sio_pos s + length b"
    using b by (simp add: sio_pos_def rl_def nat_add_distrib)
  ultimately show ?thesis
    using w d(3) c0 szn by (simp add: sio_content_def sio_pos_def)
qed

lemma StringIO_read_spec:
  assumes ok: "sio_ok s" and n: "n < 2 ^ 31"
  shows "\<exists>s'. StringIO_read s (int n) = Some (s', take n (drop (sio_pos s) (sio_content s))) \<and>
     sio_ok s' \<and> sio_content s' = sio_content s \<and>
     sio_pos s' = min (sio_pos s + n) (length (sio_content s))"
proof -
  define k where "k = min (int n) (sio_size s - sio_readptr s)"
  have b: "0 \<le> sio_readptr s" "sio_readptr s \<le> sio_size s" "sio_size s \<le> int (length (sio_data s))"
    "int (length (sio_data s)) < 268435456" "int n < 2147483648"
    using ok n by (auto simp: sio_defs)
  have k: "0 \<le> k" "sio_readptr s + k \<le> sio_size s" using b by (auto simp: k_def)
  have m: "mem_read (nat (sio_readptr s)) (nat k) (sio_data s)
      = Some (take n (drop (sio_pos s) (sio_content s)))"
  proof -
    have "nat k = min n (nat (sio_size s) - nat (sio_readptr s))" unfolding k_def using b by linarith
    moreover have "nat (sio_readptr s) + nat k \<le> length (sio_data s)" using b k by linarith
    ultimately show ?thesis
      by (simp add: mem_read_def sio_pos_def sio_content_def drop_take)
  qed
  have "u64 (sio_size s) = sio_size s" "u64 (sio_readptr s + int n) = sio_readptr s + int n"
      "s32 (sio_size s - sio_readptr s) = sio_size s - sio_readptr s" "u64 (sio_readptr s + k) = sio_readptr s + k"
    using b k by (auto intro!: c_int)
  note cv = this
  have len: "(if u64 (sio_size s) < u64 (sio_readptr s + int n)
               then s32 (sio_size s - sio_readptr s) else int n) = k"
    unfolding cv k_def using b by auto
  have "StringIO_read s (int n)
      = Some (s\<lparr>sio_readptr := sio_readptr s + k\<rparr>, take n (drop (sio_pos s) (sio_content s)))"
    using k m by (simp add: StringIO_read_def len cv(4))
  moreover have "sio_ok (s\<lparr>sio_readptr := sio_readptr s + k\<rparr>)"
    using ok k by (simp add: sio_ok_def)
  moreover have "nat (sio_readptr s + k) = min (sio_pos s + n) (length (sio_content s))"
    unfolding k_def sio_pos_def length_sio_content [OF ok] using b by linarith
  ultimately show ?thesis by (simp add: sio_content_def sio_pos_def)
qed

lemma StringIO_seek_spec:
  assumes "sio_ok s" "p \<le> length (sio_content s)"
  shows "StringIO_seek s (int p) SEEK_SET = (s\<lparr>sio_readptr := int p\<rparr>, int p, None) \<and>
     sio_ok (s\<lparr>sio_readptr := int p\<rparr>)"
proof -
  have b: "0 \<le> sio_size s" "int p \<le> sio_size s" "sio_size s < 268435456"
    using assms by (auto simp: sio_defs min_def split: if_splits)
  then have "u64 (int p) = int p" "u64 (sio_size s) = sio_size s" by (auto intro!: c_int)
  with b assms(1) show ?thesis by (simp add: StringIO_seek_def sio_ok_def Let_def)
qed

interpretation sio: byte_stream sio_content sio_pos sio_ok sio_room sio_wr sio_rd sio_sk
proof
  fix s and b :: buf
  assume "sio_ok s" "sio_room s (length b)"
  then show "\<exists>s'. sio_wr s b = Some s' \<and> sio_ok s' \<and>
      sio_content s' = overwrite (sio_pos s) b (sio_content s) \<and> sio_pos s' = sio_pos s + length b"
    using StringIO_write_spec by (fastforce simp: sio_wr_def)
next
  fix s and n :: nat
  assume "sio_ok s" "n < 2 ^ 31"
  then show "\<exists>s'. sio_rd s n = Some (s', take n (drop (sio_pos s) (sio_content s))) \<and> sio_ok s' \<and>
      sio_content s' = sio_content s \<and> sio_pos s' = min (sio_pos s + n) (length (sio_content s))"
    using StringIO_read_spec by (simp add: sio_rd_def)
next
  fix s p
  assume "sio_ok s" "p \<le> length (sio_content s)"
  then show "\<exists>s'. sio_sk s p = Some s' \<and> sio_ok s' \<and> sio_content s' = sio_content s \<and> sio_pos s' = p"
    using StringIO_seek_spec [of s p] by (simp add: sio_sk_def sio_content_def sio_pos_def)
next
  fix s m n and b :: buf and s'
  assume "sio_ok s" "sio_room s (m + n)" "length b = m" "sio_wr s b = Some s'"
  moreover from this have "sio_room s (length b)" by (simp add: sio_room_def)
  ultimately have "sio_pos s' = sio_pos s + m" "sio_ok s'" "sio_room s (m + n)" "sio_ok s"
    using StringIO_write_spec [of s b] by (auto simp: sio_wr_def)
  then show "sio_room s' n" by (auto simp: sio_defs)
next
  fix s n m
  assume "sio_room s n" "m \<le> n"
  then show "sio_room s m" by (simp add: sio_room_def)
qed

section \<open>Truncate, skip, end of file\<close>

lemma StringIO_truncate_spec:
  assumes "sio_ok s" "n \<le> length (sio_content s)"
  shows "sio_ok (StringIO_truncate s (int n))"
    and "sio_content (StringIO_truncate s (int n)) = take n (sio_content s)"
    and "sio_pos (StringIO_truncate s (int n)) = min (sio_pos s) n"
proof -
  have b: "int n \<le> sio_size s" "0 \<le> sio_readptr s" "sio_size s < 268435456" "sio_readptr s \<le> sio_size s"
      "sio_size s \<le> alloc_size s"
    using assms by (auto simp: sio_ok_def MAX_TALLOC_SIZE_def)
  then have n: "u64 (int n) = int n" by (auto intro!: c_int)
  show "sio_ok (StringIO_truncate s (int n))"
    using assms(1) b by (auto simp: StringIO_truncate_def sio_ok_def Let_def n)
  show "sio_content (StringIO_truncate s (int n)) = take n (sio_content s)"
    using b by (auto simp: StringIO_truncate_def sio_content_def Let_def n min_def)
  show "sio_pos (StringIO_truncate s (int n)) = min (sio_pos s) n"
    using b by (auto simp: StringIO_truncate_def sio_pos_def Let_def n)
qed

lemma StringIO_skip_spec:
  assumes ok: "sio_ok s"
  shows "\<exists>s'. StringIO_skip s (int n) = Some s' \<and> sio_ok s' \<and>
     sio_content s' = drop n (sio_content s) \<and> sio_pos s' = 0"
proof -
  define k where "k = min n (nat (sio_size s))"
  have b: "0 \<le> sio_size s" "sio_size s \<le> alloc_size s" "alloc_size s \<le> int (length (sio_data s))"
    using ok by (auto simp: sio_ok_def)
  define m where "m = take (nat (sio_size s) - k) (drop k (sio_data s))"
  have k: "(if sio_size s < int n then sio_size s else int n) = int k" "k \<le> nat (sio_size s)"
    unfolding k_def using b by auto
  have lm: "length m = nat (sio_size s) - k" using b k by (simp add: m_def)
  have m: "m = drop n (sio_content s)"
    unfolding m_def sio_content_def k_def by (cases "n \<le> nat (sio_size s)") (simp_all add: drop_take)
  have r: "mem_read (nat (int k)) (nat (sio_size s - int k)) (sio_data s) = Some m"
    using b k by (simp add: mem_read_def m_def nat_diff_distrib)
  define d where "d = m @ drop (length m) (sio_data s)"
  have "length m \<le> length (sio_data s)" using b lm by simp
  then have d: "mem_write 0 m (sio_data s) = Some d" "length d = length (sio_data s)" "take (length m) d = m"
    by (simp_all add: mem_write_def d_def)
  have "StringIO_skip s (int n)
      = Some (s\<lparr>sio_data := d, sio_size := sio_size s - int k, sio_readptr := 0\<rparr>)"
    using r d(1) by (simp add: StringIO_skip_def k(1) del: nat_int)
  moreover have "nat (sio_size s - int k) = length m" using lm k b by simp
  ultimately show ?thesis
    using ok b k d m lm by (auto simp: sio_ok_def sio_content_def sio_pos_def)
qed

lemma StringIO_eof_spec: "sio_ok s \<Longrightarrow> StringIO_eof s \<longleftrightarrow> sio_pos s = length (sio_content s)"
proof -
  assume ok: "sio_ok s"
  then have "u64 (sio_size s) = sio_size s" by (auto simp: sio_ok_def MAX_TALLOC_SIZE_def intro!: c_int)
  with ok show ?thesis unfolding StringIO_eof_def length_sio_content [OF ok] sio_pos_def
    by (auto simp: sio_ok_def)
qed

text \<open>
  Preallocation as \<^verbatim>\<open>ZipFile_close\<close> does it: a seek far past the end of an empty stream followed by a
  truncation to zero leaves a well-formed empty stream.
\<close>

lemma StringIO_prealloc:
  assumes "sio_ok s" "alloc_size s \<le> int n" "int n < MAX_TALLOC_SIZE"
  shows "sio_ok (StringIO_truncate (fst (StringIO_seek s (int n) SEEK_SET)) 0)"
    and "sio_content (StringIO_truncate (fst (StringIO_seek s (int n) SEEK_SET)) 0) = []"
proof -
  have b: "0 \<le> sio_size s" "sio_size s \<le> int n" "int n < 268435456" "0 \<le> alloc_size s"
      "alloc_size s \<le> int (length (sio_data s))" "int (length (sio_data s)) < 268435456"
    using assms by (auto simp: sio_ok_def MAX_TALLOC_SIZE_def)
  have cv: "u64 (int n) = int n" "u64 (sio_size s) = sio_size s" "u64 0 = 0"
    using b by (auto intro!: c_int)
  have l: "length (talloc_realloc (sio_junk s) (int n) (sio_data s)) = n"
    using talloc_realloc_length [of "int n"] assms(3) by simp
  show "sio_ok (StringIO_truncate (fst (StringIO_seek s (int n) SEEK_SET)) 0)"
    using b l assms(2) by (auto simp: StringIO_seek_def StringIO_truncate_def Let_def cv sio_ok_def MAX_TALLOC_SIZE_def)
  show "sio_content (StringIO_truncate (fst (StringIO_seek s (int n) SEEK_SET)) 0) = []"
    by (auto simp: StringIO_seek_def StringIO_truncate_def Let_def sio_content_def)
qed

section \<open>Copying between streams\<close>

declare StringIO_read_stream.simps [simp del]

text \<open>
  \<^verbatim>\<open>read_stream\<close> copies, in pieces of at most \<^verbatim>\<open>BUFF_SIZE\<close> bytes, as many of the requested bytes as the source
  has, and returns how many it could not supply.
\<close>

lemma StringIO_read_stream_spec:
  assumes "sio_ok s" "sio_ok t" "sio_room s n" "n < 2 ^ 31"
    and "sio_pos s = length (sio_content s)"
  shows "\<exists>s' t'. StringIO_read_stream s t (int n)
            = Some (s', t', int (n - (length (sio_content t) - sio_pos t))) \<and>
          sio_ok s' \<and> sio_ok t' \<and> sio_content t' = sio_content t \<and>
          sio_content s' = sio_content s @ take n (drop (sio_pos t) (sio_content t))"
  using assms
proof (induction n arbitrary: s t rule: less_induct)
  case (less n)
  show ?case
  proof (cases "n = 0")
    case True
    with less.prems show ?thesis by (simp add: StringIO_read_stream.simps)
  next
    case False
    define k where "k = min n BUFF_SIZE"
    have k: "0 < k" "k \<le> n" "k < 2 ^ 31" "min (int n) (int BUFF_SIZE) = int k"
      using False less.prems(4) by (auto simp: k_def BUFF_SIZE_def)
    obtain t1 where t1: "StringIO_read t (int k) = Some (t1, take k (drop (sio_pos t) (sio_content t)))"
        "sio_ok t1" "sio_content t1 = sio_content t"
        "sio_pos t1 = min (sio_pos t + k) (length (sio_content t))"
      using StringIO_read_spec [OF less.prems(2) k(3)] by blast
    define b where "b = take k (drop (sio_pos t) (sio_content t))"
    have pt: "sio_pos t \<le> length (sio_content t)" using less.prems(2) by (rule sio_pos_le)
    have lb: "length b = min k (length (sio_content t) - sio_pos t)" by (simp add: b_def)
    show ?thesis
    proof (cases "b = []")
      case True
      then have "length (sio_content t) = sio_pos t" using k pt by (auto simp: b_def)
      moreover have "StringIO_read_stream s t (int n) = Some (s, t1, int n)"
        using False k t1(1) True by (subst StringIO_read_stream.simps) (simp add: b_def)
      ultimately show ?thesis using less.prems(1) t1 by auto
    next
      case b: False
      have "sio_room s (length b)" using less.prems(3) lb k by (simp add: sio_room_def)
      then obtain s1 where s1: "StringIO_write s b = Some (s1, int (length b))" "sio_ok s1"
          "sio_content s1 = sio_content s @ b" "sio_pos s1 = sio_pos s + length b"
        using StringIO_write_spec [OF less.prems(1), of b] less.prems(5) by auto
      have room: "sio_room s1 (n - length b)"
        using sio.room_wr [OF less.prems(1), of "length b" "n - length b" b s1] less.prems(3) s1(1) lb k
        by (simp add: sio_wr_def)
      have "StringIO_read_stream s t (int n) = StringIO_read_stream s1 t1 (int (n - length b))"
        using False k t1(1) b s1(1) lb
        by (subst StringIO_read_stream.simps) (simp add: b_def [symmetric])
      moreover have sm: "n - length b < n" "n - length b < 2 ^ 31" "sio_pos s1 = length (sio_content s1)"
        using b False less.prems(4,5) s1(3,4) by auto
      obtain s' t' where r: "StringIO_read_stream s1 t1 (int (n - length b))
            = Some (s', t', int (n - length b - (length (sio_content t1) - sio_pos t1)))"
          "sio_ok s'" "sio_ok t'" "sio_content t' = sio_content t1"
          "sio_content s' = sio_content s1 @ take (n - length b) (drop (sio_pos t1) (sio_content t1))"
        using less.IH [OF sm(1) s1(2) t1(2) room sm(2,3)] by blast
      moreover have "take n (drop (sio_pos t) (sio_content t))
          = b @ take (n - length b) (drop (sio_pos t1) (sio_content t))"
      proof (cases "k \<le> length (sio_content t) - sio_pos t")
        case True
        then have "length b = k" "sio_pos t1 = sio_pos t + k" using lb t1(4) pt by auto
        moreover have "n = k + (n - k)" using k by simp
        ultimately show ?thesis by (metis (no_types) b_def add.commute drop_drop take_add)
      next
        case False
        then have "b = drop (sio_pos t) (sio_content t)" "sio_pos t1 = length (sio_content t)"
          using t1(4) by (auto simp: b_def)
        with False k show ?thesis by simp
      qed
      moreover have "n - length b - (length (sio_content t) - sio_pos t1)
          = n - (length (sio_content t) - sio_pos t)"
        using lb t1(4) pt k by auto
      ultimately show ?thesis using s1(3) t1(3) by auto
    qed
  qed
qed

section \<open>Properties\<close>

text \<open>C18. Write, seek back and read: on a well-formed StringIO with room for the data, a write succeeds,
  the stream can be repositioned to where the write started, and a read of that many bytes returns
  exactly the bytes written, whatever the stream held before.\<close>

theorem stringio_write_seek_read:
  assumes "sio_ok s" "sio_room s (length b)" "length b < 2 ^ 31"
  shows "\<exists>s1 s2 s3. StringIO_write s b = Some (s1, int (length b)) \<and>
     StringIO_seek s1 (sio_readptr s) SEEK_SET = (s2, sio_readptr s, None) \<and>
     StringIO_read s2 (int (length b)) = Some (s3, b)"
proof -
  obtain s1 s2 s3 where *: "sio_wr s b = Some s1" "sio_sk s1 (sio_pos s) = Some s2"
      "sio_rd s2 (length b) = Some (s3, b)"
    using sio.write_seek_read [OF assms] by blast
  obtain s' where w: "StringIO_write s b = Some (s', int (length b))" "sio_ok s'"
      "sio_content s' = overwrite (sio_pos s) b (sio_content s)"
    using StringIO_write_spec [OF assms(1,2)] by blast
  have p: "int (sio_pos s) = sio_readptr s" using assms(1) by (simp add: sio_ok_def sio_pos_def)
  have "StringIO_seek s' (int (sio_pos s)) SEEK_SET = (s'\<lparr>sio_readptr := int (sio_pos s)\<rparr>, int (sio_pos s), None)"
    using StringIO_seek_spec [OF w(2), of "sio_pos s"] w(3) by (simp add: le_max_iff_disj)
  with * w(1) p show ?thesis by (auto simp: sio_wr_def sio_sk_def sio_rd_def)
qed

theorem stringio_write_seek_read_witness:
  "\<exists>s1 s2 s3. StringIO_write (StringIO_constructor (\<lambda>_. NUL)) ''hello'' = Some (s1, 5) \<and>
     StringIO_seek s1 0 SEEK_SET = (s2, 0, None) \<and> StringIO_read s2 5 = Some (s3, ''hello'')"
  using stringio_write_seek_read [of "StringIO_constructor (\<lambda>_. NUL)" "''hello''"] sio_Con_ok [of "\<lambda>_. NUL"]
  by (simp add: sio_room_def MAX_TALLOC_SIZE_def StringIO_constructor_def)

text \<open>A write refines the positional overwrite of the abstract byte sequence: it keeps the stream well formed,
  replaces exactly the bytes from the read pointer on, grows the content when needed, advances the
  read pointer by the number of bytes, and returns that number; in particular a reallocation never
  loses a byte.\<close>

lemma stringio_write_refines:
  assumes "sio_ok s" "sio_room s (length b)"
  shows "\<exists>s'. StringIO_write s b = Some (s', int (length b)) \<and> sio_ok s' \<and>
     sio_content s' = overwrite (sio_pos s) b (sio_content s) \<and> sio_pos s' = sio_pos s + length b"
  using assms by (rule StringIO_write_spec)

text \<open>C37. Copying from one StringIO into another by \<^verbatim>\<open>read_stream\<close> terminates, appends exactly the next \<open>n\<close> bytes of the
  source (or all it has left), leaves the source's content alone, and returns the number of bytes
  that were missing.\<close>

theorem stringio_read_stream_copies:
  assumes "sio_ok s" "sio_ok t" "sio_room s n" "n < 2 ^ 31"
    and "sio_pos s = length (sio_content s)"
  shows "\<exists>s' t'. StringIO_read_stream s t (int n)
            = Some (s', t', int (n - (length (sio_content t) - sio_pos t))) \<and>
          sio_ok s' \<and> sio_ok t' \<and> sio_content t' = sio_content t \<and>
          sio_content s' = sio_content s @ take n (drop (sio_pos t) (sio_content t))"
  using assms by (rule StringIO_read_stream_spec)

theorem stringio_read_stream_copies_witness:
  "\<exists>s' t'. StringIO_read_stream (StringIO_constructor (\<lambda>_. NUL)) (StringIO_constructor (\<lambda>_. NUL)) 3
     = Some (s', t', 3) \<and> sio_content s' = []"
  using stringio_read_stream_copies [of "StringIO_constructor (\<lambda>_. NUL)" "StringIO_constructor (\<lambda>_. NUL)" 3]
    sio_Con_ok [of "\<lambda>_. NUL"]
  by (auto simp: sio_room_def MAX_TALLOC_SIZE_def sio_pos_def StringIO_constructor_def)

text \<open>The seek defect: \<^verbatim>\<open>seek\<close> reallocates the buffer to the new position without recording it in \<^verbatim>\<open>alloc_size\<close>, so on a
  fresh StringIO a seek to any position below 1024 followed by a write that ends below 1024 copies
  outside the (shrunk) allocation.\<close>

lemma stringio_seek_then_write_overflows:
  assumes "0 < p" "b \<noteq> []" "p + length b < 1024"
  shows "StringIO_write (fst (StringIO_seek (StringIO_constructor junk) (int p) SEEK_SET)) b = None"
proof -
  define s where "s = fst (StringIO_seek (StringIO_constructor junk) (int p) SEEK_SET)"
  have cv: "u64 (int p) = int p" "s32 (int p) = int p" "u64 0 = 0" "u64 1024 = 1024"
      "u64 (int p + int (length b)) = int p + int (length b)"
    using assms by (auto intro!: c_int)
  have l: "length (talloc_realloc junk (int p) (map junk [0 ..< 1024])) = p"
    using talloc_realloc_length [of "int p"] assms by (simp add: MAX_TALLOC_SIZE_def)
  have s: "sio_readptr s = int p" "alloc_size s = 1024" "length (sio_data s) = p"
    using assms l by (auto simp: s_def StringIO_seek_def StringIO_constructor_def Let_def cv)
  then have "mem_write p b (sio_data s) = None" using assms(2) by (simp add: mem_write_def)
  then have "StringIO_write s b = None"
    using s assms(3) by (simp add: StringIO_write_def Let_def cv)
  then show ?thesis by (simp add: s_def)
qed

text \<open>Searching: \<^verbatim>\<open>find\<close> returns the offset of the first occurrence of the needle in the content of a well-formed
  stream, and NULL exactly when the needle does not occur in it.\<close>

lemma stringio_find_first:
  assumes "sio_ok s"
  shows "(StringIO_find s needle = Some i \<longleftrightarrow>
           occurs_at needle i (sio_content s) \<and> (\<forall>j<i. \<not> occurs_at needle j (sio_content s)))
       \<and> (StringIO_find s needle = None \<longleftrightarrow> (\<forall>j. \<not> occurs_at needle j (sio_content s)))"
proof (cases "sio_size s < int (length needle)")
  case True
  then have "length (sio_content s) < length needle" using assms by (auto simp: sio_ok_def)
  with True show ?thesis by (auto simp: StringIO_find_def occurs_at_def)
next
  case False
  define n where "n = length needle"
  define m where "m = nat (sio_size s)"
  have nm: "n \<le> m" "m \<le> length (sio_data s)"
    using False assms by (auto simp: n_def m_def sio_ok_def)
  have eq: "(take n (drop j (sio_data s)) = needle) = occurs_at needle j (sio_content s)" if "j < m - n + 1" for j
  proof -
    have "j + n \<le> m" using that nm by linarith
    with nm show ?thesis
      by (simp add: occurs_at_def sio_content_def n_def [symmetric] m_def [symmetric] drop_take min_def)
  qed
  have out: "\<not> occurs_at needle j (sio_content s)" if "\<not> j < m - n + 1" for j
    using that nm assms by (auto simp: occurs_at_def n_def m_def)
  have fd: "StringIO_find s needle = List.find (\<lambda>j. take n (drop j (sio_data s)) = needle) [0 ..< m - n + 1]"
    using False by (simp add: StringIO_find_def n_def m_def)
  have "\<forall>j<i. j < m - n + 1" if "i < m - n + 1" for i using that by auto
  with eq out show ?thesis unfolding fd find_upt_Some find_upt_None by (metis (no_types, lifting))
qed

end
