(* ===== verification/Misc.thy ===== *)
theory Misc
  imports Aff4_Prelude
begin

unbundle bit_operations_syntax

text \<open>
  The string helpers of \<^verbatim>\<open>lib/misc.c\<close>, with the string value \<^verbatim>\<open>XSDString\<close> of \<^verbatim>\<open>lib/rdf.c\<close> that \<^verbatim>\<open>unescape_filename\<close>
  fills: number parsing and printing, the percent escaping of segment names, and the comparisons on
  names. The C library routines the code calls (\<^verbatim>\<open>strtoll\<close> with base 0, the hexadecimal and decimal
  conversions of \<^verbatim>\<open>printf\<close>) are modelled first.
\<close>

section \<open>The C library's number conversions\<close>

text \<open>\<^verbatim>\<open>%X\<close>, \<^verbatim>\<open>%x\<close> and \<^verbatim>\<open>%u\<close>: the digits of a number, most significant first.\<close>

fun digits :: "nat \<Rightarrow> (nat \<Rightarrow> char) \<Rightarrow> nat \<Rightarrow> buf" where
  "digits base d n = (if n < base \<or> base < 2 then [d n] else digits base d (n div base) @ [d (n mod base)])"

declare digits.simps [simp del]

definition HEX :: "nat \<Rightarrow> char" where "HEX n = ''0123456789ABCDEF'' ! n"

definition hexl :: "nat \<Rightarrow> char" where "hexl n = ''0123456789abcdef'' ! n"

definition zero_pad :: "nat \<Rightarrow> buf \<Rightarrow> buf" where
  "zero_pad w s = replicate (w - length s) (CHR ''0'') @ s"

definition digit_val :: "char \<Rightarrow> nat" where
  "digit_val c =
     (let n = of_char c in
      if 48 \<le> n \<and> n \<le> 57 then n - 48
      else if 97 \<le> n \<and> n \<le> 122 then n - 87
      else if 65 \<le> n \<and> n \<le> 90 then n - 55 else 99)"

fun scan_digits :: "nat \<Rightarrow> nat \<Rightarrow> buf \<Rightarrow> nat \<times> buf" where
  "scan_digits base acc [] = (acc, [])"
| "scan_digits base acc (c # cs) =
     (if digit_val c < base then scan_digits base (acc * base + digit_val c) cs else (acc, c # cs))"

definition is_space :: "char \<Rightarrow> bool" where
  "is_space c \<longleftrightarrow> of_char c = (32::nat) \<or> (9 \<le> (of_char c :: nat) \<and> (of_char c :: nat) \<le> 13)"

definition saturate64 :: "int \<Rightarrow> int" where
  "saturate64 x = max (- (2 ^ 63)) (min (2 ^ 63 - 1) x)"

text \<open>The base that \<^verbatim>\<open>strtoll\<close> detects when it is given base 0, and the text after the prefix.\<close>

definition base_prefix :: "buf \<Rightarrow> nat \<times> buf" where
  "base_prefix s =
     (if s = [] \<or> hd s \<noteq> CHR ''0'' then (10, s)
      else case s of
             z # x # h # cs \<Rightarrow>
               if (x = CHR ''x'' \<or> x = CHR ''X'') \<and> digit_val h < 16 then (16, h # cs) else (8, s)
           | _ \<Rightarrow> (8, s))"

definition strtoll :: "buf \<Rightarrow> int \<times> buf" where
  "strtoll s =
     (let s1 = dropWhile is_space s;
          neg = (s1 \<noteq> [] \<and> hd s1 = CHR ''-'');
          s2 = (if s1 \<noteq> [] \<and> (hd s1 = CHR ''-'' \<or> hd s1 = CHR ''+'') then tl s1 else s1);
          (base, s3) = base_prefix s2
      in if s3 \<noteq> [] \<and> digit_val (hd s3) < base
         then (case scan_digits base 0 s3 of
                 (n, rest) \<Rightarrow> (saturate64 (if neg then - int n else int n), rest))
         else (0, s))"

section \<open>Numbers\<close>

definition parse_int :: "buf option \<Rightarrow> int" where
  "parse_int s =
     (case s of
        None \<Rightarrow> 0
      | Some s \<Rightarrow>
          (case strtoll s of (r, endptr) \<Rightarrow>
             (let result = u64 r; c = (case endptr of [] \<Rightarrow> NUL | c # _ \<Rightarrow> c) in
              if c = CHR ''s'' then u64 (result * 512)
              else if c = CHR ''K'' \<or> c = CHR ''k'' then u64 (result * 1024)
              else if c = CHR ''m'' \<or> c = CHR ''M'' then u64 (result * (1024 * 1024))
              else if c = CHR ''g'' \<or> c = CHR ''G'' then u64 (result * (1024 * 1024 * 1024))
              else result)))"

definition from_int :: "int \<Rightarrow> buf" where
  "from_int arg = take (BUFF_SIZE - 1) (''0x'' @ zero_pad 2 (digits 16 HEX (nat (u64 arg))))"

section \<open>Escaping\<close>

definition illegal_filename_chars :: buf where
  "illegal_filename_chars = ''|?[]'' @ [CHR 0x5C] @ ''+<>:%;&'' @ [CHR 0x27, CHR 0x22] @ '',*#''"

definition init_luts :: "bool list" where
  "init_luts = fold (\<lambda>c l. l[of_char c := True]) illegal_filename_chars (replicate 128 False)"

text \<open>
  \<^verbatim>\<open>sprintf(buffer+j, "%%%02X", x)\<close> with a (signed) \<^verbatim>\<open>char\<close> argument: the argument is promoted to \<^verbatim>\<open>int\<close> and printed as an
  \<^verbatim>\<open>unsigned int\<close>.
\<close>

definition sprintf_escape :: "byte \<Rightarrow> buf" where
  "sprintf_escape x = CHR ''%'' # zero_pad 2 (digits 16 HEX (nat (u32 (schar x))))"

fun escape_loop :: "buf \<Rightarrow> nat \<Rightarrow> buf \<Rightarrow> (nat \<times> buf) option" where
  "escape_loop [] j buffer = Some (j, buffer)"
| "escape_loop (x # xs) j buffer =
     (if schar x < 32 \<or> init_luts ! nat (schar x)
      then (case mem_write j (sprintf_escape x @ [NUL]) buffer of
              None \<Rightarrow> None
            | Some b \<Rightarrow> if BUFF_SIZE - 10 < j + 3 then Some (j + 3, b) else escape_loop xs (j + 3) b)
      else (case mem_write j [x] buffer of
              None \<Rightarrow> None
            | Some b \<Rightarrow> escape_loop xs (j + 1) b))"

text \<open>
  \<open>filename\<close> is the memory object of the name, \<open>fresh\<close> what the allocator leaves in the new buffer. The result is
  the memory of the escaped name.
\<close>

definition escape_filename :: "(nat \<Rightarrow> byte) \<Rightarrow> buf \<Rightarrow> int \<Rightarrow> buf option" where
  "escape_filename fresh filename len =
     (let n = (if len = 0 then strlen filename else nat (u32 len));
          buffer = map fresh [0 ..< nat (u32 (int n * 3 + 1))]
      in case mem_read 0 n filename of
           None \<Rightarrow> None
         | Some name \<Rightarrow>
             (case escape_loop name 0 buffer of
                None \<Rightarrow> None
              | Some (j, b) \<Rightarrow> mem_write j [NUL] b))"

text \<open>The string value \<^verbatim>\<open>XSDString\<close>: a counted buffer with one byte more for the terminator.\<close>

record XSDString =
  str_value :: "buf option"
  str_length :: int

definition new_XSDString :: XSDString where
  "new_XSDString = \<lparr>str_value = None, str_length = 0\<rparr>"

definition XSDString_set :: "XSDString \<Rightarrow> buf \<Rightarrow> int \<Rightarrow> (XSDString \<times> aff4_err option) option" where
  "XSDString_set self string len =
     (if len < 0 then Some (self, Some ERuntimeError)
      else case mem_read 0 (nat len + 1) string of
             None \<Rightarrow> None
           | Some d \<Rightarrow>
               Some (self\<lparr>str_length := len, str_value := Some (d[nat len := NUL])\<rparr>, None))"

definition escape_filename_data :: "(nat \<Rightarrow> byte) \<Rightarrow> XSDString \<Rightarrow> buf option" where
  "escape_filename_data fresh name =
     (case str_value name of
        None \<Rightarrow> None | Some v \<Rightarrow> escape_filename fresh v (u32 (str_length name - 1)))"

text \<open>
  The loop of \<^verbatim>\<open>unescape_filename\<close> over the memory of the name: \<open>i\<close> runs over the characters, \<open>j\<close> over the stack
  buffer; the three bytes after a percent sign are copied before they are looked at.
\<close>

function unescape_loop :: "buf \<Rightarrow> nat \<Rightarrow> nat \<Rightarrow> nat \<Rightarrow> buf \<Rightarrow> (nat \<times> buf) option" where
  "unescape_loop filename limit i j buffer =
     (if limit \<le> i then Some (j, buffer)
      else if length filename \<le> i then None
      else if filename ! i = CHR ''%''
      then (case mem_read i 3 filename of
              None \<Rightarrow> None
            | Some p \<Rightarrow>
                (let tmp = ''0x'' @ tl p in
                 case mem_write j [char_of (nat (parse_int (Some (takeWhile (\<lambda>c. c \<noteq> NUL) tmp)) mod 256))] buffer of
                   None \<Rightarrow> None
                 | Some b \<Rightarrow> unescape_loop filename limit (i + 3) (j + 1) b))
      else (case mem_write j [filename ! i] buffer of
              None \<Rightarrow> None
            | Some b \<Rightarrow> unescape_loop filename limit (i + 1) (j + 1) b))"
  by pat_completeness auto
termination by (relation "measure (\<lambda>(f, l, i, j, b). l - i)") auto

declare unescape_loop.simps [simp del]

definition unescape_filename :: "(nat \<Rightarrow> byte) \<Rightarrow> buf \<Rightarrow> XSDString option" where
  "unescape_filename stack filename =
     (case unescape_loop filename (min (strlen filename) (BUFF_SIZE - 10)) 0 0 (map stack [0 ..< BUFF_SIZE]) of
        None \<Rightarrow> None
      | Some (j, b) \<Rightarrow> map_option fst (XSDString_set new_XSDString b (int j)))"

section \<open>Names\<close>

definition startswith :: "buf \<Rightarrow> buf \<Rightarrow> bool" where
  "startswith haystack needle =
     (if length haystack < length needle then False else take (length needle) haystack = needle)"

definition endswith :: "buf \<Rightarrow> buf \<Rightarrow> bool" where
  "endswith haystack needle =
     (if length haystack < length needle then False
      else take (length needle) (drop (length haystack - length needle) haystack) = needle)"

definition normalise_url :: "buf \<Rightarrow> buf" where
  "normalise_url url =
     (if List.find (\<lambda>i. occurs_at ''://'' i url) [0 ..< Suc (length url)] \<noteq> None then url
      else take (BUFF_SIZE - 1) (''file://'' @ url))"

definition tdb_data_from_string :: "buf option \<Rightarrow> buf" where
  "tdb_data_from_string s = (case s of None \<Rightarrow> [] | Some s \<Rightarrow> s @ [NUL])"

text \<open>Byte order conversion on a little-endian host: \<^verbatim>\<open>htonl\<close> reverses four bytes.\<close>

definition htonl :: "int \<Rightarrow> int" where
  "htonl n = int (le_val (rev (le_bytes 4 (nat (u32 n)))))"

definition htonll :: "int \<Rightarrow> int" where
  "htonll n =
     (let retval = u64 (push_bit 32 (htonl (n AND 0xFFFFFFFF)))
      in retval OR htonl (drop_bit 32 (n AND 0xFFFFFFFF00000000)))"

section \<open>Printing and scanning digits\<close>

lemma HEX_digit: "n < 16 \<Longrightarrow> digit_val (HEX n) = n"
proof -
  have "\<forall>n \<in> {..<16}. digit_val (HEX n) = n" by code_simp
  then show "n < 16 \<Longrightarrow> digit_val (HEX n) = n" by blast
qed

lemma digits_Cons: "\<exists>c cs. digits base d n = d c # cs \<and> (2 \<le> base \<longrightarrow> c < base \<and> (c = 0 \<longrightarrow> n = 0))"
proof (induction base d n rule: digits.induct)
  case (1 base d n)
  show ?case
  proof (cases "n < base \<or> base < 2")
    case False
    then obtain c cs where "digits base d (n div base) = d c # cs" "c < base" "c = 0 \<longrightarrow> n div base = 0"
      using 1 by auto
    with False show ?thesis by (subst digits.simps) (auto simp: div_eq_0_iff)
  qed (subst digits.simps, auto)
qed

lemma length_digits: "n < base ^ m \<Longrightarrow> 0 < m \<Longrightarrow> length (digits base d n) \<le> m"
proof (induction base d n arbitrary: m rule: digits.induct)
  case (1 base d n)
  show ?case
  proof (cases "n < base \<or> base < 2")
    case True
    then show ?thesis using "1.prems"(2) by (subst digits.simps) auto
  next
    case False
    obtain k where m: "m = Suc k" using "1.prems"(2) by (cases m) auto
    have k: "0 < k" using "1.prems"(1) False m by (cases k) auto
    have "n div base < base ^ k" using "1.prems"(1) m False by (simp add: div_less_iff_less_mult mult.commute)
    then have "length (digits base d (n div base)) \<le> k" using 1 False k by blast
    then show ?thesis using False m by (subst digits.simps) auto
  qed
qed

lemma scan_digits_digits:
  assumes d: "\<And>k. k < base \<Longrightarrow> digit_val (d k) = k" and b: "2 \<le> base"
    and r: "r = [] \<or> \<not> digit_val (hd r) < base"
  shows "\<exists>l. scan_digits base acc (digits base d n @ r) = (acc * base ^ l + n, r)"
  using d b r
proof (induction base d n arbitrary: acc r rule: digits.induct)
  case (1 base d n)
  have stop: "scan_digits base a r = (a, r)" for a using "1.prems"(3) by (cases r) auto
  show ?case
  proof (cases "n < base")
    case True
    then have "scan_digits base acc (digits base d n @ r) = (acc * base ^ 1 + n, r)"
      using "1.prems"(1) by (subst digits.simps) (simp add: stop)
    then show ?thesis by blast
  next
    case False
    have gen: "\<exists>l. scan_digits base acc (digits base d (n div base) @ r') = scan_digits base (acc * base ^ l + n div base) r'"
      for r'
    proof -
      have "scan_digits base acc (xs @ r') = (case scan_digits base acc xs of (a, []) \<Rightarrow> scan_digits base a r'
          | (a, c # cs) \<Rightarrow> (a, (c # cs) @ r'))" for xs acc
        by (induction xs arbitrary: acc) auto
      moreover have "\<exists>l. scan_digits base acc (digits base d (n div base) @ []) = (acc * base ^ l + n div base, [])"
        using 1(1) [of "[]" acc] "1.prems" False by auto
      ultimately show ?thesis by auto
    qed
    obtain l where l: "scan_digits base acc (digits base d (n div base) @ d (n mod base) # r)
        = scan_digits base (acc * base ^ l + n div base) (d (n mod base) # r)"
      using gen [of "d (n mod base) # r"] by blast
    have "digits base d n = digits base d (n div base) @ [d (n mod base)]"
      using False "1.prems"(2) by (subst digits.simps) simp
    then have "scan_digits base acc (digits base d n @ r) = ((acc * base ^ l + n div base) * base + n mod base, r)"
      using l "1.prems"(1) [of "n mod base"] "1.prems"(2) by (simp add: stop)
    also have "(acc * base ^ l + n div base) * base + n mod base = acc * base ^ Suc l + n"
      by (simp add: algebra_simps)
    finally show ?thesis by blast
  qed
qed

text \<open>What \<^verbatim>\<open>strtoll\<close> makes of a hexadecimal literal.\<close>

lemma strtoll_hex:
  assumes "h < 16"
  shows "strtoll (''0x'' @ HEX h # cs) = (let (n, rest) = scan_digits 16 0 (HEX h # cs) in (saturate64 (int n), rest))"
  using HEX_digit [OF assms] assms by (simp add: strtoll_def base_prefix_def is_space_def split: prod.splits)

lemma digit_val_zero: "digit_val (CHR ''0'') = 0" by code_simp

lemma zero_pad_2:
  assumes "n < 256"
  shows "zero_pad 2 (digits 16 HEX n) = [HEX (n div 16), HEX (n mod 16)]"
proof (cases "n < 16")
  case True
  have "HEX 0 = CHR ''0''" by code_simp
  with True show ?thesis by (subst digits.simps) (simp add: zero_pad_def)
next
  case False
  have "digits 16 HEX (n div 16) = [HEX (n div 16)]" using assms by (subst digits.simps) (simp add: less_mult_imp_div_less)
  with False show ?thesis by (subst digits.simps) (simp add: zero_pad_def)
qed

lemma parse_int_hex2:
  assumes "n < 256"
  shows "parse_int (Some (''0x'' @ [HEX (n div 16), HEX (n mod 16)])) = int n"
proof -
  have a: "n div 16 < 16" "n mod 16 < 16" using assms by (auto simp: less_mult_imp_div_less)
  have "strtoll (''0x'' @ HEX (n div 16) # [HEX (n mod 16)]) = (int n, [])"
    unfolding strtoll_hex [OF a(1)] using HEX_digit [OF a(1)] HEX_digit [OF a(2)] a assms
    by (simp add: saturate64_def del: One_nat_def)
  then show ?thesis using assms by (simp add: parse_int_def u64_id)
qed

section \<open>Escaping and unescaping\<close>

definition needs_escape :: "byte \<Rightarrow> bool" where
  "needs_escape c \<longleftrightarrow> schar c < 32 \<or> init_luts ! nat (schar c)"

definition escaped :: "byte \<Rightarrow> buf" where
  "escaped c = (if needs_escape c then [CHR ''%'', HEX (of_char c div 16), HEX (of_char c mod 16)] else [c])"

definition ascii :: "byte \<Rightarrow> bool" where
  "ascii c \<longleftrightarrow> of_char c < (128 :: nat)"

lemma schar_ascii: "ascii c \<Longrightarrow> schar c = int (of_char c)"
  using of_nat_of_char [of c, where 'a = int] by (auto simp: ascii_def schar_def Let_def)

lemma schar_high: "\<not> ascii c \<Longrightarrow> schar c < 0 \<and> - 128 \<le> schar c"
proof -
  assume "\<not> ascii c"
  then have "128 \<le> (of_char c :: nat)" by (simp add: ascii_def)
  then have "128 \<le> (of_char c :: int)" using of_nat_of_char [of c, where 'a = int] by linarith
  moreover have "(of_char c :: int) < 256"
    using of_nat_less_iff [of "of_char c" 256, where 'a = int] by (simp add: of_nat_of_char)
  ultimately show ?thesis unfolding schar_def Let_def by simp
qed

lemma needs_escape_simps: "needs_escape (CHR ''%'')" "needs_escape NUL"
  by code_simp+

lemma sprintf_escape_ascii:
  assumes "ascii c" "needs_escape c"
  shows "sprintf_escape c = escaped c"
proof -
  have n: "of_char c < (128::nat)" using assms(1) by (simp add: ascii_def)
  then have "nat (u32 (schar c)) = of_char c" by (simp add: schar_ascii [OF assms(1)] u32_id)
  with n assms(2) show ?thesis by (simp add: sprintf_escape_def escaped_def zero_pad_2)
qed

lemma length_escaped: "length (escaped c) = (if needs_escape c then 3 else 1)"
  by (simp add: escaped_def)

lemma length_escaped_le: "length (concat (map escaped xs)) \<le> 3 * length xs"
  by (induction xs) (auto simp: length_escaped)

lemma mem_write_take:
  assumes "mem_write j src b = Some b'"
  shows "take (j + length src) b' = take j b @ src" "length b' = length b"
  using assms by (auto simp: mem_write_def split: if_splits)

lemma mem_write_ok: "j + length src \<le> length b \<Longrightarrow> \<exists>b'. mem_write j src b = Some b'"
  by (simp add: mem_write_def)

lemma escape_loop_spec:
  assumes "\<forall>c \<in> set xs. ascii c" "j + 3 * length xs + 1 \<le> length b" "j + 3 * length xs \<le> BUFF_SIZE - 10"
  shows "\<exists>b'. escape_loop xs j b = Some (j + length (concat (map escaped xs)), b') \<and> length b' = length b \<and>
     take (j + length (concat (map escaped xs))) b' = take j b @ concat (map escaped xs)"
  using assms
proof (induction xs arbitrary: j b)
  case (Cons x xs)
  define src where "src = (if needs_escape x then sprintf_escape x @ [NUL] else [x])"
  have src: "src = escaped x @ (if needs_escape x then [NUL] else [])"
    using Cons.prems(1) sprintf_escape_ascii [of x] by (auto simp: src_def escaped_def)
  have "j + length src \<le> length b" using Cons.prems(2) by (simp add: src length_escaped)
  then obtain b1 where b1: "mem_write j src b = Some b1" using mem_write_ok by blast
  have len1: "length b1 = length b" using mem_write_take(2) [OF b1] .
  have t1: "take (j + length (escaped x)) b1 = take j b @ escaped x"
    using arg_cong [OF mem_write_take(1) [OF b1], of "take (j + length (escaped x))"] Cons.prems(2)
    by (auto simp: src min_def)
  have "escape_loop (x # xs) j b = escape_loop xs (j + length (escaped x)) b1"
    using b1 Cons.prems(3) by (auto simp: src_def length_escaped needs_escape_def [symmetric])
  moreover obtain b2 where "escape_loop xs (j + length (escaped x)) b1
        = Some (j + length (escaped x) + length (concat (map escaped xs)), b2)" "length b2 = length b1"
      "take (j + length (escaped x) + length (concat (map escaped xs))) b2
        = take (j + length (escaped x)) b1 @ concat (map escaped xs)"
    using Cons.IH [of "j + length (escaped x)" b1] Cons.prems len1
    by (cases "needs_escape x") (auto simp: length_escaped)
  ultimately show ?case using t1 len1 by (simp add: add.assoc)
qed simp

lemma HEX_not_NUL: "n < 16 \<Longrightarrow> HEX n \<noteq> NUL"
  using HEX_digit [of n] digit_val_def [of NUL] by auto

lemma escaped_cstr: "NUL \<notin> set (escaped c)"
proof (cases "needs_escape c")
  case True
  have "of_char c div 16 < (16 :: nat)" "of_char c mod 16 < (16 :: nat)"
    by (auto simp: less_mult_imp_div_less)
  then show ?thesis using True HEX_not_NUL [of "of_char c div 16"] HEX_not_NUL [of "of_char c mod 16"]
    by (auto simp: escaped_def)
next
  case False
  then show ?thesis using needs_escape_simps(2) by (auto simp: escaped_def)
qed

lemma strlen_terminated: "NUL \<notin> set s \<Longrightarrow> strlen (s @ NUL # r) = length s"
  unfolding strlen_def by (subst takeWhile_append2) auto

lemma unescape_loop_spec:
  assumes "f = pre @ concat (map escaped xs) @ NUL # r" "i = length pre"
    "limit = length pre + length (concat (map escaped xs))" "j + length xs \<le> length b"
  shows "\<exists>b'. unescape_loop f limit i j b = Some (j + length xs, b') \<and> length b' = length b \<and>
     take (j + length xs) b' = take j b @ xs"
  using assms
proof (induction xs arbitrary: pre i j b)
  case Nil
  then show ?case by (subst unescape_loop.simps) simp
next
  case (Cons x xs)
  obtain b1 where b1: "mem_write j [x] b = Some b1" using mem_write_ok [of j "[x]" b] Cons.prems(4) by auto
  have t1: "take (j + 1) b1 = take j b @ [x]" "length b1 = length b" using mem_write_take [OF b1] by auto
  have go: "limit > i" "i < length f" using Cons.prems by (auto simp: length_escaped)
  have "unescape_loop f limit i j b = unescape_loop f limit (i + length (escaped x)) (j + 1) b1"
  proof (cases "needs_escape x")
    case True
    let ?n = "of_char x :: nat"
    have n: "?n < 256" by simp
    have nn: "HEX (?n div 16) \<noteq> NUL" "HEX (?n mod 16) \<noteq> NUL"
      using HEX_not_NUL by (auto simp: less_mult_imp_div_less)
    have rd: "mem_read i 3 f = Some [CHR ''%'', HEX (?n div 16), HEX (?n mod 16)]" and hd: "f ! i = CHR ''%''"
      using Cons.prems(1,2) True by (auto simp: mem_read_def escaped_def)
    have "parse_int (Some (takeWhile (\<lambda>c. c \<noteq> NUL) (''0x'' @ [HEX (?n div 16), HEX (?n mod 16)]))) = int ?n"
      using nn parse_int_hex2 [OF n] by simp
    with rd hd go b1 True show ?thesis
      by (subst unescape_loop.simps) (simp add: length_escaped)
  next
    case False
    then have "f ! i = x" "x \<noteq> CHR ''%''" using Cons.prems(1,2) needs_escape_simps by (auto simp: escaped_def)
    with False go b1 show ?thesis by (subst unescape_loop.simps) (simp add: length_escaped)
  qed
  moreover have "\<exists>b'. unescape_loop f limit (i + length (escaped x)) (j + 1) b1 = Some (j + 1 + length xs, b') \<and>
      length b' = length b1 \<and> take (j + 1 + length xs) b' = take (j + 1) b1 @ xs"
    using Cons.prems t1 by (intro Cons.IH [of "pre @ escaped x"]) auto
  ultimately show ?case using t1 by auto
qed

lemma escape_filename_spec:
  assumes "\<forall>c \<in> set name. ascii c" "name \<noteq> []" "3 * length name \<le> BUFF_SIZE - 10"
  shows "\<exists>r. escape_filename fresh (name @ rest) (int (length name)) = Some (concat (map escaped name) @ NUL # r) \<and>
     length (concat (map escaped name)) + length r = 3 * length name"
proof -
  define e where "e = concat (map escaped name)"
  define n where "n = length name"
  have n: "0 < n" "3 * n \<le> 40950" using assms(2,3) by (auto simp: n_def BUFF_SIZE_def)
  have le: "length e \<le> 3 * n" unfolding e_def n_def by (rule length_escaped_le)
  have u: "nat (u32 (int n)) = n" "nat (u32 (int n * 3 + 1)) = 3 * n + 1"
    using n by (simp_all add: u32_id nat_add_distrib nat_mult_distrib)
  obtain b where b: "escape_loop name 0 (map fresh [0 ..< 3 * n + 1]) = Some (length e, b)"
      "length b = 3 * n + 1" "take (length e) b = e"
    using escape_loop_spec [OF assms(1), of 0 "map fresh [0 ..< 3 * n + 1]"] n
    by (auto simp: e_def n_def BUFF_SIZE_def)
  define r where "r = drop (length e + 1) b"
  have "mem_write (length e) [NUL] b = Some (e @ NUL # r)"
    using b(2,3) le by (simp add: mem_write_def r_def)
  then have "escape_filename fresh (name @ rest) (int n) = Some (e @ NUL # r)"
    using u b(1) n by (simp add: escape_filename_def mem_read_def n_def Let_def)
  then show ?thesis using b(2) le by (auto simp: e_def [symmetric] n_def [symmetric] r_def)
qed

lemma unescape_escaped:
  assumes "length (concat (map escaped xs)) \<le> BUFF_SIZE - 10"
  shows "unescape_filename stack (concat (map escaped xs) @ NUL # r)
      = Some \<lparr>str_value = Some (xs @ [NUL]), str_length = int (length xs)\<rparr>"
proof -
  let ?e = "concat (map escaped xs)" and ?b = "map stack [0 ..< BUFF_SIZE]"
  have "length xs \<le> length ?e" by (induction xs) (auto simp: length_escaped)
  then have lx: "length xs + 1 \<le> BUFF_SIZE" using assms by (simp add: BUFF_SIZE_def)
  have "NUL \<notin> set ?e" using escaped_cstr by auto
  then have sl: "min (strlen (?e @ NUL # r)) (BUFF_SIZE - 10) = length ?e" using assms strlen_terminated [of ?e r] by simp
  obtain b' where b': "unescape_loop (?e @ NUL # r) (length ?e) 0 0 ?b = Some (length xs, b')" "length b' = length ?b"
      "take (length xs) b' = xs"
    using unescape_loop_spec [of "?e @ NUL # r" "[]" xs r 0 "length ?e" 0 ?b] lx by auto
  have m: "mem_read 0 (length xs + 1) b' = Some (take (length xs + 1) b')" using b'(2) lx by (simp add: mem_read_def)
  have "(take (length xs + 1) b')[length xs := NUL] = xs @ [NUL]"
    using b'(2,3) lx by (simp add: take_Suc_conv_app_nth list_update_append)
  then show ?thesis
    unfolding unescape_filename_def sl b'(1) by (simp add: XSDString_set_def m [simplified] new_XSDString_def)
qed

section \<open>Properties\<close>

text \<open>C13. Round trip of segment names: for every non-empty name of ASCII bytes (NUL and control characters included)
  of which three times the length is at most \<^verbatim>\<open>BUFF_SIZE - 10\<close> = 40950, \<^verbatim>\<open>escape_filename\<close> succeeds, its result is a C string and
  \<^verbatim>\<open>unescape_filename\<close> of that string is the counted string of the original bytes.\<close>

theorem escape_unescape_roundtrip:
  assumes "\<forall>c \<in> set name. ascii c" "name \<noteq> []" "3 * length name \<le> BUFF_SIZE - 10"
  shows "\<exists>e r x. escape_filename fresh (name @ rest) (int (length name)) = Some (e @ NUL # r) \<and> cstr e \<and>
     unescape_filename stack (e @ NUL # r) = Some x \<and>
     str_length x = int (length name) \<and> str_value x = Some (name @ [NUL])"
proof -
  let ?e = "concat (map escaped name)"
  obtain r where r: "escape_filename fresh (name @ rest) (int (length name)) = Some (?e @ NUL # r)"
    using escape_filename_spec [OF assms] by blast
  have "length ?e \<le> BUFF_SIZE - 10" using length_escaped_le [of name] assms(3) by linarith
  from unescape_escaped [OF this] have "unescape_filename stack (?e @ NUL # r) = Some \<lparr>str_value = Some (name @ [NUL]), str_length = int (length name)\<rparr>" .
  moreover have "cstr ?e" using escaped_cstr by (auto simp: cstr_def)
  ultimately show ?thesis using r by (intro exI [of _ ?e] exI [of _ r]) simp
qed

theorem escape_unescape_roundtrip_witness:
  "\<exists>e r x. escape_filename (\<lambda>_. NUL) (''a:b/c'' @ [NUL]) 5 = Some (e @ NUL # r) \<and> cstr e \<and>
     unescape_filename (\<lambda>_. NUL) (e @ NUL # r) = Some x \<and> str_value x = Some (''a:b/c'' @ [NUL])"
  using escape_unescape_roundtrip [of "''a:b/c''" "\<lambda>_. NUL" "[NUL]" "\<lambda>_. NUL"]
  by (auto simp: ascii_def BUFF_SIZE_def)

text \<open>A byte above 127 makes \<^verbatim>\<open>escape_filename\<close> write outside its buffer: the buffer has three bytes for each
  character, but the sign-extended byte prints as a percent sign and eight digits. Every name made of
  such bytes overflows the heap buffer.\<close>

lemma escape_filename_high_bytes_overflow:
  assumes "name \<noteq> []" "\<forall>c \<in> set name. \<not> ascii c" "3 * length name \<le> BUFF_SIZE - 10"
  shows "escape_filename fresh (name @ rest) (int (length name)) = None"
proof -
  have sp: "9 \<le> length (sprintf_escape c)" if "\<not> ascii c" for c
  proof -
    have "schar c < 0" "- 128 \<le> schar c" using schar_high [OF that] by auto
    then have "u32 (schar c) = schar c + 2 ^ 32" 
      unfolding u32_def by (subst mod_add_self2 [symmetric], subst mod_pos_pos_trivial) auto
    then have k: "2 ^ 31 \<le> nat (u32 (schar c))" using \<open>- 128 \<le> schar c\<close> by simp
    have "k < 16 ^ length (digits 16 HEX k)" for k
    proof (induction "16::nat" HEX k rule: digits.induct)
      case (1 k)
      show ?case
      proof (cases "k < 16")
        case False
        then have "k div 16 < 16 ^ length (digits 16 HEX (k div 16))" using 1 by simp
        then show ?thesis using False by (subst digits.simps) (simp add: less_mult_imp_div_less div_less_iff_less_mult mult.commute)
      qed (subst digits.simps, simp)
    qed
    from order_le_less_trans [OF k this] have "(2::nat) ^ 31 < 2 ^ (4 * length (digits 16 HEX (nat (u32 (schar c)))))"
      by (simp add: power_mult)
    then have "31 < 4 * length (digits 16 HEX (nat (u32 (schar c))))"
      by (simp only: power_strict_increasing_iff)
    then show ?thesis by (simp add: sprintf_escape_def zero_pad_def)
  qed
  have "escape_loop xs j b = None" if "xs \<noteq> []" "\<forall>c \<in> set xs. \<not> ascii c" "length b = j + 3 * length xs + 1"
      "j + 3 * length xs \<le> BUFF_SIZE - 10" for xs j b
    using that
  proof (induction xs arbitrary: j b)
    case (Cons x xs)
    have x: "schar x < 32" "9 \<le> length (sprintf_escape x)"
      using Cons.prems(2) schar_high [of x] sp [of x] by auto
    show ?case
    proof (cases "mem_write j (sprintf_escape x @ [NUL]) b")
      case None
      with x show ?thesis by simp
    next
      case (Some b')
      then have "j + 10 \<le> length b" "length b' = length b"
        using x(2) mem_write_take(2) [OF Some] by (auto simp: mem_write_def split: if_splits)
      moreover from this(1) have "xs \<noteq> []" using Cons.prems(3) by auto
      ultimately show ?thesis using Cons x Some by auto
    qed
  qed simp
  from this [OF assms(1,2), of _ 0] show ?thesis
    using assms(1,3) by (simp add: escape_filename_def Let_def mem_read_def u32_id BUFF_SIZE_def nat_add_distrib nat_mult_distrib)
qed

text \<open>Numbers survive printing and parsing exactly up to \<^verbatim>\<open>LLONG_MAX\<close>: \<^verbatim>\<open>parse_int\<close> of \<^verbatim>\<open>from_int\<close> is the number when it is
  below two to the 63, and is clamped to two to the 63 minus one for every larger 64-bit number.\<close>

lemma from_int_parse_int:
  assumes "0 \<le> n" "n < 2 ^ 64"
  shows "parse_int (Some (from_int n)) = min n (2 ^ 63 - 1)"
proof -
  define k where "k = nat n"
  define ds where "ds = digits 16 HEX k"
  have k: "nat (u64 n) = k" "k < 16 ^ 16" "int k = n" using assms by (auto simp: u64_id k_def nat_less_iff)
  have "length ds \<le> 16" unfolding ds_def by (rule length_digits [OF k(2)]) simp
  then have f: "from_int n = ''0x'' @ zero_pad 2 ds"
    by (simp add: from_int_def k(1) ds_def [symmetric] BUFF_SIZE_def zero_pad_def)
  have h0: "HEX 0 = CHR ''0''" by code_simp
  obtain h cs where z: "zero_pad 2 ds = HEX h # cs" "h < 16"
  proof (cases "length ds < 2")
    case True
    then show ?thesis using that [of 0] h0 by (cases "2 - length ds") (auto simp: zero_pad_def)
  next
    case False
    then show ?thesis using that digits_Cons [of 16 HEX k] by (auto simp: zero_pad_def ds_def)
  qed
  have pad: "scan_digits 16 0 (replicate m (CHR ''0'') @ s) = scan_digits 16 0 s" for m s
    by (induction m) (simp_all add: digit_val_zero)
  have "scan_digits 16 0 (zero_pad 2 ds) = (k, [])"
    using scan_digits_digits [OF HEX_digit, where base = 16 and r = "[]" and acc = 0 and n = k]
    by (simp add: zero_pad_def pad ds_def)
  then have "strtoll (''0x'' @ HEX h # cs) = (saturate64 (int k), [])"
    using strtoll_hex [OF z(2)] z(1) by simp
  then have "strtoll (from_int n) = (saturate64 n, [])"
    by (simp add: f z(1) k(3))
  moreover have "saturate64 n = min n (2 ^ 63 - 1)" using assms(1) by (simp add: saturate64_def)
  moreover have "u64 (min n (2 ^ 63 - 1)) = min n (2 ^ 63 - 1)" using assms(1) by (auto intro!: u64_id)
  ultimately show ?thesis by (simp add: parse_int_def)
qed

end
