(* ===== verification/Url.thy ===== *)
theory Url
  imports Misc
begin

text \<open>
  URL parsing and the URN value of \<^verbatim>\<open>lib/rdf.c\<close> (classes \<^verbatim>\<open>URLParse\<close> and \<^verbatim>\<open>RDFURN\<close> of \<^verbatim>\<open>include/aff4_rdf.h\<close>): the parser as the state
  machine it is, the collapsing of dot segments, and the operations on URNs. Every object of the
  library is named by such a URN, so the theory proves that the string form is a normal form:
  parsing and printing it again gives it back, whatever the URN was built from.
\<close>

section \<open>URL parsing\<close>

record url_parse =
  scheme :: buf
  netloc :: buf
  query :: buf
  fragment :: buf

datatype url_state = STATE_METHOD | STATE_COLLON | STATE_NETLOCK | STATE_QUERY | STATE_FRAGMENT

fun state_rank :: "url_state \<Rightarrow> nat" where
  "state_rank STATE_METHOD = 4"
| "state_rank STATE_COLLON = 3"
| "state_rank STATE_NETLOCK = 2"
| "state_rank STATE_QUERY = 1"
| "state_rank STATE_FRAGMENT = 0"

text \<open>
  The loop of \<^verbatim>\<open>URLParse_parse\<close>. \<open>s\<close> is the url from the current index on (its end is the terminating NUL, after
  which the loop stops) and \<open>b\<close> the characters in the stack buffer; a branch that steps the index back
  looks at the same character again in the next state. Filling the buffer beyond its \<^verbatim>\<open>BUFF_SIZE\<close> bytes is
  undefined (\<open>None\<close>).
\<close>

function url_loop :: "url_state \<Rightarrow> buf \<Rightarrow> buf \<Rightarrow> url_parse \<Rightarrow> url_parse option" where
  "url_loop STATE_METHOD s b u =
     (case s of
        [] \<Rightarrow> if length b < BUFF_SIZE then Some (u\<lparr>query := b\<rparr>) else None
      | c # cs \<Rightarrow>
          if c = CHR ''#'' \<or> c = CHR ''/'' then url_loop STATE_QUERY s b u
          else if BUFF_SIZE \<le> length b then None
          else if c = CHR '':'' then url_loop STATE_COLLON cs [] (u\<lparr>scheme := b\<rparr>)
          else url_loop STATE_METHOD cs (b @ [c]) u)"
| "url_loop STATE_COLLON s b u =
     (case s of
        [] \<Rightarrow> Some u
      | c # cs \<Rightarrow>
          if c = CHR ''/'' \<and> cs \<noteq> [] \<and> hd cs = CHR ''/'' then url_loop STATE_NETLOCK (tl cs) b u
          else url_loop STATE_QUERY cs b u)"
| "url_loop STATE_NETLOCK s b u =
     (case s of
        [] \<Rightarrow> if length b < BUFF_SIZE then Some (u\<lparr>netloc := b\<rparr>) else None
      | c # cs \<Rightarrow>
          if BUFF_SIZE \<le> length b then None
          else if c = CHR ''/'' \<or> c = CHR ''#'' then url_loop STATE_QUERY s [] (u\<lparr>netloc := b\<rparr>)
          else url_loop STATE_NETLOCK cs (b @ [c]) u)"
| "url_loop STATE_QUERY s b u =
     (if BUFF_SIZE \<le> length b then None
      else case s of
             [] \<Rightarrow> Some (u\<lparr>query := b\<rparr>)
           | c # cs \<Rightarrow>
               if c = CHR ''#'' then url_loop STATE_FRAGMENT cs [] (u\<lparr>query := b\<rparr>)
               else url_loop STATE_QUERY cs (b @ [c]) u)"
| "url_loop STATE_FRAGMENT s b u =
     (if BUFF_SIZE \<le> length b then None
      else case s of
             [] \<Rightarrow> Some (u\<lparr>fragment := b\<rparr>)
           | c # cs \<Rightarrow> url_loop STATE_FRAGMENT cs (b @ [c]) u)"
  by pat_completeness auto
termination
  by (relation "measures [\<lambda>(st, s, b, u). length s, \<lambda>(st, s, b, u). state_rank st]") auto

declare url_loop.simps [simp del]

definition URLParse_parse :: "buf option \<Rightarrow> url_parse option" where
  "URLParse_parse url =
     (let u = \<lparr>scheme = [], netloc = [], query = [], fragment = []\<rparr>
      in case url of None \<Rightarrow> Some u | Some s \<Rightarrow> url_loop STATE_METHOD s [] u)"

section \<open>Collapsing paths\<close>

text \<open>
  The element list of \<^verbatim>\<open>collapse_path\<close>: \<open>cur\<close> is the text since the last slash, \<open>path\<close> the elements kept so far.
\<close>

definition path_push :: "buf \<Rightarrow> buf list \<Rightarrow> buf list" where
  "path_push cur path =
     (if cur = ''..'' then (if path = [] then [] else butlast path)
      else if cur = ''.'' then path
      else if cur = [] then path
      else path @ [cur])"

fun path_loop :: "buf \<Rightarrow> buf \<Rightarrow> buf list \<Rightarrow> buf list" where
  "path_loop [] cur path = path_push cur path"
| "path_loop (c # cs) cur path =
     (if c = CHR ''/'' then path_loop cs [] (path_push cur path) else path_loop cs (cur @ [c]) path)"

definition path_join :: "buf list \<Rightarrow> buf" where
  "path_join path = concat (map (\<lambda>e. CHR ''/'' # e) path)"

definition collapse_path :: "buf \<Rightarrow> buf" where
  "collapse_path q = path_join (path_loop q [] [])"

definition URLParse_string :: "url_parse \<Rightarrow> buf" where
  "URLParse_string u =
     (let sch = (if scheme u = [] then ''file'' else scheme u);
          q = collapse_path (query u)
      in if fragment u \<noteq> [] then sch @ ''://'' @ netloc u @ q @ ''#'' @ fragment u
         else if query u \<noteq> [] then sch @ ''://'' @ netloc u @ q
         else sch @ ''://'' @ netloc u)"

section \<open>URNs\<close>

text \<open>\<open>parser\<close> is \<open>None\<close> while its fields are still NULL, that is until the first \<^verbatim>\<open>set\<close>.\<close>

record rdf_urn =
  urn_value :: buf
  parser :: "url_parse option"

definition RDFURN_Con :: rdf_urn where
  "RDFURN_Con = \<lparr>urn_value = ''(unset)'', parser = None\<rparr>"

definition RDFURN_set :: "rdf_urn \<Rightarrow> buf option \<Rightarrow> rdf_urn option" where
  "RDFURN_set self string =
     (case URLParse_parse string of
        None \<Rightarrow> None
      | Some u \<Rightarrow> Some (self\<lparr>parser := Some u, urn_value := URLParse_string u\<rparr>))"

definition RDFURN_Con2 :: "buf option \<Rightarrow> rdf_urn option" where
  "RDFURN_Con2 urn = (case urn of None \<Rightarrow> Some RDFURN_Con | Some s \<Rightarrow> RDFURN_set RDFURN_Con (Some s))"

definition RDFURN_copy :: "rdf_urn \<Rightarrow> rdf_urn option" where
  "RDFURN_copy self = RDFURN_set RDFURN_Con (Some (urn_value self))"

definition RDFURN_parse :: "rdf_urn \<Rightarrow> buf \<Rightarrow> rdf_urn option" where
  "RDFURN_parse self serialised = RDFURN_set self (Some serialised)"

text \<open>A relative name is appended to the path (and its fragment to the fragment), an absolute URL replaces the URN.\<close>

definition RDFURN_add :: "rdf_urn \<Rightarrow> buf \<Rightarrow> rdf_urn option" where
  "RDFURN_add self filename =
     (case URLParse_parse (Some filename) of
        None \<Rightarrow> None
      | Some p \<Rightarrow>
          if scheme p \<noteq> [] then Some (self\<lparr>parser := Some p, urn_value := URLParse_string p\<rparr>)
          else (case parser self of
                  None \<Rightarrow> None
                | Some u \<Rightarrow>
                    (let separator = (if query u = [] then [] else ''/'');
                         u' = u\<lparr>query := query u @ separator @ query p, fragment := fragment u @ fragment p\<rparr>
                     in Some (self\<lparr>parser := Some u', urn_value := URLParse_string u'\<rparr>))))"

definition RDFURN_add_query :: "(nat \<Rightarrow> byte) \<Rightarrow> rdf_urn \<Rightarrow> buf \<Rightarrow> int \<Rightarrow> rdf_urn option" where
  "RDFURN_add_query fresh self q len =
     (case escape_filename fresh q len of
        None \<Rightarrow> None
      | Some e \<Rightarrow> RDFURN_add self (takeWhile (\<lambda>c. c \<noteq> NUL) e))"

definition RDFURN_relative_name :: "rdf_urn \<Rightarrow> rdf_urn \<Rightarrow> buf" where
  "RDFURN_relative_name self volume =
     (if startswith (urn_value self) (urn_value volume)
      then drop (length (urn_value volume)) (urn_value self) else urn_value self)"

section \<open>Paths\<close>

definition plain_element :: "buf \<Rightarrow> bool" where
  "plain_element e \<longleftrightarrow> e \<noteq> [] \<and> e \<noteq> ''.'' \<and> e \<noteq> ''..'' \<and> CHR ''/'' \<notin> set e"

lemma path_push_plain:
  "\<forall>e \<in> set path. plain_element e \<Longrightarrow> CHR ''/'' \<notin> set cur \<Longrightarrow> \<forall>e \<in> set (path_push cur path). plain_element e"
  by (auto simp: path_push_def plain_element_def dest: in_set_butlastD)

lemma path_loop_plain:
  "\<forall>e \<in> set path. plain_element e \<Longrightarrow> CHR ''/'' \<notin> set cur \<Longrightarrow> \<forall>e \<in> set (path_loop s cur path). plain_element e"
proof (induction s cur path rule: path_loop.induct)
  case (1 cur path)
  then show ?case using path_push_plain by simp
next
  case (2 c cs cur path)
  then show ?case using path_push_plain [of path cur] by auto
qed

lemma path_loop_element: "CHR ''/'' \<notin> set e \<Longrightarrow> path_loop (e @ s) cur path = path_loop s (cur @ e) path"
  by (induction e arbitrary: cur) auto

text \<open>Splitting the joined elements again gives the elements.\<close>

lemma path_loop_join:
  "\<forall>e \<in> set es. plain_element e \<Longrightarrow> path_loop (path_join es) [] path = path @ es"
proof (induction es rule: rev_induct)
  case Nil
  then show ?case by (simp add: path_join_def path_push_def)
next
  case (snoc e es)
  have step: "path_loop (path_join es @ CHR ''/'' # s) cur path' = path_loop s [] (path_loop (path_join es) cur path')"
    for s cur path'
  proof -
    have "path_loop (xs @ CHR ''/'' # s) cur path' = path_loop s [] (path_loop xs cur path')" for xs
      by (induction xs arbitrary: cur path') auto
    then show ?thesis .
  qed
  have e: "plain_element e" using snoc.prems by simp
  have "path_loop (path_join (es @ [e])) [] path = path_loop (e @ []) [] (path @ es)"
    using snoc step [of e "[]" path] by (simp add: path_join_def)
  also have "\<dots> = path @ es @ [e]"
    using e path_loop_element [of e "[]" "[]" "path @ es"] by (simp add: path_push_def plain_element_def)
  finally show ?case .
qed

lemma collapse_elements:
  "\<exists>es. collapse_path q = path_join es \<and> (\<forall>e \<in> set es. plain_element e) \<and> path_loop q [] [] = es"
  using path_loop_plain [of "[]" "[]" q] by (simp add: collapse_path_def)

lemma collapse_idem: "collapse_path (collapse_path q) = collapse_path q"
  using path_loop_plain [of "[]" "[]" q] path_loop_join [of "path_loop q [] []" "[]"]
  by (simp add: collapse_path_def)

lemma path_join_hd: "path_join es = [] \<or> hd (path_join es) = CHR ''/''"
  by (cases es) (auto simp: path_join_def)

lemma path_loop_set:
  "\<forall>e \<in> set path. CHR ''#'' \<notin> set e \<Longrightarrow> CHR ''#'' \<notin> set cur \<Longrightarrow> CHR ''#'' \<notin> set s \<Longrightarrow>
     \<forall>e \<in> set (path_loop s cur path). CHR ''#'' \<notin> set e"
proof (induction s cur path rule: path_loop.induct)
  case (1 cur path)
  then show ?case by (auto simp: path_push_def dest: in_set_butlastD)
next
  case (2 c cs cur path)
  have "\<forall>e \<in> set (path_push cur path). CHR ''#'' \<notin> set e"
    using 2(3,4) by (auto simp: path_push_def dest: in_set_butlastD)
  then show ?case using 2 by auto
qed

lemma collapse_no_hash: "CHR ''#'' \<notin> set q \<Longrightarrow> CHR ''#'' \<notin> set (collapse_path q)"
proof -
  assume "CHR ''#'' \<notin> set q"
  then have "\<forall>e \<in> set (path_loop q [] []). CHR ''#'' \<notin> set e" by (intro path_loop_set) simp_all
  then have "CHR ''#'' \<notin> set (path_join es)" if "es = path_loop q [] []" for es
    using that by (simp add: path_join_def)
  then show ?thesis by (simp add: collapse_path_def)
qed

text \<open>The collapsed path is never longer than the path with one slash more, so it fits the 20 spare bytes of its buffer.\<close>

lemma length_path_push: "length (path_join (path_push cur path)) \<le> length (path_join path) + (if cur = [] then 0 else Suc (length cur))"
proof -
  have "length (path_join (butlast path)) \<le> length (path_join path)"
    by (cases path rule: rev_cases) (auto simp: path_join_def)
  then show ?thesis by (auto simp: path_push_def path_join_def)
qed

lemma length_path_loop:
  "length (path_join (path_loop s cur path)) \<le> length (path_join path) + Suc (length cur) + length s"
proof (induction s cur path rule: path_loop.induct)
  case (1 cur path)
  then show ?case using length_path_push [of cur path] by (auto split: if_splits)
next
  case (2 c cs cur path)
  show ?case
  proof (cases "c = CHR ''/''")
    case True
    have "length (path_join (path_push cur path)) \<le> length (path_join path) + Suc (length cur)"
      using length_path_push [of cur path] by (cases cur) auto
    then show ?thesis using 2(1) [OF True] True by simp
  next
    case False
    then show ?thesis using 2(2) [OF False] by simp
  qed
qed

lemma length_collapse: "length (collapse_path q) \<le> Suc (length q)"
  using length_path_loop [of q "[]" "[]"] by (simp add: collapse_path_def path_join_def)

section \<open>Parsing what was printed\<close>

text \<open>The fields of a parser in normal use: what the state machine can put there.\<close>

definition url_ok :: "url_parse \<Rightarrow> bool" where
  "url_ok u \<longleftrightarrow> CHR '':'' \<notin> set (scheme u) \<and> CHR ''/'' \<notin> set (scheme u) \<and> CHR ''#'' \<notin> set (scheme u) \<and>
     CHR ''/'' \<notin> set (netloc u) \<and> CHR ''#'' \<notin> set (netloc u) \<and> CHR ''#'' \<notin> set (query u)"

definition buff_ok :: "url_state \<Rightarrow> buf \<Rightarrow> bool" where
  "buff_ok st b \<longleftrightarrow>
     (case st of
        STATE_METHOD \<Rightarrow> CHR '':'' \<notin> set b \<and> CHR ''/'' \<notin> set b \<and> CHR ''#'' \<notin> set b
      | STATE_COLLON \<Rightarrow> b = []
      | STATE_NETLOCK \<Rightarrow> CHR ''/'' \<notin> set b \<and> CHR ''#'' \<notin> set b
      | STATE_QUERY \<Rightarrow> CHR ''#'' \<notin> set b
      | STATE_FRAGMENT \<Rightarrow> True)"

lemma url_loop_ok: "url_loop st s b u = Some u' \<Longrightarrow> url_ok u \<Longrightarrow> buff_ok st b \<Longrightarrow> url_ok u'"
proof (induction st s b u arbitrary: u' rule: url_loop.induct)
  case (1 s b u)
  then show ?case unfolding url_loop.simps(1) [of s b u]
    by (auto simp: url_ok_def buff_ok_def split: list.splits if_splits)
next
  case (2 s b u)
  then show ?case unfolding url_loop.simps(2) [of s b u]
    by (auto simp: buff_ok_def split: list.splits if_splits)
next
  case (3 s b u)
  then show ?case unfolding url_loop.simps(3) [of s b u]
    by (auto simp: url_ok_def buff_ok_def split: list.splits if_splits)
next
  case (4 s b u)
  then show ?case unfolding url_loop.simps(4) [of s b u]
    by (auto simp: url_ok_def buff_ok_def split: list.splits if_splits)
next
  case (5 s b u)
  then show ?case unfolding url_loop.simps(5) [of s b u]
    by (auto simp: url_ok_def buff_ok_def split: list.splits if_splits)
qed

lemma parse_ok: "URLParse_parse url = Some u \<Longrightarrow> url_ok u"
  using url_loop_ok [of STATE_METHOD _ "[]" "\<lparr>scheme = [], netloc = [], query = [], fragment = []\<rparr>" u]
  by (cases url) (auto simp: URLParse_parse_def Let_def url_ok_def buff_ok_def)

text \<open>Each state consumes a run of characters that it does not stop at.\<close>

lemma url_method_run:
  "\<forall>c \<in> set t. c \<noteq> CHR ''#'' \<and> c \<noteq> CHR ''/'' \<and> c \<noteq> CHR '':'' \<Longrightarrow> length b + length t \<le> BUFF_SIZE \<Longrightarrow>
     url_loop STATE_METHOD (t @ s) b u = url_loop STATE_METHOD s (b @ t) u"
proof (induction t arbitrary: b)
  case (Cons c t)
  then show ?case by (subst url_loop.simps(1)) simp
qed simp

lemma url_netloc_run:
  "\<forall>c \<in> set t. c \<noteq> CHR ''#'' \<and> c \<noteq> CHR ''/'' \<Longrightarrow> length b + length t \<le> BUFF_SIZE \<Longrightarrow>
     url_loop STATE_NETLOCK (t @ s) b u = url_loop STATE_NETLOCK s (b @ t) u"
proof (induction t arbitrary: b)
  case (Cons c t)
  then show ?case by (subst url_loop.simps(3)) simp
qed simp

lemma url_query_run:
  "\<forall>c \<in> set t. c \<noteq> CHR ''#'' \<Longrightarrow> length b + length t \<le> BUFF_SIZE \<Longrightarrow>
     url_loop STATE_QUERY (t @ s) b u = url_loop STATE_QUERY s (b @ t) u"
proof (induction t arbitrary: b)
  case (Cons c t)
  then show ?case by (subst url_loop.simps(4)) simp
qed simp

lemma url_fragment_run:
  "length b + length t < BUFF_SIZE \<Longrightarrow> url_loop STATE_FRAGMENT t b u = Some (u\<lparr>fragment := b @ t\<rparr>)"
proof (induction t arbitrary: b)
  case Nil
  then show ?case by (subst url_loop.simps(5)) simp
next
  case (Cons c t)
  then show ?case by (subst url_loop.simps(5)) simp
qed

text \<open>The parser run on a string of the printed form, with a path that is empty or starts with a slash.\<close>

definition url_text :: "buf \<Rightarrow> buf \<Rightarrow> buf \<Rightarrow> buf \<Rightarrow> buf" where
  "url_text sch net q frag = sch @ ''://'' @ net @ q @ (if frag = [] then [] else CHR ''#'' # frag)"

lemma parse_url_text:
  assumes sch: "CHR '':'' \<notin> set sch" "CHR ''/'' \<notin> set sch" "CHR ''#'' \<notin> set sch"
    and net: "CHR ''/'' \<notin> set net" "CHR ''#'' \<notin> set net"
    and q: "CHR ''#'' \<notin> set q" "q = [] \<or> hd q = CHR ''/''"
    and len: "length sch < BUFF_SIZE" "length net < BUFF_SIZE" "length q < BUFF_SIZE" "length frag < BUFF_SIZE"
  shows "URLParse_parse (Some (url_text sch net q frag)) =
     Some \<lparr>scheme = sch, netloc = net, query = q, fragment = frag\<rparr>"
proof -
  let ?u0 = "\<lparr>scheme = [], netloc = [], query = [], fragment = []\<rparr>"
  let ?u1 = "\<lparr>scheme = sch, netloc = [], query = [], fragment = []\<rparr>"
  let ?u2 = "\<lparr>scheme = sch, netloc = net, query = [], fragment = []\<rparr>"
  let ?f = "if frag = [] then [] else CHR ''#'' # frag"
  have "url_loop STATE_METHOD (url_text sch net q frag) [] ?u0 = url_loop STATE_METHOD (''://'' @ net @ q @ ?f) sch ?u0"
  proof -
    have "\<forall>c \<in> set sch. c \<noteq> CHR ''#'' \<and> c \<noteq> CHR ''/'' \<and> c \<noteq> CHR '':''" using sch by metis
    from url_method_run [OF this, of "[]" "''://'' @ net @ q @ ?f" ?u0] show ?thesis
      using len(1) unfolding url_text_def by simp
  qed
  also have "\<dots> = url_loop STATE_COLLON (''//'' @ net @ q @ ?f) [] ?u1"
    using len(1) by (subst url_loop.simps(1)) simp
  also have "\<dots> = url_loop STATE_NETLOCK (net @ q @ ?f) [] ?u1"
    by (subst url_loop.simps(2)) simp
  also have "\<dots> = url_loop STATE_NETLOCK (q @ ?f) net ?u1"
  proof -
    have "\<forall>c \<in> set net. c \<noteq> CHR ''#'' \<and> c \<noteq> CHR ''/''" using net by metis
    from url_netloc_run [OF this, of "[]" "q @ ?f" ?u1] show ?thesis using len(2) by simp
  qed
  finally have A: "url_loop STATE_METHOD (url_text sch net q frag) [] ?u0 = url_loop STATE_NETLOCK (q @ ?f) net ?u1" .
  have B: "url_loop STATE_QUERY (q @ ?f) [] ?u2 = Some \<lparr>scheme = sch, netloc = net, query = q, fragment = frag\<rparr>"
  proof -
    have "url_loop STATE_QUERY (q @ ?f) [] ?u2 = url_loop STATE_QUERY ?f q ?u2"
    proof -
      have "\<forall>c \<in> set q. c \<noteq> CHR ''#''" using q(1) by metis
      from url_query_run [OF this, of "[]" ?f ?u2] show ?thesis using len(3) by simp
    qed
    also have "\<dots> = Some \<lparr>scheme = sch, netloc = net, query = q, fragment = frag\<rparr>"
      using len(3,4) url_fragment_run [of "[]" frag "?u2\<lparr>query := q\<rparr>"] by (subst url_loop.simps(4)) auto
    finally show ?thesis .
  qed
  show ?thesis
  proof (cases "q @ ?f = []")
    case True
    then have "q = []" "frag = []" by (auto split: if_splits)
    then show ?thesis using A len(2) by (simp add: URLParse_parse_def url_loop.simps(3))
  next
    case False
    have "hd (q @ ?f) = CHR ''/'' \<or> hd (q @ ?f) = CHR ''#''" using False q(2) by (cases q) (auto split: if_splits)
    then have "url_loop STATE_NETLOCK (q @ ?f) net ?u1 = url_loop STATE_QUERY (q @ ?f) [] ?u2"
      using False len(2) by (subst url_loop.simps(3)) (cases "q @ ?f", auto)
    then show ?thesis using A B by (simp add: URLParse_parse_def)
  qed
qed

text \<open>A part that does not fit the buffer of the parser is written past its end.\<close>

lemma url_method_over:
  "\<forall>c \<in> set t. c \<noteq> CHR ''#'' \<and> c \<noteq> CHR ''/'' \<and> c \<noteq> CHR '':'' \<Longrightarrow> BUFF_SIZE \<le> length b + length t \<Longrightarrow>
     url_loop STATE_METHOD (t @ CHR '':'' # s) b u = None"
proof (induction t arbitrary: b)
  case Nil
  then show ?case by (subst url_loop.simps(1)) simp
next
  case (Cons c t)
  then show ?case by (subst url_loop.simps(1)) simp
qed

lemma url_netloc_over:
  "\<forall>c \<in> set t. c \<noteq> CHR ''#'' \<and> c \<noteq> CHR ''/'' \<Longrightarrow> BUFF_SIZE \<le> length b + length t \<Longrightarrow> url_loop STATE_NETLOCK (t @ s) b u = None"
proof (induction t arbitrary: b)
  case Nil
  then show ?case by (subst url_loop.simps(3)) (simp split: list.split)
next
  case (Cons c t)
  then show ?case by (subst url_loop.simps(3)) simp
qed

lemma url_query_over:
  "\<forall>c \<in> set t. c \<noteq> CHR ''#'' \<Longrightarrow> BUFF_SIZE \<le> length b + length t \<Longrightarrow> url_loop STATE_QUERY (t @ s) b u = None"
proof (induction t arbitrary: b)
  case Nil
  then show ?case by (subst url_loop.simps(4)) simp
next
  case (Cons c t)
  then show ?case by (subst url_loop.simps(4)) simp
qed

lemma url_fragment_over: "BUFF_SIZE \<le> length b + length t \<Longrightarrow> url_loop STATE_FRAGMENT t b u = None"
proof (induction t arbitrary: b)
  case Nil
  then show ?case by (subst url_loop.simps(5)) simp
next
  case (Cons c t)
  then show ?case by (subst url_loop.simps(5)) simp
qed

lemma parse_url_text_over:
  assumes sch: "CHR '':'' \<notin> set sch" "CHR ''/'' \<notin> set sch" "CHR ''#'' \<notin> set sch"
    and net: "CHR ''/'' \<notin> set net" "CHR ''#'' \<notin> set net"
    and q: "CHR ''#'' \<notin> set q" "q = [] \<or> hd q = CHR ''/''"
    and len: "\<not> (length sch < BUFF_SIZE \<and> length net < BUFF_SIZE \<and> length q < BUFF_SIZE \<and> length frag < BUFF_SIZE)"
  shows "URLParse_parse (Some (url_text sch net q frag)) = None"
proof -
  let ?u0 = "\<lparr>scheme = [], netloc = [], query = [], fragment = []\<rparr>" and ?u1 = "\<lparr>scheme = sch, netloc = [], query = [], fragment = []\<rparr>"
    and ?u2 = "\<lparr>scheme = sch, netloc = net, query = [], fragment = []\<rparr>"
  let ?f = "if frag = [] then [] else CHR ''#'' # frag"
  have c: "\<forall>c \<in> set sch. c \<noteq> CHR ''#'' \<and> c \<noteq> CHR ''/'' \<and> c \<noteq> CHR '':''" "\<forall>c \<in> set net. c \<noteq> CHR ''#'' \<and> c \<noteq> CHR ''/''" "\<forall>c \<in> set q. c \<noteq> CHR ''#''"
    using sch net q(1) by metis+
  have "url_loop STATE_METHOD (url_text sch net q frag) [] ?u0 = None"
  proof (cases "length sch < BUFF_SIZE")
    case False
    then show ?thesis using url_method_over [OF c(1), of "[]" "''//'' @ net @ q @ ?f" ?u0] by (simp add: url_text_def)
  next
    case s: True
    have "url_loop STATE_METHOD (url_text sch net q frag) [] ?u0 = url_loop STATE_METHOD (''://'' @ net @ q @ ?f) sch ?u0"
      using url_method_run [OF c(1), of "[]" "''://'' @ net @ q @ ?f" ?u0] s unfolding url_text_def by simp
    also have "\<dots> = url_loop STATE_COLLON (''//'' @ net @ q @ ?f) [] ?u1" using s by (subst url_loop.simps(1)) simp
    also have "\<dots> = url_loop STATE_NETLOCK (net @ q @ ?f) [] ?u1" by (subst url_loop.simps(2)) simp
    also have "\<dots> = None"
    proof (cases "length net < BUFF_SIZE")
      case False
      then show ?thesis using url_netloc_over [OF c(2), of "[]" "q @ ?f" ?u1] by simp
    next
      case n: True
      then have "q @ ?f \<noteq> []" using len s by (auto simp: BUFF_SIZE_def)
      moreover from this have "hd (q @ ?f) = CHR ''/'' \<or> hd (q @ ?f) = CHR ''#''" using q(2) by (cases q) (auto split: if_splits)
      ultimately have "url_loop STATE_NETLOCK (q @ ?f) net ?u1 = url_loop STATE_QUERY (q @ ?f) [] ?u2"
        using n by (subst url_loop.simps(3)) (cases "q @ ?f", auto)
      moreover have "url_loop STATE_QUERY (q @ ?f) [] ?u2 = None"
      proof (cases "length q < BUFF_SIZE")
        case False
        then show ?thesis using url_query_over [OF c(3), of "[]" ?f ?u2] by simp
      next
        case l: True
        then have f: "BUFF_SIZE \<le> length frag" "frag \<noteq> []" using len s n by (auto simp: BUFF_SIZE_def)
        have "url_loop STATE_QUERY (q @ ?f) [] ?u2 = url_loop STATE_QUERY ?f q ?u2"
          using url_query_run [OF c(3), of "[]" ?f ?u2] l by simp
        then show ?thesis using l f url_fragment_over [of "[]" frag "?u2\<lparr>query := q\<rparr>"] by (subst (asm) (2) url_loop.simps(4)) simp
      qed
      ultimately show ?thesis using url_netloc_run [OF c(2), of "[]" "q @ ?f" ?u1] n by simp
    qed
    finally show ?thesis .
  qed
  then show ?thesis by (simp add: URLParse_parse_def)
qed

lemma collapse_Nil [simp]: "collapse_path [] = []"
  by (simp add: collapse_path_def path_push_def path_join_def)

lemma URLParse_string_text:
  "URLParse_string u = url_text (if scheme u = [] then ''file'' else scheme u) (netloc u) (collapse_path (query u)) (fragment u)"
  by (simp add: URLParse_string_def url_text_def Let_def)

section \<open>Invariant of URNs\<close>

definition urn_inv :: "rdf_urn \<Rightarrow> bool" where
  "urn_inv w \<longleftrightarrow> (\<exists>u. parser w = Some u \<and> url_ok u \<and> urn_value w = URLParse_string u)"

lemma RDFURN_set_inv: "RDFURN_set w s = Some w' \<Longrightarrow> urn_inv w'"
  using parse_ok by (auto simp: RDFURN_set_def urn_inv_def split: option.splits)

lemma RDFURN_add_inv:
  assumes "urn_inv w" "RDFURN_add w f = Some w'"
  shows "urn_inv w'"
proof -
  obtain p where p: "URLParse_parse (Some f) = Some p" "url_ok p"
    using assms(2) parse_ok by (auto simp: RDFURN_add_def split: option.splits)
  from assms p show ?thesis
    by (auto simp: RDFURN_add_def urn_inv_def Let_def url_ok_def split: if_splits option.splits)
qed

text \<open>Parsing the value of a URN again.\<close>

lemma parse_value:
  assumes "urn_inv w" "length (urn_value w) < BUFF_SIZE"
  shows "\<exists>u'. URLParse_parse (Some (urn_value w)) = Some u' \<and> URLParse_string u' = urn_value w \<and> fragment u' = fragment (the (parser w))"
proof -
  obtain u where u: "url_ok u" "urn_value w = URLParse_string u" "parser w = Some u" using assms(1) by (auto simp: urn_inv_def)
  let ?s = "if scheme u = [] then ''file'' else scheme u"
  let ?q = "collapse_path (query u)"
  have v: "urn_value w = url_text ?s (netloc u) ?q (fragment u)" using u(2) by (simp add: URLParse_string_text)
  have len: "length ?s < BUFF_SIZE" "length (netloc u) < BUFF_SIZE" "length ?q < BUFF_SIZE" "length (fragment u) < BUFF_SIZE"
    using assms(2) unfolding v url_text_def by (auto split: if_splits)
  have "?q = [] \<or> hd ?q = CHR ''/''" using path_join_hd by (simp add: collapse_path_def)
  then have "URLParse_parse (Some (urn_value w)) = Some \<lparr>scheme = ?s, netloc = netloc u, query = ?q, fragment = fragment u\<rparr>"
    unfolding v using u(1) len collapse_no_hash [of "query u"] by (intro parse_url_text) (auto simp: url_ok_def)
  moreover have "URLParse_string \<lparr>scheme = ?s, netloc = netloc u, query = ?q, fragment = fragment u\<rparr> = urn_value w"
    unfolding v URLParse_string_text by (simp add: collapse_idem)
  ultimately show ?thesis using u(3) by auto
qed

text \<open>Whether every part of the printed form fits the buffer of the parser.\<close>

definition parts_fit :: "url_parse \<Rightarrow> bool" where
  "parts_fit u \<longleftrightarrow> length (scheme u) < BUFF_SIZE \<and> length (netloc u) < BUFF_SIZE \<and> length (collapse_path (query u)) < BUFF_SIZE \<and>
     length (fragment u) < BUFF_SIZE"

lemma RDFURN_copy_parts:
  assumes "parser w = Some u" "url_ok u" "urn_value w = URLParse_string u"
  shows "if parts_fit u then \<exists>w'. RDFURN_copy w = Some w' \<and> urn_inv w' \<and> urn_value w' = urn_value w else RDFURN_copy w = None"
proof -
  let ?s = "if scheme u = [] then ''file'' else scheme u" and ?q = "collapse_path (query u)"
  have v: "urn_value w = url_text ?s (netloc u) ?q (fragment u)" using assms(3) by (simp add: URLParse_string_text)
  have q: "?q = [] \<or> hd ?q = CHR ''/''" using path_join_hd by (simp add: collapse_path_def)
  have c: "CHR '':'' \<notin> set ?s" "CHR ''/'' \<notin> set ?s" "CHR ''#'' \<notin> set ?s" "CHR ''/'' \<notin> set (netloc u)" "CHR ''#'' \<notin> set (netloc u)" "CHR ''#'' \<notin> set ?q"
    using assms(2) collapse_no_hash [of "query u"] by (auto simp: url_ok_def)
  have l: "length ?s < BUFF_SIZE \<longleftrightarrow> length (scheme u) < BUFF_SIZE" by (auto simp: BUFF_SIZE_def)
  show ?thesis
  proof (cases "parts_fit u")
    case True
    let ?u = "\<lparr>scheme = ?s, netloc = netloc u, query = ?q, fragment = fragment u\<rparr>"
    have "URLParse_parse (Some (urn_value w)) = Some ?u"
      unfolding v using True l by (intro parse_url_text [OF c q]) (simp_all add: parts_fit_def)
    then have "RDFURN_copy w = Some (RDFURN_Con\<lparr>parser := Some ?u, urn_value := URLParse_string ?u\<rparr>)" by (simp add: RDFURN_copy_def RDFURN_set_def)
    moreover have "URLParse_string ?u = urn_value w" unfolding v URLParse_string_text by (simp add: collapse_idem)
    ultimately show ?thesis using True RDFURN_set_inv [of RDFURN_Con "Some (urn_value w)"] by (simp add: RDFURN_copy_def)
  next
    case False
    then have "URLParse_parse (Some (urn_value w)) = None" unfolding v using l by (intro parse_url_text_over [OF c q]) (simp add: parts_fit_def)
    then show ?thesis using False by (simp add: RDFURN_copy_def RDFURN_set_def)
  qed
qed

lemma parse_name:
  assumes "\<forall>c \<in> set name. c \<noteq> CHR ''#'' \<and> c \<noteq> CHR ''/'' \<and> c \<noteq> CHR '':''" "length name < BUFF_SIZE"
  shows "URLParse_parse (Some name) = Some \<lparr>scheme = [], netloc = [], query = name, fragment = []\<rparr>"
  using url_method_run [OF assms(1), of "[]" "[]" "\<lparr>scheme = [], netloc = [], query = [], fragment = []\<rparr>"] assms(2)
  by (simp add: URLParse_parse_def url_loop.simps(1))

lemma collapse_add:
  assumes "plain_element name"
  shows "collapse_path (q @ (if q = [] then [] else ''/'') @ name) = collapse_path q @ ''/'' @ name"
proof -
  have step: "path_loop (xs @ CHR ''/'' # s) cur path = path_loop s [] (path_loop xs cur path)" for xs s cur path
    by (induction xs arbitrary: cur path) auto
  have n: "path_loop name [] path = path @ [name]" for path
    using assms path_loop_element [of name "[]" "[]" path] by (simp add: plain_element_def path_push_def)
  show ?thesis by (simp add: collapse_path_def step n path_join_def path_push_def)
qed

text \<open>URNs without a fragment, and the names that can be added to them.\<close>

definition urn_plain :: "rdf_urn \<Rightarrow> bool" where
  "urn_plain w \<longleftrightarrow> urn_inv w \<and> fragment (the (parser w)) = []"

definition plain_part :: "buf \<Rightarrow> bool" where
  "plain_part name \<longleftrightarrow> plain_element name \<and> CHR ''#'' \<notin> set name \<and> CHR '':'' \<notin> set name \<and> length name < BUFF_SIZE"

lemma RDFURN_copy_plain:
  assumes "urn_inv w" "length (urn_value w) < BUFF_SIZE"
  shows "\<exists>w'. RDFURN_copy w = Some w' \<and> urn_inv w' \<and> urn_value w' = urn_value w \<and> (urn_plain w \<longrightarrow> urn_plain w')"
proof -
  obtain u where u: "URLParse_parse (Some (urn_value w)) = Some u" "URLParse_string u = urn_value w" "fragment u = fragment (the (parser w))"
    using parse_value [OF assms] by blast
  then have c: "RDFURN_copy w = Some (RDFURN_Con\<lparr>parser := Some u, urn_value := urn_value w\<rparr>)"
    by (simp add: RDFURN_copy_def RDFURN_set_def)
  then have "urn_inv (RDFURN_Con\<lparr>parser := Some u, urn_value := urn_value w\<rparr>)"
    using RDFURN_set_inv [of RDFURN_Con "Some (urn_value w)"] by (simp add: RDFURN_copy_def)
  then show ?thesis using c u(3) by (auto simp: urn_plain_def)
qed

lemma RDFURN_add_plain:
  assumes "urn_plain w" "plain_part name"
  shows "\<exists>w'. RDFURN_add w name = Some w' \<and> urn_plain w' \<and> urn_value w' = urn_value w @ ''/'' @ name"
proof -
  obtain u where u: "parser w = Some u" "urn_value w = URLParse_string u" "fragment u = []"
    using assms(1) by (auto simp: urn_plain_def urn_inv_def)
  have n: "plain_element name" "\<forall>c \<in> set name. c \<noteq> CHR ''#'' \<and> c \<noteq> CHR ''/'' \<and> c \<noteq> CHR '':''"
    using assms(2) unfolding plain_part_def plain_element_def by metis+
  have p: "URLParse_parse (Some name) = Some \<lparr>scheme = [], netloc = [], query = name, fragment = []\<rparr>"
    using parse_name [OF n(2)] assms(2) by (simp add: plain_part_def)
  let ?u = "u\<lparr>query := query u @ (if query u = [] then [] else ''/'') @ name, fragment := []\<rparr>"
  have "URLParse_string ?u = URLParse_string u @ ''/'' @ name"
    unfolding URLParse_string_text by (simp add: collapse_add [OF n(1)] url_text_def u(3))
  then have a: "RDFURN_add w name = Some (w\<lparr>parser := Some ?u, urn_value := urn_value w @ ''/'' @ name\<rparr>)"
    using p u by (simp add: RDFURN_add_def Let_def)
  then show ?thesis using RDFURN_add_inv [OF _ a] assms(1) by (simp add: urn_plain_def)
qed

section \<open>Properties\<close>

text \<open>C15. Path collapsing: the result is a normal form (collapsing it again changes nothing), it is made of elements that
  are neither empty nor a dot nor two dots and contain no slash, each after one slash, so no URN can
  climb out of its root, and with its terminator it fits the buffer allocated for it.\<close>

theorem collapse_path_normal_form:
  "collapse_path (collapse_path q) = collapse_path q \<and>
   (\<exists>es. collapse_path q = path_join es \<and> (\<forall>e \<in> set es. plain_element e)) \<and>
   length (collapse_path q) + 1 \<le> length q + 20"
  using collapse_idem [of q] collapse_elements [of q] length_collapse [of q] by auto

theorem collapse_path_normal_form_witness:
  "collapse_path (collapse_path ''a/../../b/./c'') = collapse_path ''a/../../b/./c'' \<and>
   (\<exists>es. collapse_path ''a/../../b/./c'' = path_join es \<and> (\<forall>e \<in> set es. plain_element e))"
  using collapse_path_normal_form [of "''a/../../b/./c''"] by blast

text \<open>C14. The string form of a URN is a fixed point of the parser: whatever sequence of set and add built the URN, its
  parser fields stay well-formed and its value is the printed form of those fields. Copying it, which parses the value again, gives a URN with
  the same value as long as every part of it (scheme, host, collapsed path and fragment) is shorter than the buffer of the parser,
  \<^verbatim>\<open>BUFF_SIZE\<close>; a longer part, which repeated adding can build, is written past the end of that buffer, and the copy is undefined.\<close>

theorem urn_value_is_normal_form:
  "(\<forall>w'. RDFURN_set w s = Some w' \<longrightarrow> urn_inv w') \<and>
   (urn_inv w \<longrightarrow> (\<forall>w'. RDFURN_add w f = Some w' \<longrightarrow> urn_inv w')) \<and>
   (urn_inv w \<longrightarrow> (\<exists>u. parser w = Some u \<and>
      (if parts_fit u then \<exists>w'. RDFURN_copy w = Some w' \<and> urn_inv w' \<and> urn_value w' = urn_value w else RDFURN_copy w = None)))"
proof (intro conjI impI allI)
  show "urn_inv w'" if "RDFURN_set w s = Some w'" for w' using that by (rule RDFURN_set_inv)
  show "urn_inv w'" if "urn_inv w" "RDFURN_add w f = Some w'" for w' using that by (rule RDFURN_add_inv)
  show "\<exists>u. parser w = Some u \<and>
      (if parts_fit u then \<exists>w'. RDFURN_copy w = Some w' \<and> urn_inv w' \<and> urn_value w' = urn_value w else RDFURN_copy w = None)" if "urn_inv w"
    using that RDFURN_copy_parts [of w] unfolding urn_inv_def by blast
qed

text \<open>Such a URN is built by adding two names, each of which the parser can hold.\<close>

lemma RDFURN_add_path:
  assumes "urn_plain w" "plain_part name" "parser w = Some u"
  shows "\<exists>w' u'. RDFURN_add w name = Some w' \<and> urn_plain w' \<and> parser w' = Some u' \<and> collapse_path (query u') = collapse_path (query u) @ ''/'' @ name"
proof -
  have n: "plain_element name" "\<forall>c \<in> set name. c \<noteq> CHR ''#'' \<and> c \<noteq> CHR ''/'' \<and> c \<noteq> CHR '':''"
    using assms(2) unfolding plain_part_def plain_element_def by metis+
  have p: "URLParse_parse (Some name) = Some \<lparr>scheme = [], netloc = [], query = name, fragment = []\<rparr>"
    using parse_name [OF n(2)] assms(2) by (simp add: plain_part_def)
  obtain w' where w': "RDFURN_add w name = Some w'" "urn_plain w'" using RDFURN_add_plain [OF assms(1,2)] by blast
  have "parser w' = Some (u\<lparr>query := query u @ (if query u = [] then [] else ''/'') @ name\<rparr>)"
    using w'(1) p assms(3) by (auto simp: RDFURN_add_def Let_def)
  then show ?thesis using w' collapse_add [OF n(1), of "query u"] by auto
qed

lemma urn_grows_beyond_parser:
  assumes "urn_plain w" "plain_part a" "plain_part b" "BUFF_SIZE \<le> length a + length b"
  shows "\<exists>w1 w2. RDFURN_add w a = Some w1 \<and> RDFURN_add w1 b = Some w2 \<and> RDFURN_copy w2 = None"
proof -
  obtain u where u: "parser w = Some u" using assms(1) by (auto simp: urn_plain_def urn_inv_def)
  obtain w1 u1 where w1: "RDFURN_add w a = Some w1" "urn_plain w1" "parser w1 = Some u1" "collapse_path (query u1) = collapse_path (query u) @ ''/'' @ a"
    using RDFURN_add_path [OF assms(1,2) u] by blast
  obtain w2 u2 where w2: "RDFURN_add w1 b = Some w2" "urn_plain w2" "parser w2 = Some u2" "collapse_path (query u2) = collapse_path (query u1) @ ''/'' @ b"
    using RDFURN_add_path [OF w1(2) assms(3) w1(3)] by blast
  have "\<not> parts_fit u2" using w1(4) w2(4) assms(4) by (simp add: parts_fit_def)
  moreover have "url_ok u2" "urn_value w2 = URLParse_string u2" using w2(2,3) by (auto simp: urn_plain_def urn_inv_def)
  ultimately show ?thesis using RDFURN_copy_parts [OF w2(3)] w1(1) w2(1) by auto
qed

lemma example_urn:
  "RDFURN_set RDFURN_Con (Some ''aff4://ab/x'') =
     Some \<lparr>urn_value = ''aff4://ab/x'', parser = Some \<lparr>scheme = ''aff4'', netloc = ''ab'', query = ''/x'', fragment = []\<rparr>\<rparr>"
proof -
  have "''aff4://ab/x'' = url_text ''aff4'' ''ab'' ''/x'' []" by (simp add: url_text_def)
  then have "URLParse_parse (Some ''aff4://ab/x'') = Some \<lparr>scheme = ''aff4'', netloc = ''ab'', query = ''/x'', fragment = []\<rparr>"
    using parse_url_text [of "''aff4''" "''ab''" "''/x''" "[]"] by (simp add: BUFF_SIZE_def)
  moreover have "collapse_path ''/x'' = ''/x''" by (simp add: collapse_path_def path_push_def path_join_def)
  ultimately show ?thesis by (simp add: RDFURN_set_def RDFURN_Con_def URLParse_string_def)
qed

theorem urn_value_is_normal_form_witness:
  "\<exists>w'. RDFURN_copy \<lparr>urn_value = ''aff4://ab/x'',
       parser = Some \<lparr>scheme = ''aff4'', netloc = ''ab'', query = ''/x'', fragment = []\<rparr>\<rparr> = Some w' \<and>
     urn_value w' = ''aff4://ab/x''"
  using urn_value_is_normal_form [of "\<lparr>urn_value = ''aff4://ab/x'',
       parser = Some \<lparr>scheme = ''aff4'', netloc = ''ab'', query = ''/x'', fragment = []\<rparr>\<rparr>" None "[]"]
    RDFURN_set_inv [OF example_urn]
  by (auto simp: BUFF_SIZE_def parts_fit_def collapse_path_def path_push_def path_join_def)

text \<open>Adding a member name to a URN and taking the name relative to the volume are inverse: for a plain name, add
  appends a slash and the name to the value, and the relative name of the result is exactly that.\<close>

lemma urn_add_relative_name:
  assumes "urn_plain w" "plain_part name"
  shows "\<exists>w'. RDFURN_add w name = Some w' \<and> urn_plain w' \<and> urn_value w' = urn_value w @ ''/'' @ name \<and>
     RDFURN_relative_name w' w = ''/'' @ name"
proof -
  obtain w' where w': "RDFURN_add w name = Some w'" "urn_plain w'" "urn_value w' = urn_value w @ ''/'' @ name"
    using RDFURN_add_plain [OF assms] by blast
  have "RDFURN_relative_name w' w = ''/'' @ name" unfolding RDFURN_relative_name_def startswith_def w'(3) by simp
  then show ?thesis using w' by blast
qed

text \<open>A scheme that is not followed by two slashes costs a character: for a URL of the form scheme, colon, text, the
  parser drops the first character of the text.\<close>

lemma url_without_slashes_drops_character:
  assumes "CHR '':'' \<notin> set sch" "CHR ''/'' \<notin> set sch" "CHR ''#'' \<notin> set sch" "c \<noteq> CHR ''/''" "CHR ''#'' \<notin> set rest"
    "length sch < BUFF_SIZE" "length rest < BUFF_SIZE"
  shows "URLParse_parse (Some (sch @ '':'' @ c # rest)) =
     Some \<lparr>scheme = sch, netloc = [], query = rest, fragment = []\<rparr>"
proof -
  let ?u0 = "\<lparr>scheme = [], netloc = [], query = [], fragment = []\<rparr>"
  let ?u1 = "\<lparr>scheme = sch, netloc = [], query = [], fragment = []\<rparr>"
  have r: "\<forall>x \<in> set sch. x \<noteq> CHR ''#'' \<and> x \<noteq> CHR ''/'' \<and> x \<noteq> CHR '':''" "\<forall>x \<in> set rest. x \<noteq> CHR ''#''"
    using assms(1-3,5) by metis+
  have "url_loop STATE_METHOD (sch @ '':'' @ c # rest) [] ?u0 = url_loop STATE_METHOD ('':'' @ c # rest) sch ?u0"
    using url_method_run [OF r(1), of "[]" "'':'' @ c # rest" ?u0] assms(6) by simp
  also have "\<dots> = url_loop STATE_COLLON (c # rest) [] ?u1" using assms(6) by (subst url_loop.simps(1)) simp
  also have "\<dots> = url_loop STATE_QUERY rest [] ?u1" using assms(4) by (subst url_loop.simps(2)) simp
  also have "\<dots> = url_loop STATE_QUERY [] rest ?u1" using url_query_run [OF r(2), of "[]" "[]" ?u1] assms(7) by simp
  also have "\<dots> = Some (?u1\<lparr>query := rest\<rparr>)" using assms(7) by (subst url_loop.simps(4)) simp
  finally show ?thesis by (simp add: URLParse_parse_def)
qed

end
