(* ===== verification/File_Object.thy ===== *)
theory File_Object
  imports StringIO Url
begin

text \<open>
  File-like objects of \<^verbatim>\<open>lib/file.c\<close>: the generic \<^verbatim>\<open>FileLikeObject\<close> and the \<^verbatim>\<open>FileBackedObject\<close> on which archives are stored. The state
  is the content of the backing file and the read pointer; what a system call returned is an argument
  of the operation that made it, so short transfers and failures are part of the model. The file
  backed object with full transfers is a second instance of \<open>byte_stream\<close>.
\<close>

section \<open>State and operations\<close>

record file_backed =
  disk :: buf
  readptr :: int

definition MAX_CACHED_FILESIZE :: int where "MAX_CACHED_FILESIZE = 1000000"

text \<open>
  \<open>os_open\<close> is \<^verbatim>\<open>open(2)\<close>: the content of the named file, or \<open>None\<close> if it cannot be opened. Opening for writing creates the
  file but does not empty it. The fields of a parser that was never set are NULL, and their length is undefined.
\<close>

definition FileBackedObject_finish ::
    "rdf_urn \<Rightarrow> char \<Rightarrow> (buf \<Rightarrow> char \<Rightarrow> buf option) \<Rightarrow> (file_backed option \<times> aff4_err option) option" where
  "FileBackedObject_finish urn mode os_open =
     map_option (\<lambda>u. if scheme u \<noteq> [] \<and> scheme u \<noteq> ''file'' then (None, Some ERuntimeError)
                      else (case os_open (query u) mode of
                              None \<Rightarrow> (None, Some EIOError)
                            | Some d \<Rightarrow> (Some \<lparr>disk = d, readptr = 0\<rparr>, None)))
       (parser urn)"

definition FileBackedObject_size :: "file_backed \<Rightarrow> int" where
  "FileBackedObject_size f = int (length (disk f))"

definition FileLikeObject_truncate :: "file_backed \<Rightarrow> int \<Rightarrow> file_backed \<times> int" where
  "FileLikeObject_truncate f offset = (f\<lparr>readptr := s64 (min (u64 offset) (u64 (readptr f)))\<rparr>, s32 offset)"

definition FileBackedObject_truncate :: "file_backed \<Rightarrow> int \<Rightarrow> file_backed \<times> int" where
  "FileBackedObject_truncate f offset =
     (let n = nat offset
      in FileLikeObject_truncate (f\<lparr>disk := take n (disk f) @ replicate (n - length (disk f)) NUL\<rparr>) offset)"

definition FileLikeObject_seek :: "file_backed \<Rightarrow> int \<Rightarrow> whence \<Rightarrow> file_backed \<times> int" where
  "FileLikeObject_seek f offset w =
     (let r = (case w of
                 SEEK_SET \<Rightarrow> offset
               | SEEK_CUR \<Rightarrow> max 0 (s64 (readptr f + offset))
               | SEEK_END \<Rightarrow> s64 (FileBackedObject_size f + offset)
               | SEEK_OTHER \<Rightarrow> readptr f);
          r' = (if r < 0 then 0 else r)
      in (f\<lparr>readptr := r'\<rparr>, r'))"

text \<open>\<open>res\<close> is what \<^verbatim>\<open>lseek\<close> returned; the kernel's own position is set again before every transfer.\<close>

definition FileBackedObject_seek :: "file_backed \<Rightarrow> int \<Rightarrow> file_backed \<times> int" where
  "FileBackedObject_seek f res = (let r = (if res < 0 then 0 else res) in (f\<lparr>readptr := r\<rparr>, r))"

definition FileLikeObject_tell :: "file_backed \<Rightarrow> int" where
  "FileLikeObject_tell f = readptr f"

text \<open>\<open>res\<close> is what \<^verbatim>\<open>read\<close> returned: -1, or the number of bytes it transferred from the read pointer on.\<close>

definition FileBackedObject_read :: "file_backed \<Rightarrow> int \<Rightarrow> file_backed \<times> int \<times> buf \<times> aff4_err option" where
  "FileBackedObject_read f res =
     (if res < 0 then (f, - 1, [], Some EIOError)
      else (f\<lparr>readptr := s64 (readptr f + res)\<rparr>, res, take (nat res) (drop (nat (readptr f)) (disk f)), None))"

text \<open>\<open>res\<close> is what \<^verbatim>\<open>write\<close> returned. The failure branch raises but goes on to add the result to the read pointer.\<close>

definition FileBackedObject_write :: "file_backed \<Rightarrow> buf \<Rightarrow> int \<Rightarrow> file_backed \<times> int \<times> aff4_err option" where
  "FileBackedObject_write f buffer res =
     (if buffer = [] then (f, 0, None)
      else (f\<lparr>disk := (if res < 0 then disk f else overwrite (nat (readptr f)) (take (nat res) buffer) (disk f)),
              readptr := s64 (readptr f + res)\<rparr>, res, if res < 0 then Some EIOError else None))"

text \<open>
  The scan of \<^verbatim>\<open>readline\<close> over the bytes read: the index of the line end, the offset that the carriage return adds,
  and the buffer with the line terminated.
\<close>

fun readline_scan :: "nat \<Rightarrow> buf \<Rightarrow> (nat \<times> nat) option" where
  "readline_scan i (c # d # cs) =
     (if c = CHR 0x0D \<and> d = CHR 0x0A then Some (i, 1)
      else if c = CHR 0x0A then Some (i, 0)
      else readline_scan (Suc i) (d # cs))"
| "readline_scan i _ = None"

definition FileLikeObject_readline :: "file_backed \<Rightarrow> int \<Rightarrow> file_backed \<times> int \<times> buf \<times> aff4_err option" where
  "FileLikeObject_readline f res =
     (let offset = readptr f
      in case FileBackedObject_read f res of
           (f1, result, buffer, e) \<Rightarrow>
             if 0 < result
             then (case readline_scan 0 buffer of
                     None \<Rightarrow> (f1, result, buffer, e)
                   | Some (i, extra) \<Rightarrow>
                       (f1\<lparr>readptr := s64 (offset + int extra + int i + 1)\<rparr>, int i, buffer[i := NUL], e))
             else (f1, result, buffer, e))"

text \<open>The whole content of a small file, with \<^verbatim>\<open>BUFF_SIZE\<close> zero bytes after it; \<open>res\<close> is what its read returned.\<close>

definition FileLikeObject_get_data :: "file_backed \<Rightarrow> int \<Rightarrow> file_backed \<times> XSDString option" where
  "FileLikeObject_get_data f res =
     (let sz = FileBackedObject_size f
      in if MAX_CACHED_FILESIZE < sz then (f, None)
         else case FileBackedObject_read (fst (FileBackedObject_seek f 0)) res of
                (f1, _, d, _) \<Rightarrow>
                  (f1, Some \<lparr>str_value = Some (d @ replicate (nat sz + BUFF_SIZE - length d) NUL), str_length = s32 sz\<rparr>))"

section \<open>Full transfers\<close>

text \<open>What the operating system returns on a regular file when nothing interferes.\<close>

definition full_read :: "file_backed \<Rightarrow> nat \<Rightarrow> int" where
  "full_read f n = int (min n (length (disk f) - nat (readptr f)))"

definition fbo_pos :: "file_backed \<Rightarrow> nat" where
  "fbo_pos f = nat (readptr f)"

definition fbo_ok :: "file_backed \<Rightarrow> bool" where
  "fbo_ok f \<longleftrightarrow> 0 \<le> readptr f \<and> readptr f \<le> int (length (disk f)) \<and> length (disk f) < 2 ^ 62"

definition fbo_room :: "file_backed \<Rightarrow> nat \<Rightarrow> bool" where
  "fbo_room f n \<longleftrightarrow> readptr f + int n < 2 ^ 62"

definition fbo_wr :: "file_backed \<Rightarrow> buf \<Rightarrow> file_backed option" where
  "fbo_wr f b = Some (fst (FileBackedObject_write f b (int (length b))))"

definition fbo_rd :: "file_backed \<Rightarrow> nat \<Rightarrow> (file_backed \<times> buf) option" where
  "fbo_rd f n = (case FileBackedObject_read f (full_read f n) of (f', _, b, None) \<Rightarrow> Some (f', b) | _ \<Rightarrow> None)"

definition fbo_sk :: "file_backed \<Rightarrow> nat \<Rightarrow> file_backed option" where
  "fbo_sk f p = Some (fst (FileBackedObject_seek f (int p)))"

lemma fbo_pos_upd: "fbo_pos (f\<lparr>readptr := int k\<rparr>) = k"
  by (simp add: fbo_pos_def)

lemma fbo_rd_eq:
  assumes "fbo_ok f" "fbo_pos f \<le> length (disk f)"
  shows "fbo_rd f n = Some (f\<lparr>readptr := int (min (fbo_pos f + n) (length (disk f)))\<rparr>, take n (drop (fbo_pos f) (disk f)))"
proof -
  define m where "m = min n (length (disk f) - fbo_pos f)"
  have r: "readptr f = int (fbo_pos f)" using assms(1) by (simp add: fbo_ok_def fbo_pos_def)
  have m: "fbo_pos f + m = min (fbo_pos f + n) (length (disk f))" "fbo_pos f + m \<le> length (disk f)"
    using assms(2) by (auto simp: m_def)
  have "int (fbo_pos f + m) < 2 ^ 62" using m(2) assms(1) by (simp add: fbo_ok_def)
  then have s: "s64 (readptr f + int m) = int (fbo_pos f + m)" unfolding r by (simp add: s64_id)
  have "take m (drop (fbo_pos f) (disk f)) = take n (drop (fbo_pos f) (disk f))" by (simp add: m_def min_def)
  moreover have "full_read f n = int m" by (simp add: full_read_def m_def fbo_pos_def)
  moreover have "FileBackedObject_read f (int m) = (f\<lparr>readptr := int (fbo_pos f + m)\<rparr>, int m, take m (drop (fbo_pos f) (disk f)), None)"
    unfolding FileBackedObject_read_def s by (simp add: fbo_pos_def)
  ultimately show ?thesis unfolding fbo_rd_def m(1) [symmetric] by simp
qed

lemma fbo_wr_eq:
  assumes ok: "fbo_ok f" and room: "fbo_room f (length b)"
  shows "fbo_wr f b = Some (f\<lparr>disk := overwrite (fbo_pos f) b (disk f), readptr := int (fbo_pos f + length b)\<rparr>)"
proof -
  have r: "readptr f = int (fbo_pos f)" using ok by (simp add: fbo_ok_def fbo_pos_def)
  have "int (fbo_pos f + length b) < 2 ^ 62" using room unfolding fbo_room_def r by simp
  then have s: "s64 (readptr f + int (length b)) = int (fbo_pos f + length b)" unfolding r by (simp add: s64_id)
  show ?thesis
  proof (cases "b = []")
    case True
    have "fbo_pos f \<le> length (disk f)" using ok unfolding fbo_ok_def fbo_pos_def by linarith
    then show ?thesis using True r by (simp add: fbo_wr_def FileBackedObject_write_def)
  next
    case False
    then show ?thesis using s by (simp add: fbo_wr_def FileBackedObject_write_def fbo_pos_def)
  qed
qed

interpretation fbo: byte_stream disk fbo_pos fbo_ok fbo_room fbo_wr fbo_rd fbo_sk
proof
  fix f and b :: buf
  assume "fbo_ok f" "fbo_room f (length b)"
  from fbo_wr_eq [OF this] show "\<exists>s'. fbo_wr f b = Some s' \<and> fbo_ok s' \<and> disk s' = overwrite (fbo_pos f) b (disk f) \<and>
      fbo_pos s' = fbo_pos f + length b"
    using \<open>fbo_ok f\<close> \<open>fbo_room f (length b)\<close> by (auto simp: fbo_ok_def fbo_pos_def fbo_room_def)
next
  fix f and m n :: nat and b :: buf and f'
  assume f: "fbo_ok f" "fbo_room f (m + n)" "length b = m" "fbo_wr f b = Some f'"
  then have "fbo_room f (length b)" by (simp add: fbo_room_def)
  from fbo_wr_eq [OF f(1) this] f show "fbo_room f' n" by (auto simp: fbo_room_def fbo_pos_def fbo_ok_def)
next
  fix f and n :: nat
  assume "fbo_ok f" "fbo_pos f \<le> length (disk f)"
  from fbo_rd_eq [OF this] show "\<exists>s'. fbo_rd f n = Some (s', take n (drop (fbo_pos f) (disk f))) \<and> fbo_ok s' \<and>
      disk s' = disk f \<and> fbo_pos s' = min (fbo_pos f + n) (length (disk f))"
    using \<open>fbo_ok f\<close> by (auto simp: fbo_ok_def fbo_pos_def)
next
  fix f and p :: nat
  assume "fbo_ok f" "p \<le> length (disk f)"
  then show "\<exists>s'. fbo_sk f p = Some s' \<and> fbo_ok s' \<and> disk s' = disk f \<and> fbo_pos s' = p"
    by (simp add: fbo_sk_def FileBackedObject_seek_def fbo_ok_def fbo_pos_def Let_def)
next
  fix f and m n :: nat
  show "fbo_room f n \<Longrightarrow> m \<le> n \<Longrightarrow> fbo_room f m" by (simp add: fbo_room_def)
qed

section \<open>Properties\<close>

text \<open>A file backed object is a byte stream: writing at the read pointer overwrites exactly those bytes (growing the
  file if needed) and advances the pointer by their number, and seeking back and reading returns what
  was written.\<close>

lemma file_write_seek_read:
  assumes "fbo_ok f" "fbo_room f (length b)" "length b < 2 ^ 31"
  shows "\<exists>f1 f2 f3. fbo_wr f b = Some f1 \<and> disk f1 = overwrite (fbo_pos f) b (disk f) \<and>
     fbo_pos f1 = fbo_pos f + length b \<and> fbo_sk f1 (fbo_pos f) = Some f2 \<and> fbo_rd f2 (length b) = Some (f3, b)"
  using fbo.write_seek_read [OF assms] fbo.wr_spec [OF assms(1,2)] by auto

text \<open>The scan over a line, its end and the bytes behind it: the end is found when two more bytes than the line were read.\<close>

definition line_end :: "buf \<Rightarrow> buf \<Rightarrow> bool" where
  "line_end line eol \<longleftrightarrow> CHR 0x0A \<notin> set line \<and> (eol = [CHR 0x0A] \<and> (line = [] \<or> last line \<noteq> CHR 0x0D) \<or> eol = [CHR 0x0D, CHR 0x0A])"

lemma line_end_Cons: "line_end (c # line) eol \<Longrightarrow> line_end line eol"
  by (auto simp: line_end_def split: if_splits)

lemma readline_scan_found:
  assumes "line_end line eol" "length line + 2 \<le> length (line @ eol @ rest)"
  shows "readline_scan i (line @ eol @ rest) = Some (i + length line, length eol - 1)"
  using assms
proof (induction line arbitrary: i)
  case Nil
  then show ?case by (cases rest) (auto simp: line_end_def)
next
  case (Cons c line)
  then obtain d x where d: "line @ eol @ rest = d # x" by (cases "line @ eol @ rest") (auto simp: line_end_def)
  have "\<not> (c = CHR 0x0D \<and> d = CHR 0x0A)" "c \<noteq> CHR 0x0A"
    using Cons.prems(1) d by (cases line; auto simp: line_end_def)+
  then have "readline_scan i ((c # line) @ eol @ rest) = readline_scan (Suc i) (line @ eol @ rest)" using d by auto
  then show ?case using Cons.IH [OF line_end_Cons [OF Cons.prems(1)], of "Suc i"] Cons.prems(2) by simp
qed

lemma readline_scan_short:
  assumes "line_end line eol" "m < length line + 2"
  shows "readline_scan i (take m (line @ eol @ rest)) = None"
  using assms
proof (induction line arbitrary: i m)
  case Nil
  then have "m = 0 \<or> m = 1" by auto
  moreover have "readline_scan i (take 1 (eol @ rest)) = None" by (cases "eol @ rest") auto
  ultimately show ?case by auto
next
  case (Cons c line)
  show ?case
  proof (cases m)
    case (Suc k)
    note IH = Cons.IH [OF line_end_Cons [OF Cons.prems(1)], of k "Suc i"]
    show ?thesis
    proof (cases "take k (line @ eol @ rest)")
      case Nil
      have "take m ((c # line) @ eol @ rest) = c # take k (line @ eol @ rest)" using Suc by simp
      then show ?thesis unfolding Nil by simp
    next
      case (Cons d x)
      then obtain y where y: "line @ eol @ rest = d # y" by (cases k; cases "line @ eol @ rest") auto
      have "\<not> (c = CHR 0x0D \<and> d = CHR 0x0A)" "c \<noteq> CHR 0x0A"
        using Cons.prems(1) y by (cases line; auto simp: line_end_def)+
      then show ?thesis using IH Cons.prems(2) Suc local.Cons by auto
    qed
  qed simp
qed

text \<open>C38. Reading lines from a file backed object: let the bytes from the read pointer on be a line, its end, which is a line feed or a carriage
  return and a line feed, and a rest, and let the system transfer all of the bytes that are asked for or left. When at least two bytes more than the line
  were transferred, \<^verbatim>\<open>readline\<close> returns the length of the line with exactly the line in the buffer, terminated, and leaves the read
  pointer behind the line end. Otherwise it has not seen the line end (a line feed that is the last byte transferred is not looked at) and
  returns all that was transferred, with the read pointer behind it.\<close>

theorem readline_splits_lines:
  fixes n :: nat
  assumes "fbo_ok f" "drop (fbo_pos f) (disk f) = line @ eol @ rest" "line_end line eol"
  defines "m \<equiv> min n (length (line @ eol @ rest))"
  shows "\<exists>f' buffer. FileLikeObject_readline f (full_read f n) = (f', int (if length line + 2 \<le> m then length line else m), buffer, None) \<and> disk f' = disk f \<and>
     (if length line + 2 \<le> m then take (length line) buffer = line \<and> buffer ! length line = NUL \<and> fbo_pos f' = fbo_pos f + length (line @ eol)
      else buffer = take m (line @ eol @ rest) \<and> fbo_pos f' = fbo_pos f + m)"
proof -
  let ?t = "line @ eol @ rest"
  define b where "b = take m ?t"
  have el: "1 \<le> length eol" "length eol \<le> 2" using assms(3) by (auto simp: line_end_def)
  have lt: "length ?t = length (disk f) - fbo_pos f" using arg_cong [OF assms(2), of length] by simp
  have r: "readptr f = int (fbo_pos f)" using assms(1) by (simp add: fbo_ok_def fbo_pos_def)
  have fr: "full_read f n = int m" unfolding full_read_def m_def lt by (simp add: fbo_pos_def)
  have bm: "length b = m" "b = take m (drop (fbo_pos f) (disk f))" by (simp_all add: b_def m_def assms(2))
  have pos: "fbo_pos f \<le> length (disk f)" using assms(1) unfolding fbo_ok_def fbo_pos_def by linarith
  have le: "fbo_pos f + m \<le> length (disk f)" using lt pos m_def by linarith
  have big: "length (disk f) < 2 ^ 62" using assms(1) by (simp add: fbo_ok_def)
  have s: "s64 (int k) = int k" if "k \<le> length (disk f)" for k using that big by (simp add: s64_id)
  have rd: "FileBackedObject_read f (int m) = (f\<lparr>readptr := int (fbo_pos f + m)\<rparr>, int m, b, None)"
    using s [OF le] bm(2) by (simp add: FileBackedObject_read_def r)
  show ?thesis
  proof (cases "length line + 2 \<le> m")
    case True
    have be: "b = line @ eol @ take (m - length line - length eol) rest" using True el by (simp add: b_def)
    then have "length line + 2 \<le> length (line @ eol @ take (m - length line - length eol) rest)" using True bm(1) by metis
    then have sc: "readline_scan 0 b = Some (length line, length eol - 1)"
      using readline_scan_found [OF assms(3)] unfolding be by simp
    have p: "fbo_pos f + length (line @ eol) \<le> length (disk f)" using True el le by simp
    have q: "int (fbo_pos f) + int (length eol - 1) + int (length line) + 1 = int (fbo_pos f + length (line @ eol))" using el by simp
    have "FileLikeObject_readline f (full_read f n) = (f\<lparr>readptr := int (fbo_pos f + length (line @ eol))\<rparr>, int (length line), b[length line := NUL], None)"
      unfolding FileLikeObject_readline_def fr rd Let_def prod.case r sc option.case q s [OF p] using True by simp
    moreover have "take (length line) (b[length line := NUL]) = line" "b[length line := NUL] ! length line = NUL"
      using True bm(1) by (simp_all add: b_def)
    moreover have "fbo_pos (f\<lparr>readptr := int (fbo_pos f + length (line @ eol))\<rparr>) = fbo_pos f + length (line @ eol)" by (rule fbo_pos_upd)
    ultimately show ?thesis using True
      by (intro exI [of _ "f\<lparr>readptr := int (fbo_pos f + length (line @ eol))\<rparr>"] exI [of _ "b[length line := NUL]"]) simp
  next
    case False
    then have "readline_scan 0 b = None" unfolding b_def by (intro readline_scan_short [OF assms(3)]) simp
    then have "FileLikeObject_readline f (full_read f n) = (f\<lparr>readptr := int (fbo_pos f + m)\<rparr>, int m, b, None)"
      unfolding FileLikeObject_readline_def fr rd Let_def prod.case by simp
    moreover have "fbo_pos (f\<lparr>readptr := int (fbo_pos f + m)\<rparr>) = fbo_pos f + m" by (rule fbo_pos_upd)
    ultimately show ?thesis using False by (intro exI [of _ "f\<lparr>readptr := int (fbo_pos f + m)\<rparr>"] exI [of _ b]) (simp add: b_def)
  qed
qed

theorem readline_splits_lines_witness:
  "(\<exists>f' buffer. FileLikeObject_readline \<lparr>disk = ''ab'' @ [CHR 0x0D, CHR 0x0A] @ ''cd'', readptr = 0\<rparr> 6 = (f', 2, buffer, None) \<and>
     take 2 buffer = ''ab'' \<and> fbo_pos f' = 4) \<and>
   (\<exists>f'. FileLikeObject_readline \<lparr>disk = ''ab'' @ [CHR 0x0A], readptr = 0\<rparr> 3 = (f', 3, ''ab'' @ [CHR 0x0A], None))"
proof -
  let ?f = "\<lparr>disk = ''ab'' @ [CHR 0x0D, CHR 0x0A] @ ''cd'', readptr = 0\<rparr>" and ?g = "\<lparr>disk = ''ab'' @ [CHR 0x0A], readptr = 0\<rparr>"
  have p: "fbo_ok ?f" "drop (fbo_pos ?f) (disk ?f) = ''ab'' @ [CHR 0x0D, CHR 0x0A] @ ''cd''" "line_end ''ab'' [CHR 0x0D, CHR 0x0A]"
      "fbo_ok ?g" "drop (fbo_pos ?g) (disk ?g) = ''ab'' @ [CHR 0x0A] @ []" "line_end ''ab'' [CHR 0x0A]"
    by (simp_all add: fbo_ok_def fbo_pos_def line_end_def)
  have q: "full_read ?f 6 = 6" "fbo_pos ?f = 0" "full_read ?g 3 = 3" by (simp_all add: fbo_pos_def full_read_def)
  have l: "length ''ab'' = 2" "2 + 2 \<le> min 6 (length (''ab'' @ [CHR 0x0D, CHR 0x0A] @ ''cd''))" "\<not> 2 + 2 \<le> (3 :: nat)"
      "0 + length (''ab'' @ [CHR 0x0D, CHR 0x0A]) = 4" "min 3 (length (''ab'' @ [CHR 0x0A] @ [])) = 3" "take 3 (''ab'' @ [CHR 0x0A] @ []) = ''ab'' @ [CHR 0x0A]"
    by simp_all
  note a = readline_splits_lines [OF p(1-3), of 6, unfolded q l(1) if_P [OF l(2)] l(4)] and b = readline_splits_lines [OF p(4-6), of 3, unfolded q l(1,5,6) if_not_P [OF l(3)]]
  have i: "int 2 = 2" "int 3 = 3" by simp_all
  show ?thesis using a b unfolding i by blast
qed

text \<open>A failed write corrupts the position: when the system call fails the error is raised, but its result -1 is
  still added to the read pointer, which moves back by one byte.\<close>

lemma failed_write_moves_pointer:
  assumes "buffer \<noteq> []" "fbo_ok f" "0 < readptr f"
  shows "FileBackedObject_write f buffer (- 1) = (f\<lparr>readptr := readptr f - 1\<rparr>, - 1, Some EIOError)"
proof -
  have "s64 (readptr f - 1) = readptr f - 1" using assms(2,3) by (auto simp: fbo_ok_def intro!: s64_id)
  then show ?thesis using assms(1) by (simp add: FileBackedObject_write_def)
qed

end
