(* ===== verification/Multimap.thy ===== *)
theory Multimap
  imports Aff4_Prelude
begin

text \<open>
  The contract of the object cache as its clients use it: a multimap from byte keys to objects in
  insertion order. The data store and the class registries rely on these laws only.
\<close>

locale multimap =
  fixes entries :: "'c \<Rightarrow> buf \<Rightarrow> 'v list"
    and valid :: "'c \<Rightarrow> bool"
    and put :: "'c \<Rightarrow> buf \<Rightarrow> 'v \<Rightarrow> 'c option"
    and pop :: "'c \<Rightarrow> buf \<Rightarrow> 'c \<times> 'v option"
    and peek :: "'c \<Rightarrow> buf \<Rightarrow> 'v option"
  assumes put_spec: "valid c \<Longrightarrow>
      \<exists>c'. put c k v = Some c' \<and> valid c' \<and> entries c' = (entries c)(k := entries c k @ [v])"
    and pop_spec: "valid c \<Longrightarrow>
      valid (fst (pop c k)) \<and> entries (fst (pop c k)) = (entries c)(k := tl (entries c k)) \<and>
      snd (pop c k) = (case entries c k of [] \<Rightarrow> None | v # _ \<Rightarrow> Some v)"
    and peek_spec: "valid c \<Longrightarrow> peek c k = (case entries c k of [] \<Rightarrow> None | v # _ \<Rightarrow> Some v)"
begin

lemma pop_empty: "valid c \<Longrightarrow> snd (pop c k) = None \<longleftrightarrow> entries c k = []"
  using pop_spec [of c k] by (simp split: list.splits)

lemma peek_put_new:
  assumes "valid c" "peek c k = None" "put c k v = Some c'"
  shows "peek c' k = Some v"
proof -
  have "entries c k = []" using peek_spec [OF assms(1), of k] assms(2) by (simp split: list.splits)
  moreover have "valid c'" "entries c' = (entries c)(k := entries c k @ [v])"
    using put_spec [OF assms(1), of k v] assms(3) by auto
  ultimately show ?thesis using peek_spec [of c' k] by simp
qed

text \<open>Any loop that pops a key until nothing comes back ends with that key empty and every other key as it was.\<close>

lemma pop_until_empty:
  assumes step: "\<And>c. valid c \<Longrightarrow> drain c k = (case pop c k of (c', None) \<Rightarrow> c' | (c', Some v) \<Rightarrow> drain c' k)"
    and v: "valid c"
  shows "valid (drain c k) \<and> entries (drain c k) = (entries c)(k := [])"
  using v
proof (induction "length (entries c k)" arbitrary: c)
  case 0
  with pop_spec [OF 0(2), of k] step [OF 0(2)] show ?case by (cases "pop c k") auto
next
  case (Suc n)
  note P = pop_spec [OF Suc.prems, of k]
  obtain v vs where e: "entries c k = v # vs" using Suc.hyps(2) by (cases "entries c k") auto
  then have "snd (pop c k) = Some v" using P by simp
  then have "drain c k = drain (fst (pop c k)) k" using step [OF Suc.prems] by (cases "pop c k") auto
  moreover have "n = length (entries (fst (pop c k)) k)" using P e Suc.hyps(2) by simp
  ultimately show ?case using Suc.hyps(1) [of "fst (pop c k)"] P by simp
qed

end

end
