(* ===== verification/Cache.thy ===== *)
theory Cache
  imports Multimap
begin

unbundle bit_operations_syntax

text \<open>
  The object cache of \<^verbatim>\<open>lib/aff4_utils.c\<close> (class \<^verbatim>\<open>Cache\<close> of \<^verbatim>\<open>include/aff4_utils.h\<close>): the hash table from byte keys to
  objects on which the data store, the resolver's object caches and the class registries rest.
  Every entry is on two lists, the expiry list of the whole cache and the list of its hash slot, and
  entries with equal keys are kept in insertion order. The theory proves the invariant that ties the
  two lists together, that the operations implement a multimap, and that a bounded cache never holds
  more than its maximum.
\<close>

section \<open>State\<close>

text \<open>A \<^verbatim>\<open>Cache\<close> object in the role of an entry: its address, key and data (which may be NULL).\<close>

record 'd cache_item =
  item_id :: nat
  item_key :: buf
  item_data :: "'d option"

text \<open>
  A \<^verbatim>\<open>Cache\<close> object in the role of the head: \<open>hash_table\<close> is \<open>None\<close> until the first \<^verbatim>\<open>put\<close> allocates it, and a slot is
  \<open>None\<close> until it gets its list head. \<open>fresh_id\<close> supplies the addresses of new entries.
\<close>

record 'd cache =
  cache_list :: "'d cache_item list"
  hash_table :: "'d cache_item list option list option"
  cache_size :: int
  max_cache_size :: int
  hash_table_width :: nat
  fresh_id :: nat

section \<open>Operations\<close>

definition Cache_Con :: "nat \<Rightarrow> int \<Rightarrow> 'd cache" where
  "Cache_Con width maxs =
     \<lparr>cache_list = [], hash_table = None, cache_size = 0, max_cache_size = maxs,
      hash_table_width = width, fresh_id = 0\<rparr>"

text \<open>The destructor of an entry: it unlinks itself from both lists and corrects the tally.\<close>

definition Cache_destructor :: "nat \<Rightarrow> 'd cache \<Rightarrow> 'd cache" where
  "Cache_destructor i c =
     c\<lparr>cache_list := filter (\<lambda>x. item_id x \<noteq> i) (cache_list c),
       hash_table := map_option (map (map_option (filter (\<lambda>x. item_id x \<noteq> i)))) (hash_table c),
       cache_size := cache_size c - 1\<rparr>"

text \<open>The xor of the key's bytes modulo the width; a width of zero traps.\<close>

definition Cache_hash :: "'d cache \<Rightarrow> buf \<Rightarrow> nat option" where
  "Cache_hash c key =
     (if hash_table_width c = 0 then None
      else Some (fold (\<lambda>b r. r XOR of_char b) key (0 :: nat) mod hash_table_width c))"

definition Cache_cmp :: "'d cache_item \<Rightarrow> buf \<Rightarrow> bool" where
  "Cache_cmp i other \<longleftrightarrow> take (length other) (item_key i) = other"

definition item_matches :: "buf \<Rightarrow> 'd cache_item \<Rightarrow> bool" where
  "item_matches key i \<longleftrightarrow> length (item_key i) = length key \<and> Cache_cmp i key"

text \<open>
  The expiry loop at the start of \<^verbatim>\<open>put\<close>: while a bounded cache is full, free the entry at the front of the
  expiry list. With an empty list and a full tally the loop would not end (\<open>None\<close>).
\<close>

function Cache_expire :: "'d cache \<Rightarrow> 'd cache option" where
  "Cache_expire c =
     (if 0 < max_cache_size c \<and> max_cache_size c \<le> cache_size c
      then (case cache_list c of
              [] \<Rightarrow> None
            | i # _ \<Rightarrow> Cache_expire (Cache_destructor (item_id i) c))
      else Some c)"
  by pat_completeness auto
termination
  by (relation "measure (\<lambda>c. length (cache_list c))")
     (auto simp: Cache_destructor_def less_Suc_eq_le)

text \<open>The tally is an unbounded integer here; the \<^verbatim>\<open>int\<close> of the source could only wrap with \<open>2 ^ 31\<close> entries.\<close>

definition Cache_put :: "'d cache \<Rightarrow> buf \<Rightarrow> 'd option \<Rightarrow> ('d cache \<times> 'd cache_item) option" where
  "Cache_put c key dat =
     (case Cache_expire c of
        None \<Rightarrow> None
      | Some c1 \<Rightarrow>
          (let table = (case hash_table c1 of None \<Rightarrow> replicate (hash_table_width c1) None | Some t \<Rightarrow> t)
           in case Cache_hash c1 key of
                None \<Rightarrow> None
              | Some h \<Rightarrow>
                  (let new_cache = \<lparr>item_id = fresh_id c1, item_key = key, item_data = dat\<rparr>;
                       head = (case table ! h of None \<Rightarrow> [] | Some l \<Rightarrow> l)
                   in Some (c1\<lparr>hash_table := Some (table[h := Some (head @ [new_cache])]),
                               cache_list := cache_list c1 @ [new_cache],
                               cache_size := cache_size c1 + 1,
                               fresh_id := Suc (fresh_id c1)\<rparr>, new_cache))))"

text \<open>The search that \<^verbatim>\<open>get\<close>, \<^verbatim>\<open>borrow\<close>, \<^verbatim>\<open>present\<close> and \<^verbatim>\<open>iter\<close> share: the hash list of the key's slot, if there is one.\<close>

definition hash_list :: "'d cache \<Rightarrow> buf \<Rightarrow> 'd cache_item list option" where
  "hash_list c key =
     (case hash_table c of
        None \<Rightarrow> None
      | Some t \<Rightarrow> (case Cache_hash c key of None \<Rightarrow> None | Some h \<Rightarrow> t ! h))"

definition Cache_get :: "'d cache \<Rightarrow> buf \<Rightarrow> 'd cache \<times> 'd option \<times> aff4_err option" where
  "Cache_get c key =
     (case hash_list c key of
        None \<Rightarrow> (c, None, None)
      | Some l \<Rightarrow>
          (case List.find (item_matches key) l of
             None \<Rightarrow> (c, None, Some EKeyError)
           | Some i \<Rightarrow> (Cache_destructor (item_id i) c, item_data i, None)))"

definition Cache_borrow :: "'d cache \<Rightarrow> buf \<Rightarrow> 'd option" where
  "Cache_borrow c key =
     (case hash_list c key of
        None \<Rightarrow> None
      | Some l \<Rightarrow> (case List.find (item_matches key) l of None \<Rightarrow> None | Some i \<Rightarrow> item_data i))"

definition Cache_present :: "'d cache \<Rightarrow> buf \<Rightarrow> bool" where
  "Cache_present c key =
     (case hash_list c key of None \<Rightarrow> False | Some l \<Rightarrow> List.find (item_matches key) l \<noteq> None)"

definition Cache_iter :: "'d cache \<Rightarrow> buf \<Rightarrow> 'd cache_item option" where
  "Cache_iter c key =
     (case hash_list c key of None \<Rightarrow> None | Some l \<Rightarrow> List.find (item_matches key) l)"

text \<open>
  \<^verbatim>\<open>next\<close> follows the hash list from the iterator's entry to the next entry with the same key (or to the list
  head, which ends the iteration), returns the data of the current entry and moves that entry to the
  end of the expiry list.
\<close>

definition items_after :: "'d cache_item \<Rightarrow> 'd cache \<Rightarrow> 'd cache_item list" where
  "items_after i c =
     (case hash_list c (item_key i) of
        None \<Rightarrow> [] | Some l \<Rightarrow> tl (dropWhile (\<lambda>x. item_id x \<noteq> item_id i) l))"

definition Cache_next ::
    "'d cache \<Rightarrow> 'd cache_item option \<Rightarrow> 'd cache \<times> 'd cache_item option \<times> 'd option" where
  "Cache_next c it =
     (case it of
        None \<Rightarrow> (c, None, None)
      | Some i \<Rightarrow>
          (c\<lparr>cache_list := filter (\<lambda>x. item_id x \<noteq> item_id i) (cache_list c) @ [i]\<rparr>,
           List.find (item_matches (item_key i)) (items_after i c), item_data i))"

section \<open>Invariant\<close>

definition hash_of :: "'d cache \<Rightarrow> buf \<Rightarrow> nat" where
  "hash_of c key = fold (\<lambda>b r. r XOR of_char b) key (0 :: nat) mod hash_table_width c"

definition the_table :: "'d cache \<Rightarrow> 'd cache_item list option list" where
  "the_table c = (case hash_table c of None \<Rightarrow> replicate (hash_table_width c) None | Some t \<Rightarrow> t)"

definition slot :: "'d cache \<Rightarrow> nat \<Rightarrow> 'd cache_item list" where
  "slot c h = (case the_table c ! h of None \<Rightarrow> [] | Some l \<Rightarrow> l)"

definition cache_inv :: "'d cache \<Rightarrow> bool" where
  "cache_inv c \<longleftrightarrow>
     0 < hash_table_width c \<and> length (the_table c) = hash_table_width c \<and>
     cache_size c = int (length (cache_list c)) \<and>
     distinct (map item_id (cache_list c)) \<and>
     (\<forall>x \<in> set (cache_list c). item_id x < fresh_id c) \<and>
     (\<forall>h < hash_table_width c. distinct (map item_id (slot c h)) \<and>
        (\<forall>x \<in> set (slot c h). hash_of c (item_key x) = h)) \<and>
     (\<Union>h < hash_table_width c. set (slot c h)) = set (cache_list c)"

text \<open>The entries of a key, oldest first.\<close>

definition cache_entries :: "'d cache \<Rightarrow> buf \<Rightarrow> 'd cache_item list" where
  "cache_entries c key = filter (\<lambda>x. item_key x = key) (slot c (hash_of c key))"

lemma cache_invD:
  assumes "cache_inv c"
  shows "0 < hash_table_width c" "length (the_table c) = hash_table_width c"
    "cache_size c = int (length (cache_list c))" "distinct (map item_id (cache_list c))"
    "\<And>x. x \<in> set (cache_list c) \<Longrightarrow> item_id x < fresh_id c"
    "\<And>h. h < hash_table_width c \<Longrightarrow> distinct (map item_id (slot c h))"
    "\<And>h x. h < hash_table_width c \<Longrightarrow> x \<in> set (slot c h) \<Longrightarrow> hash_of c (item_key x) = h"
    "(\<Union>h < hash_table_width c. set (slot c h)) = set (cache_list c)"
  using assms unfolding cache_inv_def by auto

lemma hash_of_less: "0 < hash_table_width c \<Longrightarrow> hash_of c key < hash_table_width c"
  by (simp add: hash_of_def)

lemma Cache_hash_eq: "0 < hash_table_width c \<Longrightarrow> Cache_hash c key = Some (hash_of c key)"
  by (simp add: Cache_hash_def hash_of_def)

lemma item_matches_iff [simp]: "item_matches key i \<longleftrightarrow> item_key i = key"
  by (auto simp: item_matches_def Cache_cmp_def)

lemma item_matches_eq: "item_matches key = (\<lambda>i. item_key i = key)"
  by (rule ext) simp

lemma item_in_list:
  assumes "cache_inv c" "h < hash_table_width c" "x \<in> set (slot c h)"
  shows "x \<in> set (cache_list c)"
  using cache_invD(8) [OF assms(1)] assms(2,3) by blast

lemma item_id_unique:
  assumes "cache_inv c" "x \<in> set (cache_list c)" "y \<in> set (cache_list c)" "item_id x = item_id y"
  shows "x = y"
  using assms cache_invD(4) [OF assms(1)] by (auto simp: distinct_map inj_on_def)

lemma cache_entries_in_list: "cache_inv c \<Longrightarrow> x \<in> set (cache_entries c k) \<Longrightarrow> x \<in> set (cache_list c)"
  by (auto simp: cache_entries_def intro: item_in_list hash_of_less cache_invD(1))

text \<open>The shared search, over the abstraction.\<close>

lemma find_hash_list:
  assumes "cache_inv c"
  shows "(case hash_list c key of None \<Rightarrow> None | Some l \<Rightarrow> List.find (item_matches key) l)
     = (case cache_entries c key of [] \<Rightarrow> None | i # _ \<Rightarrow> Some i)"
proof -
  have h: "Cache_hash c key = Some (hash_of c key)"
    using cache_invD(1) [OF assms] by (rule Cache_hash_eq)
  have f: "List.find (\<lambda>i. item_key i = key) l
      = (case filter (\<lambda>i. item_key i = key) l of [] \<Rightarrow> None | i # _ \<Rightarrow> Some i)" for l :: "'a cache_item list"
    by (induction l) auto
  show ?thesis
    using cache_invD(1) [OF assms] hash_of_less [of c key]
    by (auto simp: hash_list_def h cache_entries_def slot_def the_table_def item_matches_eq f
        split: option.splits)
qed

lemma Cache_borrow_entries:
  "cache_inv c \<Longrightarrow> Cache_borrow c key = (case cache_entries c key of [] \<Rightarrow> None | i # _ \<Rightarrow> item_data i)"
  using find_hash_list [of c key] by (auto simp: Cache_borrow_def split: option.splits list.splits)

lemma Cache_present_entries: "cache_inv c \<Longrightarrow> Cache_present c key \<longleftrightarrow> cache_entries c key \<noteq> []"
  using find_hash_list [of c key] by (auto simp: Cache_present_def split: option.splits list.splits)

lemma Cache_iter_entries:
  "cache_inv c \<Longrightarrow> Cache_iter c key = (case cache_entries c key of [] \<Rightarrow> None | i # _ \<Rightarrow> Some i)"
  using find_hash_list [of c key] by (simp add: Cache_iter_def)

section \<open>Unlinking an entry\<close>

lemma destructor_fields [simp]:
  "hash_table_width (Cache_destructor i c) = hash_table_width c"
  "max_cache_size (Cache_destructor i c) = max_cache_size c"
  "fresh_id (Cache_destructor i c) = fresh_id c"
  "cache_size (Cache_destructor i c) = cache_size c - 1"
  "cache_list (Cache_destructor i c) = filter (\<lambda>x. item_id x \<noteq> i) (cache_list c)"
  "hash_of (Cache_destructor i c) key = hash_of c key"
  by (simp_all add: Cache_destructor_def hash_of_def)

lemma destructor_table: "length (the_table (Cache_destructor i c)) = length (the_table c)"
  by (auto simp: the_table_def Cache_destructor_def split: option.splits)

lemma destructor_slot:
  "h < length (the_table c) \<Longrightarrow>
     slot (Cache_destructor i c) h = filter (\<lambda>x. item_id x \<noteq> i) (slot c h)"
  by (auto simp: slot_def the_table_def Cache_destructor_def split: option.splits)

lemma filter_id_notin: "i \<notin> item_id ` set xs \<Longrightarrow> filter (\<lambda>y. item_id y \<noteq> i) xs = xs"
  by (induction xs) auto

lemma length_filter_id:
  "distinct (map item_id xs) \<Longrightarrow> x \<in> set xs \<Longrightarrow>
     Suc (length (filter (\<lambda>y. item_id y \<noteq> item_id x) xs)) = length xs"
proof (induction xs)
  case (Cons a xs)
  show ?case
  proof (cases "item_id a = item_id x")
    case True
    then have "filter (\<lambda>y. item_id y \<noteq> item_id x) xs = xs"
      using Cons.prems(1) by (simp add: filter_id_notin)
    with True show ?thesis by simp
  next
    case False
    with Cons show ?thesis by auto
  qed
qed simp

lemma destructor_inv:
  assumes inv: "cache_inv c" and x: "x \<in> set (cache_list c)"
  shows "cache_inv (Cache_destructor (item_id x) c)"
proof -
  let ?c = "Cache_destructor (item_id x) c"
  note I = cache_invD [OF inv]
  have slots: "slot ?c h = filter (\<lambda>y. item_id y \<noteq> item_id x) (slot c h)" if "h < hash_table_width c" for h
    using that I(2) by (simp add: destructor_slot)
  have "distinct (map item_id (slot ?c h)) \<and> (\<forall>y \<in> set (slot ?c h). hash_of ?c (item_key y) = h)"
    if "h < hash_table_width c" for h
    using that I(6,7) [OF that] by (auto simp: slots distinct_map_filter)
  moreover have "(\<Union>h < hash_table_width c. set (slot ?c h))
      = {y \<in> (\<Union>h < hash_table_width c. set (slot c h)). item_id y \<noteq> item_id x}"
    using slots by auto
  moreover have "cache_size ?c = int (length (cache_list ?c))"
    using I(3) length_filter_id [OF I(4) x] by simp
  ultimately show ?thesis
    using I(1,2,4,5,8) by (auto simp: cache_inv_def destructor_table distinct_map_filter)
qed

lemma destructor_entries:
  assumes "cache_inv c"
  shows "cache_entries (Cache_destructor i c) k = filter (\<lambda>x. item_id x \<noteq> i) (cache_entries c k)"
  using cache_invD(1,2) [OF assms] hash_of_less [of c k]
  by (simp add: cache_entries_def destructor_slot conj_commute)

text \<open>Removing the oldest entry of a key removes it from that key only.\<close>

lemma destructor_head_entries:
  assumes inv: "cache_inv c" and e: "cache_entries c k = i # is"
  shows "cache_entries (Cache_destructor (item_id i) c) = (cache_entries c)(k := is)"
proof
  fix k'
  have ilist: "i \<in> set (cache_list c)" and ikey: "item_key i = k"
    using cache_entries_in_list [OF inv, of i k] e by (auto simp: cache_entries_def filter_eq_Cons_iff)
  show "cache_entries (Cache_destructor (item_id i) c) k' = ((cache_entries c)(k := is)) k'"
  proof (cases "k' = k")
    case True
    have "distinct (map item_id (cache_entries c k))"
      using cache_invD(6) [OF inv hash_of_less [OF cache_invD(1) [OF inv]]]
      by (simp add: cache_entries_def distinct_map_filter)
    then have "filter (\<lambda>x. item_id x \<noteq> item_id i) is = is" using e by (simp add: filter_id_notin)
    with True e show ?thesis by (simp add: destructor_entries [OF inv])
  next
    case False
    have "item_id x \<noteq> item_id i" if "x \<in> set (cache_entries c k')" for x
      using that item_id_unique [OF inv cache_entries_in_list [OF inv that] ilist] ikey False
      by (auto simp: cache_entries_def)
    with False show ?thesis by (simp add: destructor_entries [OF inv] filter_id_conv)
  qed
qed

section \<open>Expiry\<close>

declare Cache_expire.simps [simp del]

lemma Cache_expire_unbounded: "max_cache_size c = 0 \<Longrightarrow> Cache_expire c = Some c"
  by (simp add: Cache_expire.simps)

text \<open>
  The expiry loop ends; it frees a prefix of the expiry list, just long enough for one more entry to
  fit, and keeps the invariant.
\<close>

lemma Cache_expire_spec:
  assumes "cache_inv c" "0 \<le> max_cache_size c"
  shows "\<exists>c'. Cache_expire c = Some c' \<and> cache_inv c' \<and> max_cache_size c' = max_cache_size c \<and>
     cache_list c' = drop (if max_cache_size c = 0 then 0
                           else Suc (length (cache_list c)) - nat (max_cache_size c)) (cache_list c)"
  using assms
proof (induction "length (cache_list c)" arbitrary: c)
  case 0
  then have "cache_size c = 0" by (simp add: cache_invD(3))
  with 0 show ?case by (simp add: Cache_expire.simps)
next
  case (Suc n)
  then obtain x xs where l: "cache_list c = x # xs" by (cases "cache_list c") auto
  note I = cache_invD [OF Suc.prems(1)]
  show ?case
  proof (cases "0 < max_cache_size c \<and> max_cache_size c \<le> cache_size c")
    case False
    with Suc I(3) show ?thesis by (auto simp: Cache_expire.simps)
  next
    case True
    let ?c = "Cache_destructor (item_id x) c"
    have inv: "cache_inv ?c" using destructor_inv [OF Suc.prems(1)] l by simp
    have xs: "cache_list ?c = xs" using I(4) l by (simp add: filter_id_notin)
    have "Cache_expire c = Cache_expire ?c" using True l by (subst Cache_expire.simps) simp
    moreover have "n = length (cache_list ?c)" using Suc.hyps(2) xs l by simp
    moreover have "Suc (length (cache_list c)) - nat (max_cache_size c)
        = Suc (Suc (length xs) - nat (max_cache_size c))"
      using True l I(3) by auto
    ultimately show ?thesis
      using Suc.hyps(1) [OF _ inv] Suc.prems(2) True l xs by auto
  qed
qed

section \<open>Putting an entry\<close>

lemma Cache_put_unfold:
  assumes "cache_inv c1" "Cache_expire c = Some c1"
  shows "Cache_put c key dat = (let n = \<lparr>item_id = fresh_id c1, item_key = key, item_data = dat\<rparr> in
     Some (c1\<lparr>hash_table := Some ((the_table c1)[hash_of c1 key := Some (slot c1 (hash_of c1 key) @ [n])]),
              cache_list := cache_list c1 @ [n], cache_size := cache_size c1 + 1,
              fresh_id := Suc (fresh_id c1)\<rparr>, n))"
  using assms Cache_hash_eq [OF cache_invD(1) [OF assms(1)], of key]
  by (simp add: Cache_put_def the_table_def slot_def Let_def)

lemma put_slot:
  assumes "length (the_table c) = hash_table_width c" "h < hash_table_width c"
  shows "slot (c\<lparr>hash_table := Some ((the_table c)[g := Some l]), cache_list := cl, cache_size := z,
              fresh_id := f\<rparr>) h = (if h = g then l else slot c h)"
  using assms by (auto simp: slot_def the_table_def split: option.splits)

lemma Cache_put_spec:
  assumes inv: "cache_inv c" and mx: "0 \<le> max_cache_size c"
  shows "\<exists>c1 c' n. Cache_expire c = Some c1 \<and> cache_inv c1 \<and> Cache_put c key dat = Some (c', n) \<and>
     n = \<lparr>item_id = fresh_id c1, item_key = key, item_data = dat\<rparr> \<and>
     cache_inv c' \<and> max_cache_size c' = max_cache_size c \<and> cache_list c' = cache_list c1 @ [n] \<and>
     cache_entries c' = (cache_entries c1)(key := cache_entries c1 key @ [n])"
proof -
  obtain c1 where c1: "Cache_expire c = Some c1" "cache_inv c1" "max_cache_size c1 = max_cache_size c"
    using Cache_expire_spec [OF assms] by blast
  note I = cache_invD [OF c1(2)]
  define n where "n = \<lparr>item_id = fresh_id c1, item_key = key, item_data = dat\<rparr>"
  define g where "g = hash_of c1 key"
  define c' where "c' = c1\<lparr>hash_table := Some ((the_table c1)[g := Some (slot c1 g @ [n])]),
     cache_list := cache_list c1 @ [n], cache_size := cache_size c1 + 1, fresh_id := Suc (fresh_id c1)\<rparr>"
  have g: "g < hash_table_width c1" unfolding g_def by (rule hash_of_less [OF I(1)])
  have f: "hash_table_width c' = hash_table_width c1" "hash_of c' k = hash_of c1 k"
      "length (the_table c') = length (the_table c1)" for k
    by (simp_all add: c'_def hash_of_def the_table_def)
  have sl: "slot c' h = (if h = g then slot c1 g @ [n] else slot c1 h)" if "h < hash_table_width c1" for h
    unfolding c'_def using put_slot [OF I(2) that] by auto
  have fresh: "fresh_id c1 \<notin> item_id ` set (slot c1 h)" if "h < hash_table_width c1" for h
    using I(5) item_in_list [OF c1(2) that] by (metis imageE less_irrefl)
  have freshl: "fresh_id c1 \<notin> item_id ` set (cache_list c1)" using I(5) by (metis imageE less_irrefl)
  have "(\<Union>h < hash_table_width c1. set (slot c' h)) = insert n (\<Union>h < hash_table_width c1. set (slot c1 h))"
    using sl g by (auto split: if_splits)
  moreover have "distinct (map item_id (slot c' h)) \<and> (\<forall>x \<in> set (slot c' h). hash_of c' (item_key x) = h)"
    if "h < hash_table_width c1" for h
    using I(6,7) [OF that] fresh [OF that] by (auto simp: sl [OF that] f n_def g_def)
  moreover have "cache_list c' = cache_list c1 @ [n]" "cache_size c' = cache_size c1 + 1"
      "fresh_id c' = Suc (fresh_id c1)" "item_id n = fresh_id c1"
    by (simp_all add: c'_def n_def)
  ultimately have "cache_inv c'"
    using I(1,2,3,4,5,8) freshl unfolding cache_inv_def f by (auto simp: less_Suc_eq)
  moreover have "cache_entries c' = (cache_entries c1)(key := cache_entries c1 key @ [n])"
  proof
    fix k
    show "cache_entries c' k = ((cache_entries c1)(key := cache_entries c1 key @ [n])) k"
      using sl [OF hash_of_less [OF I(1)], of k] by (auto simp: cache_entries_def f g_def n_def)
  qed
  moreover have "Cache_put c key dat = Some (c', n)"
    using Cache_put_unfold [OF c1(2,1)] by (simp add: c'_def n_def g_def Let_def)
  ultimately show ?thesis
    using c1 unfolding n_def by (auto simp: c'_def n_def)
qed

section \<open>Getting and iterating\<close>

lemma Cache_get_spec:
  assumes inv: "cache_inv c"
  shows "case cache_entries c key of
      [] \<Rightarrow> fst (Cache_get c key) = c \<and> fst (snd (Cache_get c key)) = None
    | i # is \<Rightarrow> Cache_get c key = (Cache_destructor (item_id i) c, item_data i, None) \<and>
         cache_inv (Cache_destructor (item_id i) c) \<and>
         cache_entries (Cache_destructor (item_id i) c) = (cache_entries c)(key := is)"
proof (cases "cache_entries c key")
  case Nil
  with find_hash_list [OF inv, of key] show ?thesis
    by (auto simp: Cache_get_def split: option.splits)
next
  case (Cons i "is")
  then have i: "i \<in> set (cache_list c)" using cache_entries_in_list [OF inv, of i key] by simp
  from Cons find_hash_list [OF inv, of key]
  have "Cache_get c key = (Cache_destructor (item_id i) c, item_data i, None)"
    by (auto simp: Cache_get_def split: option.splits)
  with Cons show ?thesis
    using destructor_inv [OF inv i] destructor_head_entries [OF inv Cons] by simp
qed

lemma Cache_next_spec:
  assumes inv: "cache_inv c" and e: "cache_entries c k = pre @ i # post"
  shows "\<exists>c'. Cache_next c (Some i) = (c', (case post of [] \<Rightarrow> None | j # _ \<Rightarrow> Some j), item_data i) \<and>
     cache_inv c' \<and> max_cache_size c' = max_cache_size c \<and> set (cache_list c') = set (cache_list c) \<and>
     cache_entries c' = cache_entries c"
proof -
  note I = cache_invD [OF inv]
  define l where "l = slot c (hash_of c k)"
  have hk: "hash_of c k < hash_table_width c" by (rule hash_of_less [OF I(1)])
  have ie: "i \<in> set (cache_entries c k)" using e by simp
  have ik: "item_key i = k" and il: "i \<in> set l" using ie by (auto simp: cache_entries_def l_def)
  then obtain xs ys where l: "l = xs @ i # ys" by (meson split_list)
  have dl: "distinct (map item_id l)" unfolding l_def by (rule I(6) [OF hk])
  have nin: "item_id i \<notin> item_id ` set xs" using dl l by auto
  have di: "distinct (cache_entries c k)"
    using dl by (auto simp: cache_entries_def l_def [symmetric] distinct_map)
  have "pre @ i # post = filter (\<lambda>x. item_key x = k) xs @ i # filter (\<lambda>x. item_key x = k) ys"
    using e ik by (simp add: cache_entries_def l_def [symmetric] l)
  then have post: "post = filter (\<lambda>x. item_key x = k) ys"
    using di e by (subst (asm) append_Cons_eq_iff) auto
  have hl: "hash_list c k = Some l"
    using il I(1) Cache_hash_eq [OF I(1), of k]
    by (auto simp: hash_list_def l_def slot_def the_table_def hk split: option.splits)
  have "dropWhile (\<lambda>x. item_id x \<noteq> item_id i) l = i # ys"
    unfolding l using nin by (subst dropWhile_append2) (auto simp: image_iff)
  then have after: "items_after i c = ys" by (simp add: items_after_def ik hl)
  have nx: "List.find (item_matches k) ys = (case post of [] \<Rightarrow> None | j # _ \<Rightarrow> Some j)"
    unfolding post item_matches_eq by (induction ys) auto
  define c' where "c' = c\<lparr>cache_list := filter (\<lambda>x. item_id x \<noteq> item_id i) (cache_list c) @ [i]\<rparr>"
  have f: "hash_table_width c' = hash_table_width c" "the_table c' = the_table c" "slot c' = slot c"
      "hash_of c' = hash_of c" "fresh_id c' = fresh_id c" "cache_size c' = cache_size c"
    by (auto simp: c'_def the_table_def slot_def hash_of_def fun_eq_iff split: option.split)
  have inl: "i \<in> set (cache_list c)" using cache_entries_in_list [OF inv ie] .
  have st: "set (cache_list c') = set (cache_list c)"
    using inl item_id_unique [OF inv _ inl] by (auto simp: c'_def)
  have "length (cache_list c') = length (cache_list c)"
    using length_filter_id [OF I(4) inl] by (simp add: c'_def)
  moreover have "distinct (map item_id (cache_list c'))"
    using I(4) by (auto simp: c'_def distinct_map_filter)
  ultimately have "cache_inv c'" using inv st by (simp add: cache_inv_def f)
  moreover have "cache_entries c' = cache_entries c" by (simp add: cache_entries_def f fun_eq_iff)
  moreover have "Cache_next c (Some i) = (c', (case post of [] \<Rightarrow> None | j # _ \<Rightarrow> Some j), item_data i)"
    by (simp add: Cache_next_def c'_def ik after nx)
  ultimately show ?thesis using st by (auto simp: c'_def)
qed

section \<open>The cache as a multimap\<close>

definition cache_live :: "'d cache \<Rightarrow> bool" where
  "cache_live c \<longleftrightarrow> cache_inv c \<and> max_cache_size c = 0 \<and> (\<forall>x \<in> set (cache_list c). item_data x \<noteq> None)"

definition cache_values :: "'d cache \<Rightarrow> buf \<Rightarrow> 'd list" where
  "cache_values c k = map (\<lambda>x. the (item_data x)) (cache_entries c k)"

definition cache_pop :: "'d cache \<Rightarrow> buf \<Rightarrow> 'd cache \<times> 'd option" where
  "cache_pop c k = (case Cache_get c k of (c', r, _) \<Rightarrow> (c', r))"

definition cache_add :: "'d cache \<Rightarrow> buf \<Rightarrow> 'd \<Rightarrow> 'd cache option" where
  "cache_add c k v = map_option fst (Cache_put c k (Some v))"

lemma cache_live_entry: "cache_live c \<Longrightarrow> x \<in> set (cache_entries c k) \<Longrightarrow> item_data x = Some (the (item_data x))"
  unfolding cache_live_def by (metis cache_entries_in_list option.exhaust_sel)

lemma Cache_Con_inv:
  "0 < w \<Longrightarrow> cache_inv (Cache_Con w m :: 'a cache) \<and> cache_entries (Cache_Con w m :: 'a cache) k = []"
  by (simp add: cache_inv_def Cache_Con_def the_table_def slot_def cache_entries_def hash_of_def)

lemma Cache_Con_live:
  "0 < w \<Longrightarrow> cache_live (Cache_Con w 0 :: 'a cache) \<and> cache_values (Cache_Con w 0 :: 'a cache) = (\<lambda>_. [])"
  using Cache_Con_inv [of w 0, where 'a = 'a]
  by (auto simp: cache_live_def cache_values_def fun_eq_iff Cache_Con_def)

interpretation cmap: multimap cache_values cache_live cache_add cache_pop Cache_borrow
proof
  fix c :: "'d cache" and k v
  assume live: "cache_live c"
  obtain c' n where "Cache_put c k (Some v) = Some (c', n)" "cache_inv c'" "max_cache_size c' = 0"
      "n = \<lparr>item_id = fresh_id c, item_key = k, item_data = Some v\<rparr>"
      "cache_list c' = cache_list c @ [n]"
      "cache_entries c' = (cache_entries c)(k := cache_entries c k @ [n])"
    using Cache_put_spec [of c k "Some v"] live Cache_expire_unbounded [of c] by (auto simp: cache_live_def)
  with live show "\<exists>c'. cache_add c k v = Some c' \<and> cache_live c' \<and>
      cache_values c' = (cache_values c)(k := cache_values c k @ [v])"
    by (auto simp: cache_add_def cache_live_def cache_values_def fun_eq_iff)
next
  fix c :: "'d cache" and k
  assume live: "cache_live c"
  then have inv: "cache_inv c" by (simp add: cache_live_def)
  show "cache_live (fst (cache_pop c k)) \<and>
      cache_values (fst (cache_pop c k)) = (cache_values c)(k := tl (cache_values c k)) \<and>
      snd (cache_pop c k) = (case cache_values c k of [] \<Rightarrow> None | v # _ \<Rightarrow> Some v)"
  proof (cases "cache_entries c k")
    case Nil
    obtain c' r e where "Cache_get c k = (c', r, e)" by (metis prod_cases3)
    with Nil live Cache_get_spec [OF inv, of k] show ?thesis
      by (auto simp: cache_pop_def cache_values_def fun_eq_iff)
  next
    case (Cons i "is")
    with Cache_get_spec [OF inv, of k] live cache_live_entry [OF live, of i k] show ?thesis
      by (auto simp: cache_pop_def cache_values_def fun_eq_iff cache_live_def)
  qed
next
  fix c :: "'d cache" and k
  assume live: "cache_live c"
  then show "Cache_borrow c k = (case cache_values c k of [] \<Rightarrow> None | v # _ \<Rightarrow> Some v)"
    using cache_live_entry [OF live, of _ k] Cache_borrow_entries [of c k]
    by (auto simp: cache_values_def cache_live_def split: list.splits)
qed

section \<open>Properties\<close>

text \<open>C10. The invariant of the cache (the tally counts the expiry list, every entry is on exactly one hash list, in the
  slot of its key's hash, addresses are unique) holds of a new cache and is kept by every operation
  that changes the cache: put, get, next, and the expiry that put performs.\<close>

theorem cache_operations_keep_invariant:
  "(0 < w \<longrightarrow> cache_inv (Cache_Con w m :: 'd cache)) \<and>
   (cache_inv (c :: 'd cache) \<longrightarrow> 0 \<le> max_cache_size c \<longrightarrow> (\<exists>c' n. Cache_put c k d = Some (c', n) \<and> cache_inv c')) \<and>
   (cache_inv c \<longrightarrow> cache_inv (fst (Cache_get c k))) \<and>
   (cache_inv c \<longrightarrow> i \<in> set (cache_entries c k) \<longrightarrow> cache_inv (fst (Cache_next c (Some i))))"
proof (intro conjI impI)
  show "cache_inv (Cache_Con w m :: 'd cache)" if "0 < w" using Cache_Con_inv [OF that] by blast
  show "\<exists>c' n. Cache_put c k d = Some (c', n) \<and> cache_inv c'" if "cache_inv c" "0 \<le> max_cache_size c"
    using Cache_put_spec [OF that] by blast
  show "cache_inv (fst (Cache_get c k))" if "cache_inv c"
    using Cache_get_spec [OF that, of k] that by (auto split: list.splits)
  show "cache_inv (fst (Cache_next c (Some i)))" if inv: "cache_inv c" and i: "i \<in> set (cache_entries c k)"
  proof -
    obtain pre post where "cache_entries c k = pre @ i # post" using split_list [OF i] by blast
    from Cache_next_spec [OF inv this] show ?thesis by auto
  qed
qed

theorem cache_operations_keep_invariant_witness:
  "cache_inv (Cache_Con 4 2 :: nat cache) \<and>
   (\<exists>c' n. Cache_put (Cache_Con 4 2 :: nat cache) ''k'' (Some 7) = Some (c', n) \<and> cache_inv c')"
  using cache_operations_keep_invariant [of 4 2 "Cache_Con 4 2 :: nat cache" "''k''" "Some 7"
      "\<lparr>item_id = 0, item_key = [], item_data = None\<rparr>"]
  by (simp add: Cache_Con_def)

text \<open>C36. A bounded cache never overflows: after a put into a cache with a positive maximum the tally is at most the
  maximum, the new entry is the last of the expiry list and the entries that were dropped are the
  ones at the front of that list.\<close>

theorem cache_put_bounded:
  assumes "cache_inv c" "0 < max_cache_size c"
  shows "\<exists>c' n j. Cache_put c key dat = Some (c', n) \<and> item_key n = key \<and> item_data n = dat \<and>
     cache_size c' \<le> max_cache_size c \<and> cache_list c' = drop j (cache_list c) @ [n] \<and>
     (cache_size c < max_cache_size c \<longrightarrow> j = 0)"
proof -
  obtain c1 c' n where c1: "Cache_expire c = Some c1" and p: "Cache_put c key dat = Some (c', n)"
      "n = \<lparr>item_id = fresh_id c1, item_key = key, item_data = dat\<rparr>" "cache_inv c'"
      "cache_list c' = cache_list c1 @ [n]"
    using Cache_put_spec [of c key dat] assms by auto
  define j where "j = Suc (length (cache_list c)) - nat (max_cache_size c)"
  have l: "cache_list c1 = drop j (cache_list c)"
    using Cache_expire_spec [of c] assms c1 by (auto simp: j_def)
  have "cache_size c' = int (length (cache_list c) - j) + 1"
    using cache_invD(3) [OF p(3)] p(4) l by simp
  moreover have "\<dots> \<le> max_cache_size c" using assms(2) unfolding j_def by linarith
  moreover have "cache_size c < max_cache_size c \<longrightarrow> j = 0"
    using cache_invD(3) [OF assms(1)] by (auto simp: j_def)
  ultimately show ?thesis using p l by auto
qed

theorem cache_put_bounded_witness:
  "\<exists>c' n j. Cache_put (Cache_Con 4 1 :: nat cache) ''k'' (Some 7) = Some (c', n) \<and> item_key n = ''k'' \<and>
     item_data n = Some 7 \<and> cache_size c' \<le> 1 \<and> cache_list c' = drop j [] @ [n] \<and> j = 0"
  using cache_put_bounded [of "Cache_Con 4 1 :: nat cache" "''k''" "Some 7"] Cache_Con_inv [of 4 1, where 'a = nat]
  by (simp add: Cache_Con_def)

end
