(* ===== verification/Data_Store.thy ===== *)
theory Data_Store
  imports Cache
begin

text \<open>
  The in-memory triple store of \<^verbatim>\<open>lib/data_store.c\<close> (classes \<^verbatim>\<open>DataStoreObject\<close> and \<^verbatim>\<open>MemoryDataStore\<close> of
  \<^verbatim>\<open>include/aff4_resolver.h\<close>). URIs and attributes are interned to numbers by two caches that share one counter; the
  values of a (URI, attribute) pair live in a third cache under the pair of numbers, laid out as two
  64-bit words. The theory proves that these three caches implement a map from (URI, attribute) to the
  list of its values, and states that contract as the interface \<open>triple_store\<close> the resolver relies on.
\<close>

section \<open>Contract\<close>

locale triple_store =
  fixes vals :: "'s \<Rightarrow> buf \<times> buf \<Rightarrow> 'v list"
    and ok :: "'s \<Rightarrow> bool"
    and room :: "'s \<Rightarrow> nat \<Rightarrow> bool"
    and set_value :: "'s \<Rightarrow> buf \<Rightarrow> buf \<Rightarrow> 'v \<Rightarrow> 's option"
    and add_value :: "'s \<Rightarrow> buf \<Rightarrow> buf \<Rightarrow> 'v \<Rightarrow> 's option"
    and del_values :: "'s \<Rightarrow> buf \<Rightarrow> buf \<Rightarrow> 's option"
    and get_value :: "'s \<Rightarrow> buf \<Rightarrow> buf \<Rightarrow> ('s \<times> 'v option) option"
  assumes set_spec: "ok s \<Longrightarrow> room s (Suc n) \<Longrightarrow> \<exists>s'. set_value s u a v = Some s' \<and> ok s' \<and> room s' n \<and>
      vals s' = (vals s)((u, a) := [v])"
    and add_spec: "ok s \<Longrightarrow> room s (Suc n) \<Longrightarrow> \<exists>s'. add_value s u a v = Some s' \<and> ok s' \<and> room s' n \<and>
      vals s' = (vals s)((u, a) := vals s (u, a) @ [v])"
    and del_spec: "ok s \<Longrightarrow> room s (Suc n) \<Longrightarrow> \<exists>s'. del_values s u a = Some s' \<and> ok s' \<and> room s' n \<and>
      vals s' = (vals s)((u, a) := [])"
    and get_spec: "ok s \<Longrightarrow> room s (Suc n) \<Longrightarrow> \<exists>s' r. get_value s u a = Some (s', r) \<and> ok s' \<and> room s' n \<and>
      vals s' = vals s \<and> r = (case vals s (u, a) of [] \<Rightarrow> None | v # _ \<Rightarrow> Some v)"
begin

lemma set_then_get:
  assumes "ok s" "room s 2"
  shows "\<exists>s1 s2. set_value s u a v = Some s1 \<and> get_value s1 u a = Some (s2, Some v)"
proof -
  obtain s1 where s1: "set_value s u a v = Some s1" "ok s1" "room s1 1" "vals s1 = (vals s)((u, a) := [v])"
    using set_spec [of s 1 u a v] assms by (auto simp: numeral_2_eq_2)
  then show ?thesis using get_spec [of s1 0 u a] by auto
qed

lemma set_then_get_other:
  assumes "ok s" "room s 2" "(u', a') \<noteq> (u, a)"
  shows "\<exists>s1 s2 s3 r. set_value s u a v = Some s1 \<and> get_value s1 u' a' = Some (s2, r) \<and>
     get_value s u' a' = Some (s3, r)"
proof -
  obtain s1 where s1: "set_value s u a v = Some s1" "ok s1" "room s1 1" "vals s1 = (vals s)((u, a) := [v])"
    using set_spec [of s 1 u a v] assms by (auto simp: numeral_2_eq_2)
  then show ?thesis using get_spec [of s1 0 u' a'] get_spec [of s 1 u' a'] assms
    by (fastforce simp: numeral_2_eq_2)
qed

lemma del_then_get:
  assumes "ok s" "room s 2"
  shows "\<exists>s1 s2. del_values s u a = Some s1 \<and> get_value s1 u a = Some (s2, None)"
proof -
  obtain s1 where s1: "del_values s u a = Some s1" "ok s1" "room s1 1" "vals s1 = (vals s)((u, a) := [])"
    using del_spec [of s 1 u a] assms by (auto simp: numeral_2_eq_2)
  then show ?thesis using get_spec [of s1 0 u a] by auto
qed

end

section \<open>State\<close>

record data_store_object =
  obj_data :: buf
  rdf_type :: buf

record memory_data_store =
  id_counter :: int
  urn_db :: "int cache"
  attribute_db :: "int cache"
  data_db :: "data_store_object cache"

section \<open>Operations\<close>

definition DataStoreObject_Con :: "buf \<Rightarrow> buf \<Rightarrow> data_store_object" where
  "DataStoreObject_Con dat typ = \<lparr>obj_data = dat, rdf_type = typ\<rparr>"

definition DataStore_Con :: memory_data_store where
  "DataStore_Con = \<lparr>id_counter = 0, urn_db = Cache_Con 100 0, attribute_db = Cache_Con 100 0,
     data_db = Cache_Con 100 0\<rparr>"

text \<open>Intern a string in one of the two name caches; a new name takes the next number of the counter.\<close>

definition get_or_create :: "int \<Rightarrow> int cache \<Rightarrow> buf \<Rightarrow> (int \<times> int cache \<times> int) option" where
  "get_or_create counter c key =
     (case Cache_borrow c key of
        Some v \<Rightarrow> Some (counter, c, v)
      | None \<Rightarrow>
          (let counter' = s32 (counter + 1); v = s64 (u64 counter')
           in case Cache_put c key (Some v) of
                None \<Rightarrow> None
              | Some (c', _) \<Rightarrow> Some (counter', c', v)))"

text \<open>The two 64-bit words that index the data cache.\<close>

definition data_ptr :: "int \<Rightarrow> int \<Rightarrow> buf" where
  "data_ptr u a = le_bytes 8 (nat (u64 u)) @ le_bytes 8 (nat (u64 a))"

text \<open>The common prefix of every operation: intern the URI, then the attribute, and build the index.\<close>

definition DataStore_index ::
    "memory_data_store \<Rightarrow> buf \<Rightarrow> buf \<Rightarrow> (memory_data_store \<times> buf) option" where
  "DataStore_index d uri attr =
     (case get_or_create (id_counter d) (urn_db d) uri of
        None \<Rightarrow> None
      | Some (n1, c1, u) \<Rightarrow>
          (case get_or_create n1 (attribute_db d) attr of
             None \<Rightarrow> None
           | Some (n2, c2, a) \<Rightarrow>
               Some (d\<lparr>id_counter := n2, urn_db := c1, attribute_db := c2\<rparr>, data_ptr u a)))"

text \<open>
  The loop that takes every object of an index out of the data cache and frees it. (A table that does
  not have its width of slots would be read out of bounds; the invariant excludes it.)
\<close>

definition table_items :: "'d cache \<Rightarrow> nat" where
  "table_items c = (case hash_table c of None \<Rightarrow> 0
     | Some t \<Rightarrow> sum_list (map (\<lambda>s. case s of None \<Rightarrow> 0 | Some l \<Rightarrow> length l) t))"

lemma sum_list_filter_less:
  assumes "h < length t" "t ! h = Some l" "x \<in> set l" "\<not> P x"
  shows "sum_list (map (\<lambda>s. case s of None \<Rightarrow> 0 | Some l \<Rightarrow> length l) (map (map_option (filter P)) t))
       < sum_list (map (\<lambda>s. case s of None \<Rightarrow> (0::nat) | Some l \<Rightarrow> length l) t)"
  using assms
proof (induction t arbitrary: h)
  case (Cons s t)
  have le: "sum_list (map (\<lambda>s. case s of None \<Rightarrow> 0 | Some l \<Rightarrow> length l) (map (map_option (filter P)) t))
      \<le> sum_list (map (\<lambda>s. case s of None \<Rightarrow> (0::nat) | Some l \<Rightarrow> length l) t)"
    by (induction t) (auto simp: add_le_mono split: option.splits)
  have le1: "length (filter P l) < length l" using Cons.prems(3,4) by (rule length_filter_less)
  show ?case
  proof (cases h)
    case 0
    with Cons.prems(2) le le1 show ?thesis by simp
  next
    case (Suc g)
    then have "sum_list (map (\<lambda>s. case s of None \<Rightarrow> 0 | Some l \<Rightarrow> length l) (map (map_option (filter P)) t))
      < sum_list (map (\<lambda>s. case s of None \<Rightarrow> (0::nat) | Some l \<Rightarrow> length l) t)"
      using Cons by auto
    then show ?thesis by (cases s) (auto simp: add_le_less_mono)
  qed
qed simp

lemma Cache_get_shrinks:
  assumes "Cache_get c key = (c', Some v, e)" "length (the_table c) = hash_table_width c"
  shows "table_items c' < table_items c"
proof -
  from assms(1) obtain l i where l: "hash_list c key = Some l" "List.find (item_matches key) l = Some i"
      "c' = Cache_destructor (item_id i) c"
    by (auto simp: Cache_get_def split: option.splits)
  from l(1) obtain t h where t: "hash_table c = Some t" "Cache_hash c key = Some h" "t ! h = Some l"
    by (auto simp: hash_list_def split: option.splits)
  have "h < length t"
    using t assms(2) by (auto simp: Cache_hash_def the_table_def split: if_splits)
  moreover have "i \<in> set l" using l(2) by (auto simp: find_Some_iff)
  ultimately show ?thesis
    using sum_list_filter_less [of h t l i "\<lambda>x. item_id x \<noteq> item_id i"] t l(3)
    by (simp add: table_items_def Cache_destructor_def)
qed

lemma Cache_get_table:
  "length (the_table (fst (Cache_get c key))) = length (the_table c) \<and>
   hash_table_width (fst (Cache_get c key)) = hash_table_width c"
  by (auto simp: Cache_get_def destructor_table split: option.splits)

function data_clear :: "'d cache \<Rightarrow> buf \<Rightarrow> 'd cache option" where
  "data_clear c key =
     (if length (the_table c) \<noteq> hash_table_width c then None
      else case Cache_get c key of
             (c', None, _) \<Rightarrow> Some c'
           | (c', Some v, _) \<Rightarrow> data_clear c' key)"
  by pat_completeness auto
termination
  by (relation "measure (\<lambda>(c, key). table_items c)") (auto dest!: sym [of "(_, Some _, _)"] Cache_get_shrinks)

declare data_clear.simps [simp del]

definition DataStore_del :: "memory_data_store \<Rightarrow> buf \<Rightarrow> buf \<Rightarrow> memory_data_store option" where
  "DataStore_del d uri attr =
     (case DataStore_index d uri attr of
        None \<Rightarrow> None
      | Some (d1, p) \<Rightarrow> map_option (\<lambda>c. d1\<lparr>data_db := c\<rparr>) (data_clear (data_db d1) p))"

definition DataStore_set ::
    "memory_data_store \<Rightarrow> buf \<Rightarrow> buf \<Rightarrow> data_store_object \<Rightarrow> memory_data_store option" where
  "DataStore_set d uri attr value_obj =
     (case DataStore_index d uri attr of
        None \<Rightarrow> None
      | Some (d1, p) \<Rightarrow>
          (case data_clear (data_db d1) p of
             None \<Rightarrow> None
           | Some c \<Rightarrow> map_option (\<lambda>(c', _). d1\<lparr>data_db := c'\<rparr>) (Cache_put c p (Some value_obj))))"

definition DataStore_add ::
    "memory_data_store \<Rightarrow> buf \<Rightarrow> buf \<Rightarrow> data_store_object \<Rightarrow> memory_data_store option" where
  "DataStore_add d uri attr value_obj =
     (case DataStore_index d uri attr of
        None \<Rightarrow> None
      | Some (d1, p) \<Rightarrow>
          map_option (\<lambda>(c', _). d1\<lparr>data_db := c'\<rparr>) (Cache_put (data_db d1) p (Some value_obj)))"

definition DataStore_get ::
    "memory_data_store \<Rightarrow> buf \<Rightarrow> buf \<Rightarrow> (memory_data_store \<times> data_store_object option) option" where
  "DataStore_get d uri attr =
     map_option (\<lambda>(d1, p). (d1, Cache_borrow (data_db d1) p)) (DataStore_index d uri attr)"

definition DataStore_iter ::
    "memory_data_store \<Rightarrow> buf \<Rightarrow> buf \<Rightarrow> (memory_data_store \<times> data_store_object cache_item option) option" where
  "DataStore_iter d uri attr =
     map_option (\<lambda>(d1, p). (d1, Cache_iter (data_db d1) p)) (DataStore_index d uri attr)"

definition DataStore_next ::
    "memory_data_store \<Rightarrow> data_store_object cache_item option \<Rightarrow>
     memory_data_store \<times> data_store_object cache_item option \<times> data_store_object option" where
  "DataStore_next d it =
     (case Cache_next (data_db d) it of (c', it', r) \<Rightarrow> (d\<lparr>data_db := c'\<rparr>, it', r))"

section \<open>Interning\<close>

definition intern_ok :: "int \<Rightarrow> int cache \<Rightarrow> bool" where
  "intern_ok counter c \<longleftrightarrow> cache_live c \<and> 0 \<le> counter \<and>
     (\<forall>k. length (cache_values c k) \<le> 1) \<and>
     (\<forall>k. \<forall>v \<in> set (cache_values c k). 1 \<le> v \<and> v \<le> counter) \<and>
     (\<forall>k k' v. v \<in> set (cache_values c k) \<longrightarrow> v \<in> set (cache_values c k') \<longrightarrow> k = k')"

definition interned :: "int cache \<Rightarrow> buf \<Rightarrow> int option" where
  "interned c k = (case cache_values c k of [] \<Rightarrow> None | v # _ \<Rightarrow> Some v)"

lemma interned_range: "intern_ok n c \<Longrightarrow> interned c k = Some v \<Longrightarrow> 1 \<le> v \<and> v \<le> n"
  unfolding intern_ok_def interned_def by (metis list.case_eq_if list.set_sel(1) option.distinct(1) option.inject)

lemma interned_inject:
  "intern_ok n c \<Longrightarrow> interned c k = Some v \<Longrightarrow> interned c k' = Some v \<Longrightarrow> k = k'"
  unfolding intern_ok_def interned_def by (metis list.case_eq_if list.set_sel(1) option.distinct(1) option.inject)

lemma intern_ok_mono: "intern_ok n c \<Longrightarrow> n \<le> m \<Longrightarrow> intern_ok m c"
  unfolding intern_ok_def by fastforce

lemma get_or_create_spec:
  assumes ok: "intern_ok n c" and bound: "n + 1 < 2 ^ 31"
  shows "\<exists>n' c' v. get_or_create n c key = Some (n', c', v) \<and> intern_ok n' c' \<and> n \<le> n' \<and> n' \<le> n + 1 \<and>
     interned c' = (interned c)(key \<mapsto> v) \<and> (interned c key = Some v \<or> interned c key = None \<and> n < v)"
proof -
  have live: "cache_live c" and n0: "0 \<le> n" using ok by (auto simp: intern_ok_def)
  have b: "Cache_borrow c key = interned c key"
    using cmap.peek_spec [OF live, of key] by (simp add: interned_def)
  show ?thesis
  proof (cases "interned c key")
    case (Some v)
    then show ?thesis using ok by (auto simp: get_or_create_def b fun_upd_idem)
  next
    case None
    then have e: "cache_values c key = []" by (simp add: interned_def split: list.splits)
    have cv: "s32 (n + 1) = n + 1" "s64 (u64 (n + 1)) = n + 1"
      using n0 bound by (simp_all add: s32_id u64_id s64_id)
    obtain c' where c': "cache_add c key (n + 1) = Some c'" "cache_live c'"
        "cache_values c' = (cache_values c)(key := cache_values c key @ [n + 1])"
      using cmap.put_spec [OF live] by blast
    then obtain i where put: "Cache_put c key (Some (n + 1)) = Some (c', i)"
      by (auto simp: cache_add_def)
    have nin: "n + 1 \<notin> set (cache_values c k)" for k using ok by (fastforce simp: intern_ok_def)
    have up: "v \<le> n + 1" if "v \<in> set (cache_values c k)" for v k
      using that ok by (force simp: intern_ok_def)
    have "intern_ok (n + 1) c'"
      using ok c' e nin up unfolding intern_ok_def by (auto split: if_splits)
    moreover have "interned c' = (interned c)(key \<mapsto> n + 1)"
      using c'(3) e by (auto simp: interned_def fun_eq_iff)
    ultimately show ?thesis using None put by (simp add: get_or_create_def b cv Let_def)
  qed
qed

lemma data_ptr_inject:
  assumes "data_ptr u a = data_ptr u' a'"
    and "0 \<le> u" "u < 2 ^ 64" "0 \<le> a" "a < 2 ^ 64" "0 \<le> u'" "u' < 2 ^ 64" "0 \<le> a'" "a' < 2 ^ 64"
  shows "u = u' \<and> a = a'"
proof -
  have "le_bytes 8 (nat u) = le_bytes 8 (nat u') \<and> le_bytes 8 (nat a) = le_bytes 8 (nat a')"
    using assms by (simp add: data_ptr_def u64_id)
  moreover have "nat x < 256 ^ 8" if "0 \<le> x" "x < 2 ^ 64" for x :: int using that by simp
  ultimately have "nat u = nat u'" "nat a = nat a'"
    using le_bytes_inject [of 8 "nat u" "nat u'"] le_bytes_inject [of 8 "nat a" "nat a'"] assms(2-)
    by blast+
  then show ?thesis using assms(2-) by (simp add: nat_eq_iff)
qed

section \<open>The store as a map to value lists\<close>

definition ds_inv :: "memory_data_store \<Rightarrow> bool" where
  "ds_inv d \<longleftrightarrow> id_counter d < 2 ^ 31 \<and> intern_ok (id_counter d) (urn_db d) \<and>
     intern_ok (id_counter d) (attribute_db d) \<and> cache_live (data_db d) \<and>
     (\<forall>k. cache_values (data_db d) k \<noteq> [] \<longrightarrow>
        (\<exists>u a. 1 \<le> u \<and> u \<le> id_counter d \<and> 1 \<le> a \<and> a \<le> id_counter d \<and> k = data_ptr u a))"

definition ds_room :: "memory_data_store \<Rightarrow> nat \<Rightarrow> bool" where
  "ds_room d n \<longleftrightarrow> id_counter d + 2 * int n < 2 ^ 31"

definition ds_vals :: "memory_data_store \<Rightarrow> buf \<times> buf \<Rightarrow> data_store_object list" where
  "ds_vals d = (\<lambda>(uri, attr). case (interned (urn_db d) uri, interned (attribute_db d) attr) of
      (Some u, Some a) \<Rightarrow> cache_values (data_db d) (data_ptr u a)
    | _ \<Rightarrow> [])"

lemma DataStore_Con_inv: "ds_inv DataStore_Con \<and> ds_vals DataStore_Con = (\<lambda>_. [])"
  using Cache_Con_live [of 100, where 'a = int] Cache_Con_live [of 100, where 'a = data_store_object]
  by (simp add: ds_inv_def DataStore_Con_def intern_ok_def ds_vals_def interned_def fun_eq_iff)

text \<open>An index that no pair of numbers in use can have holds nothing, and indexes of different pairs differ.\<close>

lemma data_ptr_free:
  assumes inv: "ds_inv d" and r: "0 \<le> u" "u < 2 ^ 32" "0 \<le> a" "a < 2 ^ 32"
    and new: "id_counter d < u \<or> id_counter d < a"
  shows "cache_values (data_db d) (data_ptr u a) = []"
proof (rule ccontr)
  assume "cache_values (data_db d) (data_ptr u a) \<noteq> []"
  then obtain u' a' where ua: "1 \<le> u'" "u' \<le> id_counter d" "1 \<le> a'" "a' \<le> id_counter d"
      "data_ptr u a = data_ptr u' a'"
    using inv by (auto simp: ds_inv_def)
  have "id_counter d < 2 ^ 31" using inv by (simp add: ds_inv_def)
  with data_ptr_inject [OF ua(5)] ua r new show False by auto
qed

text \<open>Interning the names of an operation changes no value list.\<close>

lemma DataStore_index_spec:
  assumes inv: "ds_inv d" and room: "ds_room d (Suc n)"
  shows "\<exists>d' u a. DataStore_index d uri attr = Some (d', data_ptr u a) \<and> ds_inv d' \<and> ds_room d' n \<and>
     data_db d' = data_db d \<and> interned (urn_db d') uri = Some u \<and> interned (attribute_db d') attr = Some a \<and>
     ds_vals d' = ds_vals d"
proof -
  have I: "intern_ok (id_counter d) (urn_db d)" "intern_ok (id_counter d) (attribute_db d)"
      "id_counter d + 2 < 2 ^ 31" "0 \<le> id_counter d"
    using inv room by (auto simp: ds_inv_def ds_room_def intern_ok_def)
  have I1: "id_counter d + 1 < 2 ^ 31" using I(3) by linarith
  obtain n1 c1 u where g1: "get_or_create (id_counter d) (urn_db d) uri = Some (n1, c1, u)"
      "intern_ok n1 c1" "id_counter d \<le> n1" "n1 \<le> id_counter d + 1" "interned c1 = (interned (urn_db d))(uri \<mapsto> u)"
      "interned (urn_db d) uri = Some u \<or> interned (urn_db d) uri = None \<and> id_counter d < u"
    using get_or_create_spec [OF I(1) I1, of uri] by blast
  have J: "intern_ok n1 (attribute_db d)" using I(2) g1(3) by (rule intern_ok_mono)
  have J1: "n1 + 1 < 2 ^ 31" using g1(4) I(3) by linarith
  obtain n2 c2 a where g2: "get_or_create n1 (attribute_db d) attr = Some (n2, c2, a)"
      "intern_ok n2 c2" "n1 \<le> n2" "n2 \<le> n1 + 1" "interned c2 = (interned (attribute_db d))(attr \<mapsto> a)"
      "interned (attribute_db d) attr = Some a \<or> interned (attribute_db d) attr = None \<and> n1 < a"
    using get_or_create_spec [OF J J1, of attr] by blast
  define d' where "d' = d\<lparr>id_counter := n2, urn_db := c1, attribute_db := c2\<rparr>"
  have ur: "1 \<le> u" "u \<le> n2" and ar: "1 \<le> a" "a \<le> n2"
    using interned_range [OF g1(2), of uri u] interned_range [OF g2(2), of attr a] g1(5) g2(3,5) by auto
  have n2: "n2 \<le> id_counter d + 2" "id_counter d \<le> n2" using g1(3,4) g2(3,4) by auto
  have ix: "DataStore_index d uri attr = Some (d', data_ptr u a)"
    by (simp add: DataStore_index_def g1(1) g2(1) d'_def)
  have "\<exists>u a. 1 \<le> u \<and> u \<le> n2 \<and> 1 \<le> a \<and> a \<le> n2 \<and> k = data_ptr u a"
    if "cache_values (data_db d) k \<noteq> []" for k
  proof -
    obtain u a where "1 \<le> u" "u \<le> id_counter d" "1 \<le> a" "a \<le> id_counter d" "k = data_ptr u a"
      using inv \<open>cache_values (data_db d) k \<noteq> []\<close> unfolding ds_inv_def by blast
    then have "1 \<le> u \<and> u \<le> n2 \<and> 1 \<le> a \<and> a \<le> n2 \<and> k = data_ptr u a" using n2(2) by simp
    then show ?thesis by blast
  qed
  moreover have "n2 < 2 ^ 31" using n2(1) I(3) by linarith
  moreover have "cache_live (data_db d)" using inv by (simp add: ds_inv_def)
  ultimately have "ds_inv d'"
    using g2(2) intern_ok_mono [OF g1(2) g2(3)] unfolding ds_inv_def d'_def by simp
  moreover have "ds_room d' n" using room n2 by (simp add: ds_room_def d'_def)
  moreover have "ds_vals d' (x, y) = ds_vals d (x, y)" for x y
  proof (cases "interned (urn_db d) x \<noteq> None \<and> interned (attribute_db d) y \<noteq> None")
    case True
    then have "interned c1 x = interned (urn_db d) x" "interned c2 y = interned (attribute_db d) y"
      using g1(5,6) g2(5,6) by auto
    then show ?thesis by (simp add: ds_vals_def d'_def split: option.split)
  next
    case False
    then have old: "ds_vals d (x, y) = []" by (auto simp: ds_vals_def split: option.splits)
    show ?thesis
    proof (cases "interned c1 x = None \<or> interned c2 y = None")
      case True
      then show ?thesis using old by (auto simp: ds_vals_def d'_def split: option.splits)
    next
      case nn: False
      then obtain u' a' where ua: "interned c1 x = Some u'" "interned c2 y = Some a'" by auto
      have r: "1 \<le> u'" "u' \<le> n1" "1 \<le> a'" "a' \<le> n2"
        using interned_range [OF g1(2) ua(1)] interned_range [OF g2(2) ua(2)] by auto
      have "id_counter d < u' \<or> id_counter d < a'"
        using False ua g1(3,5,6) g2(5,6) by (auto split: if_splits)
      then have "cache_values (data_db d) (data_ptr u' a') = []"
        using data_ptr_free [OF inv, of u' a'] r n2 g1(4) I(3) by simp
      then show ?thesis using old ua by (simp add: ds_vals_def d'_def)
    qed
  qed
  ultimately show ?thesis using ix g1(5) g2(5) by (auto simp: d'_def)
qed

text \<open>Replacing the list of one index changes one pair of the map and keeps the invariant.\<close>

lemma ds_replace:
  assumes inv: "ds_inv d" and u: "interned (urn_db d) uri = Some u" and a: "interned (attribute_db d) attr = Some a"
    and live: "cache_live c" and c: "cache_values c = (cache_values (data_db d))(data_ptr u a := l)"
  shows "ds_inv (d\<lparr>data_db := c\<rparr>) \<and> ds_vals (d\<lparr>data_db := c\<rparr>) = (ds_vals d)((uri, attr) := l)"
proof
  have I: "intern_ok (id_counter d) (urn_db d)" "intern_ok (id_counter d) (attribute_db d)" "id_counter d < 2 ^ 31"
    using inv by (auto simp: ds_inv_def)
  note U = interned_range [OF I(1)] and A = interned_range [OF I(2)]
  have "\<exists>u' a'. 1 \<le> u' \<and> u' \<le> id_counter d \<and> 1 \<le> a' \<and> a' \<le> id_counter d \<and> k = data_ptr u' a'"
    if "cache_values c k \<noteq> []" for k
  proof (cases "k = data_ptr u a")
    case True
    then show ?thesis using U [OF u] A [OF a] by blast
  next
    case False
    then show ?thesis using that c inv by (simp add: ds_inv_def)
  qed
  then show "ds_inv (d\<lparr>data_db := c\<rparr>)" using I live by (simp add: ds_inv_def)
  have "ds_vals (d\<lparr>data_db := c\<rparr>) (x, y) = ((ds_vals d)((uri, attr) := l)) (x, y)" for x y
  proof (cases "\<exists>u' a'. interned (urn_db d) x = Some u' \<and> interned (attribute_db d) y = Some a'")
    case False
    then show ?thesis using u a by (auto simp: ds_vals_def split: option.splits)
  next
    case True
    then obtain u' a' where ua: "interned (urn_db d) x = Some u'" "interned (attribute_db d) y = Some a'" by blast
    have "data_ptr u' a' = data_ptr u a \<longleftrightarrow> x = uri \<and> y = attr"
    proof
      assume "data_ptr u' a' = data_ptr u a"
      then have "u' = u \<and> a' = a"
        using data_ptr_inject [of u' a' u a] U [OF u] A [OF a] U [OF ua(1)] A [OF ua(2)] I(3) by simp
      then show "x = uri \<and> y = attr"
        using interned_inject [OF I(1) ua(1)] interned_inject [OF I(2) ua(2)] u a by simp
    qed (use u a ua in auto)
    then show ?thesis using ua by (auto simp: ds_vals_def c)
  qed
  then show "ds_vals (d\<lparr>data_db := c\<rparr>) = (ds_vals d)((uri, attr) := l)" by (intro ext) (metis surj_pair)
qed

lemma data_clear_spec:
  assumes live: "cache_live c"
  shows "\<exists>c'. data_clear c k = Some c' \<and> cache_live c' \<and> cache_values c' = (cache_values c)(k := [])"
proof -
  have w: "length (the_table c) = hash_table_width c" if "cache_live c" for c :: "'a cache"
    using that by (simp add: cache_live_def cache_invD(2))
  have total: "data_clear c k \<noteq> None" if "cache_live c" for c :: "'a cache"
    using that
  proof (induction c k rule: data_clear.induct)
    case (1 c k)
    obtain c' r e where g: "Cache_get c k = (c', r, e)" by (metis prod_cases3)
    then have "cache_live c'" using cmap.pop_spec [OF 1(2), of k] by (simp add: cache_pop_def)
    then show ?case
      using 1(1) [OF _ g [symmetric]] w [OF 1(2)] g by (subst data_clear.simps) (auto split: option.splits)
  qed
  define drain where "drain c k = the (data_clear c k)" for c :: "'a cache" and k
  have "drain c k = (case cache_pop c k of (c', None) \<Rightarrow> c' | (c', Some v) \<Rightarrow> drain c' k)" if "cache_live c" for c
    unfolding drain_def using w [OF that]
    by (subst data_clear.simps) (auto simp: cache_pop_def split: prod.splits option.splits)
  from cmap.pop_until_empty [where drain = drain, OF this live] total [OF live]
  show ?thesis unfolding drain_def by auto
qed

lemma ds_room_data [simp]: "ds_room (d\<lparr>data_db := c\<rparr>) n = ds_room d n"
  by (simp add: ds_room_def)

lemma ds_vals_lookup:
  "interned (urn_db d) uri = Some u \<Longrightarrow> interned (attribute_db d) attr = Some a \<Longrightarrow>
     ds_vals d (uri, attr) = cache_values (data_db d) (data_ptr u a)"
  by (simp add: ds_vals_def)

interpretation dstore: triple_store ds_vals ds_inv ds_room DataStore_set DataStore_add DataStore_del DataStore_get
proof
  fix d :: memory_data_store and n :: nat and uri attr :: buf and v :: data_store_object
  assume inv: "ds_inv d" and room: "ds_room d (Suc n)"
  obtain d1 u a where d1: "DataStore_index d uri attr = Some (d1, data_ptr u a)" "ds_inv d1" "ds_room d1 n"
      "interned (urn_db d1) uri = Some u" "interned (attribute_db d1) attr = Some a" "ds_vals d1 = ds_vals d"
    using DataStore_index_spec [OF inv room] by blast
  note R = ds_replace [OF d1(2,4,5)] and L = ds_vals_lookup [OF d1(4,5), unfolded d1(6)]
  have live: "cache_live (data_db d1)" using d1(2) by (simp add: ds_inv_def)
  obtain c where c: "data_clear (data_db d1) (data_ptr u a) = Some c" "cache_live c"
      "cache_values c = (cache_values (data_db d1))(data_ptr u a := [])"
    using data_clear_spec [OF live] by blast
  show "\<exists>s'. DataStore_del d uri attr = Some s' \<and> ds_inv s' \<and> ds_room s' n \<and>
      ds_vals s' = (ds_vals d)((uri, attr) := [])"
    using R [OF c(2,3)] d1 c(1) by (simp add: DataStore_del_def)
  obtain c2 where c2: "cache_add c (data_ptr u a) v = Some c2" "cache_live c2"
      "cache_values c2 = (cache_values c)(data_ptr u a := cache_values c (data_ptr u a) @ [v])"
    using cmap.put_spec [OF c(2)] by blast
  have "cache_values c2 = (cache_values (data_db d1))(data_ptr u a := [v])" using c2(3) c(3) by simp
  from R [OF c2(2) this] show "\<exists>s'. DataStore_set d uri attr v = Some s' \<and> ds_inv s' \<and> ds_room s' n \<and>
      ds_vals s' = (ds_vals d)((uri, attr) := [v])"
    using d1 c(1) c2(1) by (auto simp: DataStore_set_def cache_add_def)
  obtain c3 where c3: "cache_add (data_db d1) (data_ptr u a) v = Some c3" "cache_live c3"
      "cache_values c3 = (cache_values (data_db d1))(data_ptr u a := cache_values (data_db d1) (data_ptr u a) @ [v])"
    using cmap.put_spec [OF live] by blast
  from R [OF c3(2,3)] show "\<exists>s'. DataStore_add d uri attr v = Some s' \<and> ds_inv s' \<and> ds_room s' n \<and>
      ds_vals s' = (ds_vals d)((uri, attr) := ds_vals d (uri, attr) @ [v])"
    using d1 c3(1) L by (auto simp: DataStore_add_def cache_add_def)
  show "\<exists>s' r. DataStore_get d uri attr = Some (s', r) \<and> ds_inv s' \<and> ds_room s' n \<and> ds_vals s' = ds_vals d \<and>
      r = (case ds_vals d (uri, attr) of [] \<Rightarrow> None | v # _ \<Rightarrow> Some v)"
    using d1 L cmap.peek_spec [OF live] by (simp add: DataStore_get_def)
qed

section \<open>Iteration\<close>

text \<open>A client's loop over an iterator: it calls \<^verbatim>\<open>next\<close> until no value comes back, at most \<open>n\<close> times.\<close>

fun ds_collect :: "nat \<Rightarrow> memory_data_store \<Rightarrow> data_store_object cache_item option \<Rightarrow>
    memory_data_store \<times> data_store_object list" where
  "ds_collect 0 d it = (d, [])"
| "ds_collect (Suc n) d it =
     (case DataStore_next d it of
        (d', _, None) \<Rightarrow> (d', [])
      | (d', it', Some v) \<Rightarrow> (case ds_collect n d' it' of (d'', vs) \<Rightarrow> (d'', v # vs)))"

lemma ds_collect_spec:
  assumes "cache_live (data_db d)" "cache_entries (data_db d) k = pre @ post" "length post \<le> n"
  shows "\<exists>c'. ds_collect (Suc n) d (case post of [] \<Rightarrow> None | j # _ \<Rightarrow> Some j)
      = (d\<lparr>data_db := c'\<rparr>, map (\<lambda>x. the (item_data x)) post) \<and>
     cache_live c' \<and> cache_values c' = cache_values (data_db d)"
  using assms
proof (induction post arbitrary: d n pre)
  case Nil
  then show ?case by (auto simp: DataStore_next_def Cache_next_def intro!: exI [of _ "data_db d"])
next
  case (Cons i post)
  obtain m where m: "n = Suc m" using Cons.prems(3) by (cases n) auto
  have inv: "cache_inv (data_db d)" using Cons.prems(1) by (simp add: cache_live_def)
  obtain c1 where c1: "Cache_next (data_db d) (Some i)
        = (c1, (case post of [] \<Rightarrow> None | j # _ \<Rightarrow> Some j), item_data i)" "cache_inv c1"
      "max_cache_size c1 = max_cache_size (data_db d)" "set (cache_list c1) = set (cache_list (data_db d))"
      "cache_entries c1 = cache_entries (data_db d)"
    using Cache_next_spec [OF inv Cons.prems(2)] by blast
  have live: "cache_live c1" using Cons.prems(1) c1 by (simp add: cache_live_def)
  have "\<exists>c'. ds_collect (Suc m) (d\<lparr>data_db := c1\<rparr>) (case post of [] \<Rightarrow> None | j # _ \<Rightarrow> Some j)
      = (d\<lparr>data_db := c1\<rparr>\<lparr>data_db := c'\<rparr>, map (\<lambda>x. the (item_data x)) post) \<and>
     cache_live c' \<and> cache_values c' = cache_values (data_db (d\<lparr>data_db := c1\<rparr>))"
    using Cons.IH [of "d\<lparr>data_db := c1\<rparr>" "pre @ [i]" m] Cons.prems live c1(5) m by simp
  then obtain c' where c': "ds_collect (Suc m) (d\<lparr>data_db := c1\<rparr>) (case post of [] \<Rightarrow> None | j # _ \<Rightarrow> Some j)
      = (d\<lparr>data_db := c'\<rparr>, map (\<lambda>x. the (item_data x)) post)" "cache_live c'" "cache_values c' = cache_values c1"
    by auto
  have v: "cache_values c1 = cache_values (data_db d)" by (simp add: cache_values_def c1(5) fun_eq_iff)
  obtain w where w: "item_data i = Some w"
    using cache_live_entry [OF Cons.prems(1), of i k] Cons.prems(2) by auto
  have "ds_collect (Suc n) d (Some i) = (d\<lparr>data_db := c'\<rparr>, w # map (\<lambda>x. the (item_data x)) post)"
    by (simp only: m ds_collect.simps(2) [of "Suc m"] DataStore_next_def c1(1) w c'(1) prod.case option.case)
  then show ?case using c'(2,3) v w by auto
qed

section \<open>Properties\<close>

text \<open>C7. The three caches of the memory data store implement a map from (URI, attribute) to lists of values:
  set replaces the list of its pair, add appends to it, del empties it and get reads its first value,
  no other pair is touched, the invariant is kept and no operation fails while the counter has room
  for two more names.\<close>

theorem data_store_refines_map:
  assumes "ds_inv d" "ds_room d 1"
  shows "(\<exists>d'. DataStore_set d u a v = Some d' \<and> ds_inv d' \<and> ds_vals d' = (ds_vals d)((u, a) := [v])) \<and>
     (\<exists>d'. DataStore_add d u a v = Some d' \<and> ds_inv d' \<and> ds_vals d' = (ds_vals d)((u, a) := ds_vals d (u, a) @ [v])) \<and>
     (\<exists>d'. DataStore_del d u a = Some d' \<and> ds_inv d' \<and> ds_vals d' = (ds_vals d)((u, a) := [])) \<and>
     (\<exists>d'. DataStore_get d u a = Some (d', case ds_vals d (u, a) of [] \<Rightarrow> None | x # _ \<Rightarrow> Some x) \<and>
        ds_inv d' \<and> ds_vals d' = ds_vals d)"
  using dstore.set_spec [of d 0 u a v] dstore.add_spec [of d 0 u a v] dstore.del_spec [of d 0 u a]
    dstore.get_spec [of d 0 u a] assms by auto

theorem data_store_refines_map_witness:
  "\<exists>d'. DataStore_set DataStore_Con ''u'' ''a'' (DataStoreObject_Con ''1'' ''t'') = Some d' \<and> ds_inv d' \<and>
     ds_vals d' = (\<lambda>_. [])((''u'', ''a'') := [DataStoreObject_Con ''1'' ''t''])"
  using data_store_refines_map [of DataStore_Con "''u''" "''a''" "DataStoreObject_Con ''1'' ''t''"] DataStore_Con_inv
  by (simp add: ds_room_def DataStore_Con_def)

text \<open>Round trip of the data store: after a set, get returns the value that was set, and get of any other
  (URI, attribute) returns what it returned before the set.\<close>

lemma data_store_set_get:
  assumes "ds_inv d" "ds_room d 2"
  shows "\<exists>d1 d2. DataStore_set d u a v = Some d1 \<and> DataStore_get d1 u a = Some (d2, Some v) \<and>
     ((u', a') \<noteq> (u, a) \<longrightarrow>
        map_option snd (DataStore_get d1 u' a') = map_option snd (DataStore_get d u' a'))"
proof -
  obtain d1 d2 where d: "DataStore_set d u a v = Some d1" "DataStore_get d1 u a = Some (d2, Some v)"
    using dstore.set_then_get [OF assms] by blast
  show ?thesis
  proof (cases "(u', a') = (u, a)")
    case True
    then show ?thesis using d by simp
  next
    case False
    then show ?thesis using d dstore.set_then_get_other [OF assms False, of v] by auto
  qed
qed

text \<open>C21. Iteration is complete and ordered: iter followed by next until it returns NULL visits exactly the values
  of the pair, oldest first, ends after one call more than there are values, and changes no value.\<close>

theorem data_store_iteration:
  assumes "ds_inv d" "ds_room d 1" "length (ds_vals d (u, a)) < n"
  shows "\<exists>d1 it d2. DataStore_iter d u a = Some (d1, it) \<and> ds_collect n d1 it = (d2, ds_vals d (u, a)) \<and>
     ds_vals d2 = ds_vals d"
proof -
  obtain d1 i j where d1: "DataStore_index d u a = Some (d1, data_ptr i j)" "ds_inv d1"
      "interned (urn_db d1) u = Some i" "interned (attribute_db d1) a = Some j" "ds_vals d1 = ds_vals d"
    using DataStore_index_spec [of d 0 u a] assms(1,2) by auto
  define es where "es = cache_entries (data_db d1) (data_ptr i j)"
  have vs: "ds_vals d (u, a) = map (\<lambda>x. the (item_data x)) es"
    using ds_vals_lookup [OF d1(3,4)] d1(5) by (simp add: es_def cache_values_def)
  have live: "cache_live (data_db d1)" using d1(2) by (simp add: ds_inv_def)
  obtain m where n: "n = Suc m" using assms(3) by (cases n) auto
  have le: "length es \<le> m" using assms(3) vs n by simp
  obtain c' where c': "ds_collect n d1 (case es of [] \<Rightarrow> None | j # _ \<Rightarrow> Some j)
      = (d1\<lparr>data_db := c'\<rparr>, map (\<lambda>x. the (item_data x)) es)" "cache_values c' = cache_values (data_db d1)"
    using ds_collect_spec [OF live _ le, of "data_ptr i j" "[]"] es_def n by auto
  have "ds_vals (d1\<lparr>data_db := c'\<rparr>) = ds_vals d1"
    using c'(2) by (auto simp: ds_vals_def fun_eq_iff split: option.split)
  moreover have "DataStore_iter d u a = Some (d1, case es of [] \<Rightarrow> None | j # _ \<Rightarrow> Some j)"
    using Cache_iter_entries [of "data_db d1"] live d1(1) by (simp add: DataStore_iter_def es_def cache_live_def)
  ultimately show ?thesis using c'(1) vs d1(5) by auto
qed

theorem data_store_iteration_witness:
  "\<exists>d0 d1 it d2. DataStore_set DataStore_Con ''u'' ''a'' (DataStoreObject_Con ''1'' ''t'') = Some d0 \<and>
     DataStore_iter d0 ''u'' ''a'' = Some (d1, it) \<and> ds_collect 2 d1 it = (d2, [DataStoreObject_Con ''1'' ''t''])"
proof -
  have "ds_room DataStore_Con (Suc 1)" by (simp add: ds_room_def DataStore_Con_def)
  then obtain d0 where d0: "DataStore_set DataStore_Con ''u'' ''a'' (DataStoreObject_Con ''1'' ''t'') = Some d0" "ds_inv d0" "ds_room d0 1"
      "ds_vals d0 (''u'', ''a'') = [DataStoreObject_Con ''1'' ''t'']"
    using dstore.set_spec [of DataStore_Con 1 "''u''" "''a''" "DataStoreObject_Con ''1'' ''t''"] DataStore_Con_inv by auto
  then show ?thesis using data_store_iteration [OF d0(2,3), of "''u''" "''a''" 2] by auto
qed

end
