(* ===== verification/Rdf.thy ===== *)
theory Rdf
  imports Url Data_Store
begin

text \<open>
  The RDF values of \<^verbatim>\<open>lib/rdf.c\<close> as the data store and the RDF graph see them: encoding and decoding for the store,
  printing and parsing for the graph, the registry of value classes, the handler that turns parsed
  statements into resolver entries, and the output buffer of the serialiser. The RDF library (raptor)
  is not part of the repository's own code: a parsed statement arrives as the record of its strings,
  and the output file and the resolver are parameters.
\<close>

section \<open>Value classes and values\<close>

definition XSD_NAMESPACE :: buf where "XSD_NAMESPACE = ''http://www.w3.org/2001/XMLSchema#''"
definition RDF_NAMESPACE :: buf where "RDF_NAMESPACE = ''http://www.w3.org/1999/02/22-rdf-syntax-ns#''"

datatype rdf_class = CLS_XSDInteger | CLS_XSDString | CLS_RDFURN | CLS_XSDDatetime

fun dataType :: "rdf_class \<Rightarrow> buf" where
  "dataType CLS_XSDInteger = XSD_NAMESPACE @ ''integer''"
| "dataType CLS_XSDString = []"
| "dataType CLS_RDFURN = RDF_NAMESPACE @ ''urn''"
| "dataType CLS_XSDDatetime = XSD_NAMESPACE @ ''dateTime''"

datatype rdfvalue = XSDInteger int | XSDStringV XSDString | RDFURN rdf_urn | XSDDatetime int

fun class_of :: "rdfvalue \<Rightarrow> rdf_class" where
  "class_of (XSDInteger _) = CLS_XSDInteger"
| "class_of (XSDStringV _) = CLS_XSDString"
| "class_of (RDFURN _) = CLS_RDFURN"
| "class_of (XSDDatetime _) = CLS_XSDDatetime"

text \<open>The base constructor of each class. The time is an argument; its product with a million is taken at \<^verbatim>\<open>int\<close> width.\<close>

definition RDFValue_Con :: "int \<Rightarrow> rdf_class \<Rightarrow> rdfvalue" where
  "RDFValue_Con now cls =
     (case cls of
        CLS_XSDInteger \<Rightarrow> XSDInteger 0
      | CLS_XSDString \<Rightarrow> XSDStringV new_XSDString
      | CLS_RDFURN \<Rightarrow> RDFURN RDFURN_Con
      | CLS_XSDDatetime \<Rightarrow> XSDDatetime (s64 (s32 (s32 now * 1000000))))"

definition XSDInteger_set :: "int \<Rightarrow> rdfvalue" where
  "XSDInteger_set v = XSDInteger (s64 v)"

definition XSDDatetime_set :: "int \<Rightarrow> int \<Rightarrow> rdfvalue" where
  "XSDDatetime_set tv_sec tv_usec = XSDDatetime (s64 (tv_sec * 1000000 + tv_usec))"

section \<open>Storing values\<close>

definition XSDInteger_encode :: "rdf_class \<Rightarrow> int \<Rightarrow> data_store_object" where
  "XSDInteger_encode cls v = DataStoreObject_Con (le_bytes 8 (nat (u64 v))) (dataType cls)"

definition XSDInteger_decode :: "data_store_object \<Rightarrow> int \<times> int" where
  "XSDInteger_decode obj =
     (if length (obj_data obj) = 8 then s64 (int (le_val (obj_data obj))) else 0, int (length (obj_data obj)))"

definition XSDString_encode :: "XSDString \<Rightarrow> data_store_object option" where
  "XSDString_encode s =
     map_option (\<lambda>d. DataStoreObject_Con d (dataType CLS_XSDString))
       (mem_read 0 (nat (str_length s)) (case str_value s of None \<Rightarrow> [] | Some v \<Rightarrow> v))"

definition XSDString_decode :: "data_store_object \<Rightarrow> XSDString \<times> int" where
  "XSDString_decode obj =
     (\<lparr>str_value = Some (obj_data obj @ [NUL]), str_length = s32 (int (length (obj_data obj)))\<rparr>,
      int (length (obj_data obj)))"

definition RDFURN_encode :: "rdf_urn \<Rightarrow> data_store_object" where
  "RDFURN_encode w = DataStoreObject_Con (urn_value w @ [NUL]) (dataType CLS_RDFURN)"

definition RDFURN_decode :: "rdf_urn \<Rightarrow> data_store_object \<Rightarrow> rdf_urn option" where
  "RDFURN_decode self obj =
     (if obj_data obj = [] then None
      else RDFURN_set self (Some (takeWhile (\<lambda>c. c \<noteq> NUL) ((obj_data obj)[length (obj_data obj) - 1 := NUL]))))"

fun rdfvalue_encode :: "rdfvalue \<Rightarrow> data_store_object option" where
  "rdfvalue_encode (XSDInteger v) = Some (XSDInteger_encode CLS_XSDInteger v)"
| "rdfvalue_encode (XSDDatetime v) = Some (XSDInteger_encode CLS_XSDDatetime v)"
| "rdfvalue_encode (XSDStringV s) = XSDString_encode s"
| "rdfvalue_encode (RDFURN w) = Some (RDFURN_encode w)"

fun rdfvalue_decode :: "rdfvalue \<Rightarrow> data_store_object \<Rightarrow> rdfvalue option" where
  "rdfvalue_decode (XSDInteger _) obj = Some (XSDInteger (fst (XSDInteger_decode obj)))"
| "rdfvalue_decode (XSDDatetime _) obj = Some (XSDDatetime (fst (XSDInteger_decode obj)))"
| "rdfvalue_decode (XSDStringV _) obj = Some (XSDStringV (fst (XSDString_decode obj)))"
| "rdfvalue_decode (RDFURN w) obj = map_option RDFURN (RDFURN_decode w obj)"

section \<open>Printing and parsing values\<close>

definition DIGIT :: "nat \<Rightarrow> char" where "DIGIT n = ''0123456789'' ! n"

definition XSDInteger_serialise :: "int \<Rightarrow> buf" where
  "XSDInteger_serialise v = digits 10 DIGIT (nat (u64 v))"

definition XSDInteger_parse :: "buf \<Rightarrow> rdfvalue" where
  "XSDInteger_parse serialised = XSDInteger (fst (strtoll serialised))"

definition XSDString_serialise :: "(nat \<Rightarrow> byte) \<Rightarrow> XSDString \<Rightarrow> buf option" where
  "XSDString_serialise fresh s =
     (case str_value s of None \<Rightarrow> None | Some v \<Rightarrow> escape_filename fresh v (u32 (str_length s)))"

definition XSDString_parse :: "(nat \<Rightarrow> byte) \<Rightarrow> buf \<Rightarrow> rdfvalue option" where
  "XSDString_parse stack serialised = map_option XSDStringV (unescape_filename stack serialised)"

text \<open>The default \<^verbatim>\<open>clone\<close>: a new value of the class that parses what the old one prints.\<close>

definition XSDInteger_clone :: "int \<Rightarrow> rdfvalue" where
  "XSDInteger_clone v = XSDInteger_parse (XSDInteger_serialise v)"

section \<open>The registry of value classes\<close>

definition register_rdf_value_class :: "rdf_class cache option \<Rightarrow> rdf_class \<Rightarrow> rdf_class cache option" where
  "register_rdf_value_class registry classref =
     (let reg = (case registry of None \<Rightarrow> Cache_Con 100 0 | Some r \<Rightarrow> r);
          key = dataType classref @ [NUL]
      in if Cache_present reg key then Some reg else map_option fst (Cache_put reg key (Some classref)))"

definition A000_rdf :: "rdf_class cache option" where
  "A000_rdf =
     (case register_rdf_value_class None CLS_XSDInteger of
        None \<Rightarrow> None
      | Some r1 \<Rightarrow>
          (case register_rdf_value_class (Some r1) CLS_XSDString of
             None \<Rightarrow> None
           | Some r2 \<Rightarrow>
               (case register_rdf_value_class (Some r2) CLS_RDFURN of
                  None \<Rightarrow> None
                | Some r3 \<Rightarrow> register_rdf_value_class (Some r3) CLS_XSDDatetime)))"

definition new_rdfvalue :: "int \<Rightarrow> rdf_class cache \<Rightarrow> buf \<Rightarrow> rdfvalue option" where
  "new_rdfvalue now registry typ = map_option (RDFValue_Con now) (Cache_borrow registry (typ @ [NUL]))"

section \<open>Convenience constructors\<close>

definition rdfvalue_from_int :: "int \<Rightarrow> rdfvalue" where
  "rdfvalue_from_int v = XSDInteger_set (u64 v)"

definition rdfvalue_from_urn :: "buf option \<Rightarrow> rdfvalue option option" where
  "rdfvalue_from_urn v =
     (case v of None \<Rightarrow> Some None | Some s \<Rightarrow> map_option (\<lambda>w. Some (RDFURN w)) (RDFURN_set RDFURN_Con (Some s)))"

definition rdfvalue_from_string :: "buf \<Rightarrow> rdfvalue option" where
  "rdfvalue_from_string v =
     map_option (\<lambda>(s, _). XSDStringV s) (XSDString_set new_XSDString (v @ [NUL]) (s32 (int (length v))))"

section \<open>Parsed statements\<close>

datatype raptor_type = TYPE_RESOURCE | TYPE_LITERAL | TYPE_ANONYMOUS

record raptor_statement =
  subject_type :: raptor_type
  predicate_type :: raptor_type
  object_type :: raptor_type
  subject_str :: buf
  predicate_str :: buf
  object_str :: buf
  object_datatype :: "buf option"

record 'r rdf_parser =
  p_urn :: rdf_urn
  volume_urn :: rdf_urn
  member_cache :: "unit cache"
  p_resolver :: 'r

definition AFF4_VOLATILE_CONTAINS :: buf where "AFF4_VOLATILE_CONTAINS = ''aff4volatile:contains''"

definition RDFParser_Con :: "'r \<Rightarrow> 'r rdf_parser" where
  "RDFParser_Con res = \<lparr>p_urn = RDFURN_Con, volume_urn = RDFURN_Con, member_cache = Cache_Con 100 0, p_resolver = res\<rparr>"

text \<open>\<open>mktime\<close> stands for what \<^verbatim>\<open>strptime\<close> and \<^verbatim>\<open>mktime\<close> make of the text in the local time zone, in seconds.\<close>

definition XSDDatetime_parse :: "(buf \<Rightarrow> int) \<Rightarrow> buf \<Rightarrow> rdfvalue" where
  "XSDDatetime_parse mktime serialised = XSDDatetime (s64 (mktime serialised * 1000000))"

fun rdfvalue_parse :: "(nat \<Rightarrow> byte) \<Rightarrow> (buf \<Rightarrow> int) \<Rightarrow> rdfvalue \<Rightarrow> buf \<Rightarrow> rdfvalue option" where
  "rdfvalue_parse stack mktime (XSDInteger _) s = Some (XSDInteger_parse s)"
| "rdfvalue_parse stack mktime (XSDDatetime _) s = Some (XSDDatetime_parse mktime s)"
| "rdfvalue_parse stack mktime (XSDStringV _) s = XSDString_parse stack (s @ [NUL])"
| "rdfvalue_parse stack mktime (RDFURN w) s = map_option RDFURN (RDFURN_parse w s)"

text \<open>
  \<^verbatim>\<open>triples_handler\<close>: \<open>add\<close> is the resolver's add. A literal of an unregistered type makes the class reference NULL,
  and constructing from it is undefined (\<open>None\<close>).
\<close>

definition triples_handler ::
    "(nat \<Rightarrow> byte) \<Rightarrow> (buf \<Rightarrow> int) \<Rightarrow> int \<Rightarrow> rdf_class cache \<Rightarrow> ('r \<Rightarrow> rdf_urn \<Rightarrow> buf \<Rightarrow> rdfvalue \<Rightarrow> 'r option) \<Rightarrow>
     'r rdf_parser \<Rightarrow> raptor_statement \<Rightarrow> 'r rdf_parser option" where
  "triples_handler stack mktime now registry add self triple =
     (if subject_type triple \<noteq> TYPE_RESOURCE \<or> predicate_type triple \<noteq> TYPE_RESOURCE then Some self
      else case RDFURN_set (p_urn self) (Some (subject_str triple)) of
        None \<Rightarrow> None
      | Some w \<Rightarrow>
          (let self1 = self\<lparr>p_urn := w\<rparr>;
               key = subject_str triple @ [NUL];
               member =
                 (if urn_value (volume_urn self) \<noteq> subject_str triple \<and> \<not> Cache_present (member_cache self) key
                  then (case add (p_resolver self1) (volume_urn self1) AFF4_VOLATILE_CONTAINS (RDFURN w) of
                          None \<Rightarrow> None
                        | Some r \<Rightarrow>
                            map_option (\<lambda>(c, _). self1\<lparr>p_resolver := r, member_cache := c\<rparr>)
                              (Cache_put (member_cache self1) key None))
                  else Some self1);
               class_ref =
                 (if object_type triple = TYPE_RESOURCE then Some CLS_RDFURN
                  else case object_datatype triple of
                         Some t \<Rightarrow> Cache_borrow registry (t @ [NUL])
                       | None \<Rightarrow> Some CLS_XSDString)
           in case member of
                None \<Rightarrow> None
              | Some self2 \<Rightarrow>
                  (case class_ref of
                     None \<Rightarrow> None
                   | Some cls \<Rightarrow>
                       (case rdfvalue_parse stack mktime (RDFValue_Con now cls) (object_str triple) of
                          None \<Rightarrow> None
                        | Some v \<Rightarrow>
                            map_option (\<lambda>r. self2\<lparr>p_resolver := r\<rparr>)
                              (add (p_resolver self2) w (predicate_str triple) v)))))"

section \<open>The serialiser's output buffer\<close>

text \<open>
  \<open>ser_buff\<close> holds the first \<^verbatim>\<open>self->i\<close> bytes of the buffer of twice \<^verbatim>\<open>BUFF_SIZE\<close> bytes; \<open>fw\<close> is the \<^verbatim>\<open>write\<close> method of the output file.
\<close>

record 'f rdf_serializer =
  ser_buff :: buf
  ser_fd :: 'f

definition iostream_write_byte :: "('f \<Rightarrow> buf \<Rightarrow> 'f) \<Rightarrow> 'f rdf_serializer \<Rightarrow> byte \<Rightarrow> ('f rdf_serializer \<times> int) option" where
  "iostream_write_byte fw self b =
     (if 2 * BUFF_SIZE \<le> length (ser_buff self) then None
      else let buff = ser_buff self @ [b]
           in if BUFF_SIZE \<le> length buff then Some (\<lparr>ser_buff = [], ser_fd = fw (ser_fd self) buff\<rparr>, 1)
              else Some (self\<lparr>ser_buff := buff\<rparr>, 1))"

function write_bytes_loop :: "('f \<Rightarrow> buf \<Rightarrow> 'f) \<Rightarrow> 'f rdf_serializer \<Rightarrow> buf \<Rightarrow> 'f rdf_serializer" where
  "write_bytes_loop fw self src =
     (if src = [] then self
      else let available = min (length src) (BUFF_SIZE - length (ser_buff self))
           in if available = 0
              then write_bytes_loop fw \<lparr>ser_buff = [], ser_fd = fw (ser_fd self) (ser_buff self)\<rparr> src
              else write_bytes_loop fw (self\<lparr>ser_buff := ser_buff self @ take available src\<rparr>) (drop available src))"
  by pat_completeness auto
termination
  by (relation "measures [\<lambda>(fw, self, src). length src, \<lambda>(fw, self, src). length (ser_buff self)]")
     (auto simp: BUFF_SIZE_def min_def split: if_splits)

declare write_bytes_loop.simps [simp del]

text \<open>The product of the two sizes has 64 bits, the length of the loop 32, and the result is an \<^verbatim>\<open>int\<close>; \<open>ptr\<close> is the memory of the caller.\<close>

definition iostream_write_bytes ::
    "('f \<Rightarrow> buf \<Rightarrow> 'f) \<Rightarrow> 'f rdf_serializer \<Rightarrow> buf \<Rightarrow> nat \<Rightarrow> nat \<Rightarrow> ('f rdf_serializer \<times> int) option" where
  "iostream_write_bytes fw self ptr sz nmemb =
     (let len = u32 (u64 (int nmemb * int sz))
      in if BUFF_SIZE < length (ser_buff self) then None
         else (case mem_read 0 (nat len) ptr of
                 None \<Rightarrow> None
               | Some src \<Rightarrow> Some (write_bytes_loop fw self src, s32 (u64 (int sz * int nmemb)))))"

definition RDFSerializer_close :: "('f \<Rightarrow> buf \<Rightarrow> 'f) \<Rightarrow> 'f rdf_serializer \<Rightarrow> 'f" where
  "RDFSerializer_close fw self = fw (ser_fd self) (ser_buff self)"

section \<open>Proofs on the output buffer\<close>

lemma write_bytes_loop_spec:
  assumes "length (ser_buff self) \<le> BUFF_SIZE"
  shows "\<exists>chunks. concat chunks @ ser_buff (write_bytes_loop fw self src) = ser_buff self @ src \<and>
     ser_fd (write_bytes_loop fw self src) = foldl fw (ser_fd self) chunks \<and>
     length (ser_buff (write_bytes_loop fw self src)) \<le> BUFF_SIZE"
  using assms
proof (induction fw self src rule: write_bytes_loop.induct)
  case (1 fw self src)
  let ?av = "min (length src) (BUFF_SIZE - length (ser_buff self))"
  show ?case
  proof (cases "src = []")
    case True
    then show ?thesis using "1.prems" by (subst (1 2 3) write_bytes_loop.simps) (auto intro!: exI [of _ "[]"])
  next
    case src: False
    show ?thesis
    proof (cases "?av = 0")
      case True
      let ?s = "\<lparr>ser_buff = [], ser_fd = fw (ser_fd self) (ser_buff self)\<rparr>"
      have "write_bytes_loop fw self src = write_bytes_loop fw ?s src"
        using src True by (subst write_bytes_loop.simps) simp
      moreover obtain chunks where "concat chunks @ ser_buff (write_bytes_loop fw ?s src) = src"
          "ser_fd (write_bytes_loop fw ?s src) = foldl fw (fw (ser_fd self) (ser_buff self)) chunks"
          "length (ser_buff (write_bytes_loop fw ?s src)) \<le> BUFF_SIZE"
        using "1.IH"(1) [OF src refl True] by auto
      ultimately show ?thesis by (intro exI [of _ "ser_buff self # chunks"]) auto
    next
      case False
      let ?s = "self\<lparr>ser_buff := ser_buff self @ take ?av src\<rparr>"
      have eq: "write_bytes_loop fw self src = write_bytes_loop fw ?s (drop ?av src)"
        unfolding write_bytes_loop.simps [of fw self src] Let_def using src False by (simp only: if_False)
      have "length (ser_buff ?s) \<le> BUFF_SIZE" using "1.prems" by simp
      from "1.IH"(2) [OF src refl False this] show ?thesis unfolding eq by simp
    qed
  qed
qed

text \<open>A client of the stream: single bytes and blocks (with the two sizes) in any order.\<close>

type_synonym ser_op = "byte + buf \<times> nat \<times> nat"

fun ser_ops :: "('f \<Rightarrow> buf \<Rightarrow> 'f) \<Rightarrow> 'f rdf_serializer \<Rightarrow> ser_op list \<Rightarrow> 'f rdf_serializer option" where
  "ser_ops fw self [] = Some self"
| "ser_ops fw self (Inl b # ops) =
     (case iostream_write_byte fw self b of None \<Rightarrow> None | Some (s, _) \<Rightarrow> ser_ops fw s ops)"
| "ser_ops fw self (Inr (bs, sz, n) # ops) =
     (case iostream_write_bytes fw self bs sz n of None \<Rightarrow> None | Some (s, _) \<Rightarrow> ser_ops fw s ops)"

text \<open>A block has as many bytes as its sizes say, and fits the address space. What reaches the buffer of it, and what was meant to.\<close>

fun ser_op_ok :: "ser_op \<Rightarrow> bool" where
  "ser_op_ok (Inl b) = True"
| "ser_op_ok (Inr (bs, sz, n)) = (length bs = sz * n \<and> length bs < 2 ^ 64)"

fun op_kept :: "ser_op \<Rightarrow> buf" where
  "op_kept (Inl b) = [b]"
| "op_kept (Inr (bs, sz, n)) = take (length bs mod 2 ^ 32) bs"

fun op_bytes :: "ser_op \<Rightarrow> buf" where
  "op_bytes (Inl b) = [b]"
| "op_bytes (Inr (bs, sz, n)) = bs"

lemma op_kept_short: "length (op_bytes op) < 2 ^ 32 \<Longrightarrow> op_kept op = op_bytes op"
  by (cases op rule: op_kept.cases) simp_all

lemma iostream_write_bytes_eq:
  assumes "length (ser_buff self) \<le> BUFF_SIZE" "ser_op_ok (Inr (bs, sz, n))"
  shows "\<exists>x. iostream_write_bytes fw self bs sz n = Some (write_bytes_loop fw self (op_kept (Inr (bs, sz, n))), x)"
proof -
  have "u64 (int n * int sz) = int (length bs)" using assms(2) by (intro trans [OF u64_id]) (simp_all add: mult.commute flip: of_nat_mult)
  then have l: "nat (u32 (u64 (int n * int sz))) = length bs mod 2 ^ 32" by (simp add: u32_def nat_mod_distrib)
  have "mem_read 0 (length bs mod 2 ^ 32) bs = Some (take (length bs mod 2 ^ 32) bs)" by (simp add: mem_read_def)
  then show ?thesis using assms(1) by (simp add: iostream_write_bytes_def Let_def l)
qed

lemma write_byte_spec:
  assumes "length (ser_buff self) \<le> BUFF_SIZE"
  shows "\<exists>s chunks. iostream_write_byte fw self b = Some (s, 1) \<and> length (ser_buff s) \<le> BUFF_SIZE \<and>
     concat chunks @ ser_buff s = ser_buff self @ [b] \<and> ser_fd s = foldl fw (ser_fd self) chunks"
proof (cases "BUFF_SIZE \<le> length (ser_buff self @ [b])")
  case True
  then show ?thesis using assms
    by (intro exI [of _ "\<lparr>ser_buff = [], ser_fd = fw (ser_fd self) (ser_buff self @ [b])\<rparr>"] exI [of _ "[ser_buff self @ [b]]"])
       (auto simp: iostream_write_byte_def Let_def BUFF_SIZE_def)
next
  case False
  then show ?thesis using assms
    by (intro exI [of _ "self\<lparr>ser_buff := ser_buff self @ [b]\<rparr>"] exI [of _ "[]"])
       (auto simp: iostream_write_byte_def Let_def BUFF_SIZE_def)
qed

lemma ser_ops_spec:
  assumes "length (ser_buff self) \<le> BUFF_SIZE" "\<forall>op \<in> set ops. ser_op_ok op"
  shows "\<exists>s chunks. ser_ops fw self ops = Some s \<and> length (ser_buff s) \<le> BUFF_SIZE \<and>
     concat chunks @ ser_buff s = ser_buff self @ concat (map op_kept ops) \<and> ser_fd s = foldl fw (ser_fd self) chunks"
  using assms
proof (induction ops arbitrary: self)
  case Nil
  then show ?case by (auto intro!: exI [of _ "[]"])
next
  case (Cons op ops)
  obtain s1 c1 where s1: "ser_ops fw self (op # ops) = ser_ops fw s1 ops" "length (ser_buff s1) \<le> BUFF_SIZE"
      "concat c1 @ ser_buff s1 = ser_buff self @ op_kept op" "ser_fd s1 = foldl fw (ser_fd self) c1"
  proof (cases op)
    case (Inl b)
    then show ?thesis using that write_byte_spec [OF Cons.prems(1), of fw b] by auto
  next
    case (Inr x)
    obtain bs sz n where x: "x = (bs, sz, n)" by (cases x)
    obtain y where "iostream_write_bytes fw self bs sz n = Some (write_bytes_loop fw self (op_kept op), y)"
      using iostream_write_bytes_eq [OF Cons.prems(1), of bs sz n fw] Cons.prems(2) Inr x by auto
    then show ?thesis using that write_bytes_loop_spec [OF Cons.prems(1), of fw "op_kept op"] Inr x by auto
  qed
  obtain s c where s: "ser_ops fw s1 ops = Some s" "length (ser_buff s) \<le> BUFF_SIZE"
      "concat c @ ser_buff s = ser_buff s1 @ concat (map op_kept ops)" "ser_fd s = foldl fw (ser_fd s1) c"
    using Cons.IH [OF s1(2)] Cons.prems(2) by auto
  have "concat (c1 @ c) @ ser_buff s = (concat c1 @ ser_buff s1) @ concat (map op_kept ops)" using s(3) by simp
  then have "concat (c1 @ c) @ ser_buff s = ser_buff self @ concat (map op_kept (op # ops))" unfolding s1(3) by simp
  moreover have "ser_fd s = foldl fw (ser_fd self) (c1 @ c)" using s(4) s1(4) by simp
  ultimately show ?case using s(1,2) s1(1) by (intro exI [of _ s] exI [of _ "c1 @ c"]) simp
qed

section \<open>Proofs on numbers and the registry\<close>

lemma DIGIT_val: "n < 10 \<Longrightarrow> digit_val (DIGIT n) = n"
proof -
  have "\<forall>n \<in> {..<10}. digit_val (DIGIT n) = n" by code_simp
  then show "n < 10 \<Longrightarrow> digit_val (DIGIT n) = n" by blast
qed

lemma strtoll_decimal: "strtoll (digits 10 DIGIT n) = (saturate64 (int n), [])"
proof -
  obtain c cs where d: "digits 10 DIGIT n = DIGIT c # cs" "c < 10" "c = 0 \<longrightarrow> n = 0"
    using digits_Cons [of 10 DIGIT n] by auto
  obtain l where "scan_digits 10 0 (digits 10 DIGIT n @ []) = (0 * 10 ^ l + n, [])"
    using scan_digits_digits [of 10 DIGIT "[]" 0 n] DIGIT_val by auto
  then have sc: "scan_digits 10 0 (DIGIT c # cs) = (n, [])" using d(1) by simp
  have "\<forall>c \<in> {..<10}. \<not> is_space (DIGIT c) \<and> DIGIT c \<noteq> CHR ''-'' \<and> DIGIT c \<noteq> CHR ''+'' \<and> (DIGIT c = CHR ''0'' \<longleftrightarrow> c = 0)"
    by code_simp
  then have D: "\<not> is_space (DIGIT c)" "DIGIT c \<noteq> CHR ''-''" "DIGIT c \<noteq> CHR ''+''" "DIGIT c = CHR ''0'' \<longleftrightarrow> c = 0"
    using d(2) by blast+
  show ?thesis
  proof (cases "c = 0")
    case True
    then have "n = 0" using d(3) by simp
    moreover have "digits 10 DIGIT 0 = ''0''" by (subst digits.simps) (simp add: DIGIT_def)
    moreover have "strtoll ''0'' = (0, [])" by code_simp
    ultimately show ?thesis by (simp add: saturate64_def)
  next
    case False
    then show ?thesis unfolding d(1) using D sc DIGIT_val [OF d(2)] d(2)
      by (simp add: strtoll_def base_prefix_def)
  qed
qed

lemma register_spec:
  assumes "cache_live reg"
  shows "\<exists>reg'. register_rdf_value_class (Some reg) cls = Some reg' \<and> cache_live reg' \<and>
     cache_values reg' = (cache_values reg)(dataType cls @ [NUL] :=
       (if cache_values reg (dataType cls @ [NUL]) = [] then [cls] else cache_values reg (dataType cls @ [NUL])))"
proof -
  let ?k = "dataType cls @ [NUL]"
  have inv: "cache_inv reg" using assms by (simp add: cache_live_def)
  have p: "Cache_present reg ?k \<longleftrightarrow> cache_values reg ?k \<noteq> []"
    using Cache_present_entries [OF inv, of ?k] by (simp add: cache_values_def)
  show ?thesis
  proof (cases "cache_values reg ?k = []")
    case True
    then show ?thesis
      using cmap.put_spec [OF assms, of ?k cls] p by (auto simp: register_rdf_value_class_def Let_def cache_add_def)
  next
    case False
    then show ?thesis using assms p by (auto simp: register_rdf_value_class_def Let_def fun_upd_idem)
  qed
qed

lemma register_None: "register_rdf_value_class None cls = register_rdf_value_class (Some (Cache_Con 100 0)) cls"
  by (simp add: register_rdf_value_class_def)

lemma dataType_inject [simp]: "dataType c = dataType d \<longleftrightarrow> c = d"
  by (cases c; cases d) (auto simp: XSD_NAMESPACE_def RDF_NAMESPACE_def)

lemma A000_rdf_spec: "\<exists>reg. A000_rdf = Some reg \<and> cache_live reg \<and> (\<forall>cls. cache_values reg (dataType cls @ [NUL]) = [cls])"
proof -
  have live: "cache_live (Cache_Con 100 0 :: rdf_class cache)" "cache_values (Cache_Con 100 0 :: rdf_class cache) = (\<lambda>_. [])"
    using Cache_Con_live [of 100, where 'a = rdf_class] by auto
  obtain r1 where r1: "register_rdf_value_class None CLS_XSDInteger = Some r1" "cache_live r1"
      "cache_values r1 = (\<lambda>_. [])(dataType CLS_XSDInteger @ [NUL] := [CLS_XSDInteger])"
    using register_spec [OF live(1), of CLS_XSDInteger] live(2) by (auto simp: register_None)
  obtain r2 where r2: "register_rdf_value_class (Some r1) CLS_XSDString = Some r2" "cache_live r2"
      "cache_values r2 = (cache_values r1)(dataType CLS_XSDString @ [NUL] := [CLS_XSDString])"
    using register_spec [OF r1(2), of CLS_XSDString] r1(3) by (auto simp del: dataType.simps)
  obtain r3 where r3: "register_rdf_value_class (Some r2) CLS_RDFURN = Some r3" "cache_live r3"
      "cache_values r3 = (cache_values r2)(dataType CLS_RDFURN @ [NUL] := [CLS_RDFURN])"
    using register_spec [OF r2(2), of CLS_RDFURN] r1(3) r2(3) by (auto simp del: dataType.simps)
  obtain r4 where r4: "register_rdf_value_class (Some r3) CLS_XSDDatetime = Some r4" "cache_live r4"
      "cache_values r4 = (cache_values r3)(dataType CLS_XSDDatetime @ [NUL] := [CLS_XSDDatetime])"
    using register_spec [OF r3(2), of CLS_XSDDatetime] r1(3) r2(3) r3(3) by (auto simp del: dataType.simps)
  have "cache_values r4 (dataType cls @ [NUL]) = [cls]" for cls
    using r1(3) r2(3) r3(3) r4(3) by (cases cls) (simp_all del: dataType.simps)
  then show ?thesis using r1(1) r2(1) r3(1) r4(1,2) by (auto simp: A000_rdf_def)
qed

section \<open>Properties\<close>

text \<open>C26. What the data store keeps is what was stored: decoding the encoding of an integer (any 64-bit value), of a
  date, of a counted string of less than \<^verbatim>\<open>2^31\<close> bytes of any value, or of a URN gives back the same value; the URN is one that \<^verbatim>\<open>set\<close>
  and \<^verbatim>\<open>add\<close> produce, a C string of less than \<^verbatim>\<open>BUFF_SIZE\<close> characters.\<close>

theorem rdfvalue_encode_decode:
  assumes "- (2 ^ 63) \<le> i" "i < 2 ^ 63" "length s < 2 ^ 31" "urn_inv w" "length (urn_value w) < BUFF_SIZE" "cstr (urn_value w)"
  shows "(\<exists>d. rdfvalue_encode (XSDInteger i) = Some d \<and> rdfvalue_decode (XSDInteger 0) d = Some (XSDInteger i)) \<and>
     (\<exists>d. rdfvalue_encode (XSDDatetime i) = Some d \<and> rdfvalue_decode (XSDDatetime 0) d = Some (XSDDatetime i)) \<and>
     (\<exists>d. rdfvalue_encode (XSDStringV \<lparr>str_value = Some (s @ [NUL]), str_length = int (length s)\<rparr>) = Some d \<and>
        rdfvalue_decode (XSDStringV new_XSDString) d = Some (XSDStringV \<lparr>str_value = Some (s @ [NUL]), str_length = int (length s)\<rparr>)) \<and>
     (\<exists>d w'. rdfvalue_encode (RDFURN w) = Some d \<and> rdfvalue_decode (RDFURN RDFURN_Con) d = Some (RDFURN w') \<and>
        urn_value w' = urn_value w)"
proof -
  have "nat (u64 i) < 256 ^ 8" using u64_range [of i] by (simp add: nat_less_iff)
  then have "s64 (int (le_val (le_bytes 8 (nat (u64 i))))) = s64 (u64 i)" using u64_range [of i] by simp
  also have "\<dots> = i" using assms(1,2) by (simp add: s64_def u64_def mod_add_left_eq)
  finally have i: "fst (XSDInteger_decode (XSDInteger_encode cls i)) = i" for cls
    by (simp add: XSDInteger_decode_def XSDInteger_encode_def DataStoreObject_Con_def)
  have "(urn_value w @ [NUL])[length (urn_value w @ [NUL]) - 1 := NUL] = urn_value w @ [NUL]" by simp
  moreover have "takeWhile (\<lambda>c. c \<noteq> NUL) (urn_value w @ [NUL]) = urn_value w"
    using assms(6) by (subst takeWhile_append2) (auto simp: cstr_def)
  ultimately have "RDFURN_decode RDFURN_Con (RDFURN_encode w) = RDFURN_copy w"
    by (simp add: RDFURN_decode_def RDFURN_encode_def DataStoreObject_Con_def RDFURN_copy_def)
  moreover obtain u where "URLParse_parse (Some (urn_value w)) = Some u" "URLParse_string u = urn_value w"
    using parse_value [OF assms(4,5)] by blast
  ultimately have "\<exists>w'. RDFURN_decode RDFURN_Con (RDFURN_encode w) = Some w' \<and> urn_value w' = urn_value w"
    by (simp add: RDFURN_copy_def RDFURN_set_def)
  then show ?thesis using i assms(3)
    by (auto simp: XSDString_encode_def XSDString_decode_def mem_read_def DataStoreObject_Con_def s32_id)
qed

theorem rdfvalue_encode_decode_witness:
  "\<exists>d. rdfvalue_encode (XSDInteger (- 7)) = Some d \<and> rdfvalue_decode (XSDInteger 0) d = Some (XSDInteger (- 7))"
  using rdfvalue_encode_decode [of "- 7" "''ab''" "\<lparr>urn_value = ''aff4://ab/x'',
       parser = Some \<lparr>scheme = ''aff4'', netloc = ''ab'', query = ''/x'', fragment = []\<rparr>\<rparr>"]
    RDFURN_set_inv [OF example_urn] by (simp add: BUFF_SIZE_def cstr_def)

text \<open>Printing an integer is unsigned and parsing it is signed and saturating, so cloning an integer value keeps it
  when it is not negative and turns every negative one into the largest signed value.\<close>

lemma xsd_integer_clone:
  assumes "- (2 ^ 63) \<le> v" "v < 2 ^ 63"
  shows "XSDInteger_clone v = XSDInteger (if 0 \<le> v then v else 2 ^ 63 - 1)"
proof -
  define n where "n = nat (u64 v)"
  have u: "u64 v = (if 0 \<le> v then v else v + 2 ^ 64)"
  proof (cases "0 \<le> v")
    case True
    then show ?thesis using assms(2) by (simp add: u64_id)
  next
    case False
    then show ?thesis unfolding u64_def using assms(1) by (subst mod_add_self2 [symmetric], subst mod_pos_pos_trivial) auto
  qed
  have st: "strtoll (digits 10 DIGIT n) = (saturate64 (int n), [])" by (rule strtoll_decimal)
  have "saturate64 (int n) = (if 0 \<le> v then v else 2 ^ 63 - 1)"
    using assms by (auto simp: n_def u saturate64_def)
  then show ?thesis
    using st by (simp add: XSDInteger_clone_def XSDInteger_parse_def XSDInteger_serialise_def n_def [symmetric])
qed

text \<open>The value registry: the module initialiser succeeds, every data type it registers then constructs a value of
  its own class, and registering a class whose data type is taken leaves the registry as it is.\<close>

lemma rdf_registry_lookup:
  "\<exists>reg. A000_rdf = Some reg \<and> (\<forall>cls. new_rdfvalue now reg (dataType cls) = Some (RDFValue_Con now cls)) \<and>
     (\<forall>cls. register_rdf_value_class (Some reg) cls = Some reg)"
proof -
  obtain reg where reg: "A000_rdf = Some reg" "cache_live reg" "\<And>cls. cache_values reg (dataType cls @ [NUL]) = [cls]"
    using A000_rdf_spec by blast
  have "new_rdfvalue now reg (dataType cls) = Some (RDFValue_Con now cls)" for cls
    using cmap.peek_spec [OF reg(2), of "dataType cls @ [NUL]"] reg(3) [of cls] by (simp add: new_rdfvalue_def)
  moreover have "register_rdf_value_class (Some reg) cls = Some reg" for cls
  proof -
    have "cache_entries reg (dataType cls @ [NUL]) \<noteq> []" using reg(3) [of cls] by (auto simp: cache_values_def)
    then show ?thesis
      using Cache_present_entries [of reg "dataType cls @ [NUL]"] reg(2)
      by (simp add: register_rdf_value_class_def cache_live_def)
  qed
  ultimately show ?thesis using reg(1) by blast
qed

text \<open>C27. The serialiser's buffer reorders nothing: for every sequence of single bytes and blocks written through
  the stream, no write fails, and the chunks handed to the output file, the final flush included, are in order exactly the bytes that the writes
  take; of a block that is all its bytes as long as it is shorter than \<open>2 ^ 32\<close> bytes, and otherwise, because the length is kept in 32
  bits, only as many as its length leaves modulo \<open>2 ^ 32\<close>.\<close>

theorem serializer_output_in_order:
  assumes "\<forall>op \<in> set ops. ser_op_ok op"
  shows "\<exists>s chunks. ser_ops fw \<lparr>ser_buff = [], ser_fd = fd\<rparr> ops = Some s \<and>
     RDFSerializer_close fw s = foldl fw fd chunks \<and> concat chunks = concat (map op_kept ops) \<and>
     ((\<forall>op \<in> set ops. length (op_bytes op) < 2 ^ 32) \<longrightarrow> concat chunks = concat (map op_bytes ops))"
proof -
  obtain s chunks where s: "ser_ops fw \<lparr>ser_buff = [], ser_fd = fd\<rparr> ops = Some s"
      "concat chunks @ ser_buff s = concat (map op_kept ops)" "ser_fd s = foldl fw fd chunks"
    using ser_ops_spec [of "\<lparr>ser_buff = [], ser_fd = fd\<rparr>" ops fw] assms by auto
  moreover have "(\<forall>op \<in> set ops. length (op_bytes op) < 2 ^ 32) \<longrightarrow> concat (map op_kept ops) = concat (map op_bytes ops)"
    using op_kept_short by (metis map_ext)
  ultimately show ?thesis by (intro exI [of _ s] exI [of _ "chunks @ [ser_buff s]"]) (simp add: RDFSerializer_close_def)
qed

theorem serializer_output_in_order_witness:
  "\<exists>s chunks. ser_ops (@) \<lparr>ser_buff = [], ser_fd = []\<rparr> [Inl (CHR ''a''), Inr (''bcde'', 2, 2)] = Some s \<and>
     RDFSerializer_close (@) s = foldl (@) [] chunks \<and> concat chunks = ''abcde''"
  using serializer_output_in_order [of "[Inl (CHR ''a''), Inr (''bcde'', 2, 2)]" "(@)" "[]"] by simp

end
