(* ===== verification/Resolver.thy ===== *)
theory Resolver
  imports Rdf
begin

text \<open>
  The resolver of \<^verbatim>\<open>lib/resolver.c\<close> and the base class of all AFF4 objects: attributes of URNs kept in the data store,
  the caches through which objects are managed, owned and returned, and the dispatcher that creates objects
  by scheme or type. The caches hold references to objects, here their addresses. The resolver is a client of
  the \<open>triple_store\<close> contract (for attributes) and of the \<open>multimap\<close> contract (for the caches and the dispatcher).
\<close>

section \<open>Intrusive lists\<close>

text \<open>
  The \<^verbatim>\<open>list_head\<close> of the values that a query returns: node \<open>i\<close> is embedded in the \<open>i\<close>-th value. \<open>None\<close> is the NULL pointer that
  a value has in its list until \<^verbatim>\<open>INIT_LIST_HEAD\<close> is called on it.
\<close>

record list_heads =
  lnext :: "nat \<Rightarrow> nat option"
  lprev :: "nat \<Rightarrow> nat option"

definition INIT_LIST_HEAD :: "nat \<Rightarrow> list_heads \<Rightarrow> list_heads" where
  "INIT_LIST_HEAD n l = l\<lparr>lnext := (lnext l)(n := Some n), lprev := (lprev l)(n := Some n)\<rparr>"

definition list_insert :: "nat \<Rightarrow> nat option \<Rightarrow> nat option \<Rightarrow> list_heads \<Rightarrow> list_heads option" where
  "list_insert new prv nxt l =
     (case (prv, nxt) of
        (Some p, Some n) \<Rightarrow>
          (let l1 = l\<lparr>lprev := (lprev l)(n := Some new)\<rparr>;
               l2 = l1\<lparr>lnext := (lnext l1)(new := Some n)\<rparr>;
               l3 = l2\<lparr>lprev := (lprev l2)(new := Some p)\<rparr>
           in Some (l3\<lparr>lnext := (lnext l3)(p := Some new)\<rparr>))
      | _ \<Rightarrow> None)"

definition list_add_tail :: "nat \<Rightarrow> nat \<Rightarrow> list_heads \<Rightarrow> list_heads option" where
  "list_add_tail new head l = list_insert new (lprev l head) (Some head) l"

text \<open>A client's walk along a list, from the node after \<open>head\<close> until it is back at \<open>head\<close>.\<close>

fun list_walk :: "nat \<Rightarrow> list_heads \<Rightarrow> nat \<Rightarrow> nat option \<Rightarrow> nat list option" where
  "list_walk 0 l head cur = None"
| "list_walk (Suc n) l head cur =
     (case cur of
        None \<Rightarrow> None
      | Some i \<Rightarrow> if i = head then Some [] else map_option ((#) i) (list_walk n l head (lnext l i)))"

section \<open>Objects\<close>

text \<open>The part that every AFF4 object shares; \<open>addr\<close> is the address by which the caches refer to it.\<close>

record aff_object =
  addr :: nat
  urn :: rdf_urn
  mode :: char
  complete :: bool

definition FQN :: buf where "FQN = ''aff4://''"
definition AFF4_TYPE :: buf where "AFF4_TYPE = RDF_NAMESPACE @ ''type''"
definition AFF4_VOLATILE_DIRTY :: buf where "AFF4_VOLATILE_DIRTY = ''aff4volatile:dirty''"

definition AFFObject_Con :: "nat \<Rightarrow> rdf_urn option \<Rightarrow> char \<Rightarrow> aff_object option" where
  "AFFObject_Con a uri m =
     map_option (\<lambda>w. \<lparr>addr = a, urn = w, mode = m, complete = False\<rparr>)
       (case uri of None \<Rightarrow> Some RDFURN_Con | Some w \<Rightarrow> RDFURN_copy w)"

text \<open>An object without a URN gets an anonymous one; \<open>uuid\<close> is the text of the identifier that \<^verbatim>\<open>uuid_generate\<close> made.\<close>

definition AFFObject_finish :: "buf \<Rightarrow> 'x aff_object_scheme \<Rightarrow> ('x aff_object_scheme \<times> int) option" where
  "AFFObject_finish uuid ob =
     (case parser (urn ob) of
        None \<Rightarrow> map_option (\<lambda>w. (ob\<lparr>urn := w, complete := True\<rparr>, 1)) (RDFURN_set (urn ob) (Some (FQN @ uuid)))
      | Some _ \<Rightarrow> Some (ob\<lparr>complete := True\<rparr>, 1))"

section \<open>Resolver state\<close>

record resolver =
  store :: memory_data_store
  read_cache :: "nat cache"
  write_cache :: "nat cache"

definition Resolver_flush :: "resolver \<Rightarrow> resolver" where
  "Resolver_flush r = r\<lparr>read_cache := Cache_Con HASH_TABLE_SIZE 0, write_cache := Cache_Con HASH_TABLE_SIZE 0\<rparr>"

definition Resolver_Con :: "memory_data_store option \<Rightarrow> resolver" where
  "Resolver_Con st =
     Resolver_flush \<lparr>store = (case st of None \<Rightarrow> DataStore_Con | Some d \<Rightarrow> d),
       read_cache = Cache_Con HASH_TABLE_SIZE 0, write_cache = Cache_Con HASH_TABLE_SIZE 0\<rparr>"

definition cache_for :: "char \<Rightarrow> resolver \<Rightarrow> nat cache" where
  "cache_for m r = (if m = CHR ''w'' then write_cache r else read_cache r)"

definition set_cache_for :: "char \<Rightarrow> nat cache \<Rightarrow> resolver \<Rightarrow> resolver" where
  "set_cache_for m c r = (if m = CHR ''w'' then r\<lparr>write_cache := c\<rparr> else r\<lparr>read_cache := c\<rparr>)"

section \<open>Attributes\<close>

definition Resolver_set :: "resolver \<Rightarrow> rdf_urn \<Rightarrow> buf \<Rightarrow> rdfvalue \<Rightarrow> (resolver \<times> int) option" where
  "Resolver_set r w attr v =
     (case rdfvalue_encode v of
        None \<Rightarrow> None
      | Some obj \<Rightarrow> map_option (\<lambda>d. (r\<lparr>store := d\<rparr>, 1)) (DataStore_set (store r) (urn_value w) attr obj))"

definition Resolver_del :: "resolver \<Rightarrow> rdf_urn \<Rightarrow> buf \<Rightarrow> resolver option" where
  "Resolver_del r w attr = map_option (\<lambda>d. r\<lparr>store := d\<rparr>) (DataStore_del (store r) (urn_value w) attr)"

definition Resolver_add :: "resolver \<Rightarrow> rdf_urn \<Rightarrow> buf \<Rightarrow> rdfvalue \<Rightarrow> (resolver \<times> int) option" where
  "Resolver_add r w attr v =
     (case rdfvalue_encode v of
        None \<Rightarrow> None
      | Some obj \<Rightarrow> map_option (\<lambda>d. (r\<lparr>store := d\<rparr>, 1)) (DataStore_add (store r) (urn_value w) attr obj))"

text \<open>
  The list node of a new value: the constructors of \<^verbatim>\<open>RDFURN\<close> and \<^verbatim>\<open>XSDDatetime\<close> replace the base constructor, which is the one
  that initialises the node.
\<close>

definition new_value_node :: "rdf_class \<Rightarrow> nat \<Rightarrow> list_heads \<Rightarrow> list_heads" where
  "new_value_node cls i l =
     (if cls = CLS_XSDInteger \<or> cls = CLS_XSDString then INIT_LIST_HEAD i l
      else l\<lparr>lnext := (lnext l)(i := None), lprev := (lprev l)(i := None)\<rparr>)"

text \<open>The class that is registered for a stored object and the value decoded by it; without a class the call is through NULL.\<close>

definition decode_object :: "int \<Rightarrow> rdf_class cache \<Rightarrow> data_store_object \<Rightarrow> (rdf_class \<times> rdfvalue) option" where
  "decode_object now registry obj =
     (case Cache_borrow registry (rdf_type obj @ [NUL]) of
        None \<Rightarrow> None
      | Some cls \<Rightarrow> map_option (Pair cls) (rdfvalue_decode (RDFValue_Con now cls) obj))"

text \<open>
  The loop of \<^verbatim>\<open>resolve\<close>: \<open>vs\<close> are the values made so far, the first of which is the result. The data store's iterator ends
  after as many steps as there are entries, which bounds the number of rounds.
\<close>

fun resolve_loop :: "nat \<Rightarrow> int \<Rightarrow> rdf_class cache \<Rightarrow> memory_data_store \<Rightarrow> data_store_object cache_item option \<Rightarrow>
    list_heads \<Rightarrow> rdfvalue list \<Rightarrow> (memory_data_store \<times> list_heads \<times> rdfvalue list) option" where
  "resolve_loop 0 now registry d it l vs = None"
| "resolve_loop (Suc n) now registry d it l vs =
     (if it = None then Some (d, l, vs)
      else case DataStore_next d it of
             (d', it', None) \<Rightarrow> None
           | (d', it', Some obj) \<Rightarrow>
               (case decode_object now registry obj of
                  None \<Rightarrow> None
                | Some (cls, item) \<Rightarrow>
                    (let l1 = new_value_node cls (length vs) l
                     in if vs = [] then resolve_loop n now registry d' it' l1 [item]
                        else case list_add_tail 0 (length vs) l1 of
                               None \<Rightarrow> None
                             | Some l2 \<Rightarrow> resolve_loop n now registry d' it' l2 (vs @ [item]))))"

definition Resolver_resolve :: "int \<Rightarrow> rdf_class cache \<Rightarrow> resolver \<Rightarrow> rdf_urn \<Rightarrow> buf \<Rightarrow>
    (resolver \<times> list_heads \<times> rdfvalue list) option" where
  "Resolver_resolve now registry r w attr =
     (case DataStore_iter (store r) (urn_value w) attr of
        None \<Rightarrow> None
      | Some (d1, it) \<Rightarrow>
          map_option (\<lambda>(d2, l, vs). (r\<lparr>store := d2\<rparr>, l, vs))
            (resolve_loop (length (cache_list (data_db d1)) + 2) now registry d1 it
               \<lparr>lnext = (\<lambda>_. None), lprev = (\<lambda>_. None)\<rparr> []))"

text \<open>What a caller sees: the first value and those it reaches from it through the list.\<close>

definition resolved_chain :: "list_heads \<Rightarrow> rdfvalue list \<Rightarrow> rdfvalue list option" where
  "resolved_chain l vs =
     (if vs = [] then Some []
      else if lnext l 0 = None then Some [hd vs]
      else map_option (\<lambda>is. hd vs # map ((!) vs) is) (list_walk (length vs + 1) l 0 (lnext l 0)))"

section \<open>Managing objects\<close>

definition Resolver_cache_return :: "resolver \<Rightarrow> 'x aff_object_scheme \<Rightarrow> resolver option" where
  "Resolver_cache_return r ob =
     map_option (\<lambda>(c, _). set_cache_for (mode ob) c r)
       (Cache_put (cache_for (mode ob) r) (urn_value (urn ob) @ [NUL]) (Some (addr ob)))"

definition Resolver_manage :: "resolver \<Rightarrow> 'x aff_object_scheme \<Rightarrow> resolver option" where
  "Resolver_manage r ob =
     map_option (\<lambda>(c, _). set_cache_for (mode ob) c r)
       (Cache_put (cache_for (mode ob) r) (urn_value (urn ob) @ [NUL]) (Some (addr ob)))"

definition Resolver_own :: "resolver \<Rightarrow> rdf_urn \<Rightarrow> char \<Rightarrow> nat option" where
  "Resolver_own r w m = Cache_borrow (cache_for m r) (urn_value w @ [NUL])"

definition AFFObject_close :: "resolver \<Rightarrow> 'x aff_object_scheme \<Rightarrow> resolver \<times> int" where
  "AFFObject_close r ob =
     (set_cache_for (mode ob) (fst (Cache_get (cache_for (mode ob) r) (urn_value (urn ob) @ [NUL]))) r, 1)"

definition FileLikeObject_close :: "resolver \<Rightarrow> 'x aff_object_scheme \<Rightarrow> (resolver \<times> int) option" where
  "FileLikeObject_close r ob = map_option (\<lambda>r1. AFFObject_close r1 ob) (Resolver_del r (urn ob) AFF4_VOLATILE_DIRTY)"

definition AFFObject_set :: "resolver \<Rightarrow> 'x aff_object_scheme \<Rightarrow> buf \<Rightarrow> rdfvalue \<Rightarrow> resolver option" where
  "AFFObject_set r ob attr v = map_option fst (Resolver_set r (urn ob) attr v)"

definition AFFObject_add :: "resolver \<Rightarrow> 'x aff_object_scheme \<Rightarrow> buf \<Rightarrow> rdfvalue \<Rightarrow> resolver option" where
  "AFFObject_add r ob attr v = map_option fst (Resolver_add r (urn ob) attr v)"

section \<open>Creating objects\<close>

definition register_type_dispatcher :: "'c cache option \<Rightarrow> buf \<Rightarrow> 'c \<Rightarrow> 'c cache option" where
  "register_type_dispatcher dispatcher typ classref =
     (let d = (case dispatcher of None \<Rightarrow> Cache_Con 100 0 | Some c \<Rightarrow> c)
      in if Cache_present d (typ @ [NUL]) then Some d
         else map_option fst (Cache_put d (typ @ [NUL]) (Some classref)))"

text \<open>
  \<open>con\<close> is the constructor of a class: it gets the URN and the mode and returns the new object or NULL. The scheme of the
  URN is tried first, \<open>file\<close> standing for an empty one; a URN that was never set has no scheme either.
\<close>

definition urn_scheme :: "rdf_urn \<Rightarrow> buf" where
  "urn_scheme w =
     (case parser w of
        None \<Rightarrow> ''file''
      | Some u \<Rightarrow> if scheme u = [] then ''file'' else scheme u)"

definition create_new_object :: "('c \<Rightarrow> rdf_urn option \<Rightarrow> char \<Rightarrow> 'x aff_object_scheme option) \<Rightarrow> 'c cache \<Rightarrow>
    rdf_urn option \<Rightarrow> buf \<Rightarrow> char \<Rightarrow> 'x aff_object_scheme option \<times> aff4_err option" where
  "create_new_object con dispatcher w typ m =
     (let by_scheme = (case w of None \<Rightarrow> None | Some w \<Rightarrow> Cache_borrow dispatcher (urn_scheme w @ [NUL]));
          classref = (case by_scheme of None \<Rightarrow> Cache_borrow dispatcher (typ @ [NUL]) | Some c \<Rightarrow> Some c)
      in case classref of
           None \<Rightarrow> (None, Some ERuntimeError)
         | Some c \<Rightarrow>
             (case con c w m of None \<Rightarrow> (None, None) | Some ob \<Rightarrow> (Some (ob\<lparr>mode := m\<rparr>), None)))"

definition Resolver_create :: "('c \<Rightarrow> rdf_urn option \<Rightarrow> char \<Rightarrow> 'x aff_object_scheme option) \<Rightarrow> 'c cache \<Rightarrow>
    rdf_urn option \<Rightarrow> buf \<Rightarrow> char \<Rightarrow> 'x aff_object_scheme option \<times> aff4_err option" where
  "Resolver_create con dispatcher w typ m = create_new_object con dispatcher w typ m"

text \<open>What \<^verbatim>\<open>open\<close> returns: an object that is already in the write cache (its address), a new object, or NULL with an error.\<close>

datatype 'o opened = Opened_cached nat | Opened_new "'o option" "aff4_err option"

definition Resolver_open :: "('c \<Rightarrow> rdf_urn option \<Rightarrow> char \<Rightarrow> 'x aff_object_scheme option) \<Rightarrow> 'c cache \<Rightarrow> resolver \<Rightarrow>
    rdf_urn option \<Rightarrow> char \<Rightarrow> (resolver \<times> 'x aff_object_scheme opened) option" where
  "Resolver_open con dispatcher r uri m =
     (case uri of
        None \<Rightarrow> Some (r, Opened_new None (Some ERuntimeError))
      | Some w \<Rightarrow>
          (case DataStore_get (store r) (urn_value w) AFF4_TYPE of
             None \<Rightarrow> None
           | Some (d, type_obj) \<Rightarrow>
               (let r1 = r\<lparr>store := d\<rparr> in
                case type_obj of
                  None \<Rightarrow> Some (r1, Opened_new None (Some ERuntimeError))
                | Some t \<Rightarrow>
                    (let new = (if NUL \<in> set (obj_data t)
                                then (case create_new_object con dispatcher (Some w)
                                             (takeWhile (\<lambda>c. c \<noteq> NUL) (obj_data t)) m of
                                        (ob, e) \<Rightarrow> Some (r1, Opened_new ob e))
                                else None)
                     in if m = CHR ''r'' then new
                        else if m = CHR ''w''
                        then (case Cache_borrow (write_cache r1) (urn_value w @ [NUL]) of
                                Some a \<Rightarrow> Some (r1, Opened_cached a)
                              | None \<Rightarrow> new)
                        else Some (r1, Opened_new None None)))))"

section \<open>Resolving attributes\<close>

definition linkable :: "rdf_class \<Rightarrow> bool" where
  "linkable cls \<longleftrightarrow> cls = CLS_XSDInteger \<or> cls = CLS_XSDString"

definition chain_ok :: "list_heads \<Rightarrow> nat \<Rightarrow> bool" where
  "chain_ok l n \<longleftrightarrow> (n = 1 \<longrightarrow> lnext l 0 = None \<or> lnext l 0 = Some 0) \<and>
     (2 \<le> n \<longrightarrow> lnext l 0 = Some (n - 1) \<and> lnext l (n - 1) = Some 0)"

lemma new_value_node_linkable: "linkable cls \<Longrightarrow> new_value_node cls i l = INIT_LIST_HEAD i l"
  by (auto simp: linkable_def new_value_node_def)

text \<open>
  Adding in the wrong order: the first value is inserted in front of the new one, so the list becomes the two of them,
  whatever it was before.
\<close>

lemma list_add_tail_linkable:
  assumes "linkable cls" "0 < n"
  shows "\<exists>l'. list_add_tail 0 n (new_value_node cls n l) = Some l' \<and> chain_ok l' (Suc n)"
  using assms by (simp add: new_value_node_linkable list_add_tail_def list_insert_def INIT_LIST_HEAD_def chain_ok_def Let_def)

lemma list_add_tail_unlinkable: "\<not> linkable cls \<Longrightarrow> list_add_tail 0 n (new_value_node cls n l) = None"
  by (simp add: linkable_def new_value_node_def list_add_tail_def list_insert_def)

lemma chain_ok_first: "chain_ok (new_value_node cls 0 l) (Suc 0)"
  by (auto simp: chain_ok_def new_value_node_def INIT_LIST_HEAD_def)

lemma resolved_chain_spec:
  assumes "chain_ok l (length vs)"
  shows "resolved_chain l vs = Some (if length vs \<le> 1 then vs else [hd vs, last vs])"
proof -
  consider "vs = []" | v where "vs = [v]" | "2 \<le> length vs" by (cases vs; cases "tl vs") auto
  then show ?thesis
  proof cases
    case 2
    then show ?thesis using assms by (auto simp: resolved_chain_def chain_ok_def)
  next
    case 3
    then have l: "lnext l 0 = Some (length vs - 1)" "lnext l (length vs - 1) = Some 0" "vs \<noteq> []" "length vs - 1 \<noteq> 0"
      using assms by (auto simp: chain_ok_def)
    obtain k where k: "length vs = Suc (Suc k)" using 3 by (metis add_2_eq_Suc le_Suc_ex)
    have "list_walk (length vs + 1) l 0 (lnext l 0) = Some [length vs - 1]" using l(2,4) k by (simp add: l(1))
    then show ?thesis using l 3 last_conv_nth [OF l(3)] by (simp add: resolved_chain_def)
  qed (simp add: resolved_chain_def)
qed

lemma resolve_loop_spec:
  assumes "cache_live (data_db d)" "cache_entries (data_db d) k = pre @ post" "length post < n"
    "map (\<lambda>x. decode_object now reg (the (item_data x))) post = map Some cvs"
    "chain_ok l (length vs)" "\<forall>p \<in> set (if vs = [] then tl cvs else cvs). linkable (fst p)"
  shows "\<exists>c' l'. resolve_loop n now reg d (case post of [] \<Rightarrow> None | j # _ \<Rightarrow> Some j) l vs
      = Some (d\<lparr>data_db := c'\<rparr>, l', vs @ map snd cvs) \<and> chain_ok l' (length (vs @ map snd cvs)) \<and>
     cache_live c' \<and> cache_values c' = cache_values (data_db d)"
  using assms
proof (induction post arbitrary: d n pre cvs l vs)
  case Nil
  then show ?case by (cases n) (auto intro!: exI [of _ "data_db d"])
next
  case (Cons i post)
  obtain m where m: "n = Suc m" using Cons.prems(3) by (cases n) auto
  obtain cls v cvs' where cvs: "cvs = (cls, v) # cvs'" "decode_object now reg (the (item_data i)) = Some (cls, v)"
      "map (\<lambda>x. decode_object now reg (the (item_data x))) post = map Some cvs'"
    using Cons.prems(4) by (cases cvs) auto
  have inv: "cache_inv (data_db d)" using Cons.prems(1) by (simp add: cache_live_def)
  obtain c1 where c1: "Cache_next (data_db d) (Some i)
        = (c1, (case post of [] \<Rightarrow> None | j # _ \<Rightarrow> Some j), item_data i)" "cache_inv c1"
      "max_cache_size c1 = max_cache_size (data_db d)" "set (cache_list c1) = set (cache_list (data_db d))"
      "cache_entries c1 = cache_entries (data_db d)"
    using Cache_next_spec [OF inv Cons.prems(2)] by blast
  have live: "cache_live c1" using Cons.prems(1) c1 by (simp add: cache_live_def)
  have v1: "cache_values c1 = cache_values (data_db d)" by (simp add: cache_values_def c1(5) fun_eq_iff)
  obtain w where w: "item_data i = Some w"
    using cache_live_entry [OF Cons.prems(1), of i k] Cons.prems(2) by auto
  obtain l1 where l1: "chain_ok l1 (length (vs @ [v]))"
      "resolve_loop n now reg d (Some i) l vs
        = resolve_loop m now reg (d\<lparr>data_db := c1\<rparr>) (case post of [] \<Rightarrow> None | j # _ \<Rightarrow> Some j) l1 (vs @ [v])"
  proof (cases "vs = []")
    case True
    then show ?thesis
      using that [of "new_value_node cls 0 l"] chain_ok_first cvs(2) w
      by (simp add: m DataStore_next_def c1(1))
  next
    case False
    then have "linkable cls" using Cons.prems(6) cvs(1) by simp
    then obtain l2 where "list_add_tail 0 (length vs) (new_value_node cls (length vs) l) = Some l2" "chain_ok l2 (Suc (length vs))"
      using list_add_tail_linkable [of cls "length vs" l] False by auto
    then show ?thesis using that [of l2] False cvs(2) w by (simp add: m DataStore_next_def c1(1))
  qed
  have "\<exists>c' l'. resolve_loop m now reg (d\<lparr>data_db := c1\<rparr>) (case post of [] \<Rightarrow> None | j # _ \<Rightarrow> Some j) l1 (vs @ [v])
      = Some (d\<lparr>data_db := c1\<rparr>\<lparr>data_db := c'\<rparr>, l', (vs @ [v]) @ map snd cvs') \<and> chain_ok l' (length ((vs @ [v]) @ map snd cvs')) \<and>
     cache_live c' \<and> cache_values c' = cache_values (data_db (d\<lparr>data_db := c1\<rparr>))"
    using Cons.prems(2,3,6) live c1(5) m cvs l1(1)
    by (intro Cons.IH [of _ "pre @ [i]"]) auto
  then show ?case using l1(2) v1 cvs(1) by auto
qed

lemma length_cache_entries:
  assumes "cache_inv c"
  shows "length (cache_entries c k) \<le> length (cache_list c)"
proof -
  have "hash_of c k < hash_table_width c" using assms by (simp add: cache_inv_def hash_of_def)
  then have "distinct (map item_id (slot c (hash_of c k)))" using assms by (simp add: cache_inv_def)
  then have d: "distinct (cache_entries c k)" unfolding cache_entries_def by (metis distinct_filter distinct_map)
  have "set (cache_entries c k) \<subseteq> set (cache_list c)" using cache_entries_in_list [OF assms] by auto
  then have "card (set (cache_entries c k)) \<le> card (set (cache_list c))" by (intro card_mono) auto
  then show ?thesis using distinct_card [OF d] card_length [of "cache_list c"] by linarith
qed

lemma ds_vals_data_db: "cache_values c' = cache_values (data_db d) \<Longrightarrow> ds_vals (d\<lparr>data_db := c'\<rparr>) = ds_vals d"
  by (auto simp: ds_vals_def fun_eq_iff split: option.split)

lemma ds_inv_data_db: "ds_inv d \<Longrightarrow> cache_live c' \<Longrightarrow> cache_values c' = cache_values (data_db d) \<Longrightarrow> ds_inv (d\<lparr>data_db := c'\<rparr>)"
  by (simp add: ds_inv_def)

text \<open>The start of a query: the iterator stands on the first entry of the pair.\<close>

lemma DataStore_iter_start:
  assumes "ds_inv d" "ds_room d 1"
  shows "\<exists>d1 es k. DataStore_iter d u a = Some (d1, case es of [] \<Rightarrow> None | j # _ \<Rightarrow> Some j) \<and> ds_inv d1 \<and> ds_vals d1 = ds_vals d \<and>
     cache_entries (data_db d1) k = es \<and> ds_vals d (u, a) = map (\<lambda>x. the (item_data x)) es \<and>
     length es \<le> length (cache_list (data_db d1))"
proof -
  obtain d1 i j where d1: "DataStore_index d u a = Some (d1, data_ptr i j)" "ds_inv d1"
      "interned (urn_db d1) u = Some i" "interned (attribute_db d1) a = Some j" "ds_vals d1 = ds_vals d"
    using DataStore_index_spec [of d 0 u a] assms by auto
  have live: "cache_live (data_db d1)" using d1(2) by (simp add: ds_inv_def)
  then have inv: "cache_inv (data_db d1)" by (simp add: cache_live_def)
  have "ds_vals d (u, a) = map (\<lambda>x. the (item_data x)) (cache_entries (data_db d1) (data_ptr i j))"
    using ds_vals_lookup [OF d1(3,4)] d1(5) by (simp add: cache_values_def)
  moreover have "DataStore_iter d u a
      = Some (d1, case cache_entries (data_db d1) (data_ptr i j) of [] \<Rightarrow> None | j # _ \<Rightarrow> Some j)"
    using Cache_iter_entries [OF inv] d1(1) by (simp add: DataStore_iter_def)
  ultimately show ?thesis using d1(2,5) length_cache_entries [OF inv] by blast
qed

lemma Resolver_resolve_spec:
  assumes "ds_inv (store r)" "ds_room (store r) 1"
    "map (decode_object now reg) (ds_vals (store r) (urn_value w, attr)) = map Some cvs" "\<forall>p \<in> set (tl cvs). linkable (fst p)"
  shows "\<exists>r' l. Resolver_resolve now reg r w attr = Some (r', l, map snd cvs) \<and> ds_vals (store r') = ds_vals (store r) \<and>
     resolved_chain l (map snd cvs) = Some (if length cvs \<le> 1 then map snd cvs else [snd (hd cvs), snd (last cvs)])"
proof -
  obtain d1 es k where d1: "DataStore_iter (store r) (urn_value w) attr = Some (d1, case es of [] \<Rightarrow> None | j # _ \<Rightarrow> Some j)"
      "ds_inv d1" "ds_vals d1 = ds_vals (store r)" "cache_entries (data_db d1) k = es"
      "ds_vals (store r) (urn_value w, attr) = map (\<lambda>x. the (item_data x)) es" "length es \<le> length (cache_list (data_db d1))"
    using DataStore_iter_start [OF assms(1,2)] by blast
  let ?n = "length (cache_list (data_db d1)) + 2" and ?l = "\<lparr>lnext = (\<lambda>_. None), lprev = (\<lambda>_. None)\<rparr>"
  have live: "cache_live (data_db d1)" using d1(2) by (simp add: ds_inv_def)
  have "map (\<lambda>x. decode_object now reg (the (item_data x))) es = map Some cvs"
    using assms(3) by (simp add: d1(5) comp_def)
  then obtain c' l' where c: "resolve_loop ?n now reg d1 (case es of [] \<Rightarrow> None | j # _ \<Rightarrow> Some j) ?l []
      = Some (d1\<lparr>data_db := c'\<rparr>, l', map snd cvs)" "chain_ok l' (length (map snd cvs))" "cache_values c' = cache_values (data_db d1)"
    using resolve_loop_spec [OF live, of k "[]" es ?n now reg cvs ?l "[]"] d1(4,6) assms(4) by (auto simp: chain_ok_def)
  then have "Resolver_resolve now reg r w attr = Some (r\<lparr>store := d1\<lparr>data_db := c'\<rparr>\<rparr>, l', map snd cvs)"
    using d1(1) by (simp add: Resolver_resolve_def del: resolve_loop.simps)
  moreover have "resolved_chain l' (map snd cvs) = Some (if length cvs \<le> 1 then map snd cvs else [snd (hd cvs), snd (last cvs)])"
    using resolved_chain_spec [OF c(2)] by (cases cvs) (auto simp: last_map)
  ultimately show ?thesis using ds_vals_data_db [OF c(3)] d1(3) by simp
qed

text \<open>A second value whose class leaves the list node NULL.\<close>

lemma Resolver_resolve_null:
  assumes "ds_inv (store r)" "ds_room (store r) 1"
    "ds_vals (store r) (urn_value w, attr) = o1 # o2 # os"
    "decode_object now reg o2 = Some (cls, v)" "\<not> linkable cls"
  shows "Resolver_resolve now reg r w attr = None"
proof -
  obtain d1 es k where d1: "DataStore_iter (store r) (urn_value w) attr = Some (d1, case es of [] \<Rightarrow> None | j # _ \<Rightarrow> Some j)"
      "ds_inv d1" "ds_vals d1 = ds_vals (store r)" "cache_entries (data_db d1) k = es"
      "ds_vals (store r) (urn_value w, attr) = map (\<lambda>x. the (item_data x)) es" "length es \<le> length (cache_list (data_db d1))"
    using DataStore_iter_start [OF assms(1,2)] by blast
  obtain i j es' where es: "es = i # j # es'" "the (item_data i) = o1" "the (item_data j) = o2"
    using d1(5) assms(3) by (cases es; cases "tl es") auto
  have live: "cache_live (data_db d1)" and inv: "cache_inv (data_db d1)" using d1(2) by (simp_all add: ds_inv_def cache_live_def)
  have data: "item_data i = Some o1" "item_data j = Some o2"
    using cache_live_entry [OF live, of i k] cache_live_entry [OF live, of j k] d1(4) es by auto
  obtain c1 where c1: "Cache_next (data_db d1) (Some i) = (c1, Some j, item_data i)" "cache_inv c1"
      "cache_entries c1 = cache_entries (data_db d1)"
    using Cache_next_spec [OF inv, of k "[]" i "j # es'"] d1(4) es(1) by auto
  obtain c2 nxt where c2: "Cache_next c1 (Some j) = (c2, nxt, item_data j)"
    using Cache_next_spec [OF c1(2), of k "[i]" j es'] c1(3) d1(4) es(1) by auto
  obtain m where m: "length (cache_list (data_db d1)) + 2 = Suc (Suc m)" by simp
  show ?thesis
    unfolding Resolver_resolve_def d1(1) option.case prod.case m es(1) list.case
    using list_add_tail_unlinkable [OF assms(5)] assms(4)
    by (simp add: DataStore_next_def c1(1) c2 data split: option.split)
qed

section \<open>Values that survive the store\<close>

definition storable :: "rdfvalue \<Rightarrow> bool" where
  "storable v =
     (case v of
        XSDInteger i \<Rightarrow> - (2 ^ 63) \<le> i \<and> i < 2 ^ 63
      | XSDDatetime i \<Rightarrow> - (2 ^ 63) \<le> i \<and> i < 2 ^ 63
      | XSDStringV s \<Rightarrow> (\<exists>b. s = \<lparr>str_value = Some (b @ [NUL]), str_length = int (length b)\<rparr> \<and> length b < 2 ^ 31)
      | RDFURN w \<Rightarrow> RDFURN_copy w = Some w \<and> cstr (urn_value w))"

lemma integer_store:
  assumes "- (2 ^ 63) \<le> i" "i < 2 ^ 63"
  shows "fst (XSDInteger_decode (XSDInteger_encode cls i)) = i"
proof -
  have "nat (u64 i) < 256 ^ 8" using u64_range [of i] by (simp add: nat_less_iff)
  then have "s64 (int (le_val (le_bytes 8 (nat (u64 i))))) = s64 (u64 i)" using u64_range [of i] by simp
  also have "\<dots> = i" using assms by (simp add: s64_def u64_def mod_add_left_eq)
  finally show ?thesis by (simp add: XSDInteger_decode_def XSDInteger_encode_def DataStoreObject_Con_def)
qed

lemma urn_store:
  assumes "cstr (urn_value w)"
  shows "RDFURN_decode RDFURN_Con (RDFURN_encode w) = RDFURN_copy w"
proof -
  have "takeWhile (\<lambda>c. c \<noteq> NUL) (urn_value w @ [NUL]) = urn_value w"
    using assms by (subst takeWhile_append2) (auto simp: cstr_def)
  then show ?thesis by (simp add: RDFURN_decode_def RDFURN_encode_def DataStoreObject_Con_def RDFURN_copy_def)
qed

lemma decode_stored:
  assumes "storable v" "A000_rdf = Some reg"
  shows "\<exists>obj. rdfvalue_encode v = Some obj \<and> decode_object now reg obj = Some (class_of v, v)"
proof -
  have reg: "cache_live reg" "\<And>cls. cache_values reg (dataType cls @ [NUL]) = [cls]"
    using A000_rdf_spec assms(2) by (metis option.inject)+
  have b: "Cache_borrow reg (dataType cls @ [NUL]) = Some cls" for cls
    using cmap.peek_spec [OF reg(1), of "dataType cls @ [NUL]"] reg(2) [of cls] by simp
  have "\<exists>obj. rdfvalue_encode v = Some obj \<and> rdf_type obj = dataType (class_of v) \<and>
      rdfvalue_decode (RDFValue_Con now (class_of v)) obj = Some v"
  proof (cases v)
    case (XSDInteger i)
    then show ?thesis using assms(1) integer_store [of i]
      by (simp add: storable_def RDFValue_Con_def) (simp add: XSDInteger_encode_def DataStoreObject_Con_def)
  next
    case (XSDDatetime i)
    then show ?thesis using assms(1) integer_store [of i]
      by (simp add: storable_def RDFValue_Con_def) (simp add: XSDInteger_encode_def DataStoreObject_Con_def)
  next
    case (XSDStringV s)
    then show ?thesis using assms(1)
      by (auto simp: storable_def RDFValue_Con_def XSDString_encode_def XSDString_decode_def DataStoreObject_Con_def mem_read_def s32_id)
  next
    case (RDFURN w)
    then show ?thesis using assms(1) urn_store [of w]
      by (simp add: storable_def RDFValue_Con_def) (simp add: RDFURN_encode_def DataStoreObject_Con_def)
  qed
  then show ?thesis using b by (auto simp: decode_object_def)
qed

section \<open>The object caches\<close>

definition resolver_live :: "resolver \<Rightarrow> bool" where
  "resolver_live r \<longleftrightarrow> cache_live (read_cache r) \<and> cache_live (write_cache r)"

text \<open>The references kept under a URN in the cache of a mode, oldest first.\<close>

definition managed :: "resolver \<Rightarrow> char \<Rightarrow> buf \<Rightarrow> nat list" where
  "managed r m u = cache_values (cache_for m r) (u @ [NUL])"

definition same_cache :: "char \<Rightarrow> char \<Rightarrow> bool" where
  "same_cache m m' \<longleftrightarrow> (m = CHR ''w'') = (m' = CHR ''w'')"

lemma cache_for_live: "resolver_live r \<Longrightarrow> cache_live (cache_for m r)"
  by (simp add: resolver_live_def cache_for_def)

lemma set_cache_for_live: "resolver_live r \<Longrightarrow> cache_live c \<Longrightarrow> resolver_live (set_cache_for m c r)"
  by (simp add: resolver_live_def set_cache_for_def)

lemma cache_for_set_cache_for:
  "cache_for m' (set_cache_for m c r) = (if same_cache m m' then c else cache_for m' r)"
  by (auto simp: cache_for_def set_cache_for_def same_cache_def)

lemma Resolver_Con_live: "resolver_live (Resolver_Con st) \<and> managed (Resolver_Con st) m u = []"
  using Cache_Con_live [of HASH_TABLE_SIZE, where 'a = nat]
  by (simp add: resolver_live_def Resolver_Con_def Resolver_flush_def managed_def cache_for_def HASH_TABLE_SIZE_def)

lemma Resolver_manage_spec:
  assumes "resolver_live r"
  shows "\<exists>r'. Resolver_manage r ob = Some r' \<and> resolver_live r' \<and> store r' = store r \<and>
     (\<forall>m u. managed r' m u = (if same_cache (mode ob) m \<and> u = urn_value (urn ob) then managed r m u @ [addr ob] else managed r m u))"
proof -
  let ?k = "urn_value (urn ob) @ [NUL]" and ?c = "cache_for (mode ob) r"
  obtain c' where c': "cache_add ?c ?k (addr ob) = Some c'" "cache_live c'"
      "cache_values c' = (cache_values ?c)(?k := cache_values ?c ?k @ [addr ob])"
    using cmap.put_spec [OF cache_for_live [OF assms]] by blast
  then have "Resolver_manage r ob = Some (set_cache_for (mode ob) c' r)"
    by (auto simp: Resolver_manage_def cache_add_def)
  moreover have "store (set_cache_for (mode ob) c' r) = store r" by (simp add: set_cache_for_def)
  moreover have "managed (set_cache_for (mode ob) c' r) m u
      = (if same_cache (mode ob) m \<and> u = urn_value (urn ob) then managed r m u @ [addr ob] else managed r m u)" for m u
    using c'(3) by (auto simp: managed_def cache_for_set_cache_for) (auto simp: same_cache_def cache_for_def)
  ultimately show ?thesis using set_cache_for_live [OF assms c'(2)] by blast
qed

lemma Resolver_cache_return_eq: "Resolver_cache_return r ob = Resolver_manage r ob"
  by (simp add: Resolver_cache_return_def Resolver_manage_def)

lemma Resolver_own_spec: "resolver_live r \<Longrightarrow> Resolver_own r w m = (case managed r m (urn_value w) of [] \<Rightarrow> None | a # _ \<Rightarrow> Some a)"
  using cmap.peek_spec [OF cache_for_live] by (simp add: Resolver_own_def managed_def)

lemma AFFObject_close_spec:
  assumes "resolver_live r"
  shows "\<exists>r'. AFFObject_close r ob = (r', 1) \<and> resolver_live r' \<and> store r' = store r \<and>
     (\<forall>m u. managed r' m u = (if same_cache (mode ob) m \<and> u = urn_value (urn ob) then tl (managed r m u) else managed r m u))"
proof -
  let ?k = "urn_value (urn ob) @ [NUL]" and ?c = "cache_for (mode ob) r"
  let ?c' = "fst (cache_pop ?c ?k)"
  have e: "fst (Cache_get ?c ?k) = ?c'" by (simp add: cache_pop_def split: prod.split)
  have P: "cache_live ?c'" "cache_values ?c' = (cache_values ?c)(?k := tl (cache_values ?c ?k))"
    using cmap.pop_spec [OF cache_for_live [OF assms]] by blast+
  have "AFFObject_close r ob = (set_cache_for (mode ob) ?c' r, 1)" by (simp add: AFFObject_close_def e)
  moreover have "store (set_cache_for (mode ob) ?c' r) = store r" by (simp add: set_cache_for_def)
  moreover have "managed (set_cache_for (mode ob) ?c' r) m u
      = (if same_cache (mode ob) m \<and> u = urn_value (urn ob) then tl (managed r m u) else managed r m u)" for m u
    using P(2) by (auto simp: managed_def cache_for_set_cache_for) (auto simp: same_cache_def cache_for_def)
  ultimately show ?thesis using set_cache_for_live [OF assms P(1)] by blast
qed

lemma same_cache_refl [simp]: "same_cache m m" by (simp add: same_cache_def)

section \<open>Properties\<close>

text \<open>C12. An attribute set through the resolver is the one it resolves: setting replaces all values of the attribute, and
  resolving then returns a list of exactly that value, decoded by the class registered for its type,
  for every storable integer, date, string and URN; no other attribute of any URN changes.\<close>

theorem resolver_set_resolve:
  assumes "ds_inv (store r)" "ds_room (store r) 2" "A000_rdf = Some reg" "storable v"
  shows "\<exists>r1 r2 l. Resolver_set r w attr v = Some (r1, 1) \<and> Resolver_resolve now reg r1 w attr = Some (r2, l, [v]) \<and>
     resolved_chain l [v] = Some [v] \<and>
     (\<forall>p. p \<noteq> (urn_value w, attr) \<longrightarrow> ds_vals (store r2) p = ds_vals (store r) p)"
proof -
  obtain obj where obj: "rdfvalue_encode v = Some obj" "decode_object now reg obj = Some (class_of v, v)"
    using decode_stored [OF assms(4,3)] by blast
  obtain d1 where d1: "DataStore_set (store r) (urn_value w) attr obj = Some d1" "ds_inv d1" "ds_room d1 1"
      "ds_vals d1 = (ds_vals (store r))((urn_value w, attr) := [obj])"
    using dstore.set_spec [of "store r" 1 "urn_value w" attr obj] assms(1,2) by (auto simp: numeral_2_eq_2)
  define r1 where "r1 = r\<lparr>store := d1\<rparr>"
  obtain r2 l where "Resolver_resolve now reg r1 w attr = Some (r2, l, [v])" "ds_vals (store r2) = ds_vals d1"
      "resolved_chain l [v] = Some [v]"
    using Resolver_resolve_spec [of r1 now reg w attr "[(class_of v, v)]"] d1 obj(2) by (auto simp: r1_def)
  moreover have "Resolver_set r w attr v = Some (r1, 1)" using obj(1) d1(1) by (simp add: Resolver_set_def r1_def)
  ultimately show ?thesis using d1(4) by auto
qed

theorem resolver_set_resolve_witness:
  "\<exists>reg r1 r2 l. A000_rdf = Some reg \<and>
     Resolver_set (Resolver_Con None) \<lparr>urn_value = ''aff4://a'', parser = None\<rparr> ''size'' (XSDInteger (- 5)) = Some (r1, 1) \<and>
     Resolver_resolve 0 reg r1 \<lparr>urn_value = ''aff4://a'', parser = None\<rparr> ''size'' = Some (r2, l, [XSDInteger (- 5)])"
proof -
  obtain reg where reg: "A000_rdf = Some reg" using A000_rdf_spec by blast
  have "store (Resolver_Con None) = DataStore_Con" by (simp add: Resolver_Con_def Resolver_flush_def)
  then show ?thesis
    using resolver_set_resolve [of "Resolver_Con None" reg "XSDInteger (- 5)"] reg DataStore_Con_inv
    by (fastforce simp: ds_room_def DataStore_Con_def storable_def)
qed

text \<open>C39. Several values of an attribute do not survive resolving: the list primitive is called with its arguments exchanged,
  so from the value returned only itself and the last value can be reached, and when the second value
  is a URN or a date, whose list node was never initialised, the call writes through a NULL pointer.\<close>

theorem resolver_resolve_first_and_last:
  assumes "ds_inv (store r)" "ds_room (store r) 1" "2 \<le> length cvs"
    "map (decode_object now reg) (ds_vals (store r) (urn_value w, attr)) = map Some cvs"
  shows "((\<forall>p \<in> set (tl cvs). linkable (fst p)) \<longrightarrow>
       (\<exists>r' l. Resolver_resolve now reg r w attr = Some (r', l, map snd cvs) \<and>
          resolved_chain l (map snd cvs) = Some [snd (hd cvs), snd (last cvs)])) \<and>
     (\<not> linkable (fst (cvs ! 1)) \<longrightarrow> Resolver_resolve now reg r w attr = None)"
proof (intro conjI impI)
  assume "\<forall>p \<in> set (tl cvs). linkable (fst p)"
  then show "\<exists>r' l. Resolver_resolve now reg r w attr = Some (r', l, map snd cvs) \<and>
      resolved_chain l (map snd cvs) = Some [snd (hd cvs), snd (last cvs)]"
    using Resolver_resolve_spec [OF assms(1,2,4)] assms(3) by auto
next
  assume u: "\<not> linkable (fst (cvs ! 1))"
  obtain p1 p2 ps where c: "cvs = p1 # p2 # ps" using assms(3) by (cases cvs; cases "tl cvs") auto
  then obtain o1 o2 os where os: "ds_vals (store r) (urn_value w, attr) = o1 # o2 # os" "decode_object now reg o2 = Some p2"
    using assms(4) by (auto simp: map_eq_Cons_conv)
  show "Resolver_resolve now reg r w attr = None"
    using Resolver_resolve_null [OF assms(1,2) os(1), of now reg "fst p2" "snd p2"] os(2) u c by simp
qed

theorem resolver_resolve_first_and_last_witness:
  "\<exists>reg r r1 r2 r3 r' l. A000_rdf = Some reg \<and> Resolver_add (Resolver_Con None) RDFURN_Con ''a'' (XSDInteger 1) = Some (r1, 1) \<and>
     Resolver_add r1 RDFURN_Con ''a'' (XSDInteger 2) = Some (r2, 1) \<and> Resolver_add r2 RDFURN_Con ''a'' (XSDInteger 3) = Some (r3, 1) \<and>
     Resolver_resolve 0 reg r3 RDFURN_Con ''a'' = Some (r', l, [XSDInteger 1, XSDInteger 2, XSDInteger 3]) \<and>
     resolved_chain l [XSDInteger 1, XSDInteger 2, XSDInteger 3] = Some [XSDInteger 1, XSDInteger 3]"
proof -
  let ?e = "XSDInteger_encode CLS_XSDInteger" and ?p = "(''(unset)'', ''a'')"
  obtain reg where reg: "A000_rdf = Some reg" using A000_rdf_spec by blast
  have c: "ds_inv DataStore_Con" "ds_vals DataStore_Con = (\<lambda>_. [])" "ds_room DataStore_Con 4"
    using DataStore_Con_inv by (auto simp: ds_room_def DataStore_Con_def)
  obtain d1 where d1: "DataStore_add DataStore_Con ''(unset)'' ''a'' (?e 1) = Some d1" "ds_inv d1" "ds_room d1 3" "ds_vals d1 ?p = [?e 1]"
    using dstore.add_spec [of DataStore_Con 3 "''(unset)''" "''a''" "?e 1"] c by auto
  obtain d2 where d2: "DataStore_add d1 ''(unset)'' ''a'' (?e 2) = Some d2" "ds_inv d2" "ds_room d2 2" "ds_vals d2 ?p = [?e 1, ?e 2]"
    using dstore.add_spec [of d1 2 "''(unset)''" "''a''" "?e 2"] d1 by auto
  obtain d3 where d3: "DataStore_add d2 ''(unset)'' ''a'' (?e 3) = Some d3" "ds_inv d3" "ds_room d3 1" "ds_vals d3 ?p = [?e 1, ?e 2, ?e 3]"
    using dstore.add_spec [of d2 1 "''(unset)''" "''a''" "?e 3"] d2 by (auto simp: numeral_2_eq_2)
  have dec: "decode_object 0 reg (?e i) = Some (CLS_XSDInteger, XSDInteger i)" if "0 < i" "i < 4" for i
    using decode_stored [of "XSDInteger i" reg 0] reg that by (simp add: storable_def)
  let ?r = "\<lambda>d. (Resolver_Con None)\<lparr>store := d\<rparr>"
  have s: "store (Resolver_Con None) = DataStore_Con" by (simp add: Resolver_Con_def Resolver_flush_def)
  have "\<exists>r' l. Resolver_resolve 0 reg (?r d3) RDFURN_Con ''a'' = Some (r', l, [XSDInteger 1, XSDInteger 2, XSDInteger 3]) \<and>
      resolved_chain l [XSDInteger 1, XSDInteger 2, XSDInteger 3] = Some [XSDInteger 1, XSDInteger 3]"
    using resolver_resolve_first_and_last [of "?r d3" "[(CLS_XSDInteger, XSDInteger 1), (CLS_XSDInteger, XSDInteger 2), (CLS_XSDInteger, XSDInteger 3)]"
        0 reg RDFURN_Con "''a''"] d3 dec by (simp add: RDFURN_Con_def linkable_def)
  moreover have "Resolver_add (Resolver_Con None) RDFURN_Con ''a'' (XSDInteger 1) = Some (?r d1, 1)"
      "Resolver_add (?r d1) RDFURN_Con ''a'' (XSDInteger 2) = Some (?r d2, 1)"
      "Resolver_add (?r d2) RDFURN_Con ''a'' (XSDInteger 3) = Some (?r d3, 1)"
    using d1(1) d2(1) d3(1) s by (simp_all add: Resolver_add_def RDFURN_Con_def)
  ultimately show ?thesis using reg by blast
qed

text \<open>C28. Managing an object makes it available exactly under its URN and mode: after manage, own returns it when nothing was
  managed there before, closing the object withdraws it again, and other URNs and the cache of
  the other mode are not affected by either.\<close>

theorem resolver_manage_own_close:
  assumes "resolver_live r" "Resolver_own r (urn ob) (mode ob) = None"
  shows "\<exists>r1 r2. Resolver_manage r ob = Some r1 \<and> Resolver_own r1 (urn ob) (mode ob) = Some (addr ob) \<and>
     AFFObject_close r1 ob = (r2, 1) \<and> Resolver_own r2 (urn ob) (mode ob) = None \<and>
     (\<forall>w m. \<not> (same_cache (mode ob) m \<and> urn_value w = urn_value (urn ob)) \<longrightarrow>
        Resolver_own r1 w m = Resolver_own r w m \<and> Resolver_own r2 w m = Resolver_own r w m)"
proof -
  obtain r1 where r1: "Resolver_manage r ob = Some r1" "resolver_live r1"
      "\<forall>m u. managed r1 m u = (if same_cache (mode ob) m \<and> u = urn_value (urn ob) then managed r m u @ [addr ob] else managed r m u)"
    using Resolver_manage_spec [OF assms(1)] by blast
  obtain r2 where r2: "AFFObject_close r1 ob = (r2, 1)" "resolver_live r2"
      "\<forall>m u. managed r2 m u = (if same_cache (mode ob) m \<and> u = urn_value (urn ob) then tl (managed r1 m u) else managed r1 m u)"
    using AFFObject_close_spec [OF r1(2)] by blast
  have "managed r (mode ob) (urn_value (urn ob)) = []"
    using assms(2) Resolver_own_spec [OF assms(1)] by (simp split: list.splits)
  then show ?thesis
    using r1 r2 Resolver_own_spec [OF assms(1)] Resolver_own_spec [OF r1(2)] Resolver_own_spec [OF r2(2)] by auto
qed

theorem resolver_manage_own_close_witness:
  "\<exists>r1. Resolver_manage (Resolver_Con None) \<lparr>addr = 7, urn = \<lparr>urn_value = ''aff4://a'', parser = None\<rparr>, mode = CHR ''w'', complete = True\<rparr> = Some r1 \<and>
     Resolver_own r1 \<lparr>urn_value = ''aff4://a'', parser = None\<rparr> (CHR ''w'') = Some 7"
  using resolver_manage_own_close [of "Resolver_Con None"
      "\<lparr>addr = 7, urn = \<lparr>urn_value = ''aff4://a'', parser = None\<rparr>, mode = CHR ''w'', complete = True\<rparr>"]
    Resolver_Con_live [of None] Resolver_own_spec [of "Resolver_Con None"] by auto

text \<open>Returning an object that was owned leaves a stale reference: own does not take the object out of its cache but
  cache_return puts it in again, so every own and return adds an entry, close removes only one,
  and the closed object is still handed out by own.\<close>

lemma resolver_return_leaves_stale_entry:
  assumes "resolver_live r" "Resolver_own r (urn ob) (mode ob) = Some (addr ob)"
  shows "\<exists>r1 r2. Resolver_cache_return r ob = Some r1 \<and> AFFObject_close r1 ob = (r2, 1) \<and>
     Resolver_own r2 (urn ob) (mode ob) \<noteq> None \<and>
     length (managed r1 (mode ob) (urn_value (urn ob))) = Suc (length (managed r (mode ob) (urn_value (urn ob))))"
proof -
  obtain r1 where r1: "Resolver_cache_return r ob = Some r1" "resolver_live r1"
      "\<forall>m u. managed r1 m u = (if same_cache (mode ob) m \<and> u = urn_value (urn ob) then managed r m u @ [addr ob] else managed r m u)"
    using Resolver_manage_spec [OF assms(1), of ob] by (auto simp: Resolver_cache_return_eq)
  obtain r2 where r2: "AFFObject_close r1 ob = (r2, 1)" "resolver_live r2"
      "\<forall>m u. managed r2 m u = (if same_cache (mode ob) m \<and> u = urn_value (urn ob) then tl (managed r1 m u) else managed r1 m u)"
    using AFFObject_close_spec [OF r1(2)] by blast
  have "managed r (mode ob) (urn_value (urn ob)) \<noteq> []"
    using assms(2) Resolver_own_spec [OF assms(1)] by (auto split: list.splits)
  then have "tl (managed r1 (mode ob) (urn_value (urn ob))) \<noteq> []" using r1(3) by simp
  then have "Resolver_own r2 (urn ob) (mode ob) \<noteq> None"
    using r2(3) Resolver_own_spec [OF r2(2)] by (simp split: list.split)
  then show ?thesis using r1 r2 by auto
qed

end
