(* ===== verification/Zip.thy ===== *)
theory Zip
  imports Zip_Format File_Object Resolver
begin

text \<open>
  The Zip volume of \<^verbatim>\<open>lib/aff4_zip.c\<close>: segments that are written to a buffer and appended to the backing file when they are
  closed, the central directory that closing the volume writes, and the code that finds and loads it
  again. The compressor (zlib), \<^verbatim>\<open>mktime\<close>, the clock and the identifier generator are parameters. The backing
  file is the file backed object of \<open>File_Object\<close> with full transfers, the buffers are the StringIO of \<open>StringIO\<close>, and
  names are escaped and unescaped by \<open>Misc\<close>. Owning and returning the volume goes through \<open>Resolver\<close>.
\<close>

section \<open>State\<close>

definition ZIP64_LIMIT :: nat where "ZIP64_LIMIT = 2 ^ 31 - 1"
definition ZIP_STORED :: nat where "ZIP_STORED = 0"
definition ZIP_DEFLATE :: nat where "ZIP_DEFLATE = 8"

record tm =
  tm_year :: int
  tm_mon :: int
  tm_mday :: int
  tm_hour :: int
  tm_min :: int
  tm_sec :: int

text \<open>
  What the code uses of zlib. One call of \<^verbatim>\<open>deflate\<close> (the flag says whether to finish) takes input and gives the new state, the
  input it has not consumed, and at most \<^verbatim>\<open>BUFF_SIZE\<close> bytes of output. \<^verbatim>\<open>inflate\<close> with a bound on the output tells whether
  the stream ended, and its output.
\<close>

record 'z zlib =
  crc32 :: "nat \<Rightarrow> buf \<Rightarrow> nat"
  deflateInit2 :: "'z option"
  deflate :: "'z \<Rightarrow> bool \<Rightarrow> buf \<Rightarrow> 'z \<times> buf \<times> buf"
  inflateInit2 :: bool
  inflate :: "buf \<Rightarrow> nat \<Rightarrow> bool \<times> buf"

record 'z zip_segment = aff_object +
  cd :: CDFileHeader
  container :: "rdf_urn option"
  compression_method :: int
  timestamp :: int
  strm :: "'z option"
  offset_of_file_header :: nat
  filename :: XSDString
  buffer :: "stringio option"
  seg_readptr :: int

record 'z zip_file = aff_object +
  zend :: "EndCentralDirectory option"
  members :: "'z zip_segment list"
  storage_urn :: rdf_urn
  zip_compression_method :: int
  backing_store :: file_backed

section \<open>The backing store\<close>

definition bs_read :: "file_backed \<Rightarrow> nat \<Rightarrow> file_backed \<times> buf" where
  "bs_read f n = (case FileBackedObject_read f (full_read f n) of (f', _, b, _) \<Rightarrow> (f', b))"

definition bs_write :: "file_backed \<Rightarrow> buf \<Rightarrow> file_backed" where
  "bs_write f b = fst (FileBackedObject_write f b (int (length b)))"

text \<open>\<^verbatim>\<open>lseek\<close> on a regular file fails exactly when the position would be negative.\<close>

definition bs_seek :: "file_backed \<Rightarrow> int \<Rightarrow> whence \<Rightarrow> file_backed \<times> int" where
  "bs_seek f off w =
     (let p = (case w of SEEK_END \<Rightarrow> int (length (disk f)) + off | _ \<Rightarrow> off)
      in FileBackedObject_seek f (if p < 0 then - 1 else p))"

text \<open>A struct on the stack after a read that may have been short: the rest is what the stack held.\<close>

definition on_stack :: "(nat \<Rightarrow> byte) \<Rightarrow> nat \<Rightarrow> buf \<Rightarrow> buf" where
  "on_stack stack n b = b @ map stack [length b ..< n]"

section \<open>Segments\<close>

definition segment_name_from_URN :: "(nat \<Rightarrow> byte) \<Rightarrow> rdf_urn \<Rightarrow> rdf_urn \<Rightarrow> buf option" where
  "segment_name_from_URN fresh w volume =
     (let name = RDFURN_relative_name w volume
      in escape_filename fresh (name @ [NUL]) (int (length name)))"

definition ZipSegment_Con :: "nat \<Rightarrow> rdf_urn option \<Rightarrow> char \<Rightarrow> tm \<Rightarrow> 'z zip_segment option" where
  "ZipSegment_Con a uri m local_time =
     (case AFFObject_Con a uri m of
        None \<Rightarrow> None
      | Some b \<Rightarrow>
          Some \<lparr>addr = addr b, urn = urn b, mode = mode b, complete = complete b,
                cd = \<lparr>cd_magic = 0x2014b50, version_made_by = 0x317, version_needed = 0x14, cd_flags = 0x8,
                      cd_compression_method = 0,
                      dostime = nat (u16 (push_bit 11 (tm_hour local_time) OR push_bit 5 (tm_min local_time) OR
                        (tm_sec local_time div 2))),
                      dosdate = nat (u16 (push_bit 9 (tm_year local_time + 1900 - 1980) OR
                        push_bit 5 (tm_mon local_time + 1) OR tm_mday local_time)),
                      cd_crc32 = 0, compress_size = 0, file_size = 0, file_name_length = 0, extra_field_len = 0,
                      file_comment_length = 0, disk_number_start = 0, internal_file_attr = 0,
                      external_file_attr = push_bit 16 420, relative_offset_local_header = 0\<rparr>,
                container = None, compression_method = 0, timestamp = 0, strm = None, offset_of_file_header = 0,
                filename = new_XSDString, buffer = None, seg_readptr = 0\<rparr>)"

definition ZipSegment_finish :: "'z zlib \<Rightarrow> buf \<Rightarrow> (nat \<Rightarrow> byte) \<Rightarrow> 'z zip_segment \<Rightarrow>
    ('z zip_segment \<times> int \<times> aff4_err option) option" where
  "ZipSegment_finish Z uuid junk self =
     (let s1 = self\<lparr>buffer := Some (StringIO_constructor junk)\<rparr>;
          s2 = s1\<lparr>cd := (cd s1)\<lparr>cd_compression_method := nat (u16 (compression_method s1))\<rparr>\<rparr>;
          done = (\<lambda>s. map_option (\<lambda>(s', r). (s', r, None)) (AFFObject_finish uuid s));
          error = (\<lambda>s e. map_option (\<lambda>(s', _). (s', 0, Some e)) (AFFObject_finish uuid s))
      in if container self = None then error s1 EProgrammingError
         else if mode self \<noteq> CHR ''w'' then done s2
         else if compression_method self = int ZIP_DEFLATE
         then (case deflateInit2 Z of None \<Rightarrow> error s2 ERuntimeError | Some z \<Rightarrow> done (s2\<lparr>strm := Some z\<rparr>))
         else if compression_method self = int ZIP_STORED then done s2
         else error s2 ERuntimeError)"

text \<open>
  The loops around \<^verbatim>\<open>deflate\<close>: they go on as long as a call filled the whole output buffer. A stream that was not initialised,
  or has been ended, is refused by zlib without output. Only the loop of \<^verbatim>\<open>write\<close> looks at what the buffer's write returned.
\<close>

definition deflate_step :: "'z zlib \<Rightarrow> 'z option \<Rightarrow> bool \<Rightarrow> buf \<Rightarrow> 'z option \<times> buf \<times> buf" where
  "deflate_step Z zs fin inp =
     (case zs of
        None \<Rightarrow> (None, inp, [])
      | Some z \<Rightarrow> (case deflate Z z fin inp of (z', rest, out) \<Rightarrow> (Some z', rest, out)))"

partial_function (option) deflate_loop :: "'z zlib \<Rightarrow> bool \<Rightarrow> 'z option \<Rightarrow> buf \<Rightarrow> stringio \<Rightarrow> int \<Rightarrow>
    ('z option \<times> stringio \<times> int \<times> bool) option" where
  "deflate_loop Z fin zs inp b res =
     (case deflate_step Z zs fin inp of (zs', rest, out) \<Rightarrow>
        (case StringIO_write b out of
           None \<Rightarrow> None
         | Some (b', ret) \<Rightarrow>
             if ret < 0 \<and> \<not> fin then Some (zs', b', res, False)
             else if BUFF_SIZE \<le> length out then deflate_loop Z fin zs' rest b' (res + ret)
             else Some (zs', b', res + ret, True)))"

definition ZipSegment_write :: "'z zlib \<Rightarrow> 'z zip_segment \<Rightarrow> buf \<Rightarrow> ('z zip_segment \<times> int \<times> aff4_err option) option" where
  "ZipSegment_write Z this data =
     (if data = [] then Some (this, 0, None)
      else case buffer this of
             None \<Rightarrow> Some (this, - 1, Some EIOError)
           | Some b \<Rightarrow>
               (let s1 = this\<lparr>cd := (cd this)\<lparr>cd_crc32 := crc32 Z (cd_crc32 (cd this)) data\<rparr>\<rparr>;
                    update = (\<lambda>s r. s\<lparr>cd := (cd s)\<lparr>compress_size := nat (u32 (int (compress_size (cd s)) + r)),
                                               file_size := nat (u32 (int (file_size (cd s)) + int (length data)))\<rparr>\<rparr>)
                in if cd_compression_method (cd this) = ZIP_DEFLATE
                   then (case deflate_loop Z False (strm this) data b 0 of
                           None \<Rightarrow> None
                         | Some (zs, b', r, ok) \<Rightarrow>
                             (let s2 = s1\<lparr>strm := zs, buffer := Some b'\<rparr>
                              in if ok then Some (update s2 r, r, None) else Some (s2, - 1, Some EIOError)))
                   else (case StringIO_write b data of
                           None \<Rightarrow> None
                         | Some (b', r) \<Rightarrow> Some (update (s1\<lparr>buffer := Some b'\<rparr>) r, r, None))))"

text \<open>
  \<^verbatim>\<open>decompress_segment\<close> after the volume has been owned: the file header is read and compared, then the data is read or
  inflated into a new buffer, which stays in the segment when a later step fails.
\<close>

definition decompress_data :: "'z zlib \<Rightarrow> (nat \<Rightarrow> byte) \<Rightarrow> ZipFileHeader \<Rightarrow> file_backed \<Rightarrow> 'z zip_segment \<Rightarrow>
    ('z zip_segment \<times> file_backed \<times> int \<times> aff4_err option) option" where
  "decompress_data Z junk header f self =
     (case StringIO_seek (StringIO_constructor junk) (int (file_size (cd self))) SEEK_SET of
        (b, _, _) \<Rightarrow>
          if zfh_compression_method header = ZIP_STORED
          then (case bs_read f (nat (u32 (sio_size b))) of
                  (f', d) \<Rightarrow>
                    (case mem_write 0 d (sio_data b) of
                       None \<Rightarrow> None
                     | Some m \<Rightarrow>
                         Some (self\<lparr>buffer := Some (b\<lparr>sio_data := m, sio_readptr := int (length d)\<rparr>)\<rparr>, f', 1, None)))
          else if zfh_compression_method header = ZIP_DEFLATE
          then (if MAX_TALLOC_SIZE \<le> int (compress_size (cd self)) then None
                else case bs_read f (compress_size (cd self)) of
                  (f', cbuff) \<Rightarrow>
                    if \<not> inflateInit2 Z then Some (self\<lparr>buffer := Some b\<rparr>, f', 0, Some ERuntimeError)
                    else (case inflate Z cbuff (nat (u32 (sio_size b))) of
                            (stream_end, out) \<Rightarrow>
                              (case mem_write 0 out (sio_data b) of
                                 None \<Rightarrow> None
                               | Some m \<Rightarrow>
                                   (let s1 = self\<lparr>buffer := Some (b\<lparr>sio_data := m\<rparr>)\<rparr>
                                    in if \<not> stream_end \<or> length out \<noteq> file_size (cd self)
                                       then Some (s1, f', 0, Some ERuntimeError)
                                       else Some (s1, f', 1, None)))))
          else Some (self\<lparr>buffer := Some b\<rparr>, f, 0, Some ERuntimeError))"

definition decompress_header :: "'z zlib \<Rightarrow> (nat \<Rightarrow> byte) \<Rightarrow> (nat \<Rightarrow> byte) \<Rightarrow> file_backed \<Rightarrow> 'z zip_segment \<Rightarrow>
    ('z zip_segment \<times> file_backed \<times> int \<times> aff4_err option) option" where
  "decompress_header Z stack junk f self =
     (case bs_read (fst (bs_seek f (s64 (int (offset_of_file_header self))) SEEK_SET)) 30 of
        (f1, hb) \<Rightarrow>
          (let header = zfh_unpack (on_stack stack 30 hb)
           in if zfh_file_name_length header \<noteq> file_name_length (cd self) then Some (self, f1, 0, Some EIOError)
              else case bs_read f1 (min BUFF_SIZE (zfh_file_name_length header)) of
                     (f2, name) \<Rightarrow>
                       if length name \<noteq> zfh_file_name_length header then Some (self, f2, 0, None)
                       else (let len = nat (str_length (filename self)) in
                             case (mem_read 0 len (case str_value (filename self) of None \<Rightarrow> [] | Some v \<Rightarrow> v),
                                   mem_read 0 len (on_stack stack BUFF_SIZE name)) of
                               (Some x, Some y) \<Rightarrow>
                                 if x \<noteq> y then Some (self, f2, 0, Some EIOError)
                                 else decompress_data Z junk header f2 self
                             | _ \<Rightarrow> None)))"

definition decompress_segment :: "'z zlib \<Rightarrow> (nat \<Rightarrow> byte) \<Rightarrow> (nat \<Rightarrow> byte) \<Rightarrow> resolver \<Rightarrow> 'z zip_file \<Rightarrow> 'z zip_segment \<Rightarrow>
    ('z zip_segment \<times> 'z zip_file \<times> resolver \<times> int \<times> aff4_err option) option" where
  "decompress_segment Z stack junk r zf self =
     (case container self of
        None \<Rightarrow> None
      | Some c \<Rightarrow>
          (case Resolver_own r c (CHR ''r'') of
             None \<Rightarrow> Some (self, zf, r, 0, Some EIOError)
           | Some a \<Rightarrow>
               if a \<noteq> addr zf then None
               else (case decompress_header Z stack junk (backing_store zf) self of
                       None \<Rightarrow> None
                     | Some (s', f', res, e) \<Rightarrow>
                         (let zf' = zf\<lparr>backing_store := f'\<rparr>
                          in map_option (\<lambda>r'. (s', zf', r', res, e)) (Resolver_cache_return r zf')))))"

definition ZipSegment_read :: "'z zlib \<Rightarrow> (nat \<Rightarrow> byte) \<Rightarrow> (nat \<Rightarrow> byte) \<Rightarrow> resolver \<Rightarrow> 'z zip_file \<Rightarrow> 'z zip_segment \<Rightarrow> nat \<Rightarrow>
    ('z zip_segment \<times> 'z zip_file \<times> resolver \<times> int \<times> buf) option" where
  "ZipSegment_read Z stack junk r zf self len =
     (let from_buffer = (\<lambda>(s, zf', r').
            case buffer s of
              None \<Rightarrow> None
            | Some b \<Rightarrow>
                map_option (\<lambda>(b', d). (s\<lparr>buffer := Some b'\<rparr>, zf', r', int (length d), d))
                  (StringIO_read (fst (StringIO_seek b (seg_readptr s) SEEK_SET)) (s32 (int len))))
      in if buffer self \<noteq> None then from_buffer (self, zf, r)
         else case decompress_segment Z stack junk r zf self of
                None \<Rightarrow> None
              | Some (s', zf', r', res, _) \<Rightarrow>
                  if res = 0 then Some (s', zf', r', - 1, []) else from_buffer (s', zf', r'))"

text \<open>
  Closing a segment that was open for writing: finish the compressor, append header, name, data and data descriptor to
  the volume, drop the buffer, return the volume to its cache, and close the object. The arguments of the
  writes are objects in memory, so a length beyond them has no meaning.
\<close>

definition segment_header :: "'z zip_segment \<Rightarrow> ZipFileHeader" where
  "segment_header s =
     \<lparr>zfh_magic = 0x4034b50, zfh_version = 0x14, zfh_flags = 0x08, zfh_compression_method = cd_compression_method (cd s),
      lastmodtime = dostime (cd s), lastmoddate = dosdate (cd s), zfh_crc32 = 0, zfh_compress_size = 0, zfh_file_size = 0,
      zfh_file_name_length = nat (u16 (str_length (filename s))), zfh_extra_field_len = 0\<rparr>"

definition segment_flush :: "file_backed \<Rightarrow> 'z zip_segment \<Rightarrow> file_backed option" where
  "segment_flush f s =
     (case (str_value (filename s), buffer s) of
        (Some v, Some b) \<Rightarrow>
          (case (mem_read 0 (nat (u32 (str_length (filename s)))) v, mem_read 0 (nat (u32 (sio_size b))) (sio_data b)) of
             (Some name, Some data) \<Rightarrow>
               Some (foldl bs_write f
                 [pack (zfh_fields (segment_header s)), name, data, le_bytes 4 0x08074b50, le_bytes 4 (cd_crc32 (cd s)),
                  le_bytes 4 (compress_size (cd s)), le_bytes 4 (file_size (cd s))])
           | _ \<Rightarrow> None)
      | _ \<Rightarrow> None)"

definition finalize_compressor :: "'z zlib \<Rightarrow> 'z zip_segment \<Rightarrow> 'z zip_segment option" where
  "finalize_compressor Z s =
     (if cd_compression_method (cd s) = ZIP_DEFLATE
      then (case buffer s of
              None \<Rightarrow> None
            | Some b \<Rightarrow>
                (case deflate_loop Z True (strm s) [] b 0 of
                   None \<Rightarrow> None
                 | Some (_, b', r, _) \<Rightarrow>
                     Some (s\<lparr>buffer := Some b', strm := None,
                             cd := (cd s)\<lparr>compress_size := nat (u32 (int (compress_size (cd s)) + r))\<rparr>\<rparr>)))
      else Some s)"

text \<open>The name is set to the escaped relative name with its terminator counted in.\<close>

definition set_segment_name :: "(nat \<Rightarrow> byte) \<Rightarrow> rdf_urn \<Rightarrow> rdf_urn \<Rightarrow> XSDString \<Rightarrow> XSDString option" where
  "set_segment_name fresh w volume self =
     (case segment_name_from_URN fresh w volume of
        None \<Rightarrow> None
      | Some name \<Rightarrow> map_option fst (XSDString_set self name (int (strlen name) + 1)))"

definition ZipSegment_close :: "'z zlib \<Rightarrow> (nat \<Rightarrow> byte) \<Rightarrow> resolver \<Rightarrow> 'z zip_file \<Rightarrow> 'z zip_segment \<Rightarrow>
    ('z zip_segment \<times> 'z zip_file \<times> resolver \<times> int \<times> aff4_err option) option" where
  "ZipSegment_close Z fresh r zf self =
     (if mode self = CHR ''r''
      then map_option (\<lambda>(r', res). (self, zf, r', res, None)) (FileLikeObject_close r self)
      else case container self of
        None \<Rightarrow> None
      | Some c \<Rightarrow>
          (case Resolver_own r c (CHR ''w'') of
             None \<Rightarrow> map_option (\<lambda>(r', _). (self, zf, r', 0, Some ERuntimeError)) (FileLikeObject_close r self)
           | Some a \<Rightarrow>
               if a \<noteq> addr zf then None
               else
                 (case bs_seek (backing_store zf) 0 SEEK_END of
                    (f1, off) \<Rightarrow>
                      (case finalize_compressor Z (self\<lparr>offset_of_file_header := nat off\<rparr>) of
                         None \<Rightarrow> None
                       | Some s2 \<Rightarrow>
                           (case set_segment_name fresh (urn s2) c (filename s2) of
                              None \<Rightarrow> None
                            | Some fname \<Rightarrow>
                                (let s3 = s2\<lparr>filename := fname\<rparr> in
                                 case segment_flush f1 s3 of
                                   None \<Rightarrow> None
                                 | Some f2 \<Rightarrow>
                                     (let s4 = s3\<lparr>buffer := None\<rparr>; zf' = zf\<lparr>backing_store := f2\<rparr>
                                      in case Resolver_cache_return r zf' of
                                           None \<Rightarrow> None
                                         | Some r1 \<Rightarrow>
                                             map_option (\<lambda>(r2, res). (s4, zf', r2, res, None)) (FileLikeObject_close r1 s4))))))))"

section \<open>Loading the central directory\<close>

text \<open>The scan backwards from \<open>i\<close> for the magic of the end record; 0 when it is not found.\<close>

fun scan_back :: "buf \<Rightarrow> nat \<Rightarrow> nat" where
  "scan_back b 0 = 0"
| "scan_back b (Suc i) = (if field (Suc i) 4 b = 0x6054b50 then Suc i else scan_back b i)"

definition c_string :: "buf \<Rightarrow> buf" where
  "c_string b = takeWhile (\<lambda>c. c \<noteq> NUL) b"

text \<open>
  The Zip64 locator is looked for in front of \<open>directory_offset\<close>, which at this point is the 32-bit field itself. An error here is followed by the one
  at the end of the function, which only adds its text: the code stays that of the first error (\<^verbatim>\<open>aff4_raise_errors\<close>).
\<close>

definition find_zip64 :: "(nat \<Rightarrow> byte) \<Rightarrow> 'z zip_file \<Rightarrow> EndCentralDirectory \<Rightarrow> ('z zip_file \<times> int) + ('z zip_file \<times> aff4_err)" where
  "find_zip64 stack self e =
     (case bs_read (fst (bs_seek (backing_store self) (int (end_offset_of_cd e) - 20) SEEK_SET)) 20 of
        (f1, lb) \<Rightarrow>
          (let loc = loc_unpack (on_stack stack 20 lb)
           in if loc_magic loc \<noteq> 0x07064b50 then Inr (self\<lparr>backing_store := f1\<rparr>, EIOError)
              else if loc_disk_with_cd loc \<noteq> 0 \<or> number_of_disks loc \<noteq> 1 then Inr (self\<lparr>backing_store := f1\<rparr>, ERuntimeError)
              else case bs_read (fst (bs_seek f1 (s64 (int (offset_of_end_cd loc))) SEEK_SET)) 56 of
                     (f2, eb) \<Rightarrow>
                       (let z = z64_unpack (on_stack stack 56 eb); s2 = self\<lparr>backing_store := f2\<rparr>
                        in if z64_magic z \<noteq> 0x06064b50 then Inr (s2, EIOError)
                           else if number_of_disk z \<noteq> 0 \<or> number_of_disk_with_cd z \<noteq> 0 \<or>
                                   number_of_entries_in_volume z \<noteq> number_of_entries_in_total z then Inr (s2, ERuntimeError)
                           else Inl (s2\<lparr>zend := Some (e\<lparr>total_entries_in_cd := number_of_entries_in_total z mod 2 ^ 16\<rparr>)\<rparr>,
                                     int (z64_offset_of_cd z)))))"

definition find_EndCentralDirectory :: "(nat \<Rightarrow> byte) \<Rightarrow> 'z zip_file \<Rightarrow> ('z zip_file \<times> int \<times> aff4_err option) option" where
  "find_EndCentralDirectory stack self =
     (case bs_read (fst (bs_seek (backing_store self) (- int BUFF_SIZE) SEEK_END)) (BUFF_SIZE - 4) of
        (f1, d) \<Rightarrow>
          (let b = d @ replicate (BUFF_SIZE - length d) NUL; i = scan_back b (length d); s1 = self\<lparr>backing_store := f1\<rparr>
           in if i = 0 \<or> length d - i < 22 then Some (s1, 0, Some EIOError)
              else
                (let e = end_unpack (drop i b); comment = drop (i + 22) b; s2 = s1\<lparr>zend := Some e\<rparr>
                 in case (if 4 < comment_len e \<and> take 4 comment = ''aff4'' \<and> take (length FQN) comment = FQN
                          then map_option (\<lambda>w. s2\<lparr>urn := w\<rparr>) (RDFURN_set (urn s2) (Some (c_string comment)))
                          else Some s2) of
                      None \<Rightarrow> None
                    | Some s3 \<Rightarrow>
                        (case (if end_offset_of_cd e = 2 ^ 32 - 1 then find_zip64 stack s3 e else Inl (s3, int (end_offset_of_cd e))) of
                           Inr (s4, err) \<Rightarrow> Some (s4, 0, Some err)
                         | Inl (s4, off) \<Rightarrow>
                             Some (s4\<lparr>backing_store := fst (bs_seek (backing_store s4) (s64 off) SEEK_SET)\<rparr>, s32 off, None)))))"

definition dos_tm :: "CDFileHeader \<Rightarrow> tm" where
  "dos_tm h = \<lparr>tm_year = int (drop_bit 9 (dosdate h)) + 1980 - 1900, tm_mon = int (drop_bit 5 (dosdate h) AND 15) - 1,
     tm_mday = int (dosdate h AND 31), tm_hour = int (drop_bit 11 (dostime h)), tm_min = int (drop_bit 5 (dostime h) AND 63),
     tm_sec = int (dostime h AND 31) * 2\<rparr>"

text \<open>\<open>mktime\<close> turns the broken-down time of an entry into a time stamp; \<open>a\<close> is the address of the new segment.\<close>

definition load_entry_from_CD :: "(tm \<Rightarrow> int) \<Rightarrow> tm \<Rightarrow> (nat \<Rightarrow> byte) \<Rightarrow> nat \<Rightarrow> 'z zip_file \<Rightarrow>
    ('z zip_file \<times> 'z zip_segment option) option" where
  "load_entry_from_CD mktime now stack a self =
     (case ZipSegment_Con a None (CHR ''r'') now of
        None \<Rightarrow> None
      | Some s0 \<Rightarrow>
          (let s1 = s0\<lparr>container := Some (urn self)\<rparr> in
           case bs_read (backing_store self) 46 of
             (f1, hb) \<Rightarrow>
               (let z1 = self\<lparr>backing_store := f1\<rparr>; h = cd_unpack hb
                in if length hb \<noteq> 46 \<or> cd_magic h \<noteq> 0x2014b50 then Some (z1, None)
                   else (let len = min (file_name_length h) (BUFF_SIZE - 1) in
                         case bs_read f1 len of
                           (f2, nb) \<Rightarrow>
                             (let z2 = z1\<lparr>backing_store := f2\<rparr>
                              in if length nb \<noteq> len then Some (z2, None)
                                 else case unescape_filename stack (on_stack stack BUFF_SIZE (nb @ [NUL])) of
                                        None \<Rightarrow> None
                                      | Some fname \<Rightarrow>
                                          Some (z2\<lparr>zip_compression_method := int (cd_compression_method h)\<rparr>,
                                                Some (s1\<lparr>cd := h, filename := fname,
                                                  timestamp := mktime (dos_tm h),
                                                  offset_of_file_header := relative_offset_local_header h\<rparr>)))))))"

fun load_entries :: "(tm \<Rightarrow> int) \<Rightarrow> tm \<Rightarrow> (nat \<Rightarrow> byte) \<Rightarrow> nat \<Rightarrow> nat \<Rightarrow> 'z zip_file \<Rightarrow> 'z zip_file option" where
  "load_entries mktime now stack a 0 self = Some self"
| "load_entries mktime now stack a (Suc n) self =
     (case load_entry_from_CD mktime now stack a self of
        None \<Rightarrow> None
      | Some (z1, s) \<Rightarrow>
          load_entries mktime now stack (Suc a) n
            (case s of None \<Rightarrow> z1 | Some s \<Rightarrow> z1\<lparr>members := members z1 @ [s]\<rparr>))"

definition ZipFile_load_from_backing_store :: "(tm \<Rightarrow> int) \<Rightarrow> tm \<Rightarrow> (nat \<Rightarrow> byte) \<Rightarrow> nat \<Rightarrow> 'z zip_file \<Rightarrow>
    ('z zip_file \<times> int) option" where
  "ZipFile_load_from_backing_store mktime now stack a self =
     (case find_EndCentralDirectory stack self of
        None \<Rightarrow> None
      | Some (z1, directory_offset, _) \<Rightarrow>
          if directory_offset = 0 then Some (z1, 0)
          else map_option (\<lambda>z. (z, 1))
                 (load_entries mktime now stack a (case zend z1 of None \<Rightarrow> 0 | Some e \<Rightarrow> total_entries_in_cd e)
                    (z1\<lparr>backing_store := fst (bs_seek (backing_store z1) directory_offset SEEK_SET)\<rparr>)))"

section \<open>The volume\<close>

definition ZipFile_Con :: "nat \<Rightarrow> rdf_urn option \<Rightarrow> char \<Rightarrow> 'z zip_file option" where
  "ZipFile_Con a uri m =
     map_option (\<lambda>b. \<lparr>addr = addr b, urn = urn b, mode = mode b, complete = complete b, zend = None, members = [],
                    storage_urn = RDFURN_Con, zip_compression_method = 0, backing_store = \<lparr>disk = [], readptr = 0\<rparr>\<rparr>)
       (AFFObject_Con a uri m)"

text \<open>
  \<^verbatim>\<open>finish\<close> opens the backing file through the class that is registered for files, loads what is there, and has the resolver
  manage the volume. Whether loading succeeded is not looked at. Of several errors that are raised one after the other the code is that of the first.
\<close>

definition ZipFile_finish :: "(buf \<Rightarrow> char \<Rightarrow> buf option) \<Rightarrow> (tm \<Rightarrow> int) \<Rightarrow> tm \<Rightarrow> (nat \<Rightarrow> byte) \<Rightarrow> buf \<Rightarrow> nat \<Rightarrow> resolver \<Rightarrow>
    'z zip_file \<Rightarrow> ('z zip_file \<times> resolver \<times> int \<times> aff4_err option) option" where
  "ZipFile_finish os_open mktime now stack uuid a r self =
     (case FileBackedObject_finish (storage_urn self) (mode self) os_open of
        None \<Rightarrow> None
      | Some (None, e) \<Rightarrow> Some (self, r, 0, e)
      | Some (Some f, _) \<Rightarrow>
          (case ZipFile_load_from_backing_store mktime now stack a (self\<lparr>backing_store := f\<rparr>) of
             None \<Rightarrow> None
           | Some (z1, _) \<Rightarrow>
               (case AFFObject_finish uuid z1 of
                  None \<Rightarrow> None
                | Some (z2, res) \<Rightarrow> map_option (\<lambda>r'. (z2, r', res, None)) (Resolver_manage r z2))))"

text \<open>A member is named by its position in the list of members.\<close>

definition find_member :: "buf \<Rightarrow> 'z zip_segment list \<Rightarrow> nat option" where
  "find_member name ms =
     List.find (\<lambda>i. c_string (case str_value (filename (ms ! i)) of None \<Rightarrow> [] | Some v \<Rightarrow> v) = name) [0 ..< length ms]"

definition ZipFile_open_member :: "'z zlib \<Rightarrow> tm \<Rightarrow> (nat \<Rightarrow> byte) \<Rightarrow> (nat \<Rightarrow> byte) \<Rightarrow> buf \<Rightarrow> nat \<Rightarrow> 'z zip_file \<Rightarrow>
    rdf_urn \<Rightarrow> char \<Rightarrow> int \<Rightarrow> ('z zip_file \<times> nat option) option" where
  "ZipFile_open_member Z now fresh junk uuid a self member m method =
     (case segment_name_from_URN fresh member (urn self) of
        None \<Rightarrow> None
      | Some name \<Rightarrow>
          (case find_member (c_string name) (members self) of
             Some i \<Rightarrow> Some (self, Some i)
           | None \<Rightarrow>
               if m \<noteq> CHR ''w'' then Some (self, None)
               else (case ZipSegment_Con a (Some member) m now of
                       None \<Rightarrow> None
                     | Some s0 \<Rightarrow>
                         (case XSDString_set (filename s0) name (int (strlen name) + 1) of
                            None \<Rightarrow> None
                          | Some (fname, _) \<Rightarrow>
                              (case ZipSegment_finish Z uuid junk
                                      (s0\<lparr>container := Some (urn self), compression_method := method, filename := fname\<rparr>) of
                                 None \<Rightarrow> None
                               | Some (s1, res, _) \<Rightarrow>
                                   if res = 0 then Some (self, None)
                                   else Some (self\<lparr>members := members self @ [s1]\<rparr>, Some (length (members self))))))))"

section \<open>Writing the central directory\<close>

definition write_zip64_CD :: "stringio \<Rightarrow> int \<Rightarrow> int \<Rightarrow> int \<Rightarrow> stringio option" where
  "write_zip64_CD fd off_end_cd directory_offset total_entries =
     (let loc = \<lparr>loc_magic = 0x07064b50, loc_disk_with_cd = 0, offset_of_end_cd = nat off_end_cd, number_of_disks = 1\<rparr>;
          e = \<lparr>z64_magic = 0x06064b50, size_of_header = 56 - 12, z64_version_made_by = 0x2d, z64_version_needed = 0x2d,
               number_of_disk = 0, number_of_disk_with_cd = 0, number_of_entries_in_volume = nat (u64 total_entries),
               number_of_entries_in_total = nat (u64 total_entries), z64_size_of_cd = nat (u64 (off_end_cd - directory_offset)),
               z64_offset_of_cd = nat directory_offset\<rparr>
      in case StringIO_write fd (pack (z64_fields e)) of
           None \<Rightarrow> None
         | Some (fd1, _) \<Rightarrow> map_option fst (StringIO_write fd1 (pack (loc_fields loc))))"

text \<open>The extra field of an entry, built in \<open>zh\<close>: it is longer than its four-byte head only for an offset beyond the limit.\<close>

definition zip64_extra :: "'z zip_segment \<Rightarrow> stringio \<Rightarrow> ('z zip_segment \<times> stringio) option" where
  "zip64_extra s zh0 =
     (let zh = StringIO_truncate zh0 4;
          big = ZIP64_LIMIT < offset_of_file_header s;
          s1 = s\<lparr>cd := (cd s)\<lparr>relative_offset_local_header :=
                   (if big then 2 ^ 32 - 1 else offset_of_file_header s mod 2 ^ 32)\<rparr>\<rparr>
      in case (if big then map_option fst (StringIO_write zh (le_bytes 8 (offset_of_file_header s))) else Some zh) of
           None \<Rightarrow> None
         | Some zh1 \<Rightarrow>
             if 4 < sio_size zh1
             then map_option (\<lambda>d. (s1\<lparr>cd := (cd s1)\<lparr>extra_field_len := nat (u16 (sio_size zh1))\<rparr>\<rparr>, zh1\<lparr>sio_data := d\<rparr>))
                    (mem_write 2 (le_bytes 2 (nat (u16 (sio_size zh1 - 4)))) (sio_data zh1))
             else Some (s1, zh1))"

definition flush_if_large :: "file_backed \<Rightarrow> stringio \<Rightarrow> (file_backed \<times> stringio) option" where
  "flush_if_large f b =
     (if int (BUFF_SIZE * 10) < sio_readptr b
      then map_option (\<lambda>d. (bs_write f d, StringIO_truncate b 0)) (mem_read 0 (nat (sio_readptr b)) (sio_data b))
      else Some (f, b))"

definition write_cd_entry :: "stringio \<Rightarrow> stringio \<Rightarrow> 'z zip_segment \<Rightarrow> ('z zip_segment \<times> stringio) option" where
  "write_cd_entry b zh s0 =
     (let s = s0\<lparr>cd := (cd s0)\<lparr>file_name_length := nat (u16 (str_length (filename s0)))\<rparr>\<rparr> in
      case StringIO_write b (pack (cd_fields (cd s))) of
        None \<Rightarrow> None
      | Some (b1, _) \<Rightarrow>
          (case mem_read 0 (nat (u32 (str_length (filename s)))) (case str_value (filename s) of None \<Rightarrow> [] | Some v \<Rightarrow> v) of
             None \<Rightarrow> None
           | Some name \<Rightarrow>
               (case StringIO_write b1 name of
                  None \<Rightarrow> None
                | Some (b2, _) \<Rightarrow>
                    if 4 < sio_size zh
                    then (case mem_read 0 (nat (sio_size zh)) (sio_data zh) of
                            None \<Rightarrow> None
                          | Some x \<Rightarrow> map_option (\<lambda>(b3, _). (s, b3)) (StringIO_write b2 x))
                    else Some (s, b2))))"

text \<open>The loop over the members: one that still has a buffer is not closed and is passed over.\<close>

fun cd_loop :: "'z zip_segment list \<Rightarrow> file_backed \<Rightarrow> stringio \<Rightarrow> stringio \<Rightarrow> int \<Rightarrow>
    ('z zip_segment list \<times> file_backed \<times> stringio \<times> int) option" where
  "cd_loop [] f b zh count = Some ([], f, b, count)"
| "cd_loop (s # ss) f b zh count =
     (if buffer s \<noteq> None
      then map_option (\<lambda>(ss', r). (s # ss', r)) (cd_loop ss f b zh count)
      else case flush_if_large f b of
             None \<Rightarrow> None
           | Some (f1, b1) \<Rightarrow>
               (case zip64_extra s zh of
                  None \<Rightarrow> None
                | Some (s1, zh1) \<Rightarrow>
                    (case write_cd_entry b1 zh1 s1 of
                       None \<Rightarrow> None
                     | Some (s2, b2) \<Rightarrow> map_option (\<lambda>(ss', r). (s2 # ss', r)) (cd_loop ss f1 b2 zh1 (count + 1)))))"

text \<open>The end record, its comment (the volume's URN) and the last flush.\<close>

definition write_end_record :: "file_backed \<Rightarrow> stringio \<Rightarrow> int \<Rightarrow> int \<Rightarrow> buf \<Rightarrow> file_backed option" where
  "write_end_record f b start_of_cd count comment =
     (let off_end_cd = u64 (FileLikeObject_tell f + sio_size b);
          big = int ZIP64_LIMIT < start_of_cd;
          e = \<lparr>end_magic = 0x6054b50, number_of_this_disk = 0, end_disk_with_cd = 0,
               total_entries_in_cd_on_disk = nat (u16 count), total_entries_in_cd = nat (u16 count),
               end_size_of_cd = nat (u32 (off_end_cd - start_of_cd)),
               end_offset_of_cd = (if big then 2 ^ 32 - 1 else nat (u32 start_of_cd)),
               comment_len = nat (u16 (int (length comment) + 1))\<rparr>
      in case (if big then write_zip64_CD b off_end_cd start_of_cd count else Some b) of
           None \<Rightarrow> None
         | Some b1 \<Rightarrow>
             (case StringIO_write b1 (pack (end_fields e)) of
                None \<Rightarrow> None
              | Some (b2, _) \<Rightarrow>
                  (case StringIO_write b2 (take (comment_len e) (comment @ [NUL])) of
                     None \<Rightarrow> None
                   | Some (b3, _) \<Rightarrow>
                       map_option (bs_write f) (mem_read 0 (nat (sio_readptr b3)) (sio_data b3)))))"

definition ZipFile_close :: "(nat \<Rightarrow> byte) \<Rightarrow> resolver \<Rightarrow> 'z zip_file \<Rightarrow> ('z zip_file \<times> resolver \<times> int) option" where
  "ZipFile_close junk r self =
     (if mode self = CHR ''r'' then Some (self, fst (AFFObject_close r self), 0)
      else
        (let b0 = StringIO_truncate (fst (StringIO_seek (StringIO_constructor junk) (10 * int BUFF_SIZE) SEEK_SET)) 0 in
         case StringIO_write (StringIO_constructor junk) [CHR 0x01, NUL, NUL, NUL] of
           None \<Rightarrow> None
         | Some (zh, _) \<Rightarrow>
             (case bs_seek (backing_store self) 0 SEEK_END of
                (f0, start_of_cd) \<Rightarrow>
                  (case cd_loop (members self) f0 b0 zh 0 of
                     None \<Rightarrow> None
                   | Some (ms, f1, b1, count) \<Rightarrow>
                       (case write_end_record f1 b1 start_of_cd count (urn_value (urn self)) of
                          None \<Rightarrow> None
                        | Some f2 \<Rightarrow>
                            (let z = self\<lparr>members := ms, backing_store := f2\<rparr>
                             in case AFFObject_close r z of (r', res) \<Rightarrow> Some (z, r', res)))))))"

section \<open>The backing store as a byte sequence\<close>

abbreviation file_at :: "buf \<Rightarrow> nat \<Rightarrow> file_backed" where
  "file_at d p \<equiv> \<lparr>disk = d, readptr = int p\<rparr>"

lemma fbo_ok_file_at: "p \<le> length d \<Longrightarrow> length d < 2 ^ 62 \<Longrightarrow> fbo_ok (file_at d p)"
  by (simp add: fbo_ok_def)

lemma bs_read_file:
  assumes "p \<le> length d" "length d < 2 ^ 62"
  shows "bs_read (file_at d p) n = (file_at d (min (p + n) (length d)), take n (drop p d))"
proof -
  have "fbo_rd (file_at d p) n = Some (file_at d (min (p + n) (length d)), take n (drop p d))"
    using fbo_rd_eq [OF fbo_ok_file_at [OF assms], of n] assms(1) by (simp add: fbo_pos_def)
  then show ?thesis by (auto simp: fbo_rd_def bs_read_def split: prod.splits option.splits)
qed

lemma bs_write_end:
  assumes "length d + length b < 2 ^ 62"
  shows "bs_write (file_at d (length d)) b = file_at (d @ b) (length (d @ b))"
proof -
  have "fbo_wr (file_at d (length d)) b = Some (file_at (d @ b) (length (d @ b)))"
    using fbo_wr_eq [OF fbo_ok_file_at [of "length d" d], of b] assms by (simp add: fbo_pos_def fbo_room_def)
  then show ?thesis by (simp add: fbo_wr_def bs_write_def)
qed

lemma bs_writes_end:
  "length d + length (concat bs) < 2 ^ 62 \<Longrightarrow>
     foldl bs_write (file_at d (length d)) bs = file_at (d @ concat bs) (length (d @ concat bs))"
proof (induction bs arbitrary: d)
  case (Cons b bs)
  have "bs_write (file_at d (length d)) b = file_at (d @ b) (length (d @ b))"
    using Cons.prems by (intro bs_write_end) simp
  then show ?case using Cons.IH [of "d @ b"] Cons.prems by simp
qed simp

lemma bs_seek_set [simp]: "bs_seek \<lparr>disk = d, readptr = x\<rparr> (int p) SEEK_SET = (file_at d p, int p)"
  by (simp add: bs_seek_def FileBackedObject_seek_def Let_def)

lemma bs_seek_end [simp]: "bs_seek \<lparr>disk = d, readptr = x\<rparr> 0 SEEK_END = (file_at d (length d), int (length d))"
  by (simp add: bs_seek_def FileBackedObject_seek_def Let_def)

text \<open>A seek back from the end of a file that is too short fails and leaves the position at the start.\<close>

lemma bs_seek_back: "bs_seek \<lparr>disk = d, readptr = x\<rparr> (- int n) SEEK_END = (file_at d (length d - n), int (length d - n))"
  by (auto simp: bs_seek_def FileBackedObject_seek_def Let_def)

section \<open>Buffers at their end\<close>

definition at_end :: "stringio \<Rightarrow> bool" where
  "at_end b \<longleftrightarrow> sio_ok b \<and> sio_pos b = length (sio_content b)"

lemma at_end_write:
  assumes "at_end b" "2 * (length (sio_content b) + length x) < 268435456"
  shows "\<exists>b'. StringIO_write b x = Some (b', int (length x)) \<and> at_end b' \<and> sio_content b' = sio_content b @ x"
proof -
  have ok: "sio_ok b" "sio_pos b = length (sio_content b)" using assms(1) by (auto simp: at_end_def)
  have "nat (sio_readptr b) = length (sio_content b)" "0 \<le> sio_readptr b" using ok by (simp_all add: sio_pos_def sio_ok_def)
  then have "sio_readptr b = int (length (sio_content b))" by linarith
  then have "sio_room b (length x)" using assms(2) by (simp add: sio_room_def MAX_TALLOC_SIZE_def)
  then obtain b' where "StringIO_write b x = Some (b', int (length x))" "sio_ok b'"
      "sio_content b' = overwrite (sio_pos b) x (sio_content b)" "sio_pos b' = sio_pos b + length x"
    using StringIO_write_spec [OF ok(1)] by blast
  then show ?thesis using ok(2) by (auto simp: at_end_def)
qed

lemma at_end_contents:
  assumes "at_end b"
  shows "mem_read 0 (nat (sio_readptr b)) (sio_data b) = Some (sio_content b)"
    "mem_read 0 (nat (u32 (sio_size b))) (sio_data b) = Some (sio_content b)"
    "sio_readptr b = int (length (sio_content b))" "sio_size b = int (length (sio_content b))"
proof -
  have b: "0 \<le> sio_readptr b" "sio_readptr b \<le> sio_size b" "nat (sio_size b) \<le> length (sio_data b)" "sio_size b < 268435456"
      "nat (sio_readptr b) = length (sio_content b)" "length (sio_content b) = nat (sio_size b)"
    using assms by (auto simp: at_end_def sio_ok_def sio_pos_def MAX_TALLOC_SIZE_def)
  then show "sio_readptr b = int (length (sio_content b))" "sio_size b = int (length (sio_content b))" by linarith+
  have "u32 (sio_size b) = sio_size b" using b by (intro u32_id) auto
  then show "mem_read 0 (nat (u32 (sio_size b))) (sio_data b) = Some (sio_content b)"
    "mem_read 0 (nat (sio_readptr b)) (sio_data b) = Some (sio_content b)"
    using b by (auto simp: mem_read_def sio_content_def)
qed

lemma at_end_new: "at_end (StringIO_constructor junk) \<and> sio_content (StringIO_constructor junk) = []"
  using sio_Con_ok [of junk] by (auto simp: at_end_def sio_pos_def StringIO_constructor_def)

lemma at_end_prealloc:
  fixes junk
  defines "b \<equiv> StringIO_truncate (fst (StringIO_seek (StringIO_constructor junk) (10 * int BUFF_SIZE) SEEK_SET)) 0"
  shows "at_end b \<and> sio_content b = []"
proof -
  have "b = StringIO_truncate (fst (StringIO_seek (StringIO_constructor junk) (int 409600) SEEK_SET)) 0"
    by (simp add: b_def BUFF_SIZE_def)
  moreover have "alloc_size (StringIO_constructor junk) \<le> int 409600" "int 409600 < MAX_TALLOC_SIZE" "sio_ok (StringIO_constructor junk)"
    using sio_Con_ok [of junk] by (simp_all add: StringIO_constructor_def MAX_TALLOC_SIZE_def)
  ultimately have "sio_ok b" "sio_content b = []"
    using StringIO_prealloc [of "StringIO_constructor junk" 409600] by simp_all
  then show ?thesis using sio_pos_le [of b] by (simp add: at_end_def)
qed

lemma at_end_truncate:
  assumes "sio_ok b" "n \<le> length (sio_content b)" "n \<le> sio_pos b"
  shows "at_end (StringIO_truncate b (int n))" "sio_content (StringIO_truncate b (int n)) = take n (sio_content b)"
  using StringIO_truncate_spec [OF assms(1,2)] assms(2,3) by (auto simp: at_end_def)

section \<open>The central directory that is written\<close>

definition seg_name :: "'z zip_segment \<Rightarrow> buf" where
  "seg_name s = take (nat (str_length (filename s))) (case str_value (filename s) of None \<Rightarrow> [] | Some v \<Rightarrow> v)"

definition name_ok :: "XSDString \<Rightarrow> bool" where
  "name_ok x \<longleftrightarrow> 0 \<le> str_length x \<and> str_length x < 2 ^ 16 \<and>
     nat (str_length x) \<le> length (case str_value x of None \<Rightarrow> [] | Some v \<Rightarrow> v)"

definition listed :: "'z zip_segment \<Rightarrow> 'z zip_segment" where
  "listed s = s\<lparr>cd := (cd s)\<lparr>relative_offset_local_header := offset_of_file_header s,
                          file_name_length := nat (str_length (filename s))\<rparr>\<rparr>"

definition cd_entry :: "'z zip_segment \<Rightarrow> buf" where
  "cd_entry s = pack (cd_fields (cd (listed s))) @ seg_name s"

definition closed_ok :: "'z zip_segment \<Rightarrow> bool" where
  "closed_ok s \<longleftrightarrow> buffer s = None \<and> offset_of_file_header s \<le> ZIP64_LIMIT \<and> name_ok (filename s)"

lemma length_seg_name: "name_ok (filename s) \<Longrightarrow> length (seg_name s) = nat (str_length (filename s))"
  by (simp add: seg_name_def name_ok_def min_def)

lemma length_cd_entry: "closed_ok s \<Longrightarrow> length (cd_entry s) = 46 + nat (str_length (filename s)) \<and> length (cd_entry s) < 65582"
  using length_seg_name [of s] by (auto simp: cd_entry_def closed_ok_def name_ok_def)

lemma zip64_extra_small:
  assumes "closed_ok s" "sio_ok zh" "4 \<le> length (sio_content zh)" "4 \<le> sio_pos zh"
  shows "\<exists>zh'. zip64_extra s zh = Some (s\<lparr>cd := (cd s)\<lparr>relative_offset_local_header := offset_of_file_header s\<rparr>\<rparr>, zh') \<and>
     sio_ok zh' \<and> length (sio_content zh') = 4 \<and> sio_pos zh' = 4"
proof -
  have "at_end (StringIO_truncate zh 4)" "sio_content (StringIO_truncate zh 4) = take 4 (sio_content zh)"
    using at_end_truncate [of zh 4] assms by simp_all
  moreover from this have "sio_size (StringIO_truncate zh 4) = 4"
    using at_end_contents(4) [of "StringIO_truncate zh 4"] assms(3) by simp
  moreover have "\<not> ZIP64_LIMIT < offset_of_file_header s" "offset_of_file_header s mod 2 ^ 32 = offset_of_file_header s"
    using assms(1) by (auto simp: closed_ok_def ZIP64_LIMIT_def)
  ultimately show ?thesis using assms(3) by (auto simp: zip64_extra_def Let_def at_end_def)
qed

lemma write_cd_entry_spec:
  assumes "closed_ok s" "at_end b" "length (sio_content b) < 500000" "sio_ok zh" "length (sio_content zh) = 4"
  shows "\<exists>b'. write_cd_entry b zh (s\<lparr>cd := (cd s)\<lparr>relative_offset_local_header := offset_of_file_header s\<rparr>\<rparr>) = Some (listed s, b') \<and>
     at_end b' \<and> sio_content b' = sio_content b @ cd_entry s"
proof -
  have n: "0 \<le> str_length (filename s)" "str_length (filename s) < 65536" "name_ok (filename s)"
    using assms(1) by (auto simp: closed_ok_def name_ok_def)
  then have u: "u16 (str_length (filename s)) = str_length (filename s)" "u32 (str_length (filename s)) = str_length (filename s)"
    by (auto intro!: c_int)
  let ?h = "pack (cd_fields (cd (listed s)))"
  have ln: "length (seg_name s) < 65536" using length_seg_name [OF n(3)] n(1,2) by simp
  obtain b1 where b1: "StringIO_write b ?h = Some (b1, 46)" "at_end b1" "sio_content b1 = sio_content b @ ?h"
    using at_end_write [OF assms(2), of ?h] assms(3) by auto
  obtain b2 r where b2: "StringIO_write b1 (seg_name s) = Some (b2, r)" "at_end b2" "sio_content b2 = sio_content b1 @ seg_name s"
    using at_end_write [OF b1(2), of "seg_name s"] assms(3) b1(3) ln by auto
  have m: "mem_read 0 (nat (str_length (filename s))) (case str_value (filename s) of None \<Rightarrow> [] | Some v \<Rightarrow> v) = Some (seg_name s)"
    using n(3) by (simp add: mem_read_def seg_name_def name_ok_def)
  have "\<not> 4 < sio_size zh" using assms(4,5) by (simp add: sio_ok_def)
  then show ?thesis using b1 b2 m
    by (simp add: write_cd_entry_def Let_def u cd_entry_def listed_def)
qed

lemma flush_if_large_spec:
  assumes "at_end b" "length d + length (sio_content b) < 2 ^ 62"
  shows "\<exists>d' b'. flush_if_large (file_at d (length d)) b = Some (file_at d' (length d'), b') \<and> at_end b' \<and>
     d' @ sio_content b' = d @ sio_content b \<and> length (sio_content b') \<le> 409600"
proof (cases "int (BUFF_SIZE * 10) < sio_readptr b")
  case True
  have "at_end (StringIO_truncate b 0)" "sio_content (StringIO_truncate b 0) = []"
    using at_end_truncate [of b 0] assms(1) by (simp_all add: at_end_def)
  then show ?thesis
    using True at_end_contents(1) [OF assms(1)] bs_write_end [OF assms(2)]
    by (intro exI [of _ "d @ sio_content b"] exI [of _ "StringIO_truncate b 0"]) (simp add: flush_if_large_def)
next
  case False
  then show ?thesis using assms(1) at_end_contents(3) [OF assms(1)]
    by (intro exI [of _ d] exI [of _ b]) (simp add: flush_if_large_def BUFF_SIZE_def)
qed

text \<open>Which members are in the directory, what is written for them, and how the members are left.\<close>

definition closed_members :: "'z zip_segment list \<Rightarrow> 'z zip_segment list" where
  "closed_members ms = filter (\<lambda>s. buffer s = None) ms"

definition listed_members :: "'z zip_segment list \<Rightarrow> 'z zip_segment list" where
  "listed_members ms = map (\<lambda>s. if buffer s = None then listed s else s) ms"

definition cd_bytes :: "'z zip_segment list \<Rightarrow> buf" where
  "cd_bytes ms = concat (map cd_entry (closed_members ms))"

lemma cd_loop_spec:
  assumes "\<forall>s \<in> set ss. buffer s = None \<longrightarrow> closed_ok s" "at_end b" "length (sio_content b) < 500000"
    "sio_ok zh" "4 \<le> length (sio_content zh)" "4 \<le> sio_pos zh"
    "length d + length (sio_content b) + length (cd_bytes ss) < 2 ^ 62"
  shows "\<exists>d' b'. cd_loop ss (file_at d (length d)) b zh n = Some (listed_members ss, file_at d' (length d'), b', n + int (length (closed_members ss))) \<and>
     at_end b' \<and> length (sio_content b') < 500000 \<and> d' @ sio_content b' = d @ sio_content b @ cd_bytes ss"
  using assms
proof (induction ss arbitrary: d b zh n)
  case Nil
  then show ?case by (auto simp: listed_members_def closed_members_def cd_bytes_def)
next
  case (Cons s ss)
  show ?case
  proof (cases "buffer s = None")
    case False
    then have c: "closed_members (s # ss) = closed_members ss" "cd_bytes (s # ss) = cd_bytes ss" "listed_members (s # ss) = s # listed_members ss"
      by (auto simp: closed_members_def cd_bytes_def listed_members_def)
    from Cons.IH [OF _ Cons.prems(2-6), of d n] Cons.prems(1,7) c(2)
    obtain d' b' where "cd_loop ss (file_at d (length d)) b zh n = Some (listed_members ss, file_at d' (length d'), b', n + int (length (closed_members ss)))"
        "at_end b'" "length (sio_content b') < 500000" "d' @ sio_content b' = d @ sio_content b @ cd_bytes ss" by auto
    then show ?thesis using False c by simp
  next
    case True
    then have s: "closed_ok s" using Cons.prems(1) by simp
    have c: "closed_members (s # ss) = s # closed_members ss" "cd_bytes (s # ss) = cd_entry s @ cd_bytes ss"
        "listed_members (s # ss) = listed s # listed_members ss"
      using True by (auto simp: closed_members_def cd_bytes_def listed_members_def)
    obtain d1 b1 where 1: "flush_if_large (file_at d (length d)) b = Some (file_at d1 (length d1), b1)" "at_end b1"
        "d1 @ sio_content b1 = d @ sio_content b" "length (sio_content b1) \<le> 409600"
      using flush_if_large_spec [OF Cons.prems(2), of d] Cons.prems(7) by auto
    obtain zh1 where 2: "zip64_extra s zh = Some (s\<lparr>cd := (cd s)\<lparr>relative_offset_local_header := offset_of_file_header s\<rparr>\<rparr>, zh1)"
        "sio_ok zh1" "length (sio_content zh1) = 4" "sio_pos zh1 = 4"
      using zip64_extra_small [OF s Cons.prems(4-6)] by auto
    obtain b2 where 3: "write_cd_entry b1 zh1 (s\<lparr>cd := (cd s)\<lparr>relative_offset_local_header := offset_of_file_header s\<rparr>\<rparr>) = Some (listed s, b2)"
        "at_end b2" "sio_content b2 = sio_content b1 @ cd_entry s"
      using write_cd_entry_spec [OF s 1(2) _ 2(2,3)] 1(4) by auto
    have len: "length (sio_content b2) < 500000" using 1(4) 3(3) length_cd_entry [OF s] by simp
    have "length (d1 @ sio_content b1) = length (d @ sio_content b)" using 1(3) by simp
    then have "length d1 + length (sio_content b2) + length (cd_bytes ss) < 2 ^ 62"
      using Cons.prems(7) c(2) 3(3) by simp
    from Cons.IH [OF _ 3(2) len 2(2) _ _ this, of "n + 1"] Cons.prems(1) 2(3,4)
    obtain d' b' where "cd_loop ss (file_at d1 (length d1)) b2 zh1 (n + 1)
          = Some (listed_members ss, file_at d' (length d'), b', n + 1 + int (length (closed_members ss)))"
        "at_end b'" "length (sio_content b') < 500000" "d' @ sio_content b' = d1 @ sio_content b2 @ cd_bytes ss" by auto
    then show ?thesis using True c 1 2(1) 3 by auto
  qed
qed

text \<open>The end record of a directory of \<open>n\<close> entries and \<open>m\<close> bytes at offset \<open>off\<close>, for a comment of \<open>k\<close> bytes and its terminator.\<close>

definition end_record :: "nat \<Rightarrow> nat \<Rightarrow> nat \<Rightarrow> nat \<Rightarrow> EndCentralDirectory" where
  "end_record n m off k = \<lparr>end_magic = 0x6054b50, number_of_this_disk = 0, end_disk_with_cd = 0, total_entries_in_cd_on_disk = n,
     total_entries_in_cd = n, end_size_of_cd = m, end_offset_of_cd = off, comment_len = k + 1\<rparr>"

definition end_bytes :: "nat \<Rightarrow> nat \<Rightarrow> nat \<Rightarrow> buf \<Rightarrow> buf" where
  "end_bytes n m off comment = pack (end_fields (end_record n m off (length comment))) @ comment @ [NUL]"

lemma write_end_record_spec:
  assumes "at_end b" "length (sio_content b) < 500000" "d @ sio_content b = pre @ cdb" "length pre \<le> ZIP64_LIMIT"
    "n < 2 ^ 16" "length comment + 1 < 2 ^ 16" "length cdb < 2 ^ 32"
  shows "write_end_record (file_at d (length d)) b (int (length pre)) (int n) comment
     = Some (file_at (pre @ cdb @ end_bytes n (length cdb) (length pre) comment)
                     (length (pre @ cdb @ end_bytes n (length cdb) (length pre) comment)))"
proof -
  let ?e = "end_record n (length cdb) (length pre) (length comment)"
  have len: "length d + length (sio_content b) = length pre + length cdb" using arg_cong [OF assms(3), of length] by simp
  have lim: "length pre < 2147483648" using assms(4) by (simp add: ZIP64_LIMIT_def)
  have "u64 (int (length d) + int (length (sio_content b))) = int (length pre + length cdb)"
    using len lim assms(7) by (subst u64_id) auto
  then have cv: "u64 (int (length d) + sio_size b) = int (length pre + length cdb)" using at_end_contents(4) [OF assms(1)] by simp
  have cv2: "nat (u32 (int (length cdb))) = length cdb" "nat (u32 (int (length pre))) = length pre"
      "nat (u16 (int n)) = n" "nat (u16 (int (length comment) + 1)) = length comment + 1"
    using assms(5-7) lim by (simp_all add: u32_id u16_id nat_add_distrib)
  obtain b1 r1 where b1: "StringIO_write b (pack (end_fields ?e)) = Some (b1, r1)" "at_end b1"
      "sio_content b1 = sio_content b @ pack (end_fields ?e)"
    using at_end_write [OF assms(1), of "pack (end_fields ?e)"] assms(2) by auto
  obtain b2 r2 where b2: "StringIO_write b1 (comment @ [NUL]) = Some (b2, r2)" "at_end b2"
      "sio_content b2 = sio_content b1 @ comment @ [NUL]"
    using at_end_write [OF b1(2), of "comment @ [NUL]"] b1(3) assms(2,6) by auto
  have c: "sio_content b2 = sio_content b @ end_bytes n (length cdb) (length pre) comment" using b1(3) b2(3) by (simp add: end_bytes_def)
  have "length d + length (sio_content b2) < 2 ^ 62" using len lim assms(6,7) c by (simp add: end_bytes_def)
  from bs_write_end [OF this] have "bs_write (file_at d (length d)) (sio_content b2)
      = file_at (pre @ cdb @ end_bytes n (length cdb) (length pre) comment) (length (pre @ cdb @ end_bytes n (length cdb) (length pre) comment))"
    unfolding c using assms(3) by (metis append.assoc)
  then show ?thesis
    using b1(1) b2(1) lim at_end_contents(1) [OF b2(2)]
    by (simp add: write_end_record_def Let_def FileLikeObject_tell_def cv cv2 end_record_def ZIP64_LIMIT_def)
qed

lemma ZipFile_close_spec:
  assumes "mode z = CHR ''w''" "\<forall>s \<in> set (members z). buffer s = None \<longrightarrow> closed_ok s"
    "length (closed_members (members z)) < 2 ^ 16" "length (disk (backing_store z)) \<le> ZIP64_LIMIT" "length (urn_value (urn z)) + 1 < 2 ^ 16"
    "length (cd_bytes (members z)) < 2 ^ 32"
  shows "\<exists>z' r'. ZipFile_close junk r z = Some (z', r', 1) \<and> members z' = listed_members (members z) \<and>
     disk (backing_store z') = disk (backing_store z) @ cd_bytes (members z) @
       end_bytes (length (closed_members (members z))) (length (cd_bytes (members z))) (length (disk (backing_store z))) (urn_value (urn z))"
proof -
  let ?d = "disk (backing_store z)" and ?ms = "members z"
  obtain d x where f: "backing_store z = \<lparr>disk = d, readptr = x\<rparr>" by (cases "backing_store z") auto
  have lim: "length d < 2147483648" using assms(4) f by (simp add: ZIP64_LIMIT_def)
  obtain zh r0 where zh: "StringIO_write (StringIO_constructor junk) [CHR 0x01, NUL, NUL, NUL] = Some (zh, r0)" "at_end zh"
      "sio_content zh = [CHR 0x01, NUL, NUL, NUL]"
    using at_end_write [of "StringIO_constructor junk" "[CHR 0x01, NUL, NUL, NUL]"] at_end_new [of junk] by auto
  define b0 where "b0 = StringIO_truncate (fst (StringIO_seek (StringIO_constructor junk) (10 * int BUFF_SIZE) SEEK_SET)) 0"
  have b0: "at_end b0" "sio_content b0 = []" using at_end_prealloc [of junk] by (auto simp: b0_def)
  obtain d1 b1 where 1: "cd_loop ?ms (file_at d (length d)) b0 zh 0 = Some (listed_members ?ms, file_at d1 (length d1), b1, int (length (closed_members ?ms)))"
      "at_end b1" "length (sio_content b1) < 500000" "d1 @ sio_content b1 = d @ cd_bytes ?ms"
    using cd_loop_spec [OF assms(2) b0(1), of zh d 0] b0(2) zh(2,3) lim assms(6) by (auto simp: at_end_def)
  have 2: "write_end_record (file_at d1 (length d1)) b1 (int (length d)) (int (length (closed_members ?ms))) (urn_value (urn z))
     = Some (file_at (d @ cd_bytes ?ms @ end_bytes (length (closed_members ?ms)) (length (cd_bytes ?ms)) (length d) (urn_value (urn z)))
             (length (d @ cd_bytes ?ms @ end_bytes (length (closed_members ?ms)) (length (cd_bytes ?ms)) (length d) (urn_value (urn z)))))"
    using assms(3-6) f by (intro write_end_record_spec [OF 1(2-4)]) auto
  let ?z = "z\<lparr>members := listed_members ?ms, backing_store := file_at (d @ cd_bytes ?ms @ end_bytes (length (closed_members ?ms)) (length (cd_bytes ?ms)) (length d) (urn_value (urn z)))
             (length (d @ cd_bytes ?ms @ end_bytes (length (closed_members ?ms)) (length (cd_bytes ?ms)) (length d) (urn_value (urn z))))\<rparr>"
  have "ZipFile_close junk r z = Some (?z, fst (AFFObject_close r ?z), 1)"
    using assms(1) zh(1) 1(1) 2 f by (simp add: ZipFile_close_def Let_def b0_def [symmetric] AFFObject_close_def)
  then show ?thesis using f by simp
qed

end
