(* ===== verification/Zip_Load.thy ===== *)
theory Zip_Load
  imports Zip
begin

text \<open>
  What the Zip volume promises: the directory that \<^verbatim>\<open>ZipFile_close\<close> writes is the one that \<^verbatim>\<open>ZipFile_load_from_backing_store\<close>
  reads, a segment that was closed can be read back from the file, and where this fails.
\<close>

section \<open>Finding the end record\<close>

definition END_MAGIC :: buf where "END_MAGIC = [CHR 0x50, CHR 0x4B, CHR 0x05, CHR 0x06]"

lemma END_MAGIC_bytes: "END_MAGIC = le_bytes 4 0x6054b50"
proof -
  have "le_val END_MAGIC = 0x6054b50" "length END_MAGIC = 4" by (simp_all add: END_MAGIC_def)
  then show ?thesis using le_bytes_le_val [of END_MAGIC] by simp
qed

lemma END_MAGIC_nth: "length END_MAGIC = 4" "END_MAGIC ! 3 = CHR 0x06"
  by (simp_all add: END_MAGIC_def)

lemma field_magic: "field j 4 b = 0x6054b50 \<longleftrightarrow> occurs_at END_MAGIC j b"
proof
  assume f: "field j 4 b = 0x6054b50"
  let ?x = "take 4 (drop j b)"
  have "\<not> length ?x \<le> 3"
  proof
    assume "length ?x \<le> 3"
    then have "256 ^ length ?x \<le> (256 :: nat) ^ 3" by (intro power_increasing) auto
    with le_val_bound [of ?x] f show False by (simp add: field_def)
  qed
  then have l: "length ?x = 4" by simp
  then have "?x = END_MAGIC" using le_bytes_le_val [of ?x] f by (simp only: field_def END_MAGIC_bytes)
  moreover have "j + 4 \<le> length b" using l by simp
  ultimately show "occurs_at END_MAGIC j b" by (simp add: occurs_at_def END_MAGIC_nth)
next
  assume "occurs_at END_MAGIC j b"
  then have "take 4 (drop j b) = END_MAGIC" by (simp add: occurs_at_def END_MAGIC_nth)
  then show "field j 4 b = 0x6054b50" by (simp add: field_def END_MAGIC_bytes)
qed

lemma occurs_in_padded:
  assumes "occurs_at END_MAGIC j (x @ replicate k NUL)"
  shows "occurs_at END_MAGIC j x"
proof (cases "j + 4 \<le> length x")
  case True
  then show ?thesis using assms by (simp add: occurs_at_def END_MAGIC_nth)
next
  case False
  let ?y = "x @ replicate k NUL"
  have j: "j + 4 \<le> length ?y" "take 4 (drop j ?y) = END_MAGIC" using assms by (simp_all add: occurs_at_def END_MAGIC_nth)
  then have "END_MAGIC ! 3 = ?y ! (j + 3)" using nth_take [of 3 4 "drop j ?y"] nth_drop [of j ?y 3] by simp
  moreover have "?y ! (j + 3) = NUL" using False j(1) by (simp add: nth_append)
  ultimately show ?thesis using END_MAGIC_nth(2) by simp
qed

lemma occurs_in_prefix: "occurs_at m j (take n x) \<Longrightarrow> occurs_at m j x"
  by (auto simp: occurs_at_def drop_take min_def split: if_splits)

lemma scan_back_spec:
  assumes "0 < i" "i \<le> n" "field i 4 b = 0x6054b50" "\<forall>j. i < j \<and> j \<le> n \<longrightarrow> field j 4 b \<noteq> 0x6054b50"
  shows "scan_back b n = i"
  using assms
proof (induction n)
  case (Suc n)
  show ?case
  proof (cases "i = Suc n")
    case False
    then have "i \<le> n" "field (Suc n) 4 b \<noteq> 0x6054b50" using Suc.prems by auto
    then show ?thesis using Suc.IH Suc.prems by simp
  qed (use Suc.prems in simp)
qed simp

text \<open>How many bytes at the end of a file of length \<open>n\<close> the search for the end record does not read.\<close>

definition unread_bytes :: "nat \<Rightarrow> nat" where
  "unread_bytes n = min 4 (n - (BUFF_SIZE - 4))"

lemma window:
  fixes D pre tail :: buf
  assumes "D = pre @ tail" "length tail < BUFF_SIZE" "4 < length tail"
  shows "take (BUFF_SIZE - 4) (drop (length D - BUFF_SIZE) D)
      = drop (length D - BUFF_SIZE) pre @ take (length tail - unread_bytes (length D)) tail"
    and "length D - BUFF_SIZE < length pre \<or> pre = []"
proof -
  have B: "BUFF_SIZE = 40960" by (simp add: BUFF_SIZE_def)
  let ?w = "length D - BUFF_SIZE"
  have w: "?w \<le> length pre" using assms by (simp add: B)
  have "drop ?w D = drop ?w pre @ tail" using w assms(1) by simp
  moreover have "length (drop ?w pre) \<le> BUFF_SIZE - 4" using assms by (simp add: B)
  moreover have "take (BUFF_SIZE - 4 - length (drop ?w pre)) tail = take (length tail - unread_bytes (length D)) tail"
    using assms by (cases "length D \<le> 40956") (auto simp: unread_bytes_def B min_def)
  ultimately show "take (BUFF_SIZE - 4) (drop ?w D) = drop ?w pre @ take (length tail - unread_bytes (length D)) tail"
    by simp
  show "?w < length pre \<or> pre = []" using assms by (cases pre) (auto simp: B)
qed

lemma c_string_padded: "cstr c \<Longrightarrow> c_string (c @ replicate (Suc k) NUL) = c"
  unfolding c_string_def by (subst takeWhile_append2) (auto simp: cstr_def)

lemma cstr_take: "cstr c \<Longrightarrow> cstr (take n c)"
  by (auto simp: cstr_def dest: in_set_takeD)

text \<open>
  The search in a file that ends in an end record and its comment: the record is found as it was written, the
  comment is read without the unread bytes, and the position is the start of the directory.
\<close>

text \<open>What the search finds in the last bytes of a volume: the record, at its place behind the directory, and the part of the comment that was read.\<close>

lemma end_record_window:
  fixes pre cdb comment :: buf and n :: nat
  defines "tail \<equiv> end_bytes n (length cdb) (length pre) comment"
  defines "D \<equiv> pre @ cdb @ tail"
  defines "d \<equiv> take (BUFF_SIZE - 4) (drop (length D - BUFF_SIZE) D)"
  defines "b \<equiv> d @ replicate (BUFF_SIZE - length d) NUL"
  defines "i \<equiv> length (pre @ cdb) - (length D - BUFF_SIZE)"
  assumes pre: "0 < length pre" "length pre < 2 ^ 31" and n: "n < 2 ^ 16" and cdb: "length cdb < 2 ^ 32"
    and com: "length comment < BUFF_SIZE - 23" "10 \<le> length comment" and magic: "\<forall>j>0. \<not> occurs_at END_MAGIC j tail"
  shows "scan_back b (length d) = i" "0 < i" "\<not> length d - i < 22" "length d < BUFF_SIZE"
    "end_unpack (drop i b) = end_record n (length cdb) (length pre) (length comment)"
    "drop (i + 22) b = take (length comment + 1 - unread_bytes (length D)) (comment @ [NUL]) @ replicate (BUFF_SIZE - length d) NUL"
proof -
  let ?e = "end_record n (length cdb) (length pre) (length comment)"
  have B: "BUFF_SIZE = 40960" by (simp add: BUFF_SIZE_def)
  have lt: "length tail = 23 + length comment" by (simp add: tail_def end_bytes_def)
  have D': "D = (pre @ cdb) @ tail" by (simp add: D_def)
  define u where "u = unread_bytes (length D)"
  have u: "u \<le> 4" by (simp add: u_def unread_bytes_def)
  define w0 where "w0 = length D - BUFF_SIZE"
  have tl: "length tail < BUFF_SIZE" "4 < length tail" using com(1) lt by (auto simp: B)
  note W = window [OF D' tl, folded w0_def u_def]
  have d: "d = drop w0 (pre @ cdb) @ take (length tail - u) tail" unfolding d_def w0_def [symmetric] by (rule W(1))
  show i: "0 < i" using W(2) pre(1) by (auto simp: i_def w0_def)
  have li: "length (drop w0 (pre @ cdb)) = i" by (simp add: i_def w0_def)
  have ld: "length d = i + (length tail - u)" using d li by simp
  show "length d < BUFF_SIZE" by (simp add: d_def B)
  have bi: "drop i b = take (length tail - u) tail @ replicate (BUFF_SIZE - length d) NUL"
    using d li by (simp add: b_def)
  have occ: "field (i + j) 4 b = 0x6054b50 \<Longrightarrow> occurs_at END_MAGIC j tail" for j
    using field_magic [of j "drop i b"] unfolding bi by (metis bi drop_drop field_def occurs_in_padded occurs_in_prefix add.commute)
  have fits: "fits (end_fields ?e)" using n cdb pre(2) com(1)
    by (auto simp: fits_def end_fields_def end_record_def B)
  have "take 22 (drop i b) = pack (end_fields ?e)"
    unfolding bi using lt u com(2) by (simp add: tail_def end_bytes_def)
  then have bi2: "drop i b = pack (end_fields ?e) @ drop 22 (drop i b)" by (metis append_take_drop_id)
  show e: "end_unpack (drop i b) = ?e" using end_unpack_pack [OF fits] bi2 by metis
  then have "field i 4 b = 0x6054b50"
    using arg_cong [OF e, of end_magic] by (simp add: end_unpack_def field_def end_record_def)
  moreover have "field j 4 b \<noteq> 0x6054b50" if "i < j" for j
    using occ [of "j - i"] magic that by auto
  ultimately show "scan_back b (length d) = i" using i ld by (intro scan_back_spec) auto
  show "\<not> length d - i < 22" using ld lt u com(2) by simp
  have "take (length tail - u) tail = pack (end_fields ?e) @ take (length comment + 1 - u) (comment @ [NUL])"
    using lt u com(2) by (simp add: tail_def end_bytes_def)
  then show "drop (i + 22) b = take (length comment + 1 - unread_bytes (length D)) (comment @ [NUL]) @ replicate (BUFF_SIZE - length d) NUL"
    using bi drop_drop [of 22 i b] by (simp add: add.commute u_def)
qed

lemma comment_window:
  assumes com: "10 \<le> length comment" "cstr comment" "take 7 comment = FQN" and u: "u \<le> 4" and k: "0 < k"
  defines "c \<equiv> take (length comment + 1 - u) (comment @ [NUL]) @ replicate k NUL"
  shows "c_string c = take (length comment + 1 - u) comment" "take 7 c = FQN" "take 4 c = ''aff4''"
proof -
  let ?seen = "take (length comment + 1 - u) comment"
  obtain m where m: "c = ?seen @ replicate (Suc m) NUL"
  proof (cases "u = 0")
    case True
    then have "c = ?seen @ replicate (Suc k) NUL" by (simp add: c_def)
    then show ?thesis by (rule that)
  next
    case False
    then have "c = ?seen @ replicate (Suc (k - 1)) NUL" using k by (simp add: c_def)
    then show ?thesis by (rule that)
  qed
  show "c_string c = ?seen" unfolding m using com(2) by (intro c_string_padded) (simp add: cstr_take)
  have "7 \<le> length comment + 1 - u" using com(1) u by linarith
  then have "take 7 ?seen = FQN" "7 \<le> length ?seen" using com by (auto simp: min_def)
  then show t7: "take 7 c = FQN" unfolding m by simp
  then show "take 4 c = ''aff4''" using take_take [of 4 7 c] by (simp add: FQN_def)
qed

lemma find_EndCentralDirectory_spec:
  fixes z :: "'z zip_file" and pre cdb comment :: buf and n :: nat
  defines "tail \<equiv> end_bytes n (length cdb) (length pre) comment"
  defines "D \<equiv> pre @ cdb @ tail"
  defines "seen \<equiv> take (length comment + 1 - unread_bytes (length D)) comment"
  assumes store: "disk (backing_store z) = D" and pre: "0 < length pre" "length pre \<le> ZIP64_LIMIT"
    and n: "n < 2 ^ 16" and cdb: "length cdb < 2 ^ 32" and com: "length comment < BUFF_SIZE - 23" "10 \<le> length comment" "cstr comment"
    and fqn: "take 7 comment = FQN" and magic: "\<forall>j>0. \<not> occurs_at END_MAGIC j tail"
    and urn: "RDFURN_set (urn z) (Some seen) = Some w"
  shows "find_EndCentralDirectory stack z =
     Some (z\<lparr>backing_store := file_at D (length pre), zend := Some (end_record n (length cdb) (length pre) (length comment)), urn := w\<rparr>,
       int (length pre), None)"
proof -
  let ?e = "end_record n (length cdb) (length pre) (length comment)"
  have lim: "length pre < 2 ^ 31" using pre(2) by (simp add: ZIP64_LIMIT_def)
  obtain x where f: "backing_store z = \<lparr>disk = D, readptr = x\<rparr>" using store by (cases "backing_store z") auto
  define w0 where "w0 = length D - BUFF_SIZE"
  define i where "i = length (pre @ cdb) - w0"
  define d where "d = take (BUFF_SIZE - 4) (drop w0 D)"
  define b where "b = d @ replicate (BUFF_SIZE - length d) NUL"
  note E = end_record_window [OF pre(1) lim n cdb com(1,2) magic [unfolded tail_def],
      folded tail_def, folded D_def, folded w0_def, folded d_def i_def, folded b_def]
  have u: "unread_bytes (length D) \<le> 4" by (simp add: unread_bytes_def)
  have k: "0 < BUFF_SIZE - length d" using E(4) by simp
  note C = comment_window [OF com(2,3) fqn u k, folded E(6) seen_def]
  have fbz: "length D < 2 ^ 62" using lim cdb com(1) by (simp add: D_def tail_def end_bytes_def BUFF_SIZE_def)
  have rd: "bs_read (fst (bs_seek (backing_store z) (- int BUFF_SIZE) SEEK_END)) (BUFF_SIZE - 4) = (file_at D (min (w0 + (BUFF_SIZE - 4)) (length D)), d)"
    unfolding f bs_seek_back fst_conv d_def w0_def [symmetric] using fbz by (subst bs_read_file) (auto simp: w0_def)
  have l7: "length FQN = 7" by (simp add: FQN_def)
  have conv: "s64 (int (length pre)) = int (length pre)" "s32 (int (length pre)) = int (length pre)"
    using lim by (auto intro!: c_int)
  have er: "end_offset_of_cd ?e = length pre" "comment_len ?e = length comment + 1" by (simp_all add: end_record_def)
  have ne: "length pre \<noteq> 2 ^ 32 - 1" "4 < length comment + 1" using lim com(2) by auto
  show ?thesis
    unfolding find_EndCentralDirectory_def rd prod.case Let_def b_def [symmetric] E(1)
    using E(2,3,5) C l7 urn er ne conv by simp
qed

section \<open>Loading entries\<close>

text \<open>The segment that is loaded for the entry of \<open>s\<close>, whose unescaped name is \<open>xs\<close>.\<close>

definition loaded :: "(tm \<Rightarrow> int) \<Rightarrow> tm \<Rightarrow> nat \<Rightarrow> rdf_urn \<Rightarrow> 'z zip_segment \<times> buf \<Rightarrow> 'z zip_segment" where
  "loaded mktime now a w = (\<lambda>(s, xs).
     (the (ZipSegment_Con a None (CHR ''r'') now))
       \<lparr>container := Some w, cd := cd (listed s), filename := \<lparr>str_value = Some (xs @ [NUL]), str_length = int (length xs)\<rparr>,
        timestamp := mktime (dos_tm (cd (listed s))), offset_of_file_header := offset_of_file_header s\<rparr>)"

text \<open>
  An entry as this library writes it: the name is stored escaped, with its terminator when the segment was written to this
  volume object, and without it when the segment was loaded and the volume is closed again.
\<close>

definition entry_ok :: "'z zip_segment \<times> buf \<Rightarrow> bool" where
  "entry_ok = (\<lambda>(s, xs). closed_ok s \<and>
     (seg_name s = concat (map escaped xs) @ [NUL] \<or> seg_name s = concat (map escaped xs)) \<and>
     length (concat (map escaped xs)) \<le> BUFF_SIZE - 10 \<and> cd_magic (cd s) = 0x2014b50 \<and> fits (cd_fields (cd s)))"

lemma fits_listed: "entry_ok (s, xs) \<Longrightarrow> fits (cd_fields (cd (listed s)))"
  by (auto simp: entry_ok_def fits_def cd_fields_def listed_def closed_ok_def name_ok_def ZIP64_LIMIT_def)

lemma ZipSegment_Con_reader: "\<exists>s0. ZipSegment_Con a None (CHR ''r'') now = Some s0"
  by (simp add: ZipSegment_Con_def AFFObject_Con_def)

lemma load_entry_spec:
  assumes "entry_ok (s, xs)" "backing_store z = file_at (pre @ cd_entry s @ post) (length pre)"
    "length (pre @ cd_entry s @ post) < 2 ^ 62"
  shows "load_entry_from_CD mktime now stack a z =
     Some (z\<lparr>backing_store := file_at (pre @ cd_entry s @ post) (length (pre @ cd_entry s)),
             zip_compression_method := int (cd_compression_method (cd s))\<rparr>, Some (loaded mktime now a (urn z) (s, xs)))"
proof -
  let ?h = "pack (cd_fields (cd (listed s)))" and ?e = "concat (map escaped xs)" and ?D = "pre @ cd_entry s @ post" and ?n = "seg_name s"
  obtain s0 where s0: "ZipSegment_Con a None (CHR ''r'') now = (Some s0 :: 'a zip_segment option)" using ZipSegment_Con_reader by blast
  have ok: "closed_ok s" "?n = ?e @ [NUL] \<or> ?n = ?e" "length ?e \<le> BUFF_SIZE - 10" "cd_magic (cd s) = 0x2014b50"
    using assms(1) by (auto simp: entry_ok_def)
  then have fl: "file_name_length (cd (listed s)) = length ?n" using length_seg_name [of s] by (simp add: listed_def closed_ok_def)
  have en: "cd_entry s = ?h @ ?n" by (simp add: cd_entry_def)
  have r1: "bs_read (file_at ?D (length pre)) 46 = (file_at ?D (length pre + 46), ?h)"
    using assms(3) by (subst bs_read_file) (auto simp: en)
  have r2: "bs_read (file_at ?D (length pre + 46)) (length ?n) = (file_at ?D (length (pre @ cd_entry s)), ?n)"
    using assms(3) by (subst bs_read_file) (auto simp: en)
  have h: "cd_unpack ?h = cd (listed s)" using cd_unpack_pack [OF fits_listed [OF assms(1)], of "[]"] by simp
  have len: "min (length ?n) (BUFF_SIZE - 1) = length ?n" using ok(2,3) by (auto simp: BUFF_SIZE_def)
  have un: "unescape_filename stack (on_stack stack BUFF_SIZE (?n @ [NUL])) = Some \<lparr>str_value = Some (xs @ [NUL]), str_length = int (length xs)\<rparr>"
    using unescape_escaped [OF ok(3)] ok(2) by (auto simp: on_stack_def)
  have mg: "cd_magic (cd (listed s)) = 0x2014b50" "cd_compression_method (cd (listed s)) = cd_compression_method (cd s)"
      "relative_offset_local_header (cd (listed s)) = offset_of_file_header s"
    using ok(4) by (simp_all add: listed_def)
  show ?thesis
    unfolding load_entry_from_CD_def assms(2) s0 option.case Let_def r1 prod.case h fl len r2 un loaded_def
    by (simp add: mg)
qed

lemma load_entries_spec:
  assumes "\<forall>p \<in> set ps. entry_ok p" "backing_store z = file_at (pre @ concat (map (\<lambda>p. cd_entry (fst p)) ps) @ post) (length pre)"
    "length (pre @ concat (map (\<lambda>p. cd_entry (fst p)) ps) @ post) < 2 ^ 62"
  shows "\<exists>z'. load_entries mktime now stack a (length ps) z = Some z' \<and> urn z' = urn z \<and> mode z' = mode z \<and> zend z' = zend z \<and>
     backing_store z' = file_at (pre @ concat (map (\<lambda>p. cd_entry (fst p)) ps) @ post) (length (pre @ concat (map (\<lambda>p. cd_entry (fst p)) ps))) \<and>
     members z' = members z @ map (\<lambda>(i, p). loaded mktime now i (urn z) p) (zip [a ..< a + length ps] ps)"
  using assms
proof (induction ps arbitrary: z pre a)
  case Nil
  then show ?case by simp
next
  case (Cons p ps)
  obtain s xs where p: "p = (s, xs)" by (cases p)
  let ?post = "concat (map (\<lambda>p. cd_entry (fst p)) ps) @ post"
  let ?z = "z\<lparr>backing_store := file_at (pre @ cd_entry s @ ?post) (length (pre @ cd_entry s)),
             zip_compression_method := int (cd_compression_method (cd s)), members := members z @ [loaded mktime now a (urn z) p]\<rparr>"
  have "load_entry_from_CD mktime now stack a z =
     Some (z\<lparr>backing_store := file_at (pre @ cd_entry s @ ?post) (length (pre @ cd_entry s)),
             zip_compression_method := int (cd_compression_method (cd s))\<rparr>, Some (loaded mktime now a (urn z) (s, xs)))"
    using Cons.prems p by (intro load_entry_spec) auto
  then have step: "load_entries mktime now stack a (length (p # ps)) z = load_entries mktime now stack (Suc a) (length ps) ?z"
    by (simp add: p)
  obtain z' where z': "load_entries mktime now stack (Suc a) (length ps) ?z = Some z'" "urn z' = urn ?z" "mode z' = mode ?z" "zend z' = zend ?z"
      "backing_store z' = file_at ((pre @ cd_entry s) @ ?post) (length ((pre @ cd_entry s) @ concat (map (\<lambda>p. cd_entry (fst p)) ps)))"
      "members z' = members ?z @ map (\<lambda>(i, p). loaded mktime now i (urn ?z) p) (zip [Suc a ..< Suc a + length ps] ps)"
    using Cons.IH [of ?z "pre @ cd_entry s" "Suc a"] Cons.prems p by auto
  have "[a ..< a + length (p # ps)] = a # [Suc a ..< Suc a + length ps]" by (simp add: upt_rec)
  then show ?case using step z' p by auto
qed

section \<open>Closing and loading a volume\<close>

lemma set_aff4_urn:
  assumes "CHR ''/'' \<notin> set net" "CHR ''#'' \<notin> set net" "length net < BUFF_SIZE"
  shows "\<exists>w'. RDFURN_set w (Some (FQN @ net)) = Some w' \<and> urn_value w' = FQN @ net"
proof -
  have "URLParse_parse (Some (url_text ''aff4'' net [] [])) = Some \<lparr>scheme = ''aff4'', netloc = net, query = [], fragment = []\<rparr>"
    using assms by (intro parse_url_text) (auto simp: BUFF_SIZE_def)
  then show ?thesis by (simp add: RDFURN_set_def FQN_def url_text_def URLParse_string_def)
qed

text \<open>
  A volume that can be closed without Zip64 structures: \<open>ps\<close> are its closed members with their unescaped names. The last
  condition says that the magic of the end record does not also occur inside the record or its comment.
\<close>

definition archive_ready :: "'z zip_file \<Rightarrow> ('z zip_segment \<times> buf) list \<Rightarrow> bool" where
  "archive_ready z ps \<longleftrightarrow> mode z = CHR ''w'' \<and> map fst ps = closed_members (members z) \<and> (\<forall>p \<in> set ps. entry_ok p) \<and>
     length ps < 2 ^ 16 \<and> 0 < length (disk (backing_store z)) \<and> length (disk (backing_store z)) \<le> ZIP64_LIMIT \<and>
     length (cd_bytes (members z)) < 2 ^ 32 \<and> length (urn_value (urn z)) < BUFF_SIZE - 23 \<and>
     (\<forall>j>0. \<not> occurs_at END_MAGIC j
        (end_bytes (length ps) (length (cd_bytes (members z))) (length (disk (backing_store z))) (urn_value (urn z))))"

text \<open>A volume with a URN of the form that is generated for new volumes.\<close>

definition aff4_urn :: "'z zip_file \<Rightarrow> buf \<Rightarrow> bool" where
  "aff4_urn z net \<longleftrightarrow> urn_value (urn z) = FQN @ net \<and> 3 \<le> length net \<and> cstr net \<and> CHR ''/'' \<notin> set net \<and> CHR ''#'' \<notin> set net"

lemma zip_close_load:
  assumes ready: "archive_ready z ps" and u: "aff4_urn z net" and zr: "members zr = []"
  shows "\<exists>z' r'. ZipFile_close junk r z = Some (z', r', 1) \<and>
     (disk (backing_store zr) = disk (backing_store z') \<longrightarrow>
       (\<exists>zl. ZipFile_load_from_backing_store mktime now stack a zr = Some (zl, 1) \<and> mode zl = mode zr \<and>
          members zl = map (\<lambda>(i, p). loaded mktime now i (urn zl) p) (zip [a ..< a + length ps] ps) \<and>
          disk (backing_store zl) = disk (backing_store z') \<and>
          urn_value (urn zl) = FQN @ take (length net + 1 - unread_bytes (length (disk (backing_store z')))) net)) \<and>
     disk (backing_store z') = disk (backing_store z) @ cd_bytes (members z) @
       end_bytes (length ps) (length (cd_bytes (members z))) (length (disk (backing_store z))) (urn_value (urn z))"
proof -
  let ?d = "disk (backing_store z)" and ?cdb = "cd_bytes (members z)" and ?com = "urn_value (urn z)" and ?n = "length ps"
  let ?D = "?d @ ?cdb @ end_bytes ?n (length ?cdb) (length ?d) ?com"
  have A: "mode z = CHR ''w''" "map fst ps = closed_members (members z)" "\<forall>p \<in> set ps. entry_ok p" "?n < 2 ^ 16" "0 < length ?d"
      "length ?d \<le> ZIP64_LIMIT" "length ?cdb < 2 ^ 32" "length ?com < BUFF_SIZE - 23"
      "\<forall>j>0. \<not> occurs_at END_MAGIC j (end_bytes ?n (length ?cdb) (length ?d) ?com)"
    using ready by (simp_all add: archive_ready_def)
  have U: "?com = FQN @ net" "3 \<le> length net" "cstr net" "CHR ''/'' \<notin> set net" "CHR ''#'' \<notin> set net"
    using u by (simp_all add: aff4_urn_def)
  have n: "?n = length (closed_members (members z))" using arg_cong [OF A(2), of length] by simp
  have "closed_ok s" if "s \<in> set (members z)" "buffer s = None" for s
  proof -
    have "s \<in> set (map fst ps)" using that A(2) by (simp add: closed_members_def)
    then show ?thesis using A(3) by (fastforce simp: entry_ok_def)
  qed
  then obtain z' r' where z': "ZipFile_close junk r z = Some (z', r', 1)" "disk (backing_store z') = ?D"
    using ZipFile_close_spec [of z junk r] A n by (auto simp: BUFF_SIZE_def)
  have cdb: "?cdb = concat (map (\<lambda>p. cd_entry (fst p)) ps)"
    using arg_cong [OF A(2), of "map cd_entry"] by (simp add: cd_bytes_def comp_def)
  define seen where "seen = take (length ?com + 1 - unread_bytes (length ?D)) ?com"
  have un4: "unread_bytes (length ?D) \<le> 4" by (simp add: unread_bytes_def)
  then have seen: "seen = FQN @ take (length net + 1 - unread_bytes (length ?D)) net"
    using U(1,2) by (simp add: seen_def FQN_def Suc_diff_le)
  have ln: "length net < BUFF_SIZE" using A(8) U(1) by (simp add: BUFF_SIZE_def)
  let ?net = "take (length net + 1 - unread_bytes (length ?D)) net"
  have "CHR ''/'' \<notin> set ?net" "CHR ''#'' \<notin> set ?net" using U(4,5) by (auto dest: in_set_takeD)
  moreover have "length ?net < BUFF_SIZE" using ln by (simp add: min_less_iff_disj)
  ultimately obtain w where w: "RDFURN_set (urn zr) (Some seen) = Some w" "urn_value w = seen"
    using set_aff4_urn [of ?net "urn zr"] unfolding seen by blast
  have load: "\<exists>zl. ZipFile_load_from_backing_store mktime now stack a zr = Some (zl, 1) \<and> mode zl = mode zr \<and>
      members zl = map (\<lambda>(i, p). loaded mktime now i (urn zl) p) (zip [a ..< a + length ps] ps) \<and>
      disk (backing_store zl) = ?D \<and> urn_value (urn zl) = seen"
    if d: "disk (backing_store zr) = ?D"
  proof -
    let ?e = "end_record ?n (length ?cdb) (length ?d) (length ?com)"
    define z1 where "z1 = zr\<lparr>backing_store := file_at ?D (length ?d), zend := Some ?e, urn := w\<rparr>"
    have z1: "backing_store z1 = file_at ?D (length ?d)" "zend z1 = Some ?e" "urn z1 = w" "mode z1 = mode zr" "members z1 = []"
      using zr by (simp_all add: z1_def)
    have "take 7 ?com = FQN" "10 \<le> length ?com" "cstr ?com" using U(1-3) by (auto simp: FQN_def cstr_def)
    then have f: "find_EndCentralDirectory stack zr = Some (z1, int (length ?d), None)"
      unfolding z1_def using A w(1) d by (intro find_EndCentralDirectory_spec) (auto simp: seen_def)
    have "length ?D < 2 ^ 62" using A(6-8) by (simp add: end_bytes_def ZIP64_LIMIT_def BUFF_SIZE_def)
    then obtain zl where zl: "load_entries mktime now stack a (length ps) z1 = Some zl" "urn zl = w" "mode zl = mode zr"
        "members zl = map (\<lambda>(i, p). loaded mktime now i w p) (zip [a ..< a + length ps] ps)"
        "disk (backing_store zl) = ?D"
      using load_entries_spec [OF A(3), of z1 ?d "end_bytes ?n (length ?cdb) (length ?d) ?com" mktime now stack a] z1
      by (auto simp: cdb)
    have bs: "z1\<lparr>backing_store := fst (bs_seek (backing_store z1) (int (length ?d)) SEEK_SET)\<rparr> = z1" using z1(1) by (cases z1) simp
    have "ZipFile_load_from_backing_store mktime now stack a zr = Some (zl, 1)"
      unfolding ZipFile_load_from_backing_store_def f option.case prod.case bs z1(2) using zl(1) A(5) by (simp add: end_record_def)
    then show ?thesis using zl w(2) by auto
  qed
  show ?thesis using z' load seen by auto
qed

end
