(* ===== verification/Zip_Segment.thy ===== *)
theory Zip_Segment
  imports Zip_Load
begin

text \<open>
  The life of a segment: data written to it is buffered, closing it appends a record to the volume, and the entry
  loaded for it reads the data back from the record. The records of a volume are never moved, so this holds
  for every file that begins with the volume as it was after the segment was closed.
\<close>

section \<open>Writing\<close>

text \<open>A client that writes blocks one after the other.\<close>

fun zip_writes :: "'z zlib \<Rightarrow> 'z zip_segment \<Rightarrow> buf list \<Rightarrow> 'z zip_segment option" where
  "zip_writes Z s [] = Some s"
| "zip_writes Z s (d # ds) =
     (case ZipSegment_write Z s d of None \<Rightarrow> None | Some (s', r, e) \<Rightarrow> if r < 0 then None else zip_writes Z s' ds)"

text \<open>An open segment that holds \<open>data\<close> so far and stores it uncompressed.\<close>

definition open_stored :: "'z zip_segment \<Rightarrow> buf \<Rightarrow> bool" where
  "open_stored s data \<longleftrightarrow> cd_compression_method (cd s) = ZIP_STORED \<and>
     (\<exists>b. buffer s = Some b \<and> at_end b \<and> sio_content b = data) \<and> file_size (cd s) = length data \<and> compress_size (cd s) = length data"

definition same_segment :: "'z zip_segment \<Rightarrow> 'z zip_segment \<Rightarrow> bool" where
  "same_segment s s' \<longleftrightarrow> addr s' = addr s \<and> urn s' = urn s \<and> mode s' = mode s \<and> container s' = container s \<and>
     dostime (cd s') = dostime (cd s) \<and> dosdate (cd s') = dosdate (cd s) \<and> cd_magic (cd s') = cd_magic (cd s)"

lemma ZipSegment_write_stored:
  assumes "open_stored s data" "2 * (length data + length x) < 268435456"
  shows "\<exists>s'. ZipSegment_write Z s x = Some (s', int (length x), None) \<and> open_stored s' (data @ x) \<and> same_segment s s'"
proof (cases "x = []")
  case True
  then show ?thesis using assms(1) by (simp add: ZipSegment_write_def same_segment_def)
next
  case False
  obtain b where b: "buffer s = Some b" "at_end b" "sio_content b = data" and c: "cd_compression_method (cd s) = ZIP_STORED"
      "file_size (cd s) = length data" "compress_size (cd s) = length data"
    using assms(1) by (auto simp: open_stored_def)
  obtain b' where b': "StringIO_write b x = Some (b', int (length x))" "at_end b'" "sio_content b' = data @ x"
    using at_end_write [OF b(2), of x] b(3) assms(2) by auto
  have u: "nat (u32 (int (length data) + int (length x))) = length data + length x" using assms(2) by (simp add: u32_id)
  show ?thesis using False b(1) b' c u
    by (simp add: ZipSegment_write_def Let_def ZIP_DEFLATE_def ZIP_STORED_def open_stored_def same_segment_def)
qed

lemma zip_writes_stored:
  "open_stored s data \<Longrightarrow> 2 * (length data + length (concat xs)) < 268435456 \<Longrightarrow>
    \<exists>s'. zip_writes Z s xs = Some s' \<and> open_stored s' (data @ concat xs) \<and> same_segment s s'"
proof (induction xs arbitrary: s data)
  case Nil
  then show ?case by (simp add: same_segment_def)
next
  case (Cons x xs)
  obtain s1 where s1: "ZipSegment_write Z s x = Some (s1, int (length x), None)" "open_stored s1 (data @ x)" "same_segment s s1"
    using ZipSegment_write_stored [OF Cons.prems(1), of x Z] Cons.prems(2) by auto
  obtain s2 where "zip_writes Z s1 xs = Some s2" "open_stored s2 ((data @ x) @ concat xs)" "same_segment s1 s2"
    using Cons.IH [OF s1(2)] Cons.prems(2) by auto
  then show ?case using s1(1,3) by (auto simp: same_segment_def)
qed

text \<open>The header fields stay within their widths as long as the checksum is a 32-bit value.\<close>

lemma ZipSegment_write_fits:
  assumes "open_stored s data" "2 * (length data + length x) < 268435456" "fits (cd_fields (cd s))" "\<forall>c d. crc32 Z c d < 2 ^ 32"
    "ZipSegment_write Z s x = Some (s', r, e)"
  shows "fits (cd_fields (cd s'))"
proof (cases "x = []")
  case True
  then show ?thesis using assms(3,5) by (simp add: ZipSegment_write_def)
next
  case False
  obtain b b' n where "buffer s = Some b" "StringIO_write b x = Some (b', n)" and c: "cd_compression_method (cd s) \<noteq> ZIP_DEFLATE"
    using assms(1,2) at_end_write by (fastforce simp: open_stored_def ZIP_STORED_def ZIP_DEFLATE_def)
  moreover have "nat (u32 y) < 4294967296" for y using u32_range [of y] by (simp add: nat_less_iff)
  ultimately show ?thesis using False assms(3-5)
    by (auto simp: ZipSegment_write_def Let_def fits_def cd_fields_def)
qed

lemma zip_writes_fits:
  "open_stored s data \<Longrightarrow> 2 * (length data + length (concat xs)) < 268435456 \<Longrightarrow> fits (cd_fields (cd s)) \<Longrightarrow> \<forall>c d. crc32 Z c d < 2 ^ 32 \<Longrightarrow>
    zip_writes Z s xs = Some s' \<Longrightarrow> fits (cd_fields (cd s'))"
proof (induction xs arbitrary: s data)
  case (Cons x xs)
  have len: "2 * (length data + length x) < 268435456" using Cons.prems(2) by simp
  obtain s1 where s1: "ZipSegment_write Z s x = Some (s1, int (length x), None)" "open_stored s1 (data @ x)"
    using ZipSegment_write_stored [OF Cons.prems(1) len, of Z] by blast
  have "fits (cd_fields (cd s1))" by (rule ZipSegment_write_fits [OF Cons.prems(1) len Cons.prems(3,4) s1(1)])
  then show ?case using Cons.IH [OF s1(2)] Cons.prems(2,4,5) s1(1) by simp
qed simp

section \<open>Names\<close>

text \<open>A member name that the library can store: ASCII, and not all of its characters need escaping.\<close>

definition member_name :: "buf \<Rightarrow> bool" where
  "member_name name \<longleftrightarrow> (\<forall>c \<in> set name. ascii c) \<and> (\<exists>c \<in> set name. \<not> needs_escape c) \<and> 3 * length name \<le> BUFF_SIZE - 10"

lemma length_escaped_name:
  "(\<exists>c \<in> set xs. \<not> needs_escape c) \<Longrightarrow> length (concat (map escaped xs)) + 2 \<le> 3 * length xs"
proof (induction xs)
  case (Cons x xs)
  then show ?case using length_escaped_le [of xs] by (cases "needs_escape x") (auto simp: length_escaped)
qed simp

lemma segment_name_spec:
  assumes "member_name (RDFURN_relative_name w v)"
  defines "e \<equiv> concat (map escaped (RDFURN_relative_name w v))"
  shows "\<exists>c r. segment_name_from_URN fresh w v = Some (e @ NUL # c # r) \<and> NUL \<notin> set e"
proof -
  let ?n = "RDFURN_relative_name w v"
  have n: "\<forall>c \<in> set ?n. ascii c" "?n \<noteq> []" "3 * length ?n \<le> BUFF_SIZE - 10" "\<exists>c \<in> set ?n. \<not> needs_escape c"
    using assms(1) by (auto simp: member_name_def)
  obtain r where r: "escape_filename fresh (?n @ [NUL]) (int (length ?n)) = Some (e @ NUL # r)" "length e + length r = 3 * length ?n"
    using escape_filename_spec [OF n(1-3), of fresh "[NUL]"] by (auto simp: e_def)
  obtain c r' where c: "r = c # r'" using length_escaped_name [OF n(4)] r(2) by (cases r) (auto simp: e_def)
  have "NUL \<notin> set e" using escaped_cstr by (auto simp: e_def)
  then show ?thesis using r(1) c by (simp add: segment_name_from_URN_def Let_def)
qed

text \<open>The code counts the terminator into the length of the name, and \<^verbatim>\<open>set\<close> copies one byte more.\<close>

lemma XSDString_set_name:
  assumes "NUL \<notin> set e"
  shows "XSDString_set x (e @ NUL # c # r) (int (strlen (e @ NUL # c # r)) + 1)
     = Some (x\<lparr>str_length := int (length e) + 1, str_value := Some (e @ [NUL, NUL])\<rparr>, None)"
proof -
  have "mem_read 0 (length e + 2) (e @ NUL # c # r) = Some (e @ [NUL, c])" by (simp add: mem_read_def)
  moreover have "nat (int (length e) + 1) = length e + 1" "nat (int (length e) + 1) + 1 = length e + 2" by linarith+
  moreover have "(e @ [NUL, c])[length e + 1 := NUL] = e @ [NUL, NUL]" by (simp add: list_update_append)
  ultimately show ?thesis
    unfolding XSDString_set_def strlen_terminated [OF assms] by (simp only: option.case) simp
qed

lemma set_segment_name_spec:
  assumes "member_name (RDFURN_relative_name w v)"
  defines "e \<equiv> concat (map escaped (RDFURN_relative_name w v))"
  shows "set_segment_name fresh w v x = Some \<lparr>str_value = Some (e @ [NUL, NUL]), str_length = int (length e) + 1\<rparr>"
proof -
  obtain c r where c: "segment_name_from_URN fresh w v = Some (e @ NUL # c # r)" "NUL \<notin> set e"
    using segment_name_spec [OF assms(1), of fresh] by (auto simp: e_def)
  then show ?thesis using XSDString_set_name [OF c(2), of x c r] by (cases x) (simp add: set_segment_name_def)
qed

section \<open>Closing\<close>

definition segment_record :: "'z zip_segment \<Rightarrow> buf \<Rightarrow> buf" where
  "segment_record s data = pack (zfh_fields (segment_header s)) @ seg_name s @ data @
     le_bytes 4 0x08074b50 @ le_bytes 4 (cd_crc32 (cd s)) @ le_bytes 4 (compress_size (cd s)) @ le_bytes 4 (file_size (cd s))"

text \<open>
  A resolver that hands out the object at address \<open>a\<close> for a volume in a mode, and one that does so for writing and whose data store
  has room for \<open>k\<close> more operations.
\<close>

definition volume_live :: "resolver \<Rightarrow> char \<Rightarrow> rdf_urn \<Rightarrow> nat \<Rightarrow> bool" where
  "volume_live r m c a \<longleftrightarrow> resolver_live r \<and> Resolver_own r c m = Some a"

definition volume_owned :: "resolver \<Rightarrow> rdf_urn \<Rightarrow> nat \<Rightarrow> nat \<Rightarrow> bool" where
  "volume_owned r c a k \<longleftrightarrow> volume_live r (CHR ''w'') c a \<and> ds_inv (store r) \<and> ds_room (store r) k"

lemma cache_return_live:
  assumes "volume_live r m c a"
  shows "\<exists>r'. Resolver_cache_return r ob = Some r' \<and> volume_live r' m c a \<and> store r' = store r"
proof -
  obtain r' where r': "Resolver_manage r ob = Some r'" "resolver_live r'" "store r' = store r"
      "\<forall>m u. managed r' m u = (if same_cache (mode ob) m \<and> u = urn_value (urn ob) then managed r m u @ [addr ob] else managed r m u)"
    using Resolver_manage_spec [of r ob] assms unfolding volume_live_def by blast
  then have "Resolver_own r' c m = Some a"
    using assms Resolver_own_spec [OF r'(2), of c] Resolver_own_spec [of r c]
    by (auto simp: volume_live_def split: list.splits)
  then show ?thesis using r' by (auto simp: Resolver_cache_return_eq volume_live_def)
qed

lemma cache_return_owned:
  "volume_owned r c a k \<Longrightarrow> \<exists>r'. Resolver_cache_return r ob = Some r' \<and> volume_owned r' c a k"
  using cache_return_live [of r "CHR ''w''" c a ob] by (auto simp: volume_owned_def)

lemma FileLikeObject_close_live:
  assumes "volume_live r m c a" "ds_inv (store r)" "ds_room (store r) (Suc k)" "urn_value (urn ob) \<noteq> urn_value c"
  shows "\<exists>r'. FileLikeObject_close r ob = Some (r', 1) \<and> volume_live r' m c a \<and> ds_inv (store r') \<and> ds_room (store r') k"
proof -
  obtain d where d: "DataStore_del (store r) (urn_value (urn ob)) AFF4_VOLATILE_DIRTY = Some d" "ds_inv d" "ds_room d k"
    using dstore.del_spec assms(2,3) by blast
  let ?r = "r\<lparr>store := d\<rparr>"
  have m: "managed ?r m u = managed r m u" for m u by (simp add: managed_def cache_for_def)
  have l: "resolver_live ?r" using assms(1) by (simp add: volume_live_def resolver_live_def)
  obtain r' where r': "AFFObject_close ?r ob = (r', 1)" "resolver_live r'" "store r' = d"
      "\<forall>m u. managed r' m u = (if same_cache (mode ob) m \<and> u = urn_value (urn ob) then tl (managed r m u) else managed r m u)"
    using AFFObject_close_spec [OF l, of ob] unfolding m by auto
  have "Resolver_own r' c m = Some a"
    using assms r'(4) Resolver_own_spec [OF r'(2), of c] Resolver_own_spec [of r c] by (auto simp: volume_live_def)
  then show ?thesis using d r' by (auto simp: FileLikeObject_close_def Resolver_del_def volume_live_def)
qed

lemma FileLikeObject_close_owned:
  "volume_owned r c a (Suc k) \<Longrightarrow> urn_value (urn ob) \<noteq> urn_value c \<Longrightarrow> \<exists>r'. FileLikeObject_close r ob = Some (r', 1) \<and> volume_owned r' c a k"
  using FileLikeObject_close_live [of r "CHR ''w''" c a k ob] by (auto simp: volume_owned_def)

lemma member_name_urn: "member_name (RDFURN_relative_name w c) \<Longrightarrow> urn_value w \<noteq> urn_value c"
  by (auto simp: member_name_def RDFURN_relative_name_def startswith_def)

lemma ZipSegment_close_stored:
  assumes s: "open_stored s data" "mode s = CHR ''w''" "container s = Some c" and name: "member_name (RDFURN_relative_name (urn s) c)"
    and r: "volume_owned r c (addr zf) (Suc k)"
    and len: "length (disk (backing_store zf)) \<le> ZIP64_LIMIT" "length data < 268435456"
  defines "e \<equiv> concat (map escaped (RDFURN_relative_name (urn s) c))"
  shows "\<exists>s' zf' r'. ZipSegment_close Z fresh r zf s = Some (s', zf', r', 1, None) \<and> closed_ok s' \<and> cd s' = cd s \<and>
     seg_name s' = e @ [NUL] \<and> str_length (filename s') = int (length e) + 1 \<and> offset_of_file_header s' = length (disk (backing_store zf)) \<and>
     disk (backing_store zf') = disk (backing_store zf) @ segment_record s' data \<and> volume_owned r' c (addr zf) k \<and>
     same_segment s s' \<and> (\<exists>f. zf' = zf\<lparr>backing_store := f\<rparr>)"
proof -
  have own: "Resolver_own r c (CHR ''w'') = Some (addr zf)" using r by (simp add: volume_owned_def volume_live_def)
  obtain d x where f: "backing_store zf = \<lparr>disk = d, readptr = x\<rparr>" by (cases "backing_store zf") auto
  obtain b where b: "buffer s = Some b" "at_end b" "sio_content b = data" using s(1) by (auto simp: open_stored_def)
  let ?fn = "\<lparr>str_value = Some (e @ [NUL, NUL]), str_length = int (length e) + 1\<rparr>"
  let ?s3 = "s\<lparr>offset_of_file_header := length d, filename := ?fn\<rparr>"
  have le: "length e \<le> BUFF_SIZE - 10" using length_escaped_le [of "RDFURN_relative_name (urn s) c"] name
    unfolding e_def member_name_def by linarith
  then have le': "length e < 40951" by (simp add: BUFF_SIZE_def)
  have u: "nat (u32 (int (length e) + 1)) = length e + 1" using le' by (simp add: u32_id nat_add_distrib)
  have m: "mem_read 0 (length e + 1) (e @ [NUL, NUL]) = Some (e @ [NUL])" by (simp add: mem_read_def)
  have sn: "seg_name ?s3 = e @ [NUL]" by (simp add: seg_name_def nat_add_distrib)
  have "length (segment_record ?s3 data) < 2 ^ 30"
    using le' len(2) by (simp add: segment_record_def sn)
  then have tot: "length d + length (segment_record ?s3 data) < 2 ^ 62" using len(1) f by (simp add: ZIP64_LIMIT_def)
  have fl: "segment_flush (file_at d (length d)) ?s3 = Some (file_at (d @ segment_record ?s3 data) (length (d @ segment_record ?s3 data)))"
  proof -
    let ?bs = "[pack (zfh_fields (segment_header ?s3)), e @ [NUL], data, le_bytes 4 0x08074b50, le_bytes 4 (cd_crc32 (cd s)),
                  le_bytes 4 (compress_size (cd s)), le_bytes 4 (file_size (cd s))]"
    have cb: "concat ?bs = segment_record ?s3 data" by (simp add: segment_record_def sn)
    have "foldl bs_write (file_at d (length d)) ?bs = file_at (d @ concat ?bs) (length (d @ concat ?bs))"
      by (rule bs_writes_end) (simp only: cb tot)
    then show ?thesis unfolding cb using u m at_end_contents(2) [OF b(2)] b(1,3) by (simp add: segment_flush_def)
  qed
  let ?z = "zf\<lparr>backing_store := file_at (d @ segment_record ?s3 data) (length (d @ segment_record ?s3 data))\<rparr>"
  obtain r1 where r1: "Resolver_cache_return r ?z = Some r1" "volume_owned r1 c (addr zf) (Suc k)"
    using cache_return_owned [OF r, of ?z] by blast
  have "urn_value (urn (?s3\<lparr>buffer := None\<rparr>)) \<noteq> urn_value c" using member_name_urn [OF name] by simp
  from FileLikeObject_close_owned [OF r1(2) this]
  obtain r2 where r2: "FileLikeObject_close r1 (?s3\<lparr>buffer := None\<rparr>) = Some (r2, 1)" "volume_owned r2 c (addr zf) k" by blast
  have fc: "finalize_compressor Z (s\<lparr>offset_of_file_header := length d\<rparr>) = Some (s\<lparr>offset_of_file_header := length d\<rparr>)"
    using s(1) by (simp add: finalize_compressor_def open_stored_def ZIP_STORED_def ZIP_DEFLATE_def)
  have sg: "set_segment_name fresh (urn s) c fn = Some ?fn" for fn
    unfolding e_def by (rule set_segment_name_spec [OF name])
  have "ZipSegment_close Z fresh r zf s = Some (?s3\<lparr>buffer := None\<rparr>, ?z, r2, 1, None)"
    unfolding ZipSegment_close_def s(3) option.case own f bs_seek_end prod.case nat_int fc
    using s(2) sg fl r1(1) r2(1) by (simp add: Let_def)
  moreover have "closed_ok (?s3\<lparr>buffer := None\<rparr>)"
    using len(1) f le' by (simp add: closed_ok_def name_ok_def nat_add_distrib)
  moreover have "segment_record (?s3\<lparr>buffer := None\<rparr>) data = segment_record ?s3 data" "seg_name (?s3\<lparr>buffer := None\<rparr>) = e @ [NUL]"
    using sn by (simp_all add: segment_record_def segment_header_def seg_name_def)
  ultimately show ?thesis using f r2(2) by (auto simp: same_segment_def)
qed

section \<open>Reading back\<close>

lemma u32_of_nat: "n < 2 ^ 32 \<Longrightarrow> nat (u32 (int n)) = n"
  by (simp add: u32_id)

text \<open>The buffer into which a stored segment is read: the preallocation leaves an object of exactly the size of the data.\<close>

definition filled :: "stringio \<Rightarrow> buf \<Rightarrow> bool" where
  "filled b data \<longleftrightarrow> sio_size b = int (length data) \<and> take (length data) (sio_data b) = data"

lemma decompress_data_stored:
  assumes "zfh_compression_method h = ZIP_STORED" "file_size (cd t) = length data" "length data < 268435456"
    "length (pre @ data @ post) < 2 ^ 62"
  shows "\<exists>b. decompress_data Z junk h (file_at (pre @ data @ post) (length pre)) t
      = Some (t\<lparr>buffer := Some b\<rparr>, file_at (pre @ data @ post) (length (pre @ data)), 1, None) \<and> filled b data"
proof -
  let ?b = "StringIO_constructor junk" and ?n = "length data"
  obtain b where b: "fst (StringIO_seek ?b (int ?n) SEEK_SET) = b" "sio_size b = int ?n" "?n \<le> length (sio_data b)"
  proof (cases "?n = 0")
    case True
    then show ?thesis using that by (simp add: StringIO_seek_def StringIO_constructor_def Let_def u64_def)
  next
    case False
    have "length (talloc_realloc junk (int ?n) (map junk [0 ..< 1024])) = ?n"
      using talloc_realloc_length [of "int ?n"] assms(3) by (simp add: MAX_TALLOC_SIZE_def)
    moreover have "u64 (int ?n) = int ?n" "s32 (int ?n) = int ?n" "u64 0 = 0" using assms(3) by (auto intro!: c_int)
    ultimately show ?thesis using that False by (simp add: StringIO_seek_def StringIO_constructor_def Let_def)
  qed
  obtain x y where xy: "StringIO_seek ?b (int ?n) SEEK_SET = (b, x, y)" using b(1) by (metis fst_conv prod_cases3)
  have rd: "bs_read (file_at (pre @ data @ post) (length pre)) ?n = (file_at (pre @ data @ post) (length (pre @ data)), data)"
    using assms(4) by (subst bs_read_file) auto
  define m where "m = data @ drop ?n (sio_data b)"
  have "mem_write 0 data (sio_data b) = Some m" using b(3) by (simp add: mem_write_def m_def)
  moreover have "filled (b\<lparr>sio_data := m, sio_readptr := int ?n\<rparr>) data" using b(2) by (simp add: filled_def m_def)
  moreover have "nat (u32 (sio_size b)) = ?n" using b(2) assms(3) by (simp add: u32_of_nat)
  ultimately show ?thesis
    unfolding decompress_data_def assms(2) xy prod.case
    using assms(1) rd by auto
qed

text \<open>A member that is stored under its own name, because nothing in it needs escaping.\<close>

definition plain_name :: "buf \<Rightarrow> bool" where
  "plain_name name \<longleftrightarrow> member_name name \<and> (\<forall>c \<in> set name. \<not> needs_escape c)"

lemma escaped_plain: "plain_name name \<Longrightarrow> concat (map escaped name) = name"
proof -
  assume "plain_name name"
  then have "\<forall>c \<in> set name. escaped c = [c]" by (simp add: plain_name_def escaped_def)
  then show ?thesis by (induction name) auto
qed

text \<open>
  Loading a member unescapes its name, but the reader compares it with the name in the file header, which is stored escaped.
  The first bytes of the two agree for the names below, among them every name in which nothing needs escaping.
\<close>

definition self_escaped :: "buf \<Rightarrow> bool" where
  "self_escaped name \<longleftrightarrow> take (length name) (concat (map escaped name)) = name"

lemma plain_self_escaped: "plain_name name \<Longrightarrow> self_escaped name"
  by (simp add: self_escaped_def escaped_plain)

lemma length_escaped_ge: "length xs \<le> length (concat (map escaped xs))"
  by (induction xs) (auto simp: length_escaped)

lemma fits_segment_header:
  assumes "fits (cd_fields (cd s))" "0 \<le> str_length (filename s)"
  shows "fits (zfh_fields (segment_header s))"
proof -
  have "nat (u16 (str_length (filename s))) < 65536" using u16_range [of "str_length (filename s)"] by (simp add: nat_less_iff)
  then show ?thesis using assms(1) by (simp add: fits_def cd_fields_def zfh_fields_def segment_header_def)
qed

text \<open>
  The record of a stored member inside the bytes of a volume, under its escaped name; appending to the volume does not disturb it.
\<close>

definition record_at :: "buf \<Rightarrow> 'z zip_segment \<Rightarrow> buf \<Rightarrow> buf \<Rightarrow> bool" where
  "record_at D s name data \<longleftrightarrow> closed_ok s \<and> seg_name s = concat (map escaped name) @ [NUL] \<and> member_name name \<and> fits (cd_fields (cd s)) \<and>
     cd_compression_method (cd s) = ZIP_STORED \<and> file_size (cd s) = length data \<and> length data < 268435456 \<and>
     (\<exists>pre post. D = pre @ segment_record s data @ post \<and> offset_of_file_header s = length pre)"

lemma record_at_append: "record_at D s name data \<Longrightarrow> record_at (D @ tail) s name data"
  unfolding record_at_def by (metis append.assoc)

lemma decompress_header_record:
  assumes rec: "record_at D s name data" "length D < 2 ^ 62"
    and T: "cd t = cd (listed s)" "offset_of_file_header t = offset_of_file_header s"
      "filename t = \<lparr>str_value = Some (name @ [NUL]), str_length = int (length name)\<rparr>"
  shows "\<exists>p. if self_escaped name
     then \<exists>b. decompress_header Z stack junk \<lparr>disk = D, readptr = x\<rparr> t = Some (t\<lparr>buffer := Some b\<rparr>, file_at D p, 1, None) \<and> filled b data
     else decompress_header Z stack junk \<lparr>disk = D, readptr = x\<rparr> t = Some (t, file_at D p, 0, Some EIOError)"
proof -
  let ?h = "segment_header s" and ?e = "concat (map escaped name)"
  have R: "closed_ok s" "seg_name s = ?e @ [NUL]" "member_name name" "fits (cd_fields (cd s))" "cd_compression_method (cd s) = ZIP_STORED"
      "file_size (cd s) = length data" "length data < 268435456"
    using rec(1) by (simp_all add: record_at_def)
  obtain pre post where D: "D = pre @ segment_record s data @ post" and off: "offset_of_file_header s = length pre"
    using rec(1) by (auto simp: record_at_def)
  have no: "name_ok (filename s)" using R(1) by (simp add: closed_ok_def)
  have ln: "nat (str_length (filename s)) = length ?e + 1" using length_seg_name [OF no] R(2) by simp
  have "u16 (str_length (filename s)) = str_length (filename s)" using no by (auto simp: name_ok_def intro!: c_int)
  then have hl: "zfh_file_name_length ?h = length ?e + 1" by (simp add: segment_header_def ln)
  have cl: "file_name_length (cd t) = length ?e + 1" "file_size (cd t) = length data" using T(1) ln R(6) by (simp_all add: listed_def)
  define tail where "tail = le_bytes 4 0x08074b50 @ le_bytes 4 (cd_crc32 (cd s)) @ le_bytes 4 (compress_size (cd s)) @ le_bytes 4 (file_size (cd s)) @ post"
  have D1: "D = pre @ pack (zfh_fields ?h) @ (?e @ [NUL]) @ data @ tail" by (simp add: D segment_record_def R(2) tail_def)
  have lp: "s64 (int (length pre)) = int (length pre)" using rec(2) unfolding D by (intro c_int) auto
  have r1: "bs_read (file_at D (length pre)) 30 = (file_at D (length pre + 30), pack (zfh_fields ?h))"
    using rec(2) by (subst bs_read_file) (auto simp: D1)
  have "length ?e \<le> BUFF_SIZE - 10" using length_escaped_le [of name] R(3) unfolding member_name_def by linarith
  then have nb: "length ?e + 1 < BUFF_SIZE" "min BUFF_SIZE (length ?e + 1) = length ?e + 1" by (auto simp: BUFF_SIZE_def)
  define q where "q = length pre + 31 + length ?e"
  have r2: "bs_read (file_at D (length pre + 30)) (length ?e + 1) = (file_at D q, ?e @ [NUL])"
    using rec(2) by (subst bs_read_file) (auto simp: D1 q_def)
  have uh: "zfh_unpack (on_stack stack 30 (pack (zfh_fields ?h))) = ?h"
    using zfh_unpack_pack [OF fits_segment_header [OF R(4)], of "[]"] no by (simp add: on_stack_def name_ok_def)
  have m: "mem_read 0 (length name) (name @ [NUL]) = Some name"
      "mem_read 0 (length name) (on_stack stack BUFF_SIZE (?e @ [NUL])) = Some (take (length name) ?e)"
    using nb(1) length_escaped_ge [of name] by (simp_all add: mem_read_def on_stack_def)
  have D2: "D = (pre @ pack (zfh_fields ?h) @ ?e @ [NUL]) @ data @ tail" "length (pre @ pack (zfh_fields ?h) @ ?e @ [NUL]) = q"
    by (simp_all add: D1 q_def)
  have "zfh_compression_method ?h = ZIP_STORED" using R(5) by (simp add: segment_header_def)
  from decompress_data_stored [OF this cl(2) R(7), of "pre @ pack (zfh_fields ?h) @ ?e @ [NUL]" tail Z junk, folded D2(1), unfolded D2(2), OF rec(2)]
  obtain b p where b: "decompress_data Z junk ?h (file_at D q) t = Some (t\<lparr>buffer := Some b\<rparr>, file_at D p, 1, None)" "filled b data"
    by blast
  show ?thesis
    unfolding decompress_header_def Let_def T(2) off lp bs_seek_set fst_conv r1 prod.case uh hl cl(1) nb(2) r2 T(3)
    using m b by (auto simp: self_escaped_def)
qed

lemma read_filled:
  assumes "filled b data" "length data < 268435456" "n < 2 ^ 31" "p \<le> length data"
  shows "\<exists>b'. StringIO_read (fst (StringIO_seek b (int p) SEEK_SET)) (int n) = Some (b', take n (drop p data))"
proof -
  have "length (take (length data) (sio_data b)) = length data" using assms(1) by (simp only: filled_def)
  then have l: "length data \<le> length (sio_data b)" by simp
  have sz: "sio_size b = int (length data)" and d: "take (length data) (sio_data b) = data" using assms(1) by (simp_all add: filled_def)
  have z: "u64 (int p) = int p" "u64 (int (length data)) = int (length data)" "u64 (int n) = int n" "s32 (int (length data)) = int (length data)"
      "u64 (int (length data) - int p) = int (length data - p)" "s32 (int (length data) - int p) = int (length data - p)"
      "u64 (int p + int n) = int p + int n"
    using assms(2-4) by (auto intro!: c_int)
  have sk: "fst (StringIO_seek b (int p) SEEK_SET) = b\<lparr>sio_readptr := int p\<rparr>" using assms(4) by (simp add: StringIO_seek_def Let_def z sz)
  have e: "take (length data - p) (drop p (sio_data b)) = drop p data" unfolding drop_take [symmetric] d ..
  show ?thesis
  proof (cases "n \<le> length data - p")
    case True
    have "take n (drop p (sio_data b)) = take n (drop p data)" using arg_cong [OF e, of "take n"] True by (simp add: min_absorb1)
    then show ?thesis unfolding sk using l z sz True assms(4) by (auto simp: StringIO_read_def Let_def mem_read_def min_def)
  next
    case False
    have "nat (int (length data) - int p) = length data - p" by simp
    then show ?thesis unfolding sk using False l z sz assms(4) e by (auto simp: StringIO_read_def Let_def mem_read_def min_def)
  qed
qed

text \<open>The entry of such a record can be loaded.\<close>

lemma record_at_entry:
  assumes "record_at D s name data" "cd_magic (cd s) = 0x2014b50"
  shows "entry_ok (s, name)"
proof -
  have "length (concat (map escaped name)) \<le> BUFF_SIZE - 10"
    using length_escaped_le [of name] assms(1) unfolding record_at_def member_name_def by linarith
  then show ?thesis using assms by (simp add: entry_ok_def record_at_def)
qed

text \<open>The record of a member whose name is stored as it is.\<close>

definition stored_at :: "buf \<Rightarrow> 'z zip_segment \<Rightarrow> buf \<Rightarrow> buf \<Rightarrow> bool" where
  "stored_at D s name data \<longleftrightarrow> closed_ok s \<and> seg_name s = name @ [NUL] \<and> plain_name name \<and> fits (cd_fields (cd s)) \<and>
     cd_compression_method (cd s) = ZIP_STORED \<and> file_size (cd s) = length data \<and> length data < 268435456 \<and>
     (\<exists>pre post. D = pre @ segment_record s data @ post \<and> offset_of_file_header s = length pre)"

lemma stored_at_record: "plain_name name \<Longrightarrow> record_at D s name data \<longleftrightarrow> stored_at D s name data"
  by (simp add: stored_at_def record_at_def escaped_plain plain_name_def)

lemma stored_at_plain: "stored_at D s name data \<Longrightarrow> plain_name name"
  by (simp add: stored_at_def)

lemma stored_at_append: "stored_at D s name data \<Longrightarrow> stored_at (D @ tail) s name data"
  unfolding stored_at_def by (metis append.assoc)

text \<open>Closing a segment stores it.\<close>

lemma ZipSegment_close_record_at:
  assumes s: "open_stored s data" "mode s = CHR ''w''" "container s = Some c" and name: "member_name (RDFURN_relative_name (urn s) c)"
    and f: "fits (cd_fields (cd s))" and r: "volume_owned r c (addr zf) (Suc k)"
    and len: "length (disk (backing_store zf)) \<le> ZIP64_LIMIT" "length data < 268435456"
  shows "\<exists>s' f r'. ZipSegment_close Z fresh r zf s = Some (s', zf\<lparr>backing_store := f\<rparr>, r', 1, None) \<and>
     disk f = disk (backing_store zf) @ segment_record s' data \<and> record_at (disk f) s' (RDFURN_relative_name (urn s) c) data \<and>
     volume_owned r' c (addr zf) k \<and> same_segment s s'"
proof -
  let ?n = "RDFURN_relative_name (urn s) c"
  obtain s' zf' r' g where c: "ZipSegment_close Z fresh r zf s = Some (s', zf', r', 1, None)" "closed_ok s'" "cd s' = cd s"
      "seg_name s' = concat (map escaped ?n) @ [NUL]"
      "offset_of_file_header s' = length (disk (backing_store zf))" "disk (backing_store zf') = disk (backing_store zf) @ segment_record s' data"
      "volume_owned r' c (addr zf) k" "same_segment s s'" "zf' = zf\<lparr>backing_store := g\<rparr>"
    using ZipSegment_close_stored [OF s name r len, of Z fresh] by blast
  have "cd_compression_method (cd s') = ZIP_STORED" "file_size (cd s') = length data"
    using s(1) c(3) by (simp_all add: open_stored_def)
  moreover have "disk g = disk (backing_store zf) @ segment_record s' data @ []" using c(6,9) by simp
  ultimately have "record_at (disk g) s' ?n data" unfolding record_at_def using c(2-5) name f len(2) by metis
  then show ?thesis using c by (intro exI [of _ s'] exI [of _ g] exI [of _ r']) auto
qed

lemma ZipSegment_close_stored_at:
  assumes s: "open_stored s data" "mode s = CHR ''w''" "container s = Some c" and name: "plain_name (RDFURN_relative_name (urn s) c)"
    and f: "fits (cd_fields (cd s))" and r: "volume_owned r c (addr zf) (Suc k)"
    and len: "length (disk (backing_store zf)) \<le> ZIP64_LIMIT" "length data < 268435456"
  shows "\<exists>s' f r'. ZipSegment_close Z fresh r zf s = Some (s', zf\<lparr>backing_store := f\<rparr>, r', 1, None) \<and>
     disk f = disk (backing_store zf) @ segment_record s' data \<and> stored_at (disk f) s' (RDFURN_relative_name (urn s) c) data \<and>
     volume_owned r' c (addr zf) k \<and> same_segment s s'"
proof -
  have nm: "member_name (RDFURN_relative_name (urn s) c)" using name by (simp add: plain_name_def)
  show ?thesis using ZipSegment_close_record_at [OF s nm f r len] unfolding stored_at_record [OF name] .
qed

text \<open>Reading from a position of a loaded member of a volume that is managed for reading.\<close>

lemma ZipSegment_read_record:
  fixes zr :: "'z zip_file" and mktime :: "tm \<Rightarrow> int" and now :: "tm" and a :: nat
  assumes s: "record_at (disk (backing_store zr)) s name data" and D: "length (disk (backing_store zr)) < 2 ^ 62"
    and r: "volume_live r (CHR ''r'') w (addr zr)" and n: "n < 2 ^ 31" "p \<le> length data"
  defines "t \<equiv> (loaded mktime now a w (s, name) :: 'z zip_segment)\<lparr>seg_readptr := int p\<rparr>"
  shows "\<exists>t' f r'. ZipSegment_read Z stack junk r zr t n = Some (t', zr\<lparr>backing_store := f\<rparr>, r',
         if self_escaped name then (int (length (take n (drop p data))), take n (drop p data)) else (- 1, [])) \<and>
     disk f = disk (backing_store zr) \<and> volume_live r' (CHR ''r'') w (addr zr) \<and> store r' = store r \<and>
     (self_escaped name \<longrightarrow> (\<exists>b. t' = t\<lparr>buffer := Some b\<rparr>))"
proof -
  have ld: "length data < 268435456" using s by (simp add: record_at_def)
  obtain s0 where s0: "ZipSegment_Con a None (CHR ''r'') now = (Some s0 :: 'z zip_segment option)" "buffer s0 = None" "seg_readptr s0 = 0"
    by (auto simp: ZipSegment_Con_def AFFObject_Con_def)
  have T: "buffer t = None" "seg_readptr t = int p" "container t = Some w" "cd t = cd (listed s)" "offset_of_file_header t = offset_of_file_header s"
      "filename t = \<lparr>str_value = Some (name @ [NUL]), str_length = int (length name)\<rparr>"
    by (simp_all add: t_def loaded_def s0)
  obtain D x where f: "backing_store zr = \<lparr>disk = D, readptr = x\<rparr>" by (cases "backing_store zr") auto
  have D': "record_at D s name data" "length D < 2 ^ 62" using D s f by simp_all
  obtain q where q: "if self_escaped name
     then \<exists>b. decompress_header Z stack junk \<lparr>disk = D, readptr = x\<rparr> t = Some (t\<lparr>buffer := Some b\<rparr>, file_at D q, 1, None) \<and> filled b data
     else decompress_header Z stack junk \<lparr>disk = D, readptr = x\<rparr> t = Some (t, file_at D q, 0, Some EIOError)"
    using decompress_header_record [OF D' T(4-6)] by blast
  let ?z = "zr\<lparr>backing_store := file_at D q\<rparr>"
  obtain r1 where r1: "Resolver_cache_return r ?z = Some r1" "volume_live r1 (CHR ''r'') w (addr zr)" "store r1 = store r"
    using cache_return_live [OF r, of ?z] by blast
  have dec: "decompress_segment Z stack junk r zr t = Some (t', ?z, r1, i, e)"
    if "decompress_header Z stack junk \<lparr>disk = D, readptr = x\<rparr> t = Some (t', file_at D q, i, e)" for t' i e
    using T(3) r f that r1(1) by (simp add: decompress_segment_def Let_def volume_live_def)
  have frame: "disk (file_at D q) = disk (backing_store zr)" using f by simp
  show ?thesis
  proof (cases "self_escaped name")
    case True
    then obtain b where b: "decompress_header Z stack junk \<lparr>disk = D, readptr = x\<rparr> t = Some (t\<lparr>buffer := Some b\<rparr>, file_at D q, 1, None)" "filled b data"
      using q by auto
    obtain b' where b': "StringIO_read (fst (StringIO_seek b (int p) SEEK_SET)) (int n) = Some (b', take n (drop p data))"
      using read_filled [OF b(2) ld n] by blast
    have "s32 (int n) = int n" using n(1) by (auto intro!: c_int)
    then have "ZipSegment_read Z stack junk r zr t n = Some (t\<lparr>buffer := Some b'\<rparr>, ?z, r1, int (length (take n (drop p data))), take n (drop p data))"
      unfolding ZipSegment_read_def using T(1,2) dec [OF b(1)] b' by simp
    then show ?thesis using r1(2,3) frame True by (intro exI [of _ "t\<lparr>buffer := Some b'\<rparr>"] exI [of _ "file_at D q"] exI [of _ r1]) auto
  next
    case False
    then have "decompress_header Z stack junk \<lparr>disk = D, readptr = x\<rparr> t = Some (t, file_at D q, 0, Some EIOError)" using q by simp
    from dec [OF this] have "ZipSegment_read Z stack junk r zr t n = Some (t, ?z, r1, - 1, [])"
      unfolding ZipSegment_read_def using T(1) by simp
    then show ?thesis using r1(2,3) frame False by (intro exI [of _ t] exI [of _ "file_at D q"] exI [of _ r1]) simp
  qed
qed

lemma ZipSegment_read_at:
  fixes zr :: "'z zip_file" and mktime :: "tm \<Rightarrow> int" and now :: "tm" and a :: nat
  assumes s: "stored_at (disk (backing_store zr)) s name data" and D: "length (disk (backing_store zr)) < 2 ^ 62"
    and r: "volume_live r (CHR ''r'') w (addr zr)" and n: "n < 2 ^ 31" "p \<le> length data"
  defines "t \<equiv> (loaded mktime now a w (s, name) :: 'z zip_segment)\<lparr>seg_readptr := int p\<rparr>"
  shows "\<exists>b f r'. ZipSegment_read Z stack junk r zr t n = Some (t\<lparr>buffer := Some b\<rparr>, zr\<lparr>backing_store := f\<rparr>, r', int (length (take n (drop p data))), take n (drop p data)) \<and>
     disk f = disk (backing_store zr) \<and> volume_live r' (CHR ''r'') w (addr zr) \<and> store r' = store r"
proof -
  note pl = stored_at_plain [OF s]
  have "record_at (disk (backing_store zr)) s name data" using s stored_at_record [OF pl] by blast
  from ZipSegment_read_record [OF this D r n, where mktime = mktime and now = now and a = a and Z = Z and stack = stack and junk = junk]
  show ?thesis using plain_self_escaped [OF pl] unfolding t_def by auto
qed

text \<open>A member that has just been loaded is read from its first byte.\<close>

lemma loaded_at_start: "(loaded mktime now a w p :: 'z zip_segment)\<lparr>seg_readptr := int 0\<rparr> = loaded mktime now a w p"
proof -
  obtain s0 where s0: "ZipSegment_Con a None (CHR ''r'') now = (Some s0 :: 'z zip_segment option)" "seg_readptr s0 = 0"
    by (auto simp: ZipSegment_Con_def AFFObject_Con_def)
  have "seg_readptr (loaded mktime now a w p :: 'z zip_segment) = int 0" by (cases p) (simp add: loaded_def s0)
  then show ?thesis by (metis zip_segment.surjective zip_segment.update_convs(9))
qed

lemma ZipSegment_read_start:
  fixes zr :: "'z zip_file"
  assumes s: "record_at (disk (backing_store zr)) s name data" and D: "length (disk (backing_store zr)) < 2 ^ 62"
    and r: "resolver_live r" "Resolver_own r w (CHR ''r'') = Some (addr zr)" and n: "n < 2 ^ 31"
  shows "\<exists>t' zr' r'. ZipSegment_read Z stack junk r zr (loaded mktime now a w (s, name)) n
      = Some (t', zr', r', if self_escaped name then (int (length (take n data)), take n data) else (- 1, []))"
proof -
  have v: "volume_live r (CHR ''r'') w (addr zr)" using r by (simp add: volume_live_def)
  show ?thesis
    using ZipSegment_read_record [OF s D v n le0, where mktime = mktime and now = now and a = a and Z = Z and stack = stack and junk = junk]
    unfolding drop0 loaded_at_start by blast
qed

text \<open>
  What clients see of the members of a volume object, whatever resolver hands it out for reading: the first members return the given
  contents, and the first members are refused.
\<close>

definition members_read :: "'z zlib \<Rightarrow> (nat \<Rightarrow> byte) \<Rightarrow> (nat \<Rightarrow> byte) \<Rightarrow> 'z zip_file \<Rightarrow> buf list \<Rightarrow> bool" where
  "members_read Z stack junk zl ds \<longleftrightarrow> length ds \<le> length (members zl) \<and>
     (\<forall>i < length ds. \<forall>r n. resolver_live r \<and> Resolver_own r (urn zl) (CHR ''r'') = Some (addr zl) \<and> n < 2 ^ 31 \<longrightarrow>
       (\<exists>t' zl' r'. ZipSegment_read Z stack junk r zl (members zl ! i) n = Some (t', zl', r', int (length (take n (ds ! i))), take n (ds ! i))))"

definition members_refused :: "'z zlib \<Rightarrow> (nat \<Rightarrow> byte) \<Rightarrow> (nat \<Rightarrow> byte) \<Rightarrow> 'z zip_file \<Rightarrow> nat \<Rightarrow> bool" where
  "members_refused Z stack junk zl k \<longleftrightarrow> k \<le> length (members zl) \<and>
     (\<forall>i < k. \<forall>r n. resolver_live r \<and> Resolver_own r (urn zl) (CHR ''r'') = Some (addr zl) \<longrightarrow>
       (\<exists>zl' r'. ZipSegment_read Z stack junk r zl (members zl ! i) n = Some (members zl ! i, zl', r', - 1, [])))"

text \<open>A volume whose members are the loaded entries of stored records reads them.\<close>

definition all_stored :: "buf \<Rightarrow> ('z zip_segment \<times> buf) list \<Rightarrow> buf list \<Rightarrow> bool" where
  "all_stored D ps ds \<longleftrightarrow> length ds = length ps \<and> (\<forall>i < length ps. stored_at D (fst (ps ! i)) (snd (ps ! i)) (ds ! i))"

lemma all_stored_append: "all_stored D ps ds \<Longrightarrow> all_stored (D @ tail) ps ds"
  by (auto simp: all_stored_def intro: stored_at_append)

lemma loaded_nth:
  "i < length ps \<Longrightarrow> map (\<lambda>(i, p). loaded mktime now i w p) (zip [a ..< a + length ps] ps) ! i = loaded mktime now (a + i) w (ps ! i)"
  by simp

lemma loaded_members_read:
  fixes zl :: "'z zip_file"
  assumes "all_stored (disk (backing_store zl)) ps ds" "length (disk (backing_store zl)) < 2 ^ 62"
    "members zl = map (\<lambda>(i, p). loaded mktime now i (urn zl) p) (zip [a ..< a + length ps] ps)"
  shows "members_read Z stack junk zl ds"
proof -
  have "\<exists>t' zl' r'. ZipSegment_read Z stack junk r zl (members zl ! i) n = Some (t', zl', r', int (length (take n (ds ! i))), take n (ds ! i))"
    if i: "i < length ps" and r: "resolver_live r" "Resolver_own r (urn zl) (CHR ''r'') = Some (addr zl)" and n: "n < 2 ^ 31" for i r n
  proof -
    obtain s name where p: "ps ! i = (s, name)" by (cases "ps ! i")
    then have st: "stored_at (disk (backing_store zl)) s name (ds ! i)" using assms(1) i by (auto simp: all_stored_def)
    note pl = stored_at_plain [OF st]
    have "record_at (disk (backing_store zl)) s name (ds ! i)" using st stored_at_record [OF pl] by blast
    from ZipSegment_read_start [OF this assms(2) r n] show ?thesis
      unfolding assms(3) loaded_nth [OF i] p using plain_self_escaped [OF pl] by simp
  qed
  then show ?thesis using assms(1,3) by (auto simp: members_read_def all_stored_def)
qed

text \<open>A member is refused when its directory entry and its file header disagree about the length of the name.\<close>

lemma ZipSegment_read_mismatch:
  fixes zr :: "'z zip_file"
  assumes D: "disk (backing_store zr) = pre @ pack (zfh_fields h) @ post" "length (disk (backing_store zr)) < 2 ^ 62" "fits (zfh_fields h)"
    and t: "offset_of_file_header t = length pre" "zfh_file_name_length h \<noteq> file_name_length (cd t)" "container t = Some w" "buffer t = None"
    and r: "resolver_live r" "Resolver_own r w (CHR ''r'') = Some (addr zr)"
  shows "\<exists>zr' r'. ZipSegment_read Z stack junk r zr t n = Some (t, zr', r', - 1, [])"
proof -
  let ?D = "pre @ pack (zfh_fields h) @ post"
  obtain x where f: "backing_store zr = \<lparr>disk = ?D, readptr = x\<rparr>" using D(1) by (cases "backing_store zr") auto
  have lp: "s64 (int (length pre)) = int (length pre)" using D(2) unfolding D(1) by (intro c_int) auto
  have rd: "bs_read (file_at ?D (length pre)) 30 = (file_at ?D (length pre + 30), pack (zfh_fields h))"
    using D(2) unfolding D(1) by (subst bs_read_file) auto
  have uh: "zfh_unpack (on_stack stack 30 (pack (zfh_fields h))) = h"
    using zfh_unpack_pack [OF D(3), of "[]"] by (simp add: on_stack_def)
  have "\<exists>g. decompress_header Z stack junk (backing_store zr) t = Some (t, g, 0, Some EIOError)"
    unfolding decompress_header_def Let_def f t(1) lp bs_seek_set fst_conv rd prod.case uh using t(2) by simp
  then obtain g where g: "decompress_header Z stack junk (backing_store zr) t = Some (t, g, 0, Some EIOError)" by blast
  obtain r' where "Resolver_cache_return r (zr\<lparr>backing_store := g\<rparr>) = Some r'"
    using Resolver_manage_spec [OF r(1), of "zr\<lparr>backing_store := g\<rparr>"] by (auto simp: Resolver_cache_return_eq)
  then show ?thesis using g r(2) t(3,4) by (simp add: ZipSegment_read_def decompress_segment_def Let_def)
qed

text \<open>
  A loaded member as the next directory lists it: it counts its name without the terminator, which the header of a stored record counts.
\<close>

lemma loaded_fields:
  fixes s :: "'z zip_segment"
  shows "filename (loaded mktime now a w (s, name)) = \<lparr>str_value = Some (name @ [NUL]), str_length = int (length name)\<rparr>"
    "buffer (loaded mktime now a w (s, name)) = None" "container (loaded mktime now a w (s, name)) = Some w"
    "offset_of_file_header (loaded mktime now a w (s, name)) = offset_of_file_header s"
    "cd (loaded mktime now a w (s, name)) = cd (listed s)" "seg_name (loaded mktime now a w (s, name)) = name"
proof -
  obtain s0 where s0: "ZipSegment_Con a None (CHR ''r'') now = (Some s0 :: 'z zip_segment option)" "buffer s0 = None"
    by (auto simp: ZipSegment_Con_def AFFObject_Con_def)
  show "filename (loaded mktime now a w (s, name)) = \<lparr>str_value = Some (name @ [NUL]), str_length = int (length name)\<rparr>"
    "buffer (loaded mktime now a w (s, name)) = None" "container (loaded mktime now a w (s, name)) = Some w"
    "offset_of_file_header (loaded mktime now a w (s, name)) = offset_of_file_header s"
    "cd (loaded mktime now a w (s, name)) = cd (listed s)" "seg_name (loaded mktime now a w (s, name)) = name"
    by (simp_all add: loaded_def s0 seg_name_def)
qed

lemma stored_header:
  assumes "stored_at D s name data"
  obtains pre post where "D = pre @ pack (zfh_fields (segment_header s)) @ post" "offset_of_file_header s = length pre"
    "fits (zfh_fields (segment_header s))" "zfh_file_name_length (segment_header s) = length name + 1"
proof -
  have st: "closed_ok s" "seg_name s = name @ [NUL]" "fits (cd_fields (cd s))" using assms by (simp_all add: stored_at_def)
  obtain pre post where D: "D = pre @ segment_record s data @ post" "offset_of_file_header s = length pre"
    using assms by (auto simp: stored_at_def)
  have no: "name_ok (filename s)" using st(1) by (simp add: closed_ok_def)
  have ln: "nat (str_length (filename s)) = length name + 1" using length_seg_name [OF no] st(2) by simp
  have "u16 (str_length (filename s)) = str_length (filename s)" using no by (auto simp: name_ok_def intro!: c_int)
  then have hl: "zfh_file_name_length (segment_header s) = length name + 1" by (simp add: segment_header_def ln)
  have ft: "fits (zfh_fields (segment_header s))" using fits_segment_header [OF st(3)] no by (simp add: name_ok_def)
  obtain post' where "D = pre @ pack (zfh_fields (segment_header s)) @ post'" using D(1) by (auto simp: segment_record_def)
  then show ?thesis using that D(2) ft hl by blast
qed

lemma reloaded_members_refused:
  fixes zf :: "'z zip_file" and mktime mktime' :: "tm \<Rightarrow> int" and ps :: "('z zip_segment \<times> buf) list"
  assumes "all_stored (disk (backing_store zf)) ps ds" "length (disk (backing_store zf)) < 2 ^ 62"
    "members zf = map (\<lambda>(i, p). loaded mktime now i (urn zf) p) (zip [a ..< a + length pb] pb)"
    "length ps \<le> length pb" "\<And>i. i < length ps \<Longrightarrow> fst (pb ! i) = loaded mktime' now' (a' + i) w (ps ! i)"
  shows "members_refused Z stack junk zf (length ps)"
proof -
  have "\<exists>zl' r'. ZipSegment_read Z stack junk r zf (members zf ! i) n = Some (members zf ! i, zl', r', - 1, [])"
    if i: "i < length ps" and r: "resolver_live r" "Resolver_own r (urn zf) (CHR ''r'') = Some (addr zf)" for i r n
  proof -
    obtain s name where p: "ps ! i = (s, name)" by (cases "ps ! i")
    obtain t xs where q: "pb ! i = (t, xs)" by (cases "pb ! i")
    have t: "t = loaded mktime' now' (a' + i) w (s, name)" using assms(5) [OF i] p q by simp
    have m: "members zf ! i = loaded mktime now (a + i) (urn zf) (t, xs)"
      unfolding assms(3) using loaded_nth [of i pb] i assms(4) q by simp
    have "stored_at (disk (backing_store zf)) s name (ds ! i)" using assms(1) i p by (auto simp: all_stored_def)
    then obtain pre post where D: "disk (backing_store zf) = pre @ pack (zfh_fields (segment_header s)) @ post" "offset_of_file_header s = length pre"
        "fits (zfh_fields (segment_header s))" "zfh_file_name_length (segment_header s) = length name + 1"
      by (rule stored_header)
    have "file_name_length (cd (members zf ! i)) = length name" unfolding m loaded_fields by (simp add: listed_def t loaded_fields)
    then have ne: "zfh_file_name_length (segment_header s) \<noteq> file_name_length (cd (members zf ! i))" using D(4) by simp
    have "offset_of_file_header (members zf ! i) = length pre" "container (members zf ! i) = Some (urn zf)" "buffer (members zf ! i) = None"
      unfolding m by (simp_all add: loaded_fields t D(2))
    then show ?thesis using ZipSegment_read_mismatch [OF D(1) assms(2) D(3) _ ne _ _ r] by blast
  qed
  then show ?thesis using assms(3,4) by (auto simp: members_refused_def)
qed

text \<open>Closing a volume, and loading it into any fresh object that is over the file it wrote.\<close>

lemma zip_close_reopen:
  fixes z :: "'z zip_file"
  assumes "archive_ready z ps" "aff4_urn z net"
  shows "\<exists>z' r' tail. ZipFile_close junk r z = Some (z', r', 1) \<and> disk (backing_store z') = disk (backing_store z) @ tail \<and>
     length (disk (backing_store z')) < 2 ^ 62 \<and>
     (\<forall>zr :: 'z zip_file. members zr = [] \<and> disk (backing_store zr) = disk (backing_store z') \<longrightarrow>
       (\<exists>zl. ZipFile_load_from_backing_store mktime now stack a zr = Some (zl, 1) \<and> disk (backing_store zl) = disk (backing_store z') \<and>
          members zl = map (\<lambda>(i, p). loaded mktime now i (urn zl) p) (zip [a ..< a + length ps] ps)))"
proof -
  note load = zip_close_load [OF assms, of _ junk r mktime now stack a]
  let ?D = "disk (backing_store z) @ cd_bytes (members z) @
       end_bytes (length ps) (length (cd_bytes (members z))) (length (disk (backing_store z))) (urn_value (urn z))"
  obtain z' r' where z': "ZipFile_close junk r z = Some (z', r', 1)" "disk (backing_store z') = ?D"
    using load [of "z\<lparr>members := []\<rparr>"] by auto
  have "length ?D < 2 ^ 62" using assms(1) by (simp add: archive_ready_def ZIP64_LIMIT_def BUFF_SIZE_def end_bytes_def)
  moreover have "\<exists>zl. ZipFile_load_from_backing_store mktime now stack a zr = Some (zl, 1) \<and> disk (backing_store zl) = disk (backing_store z') \<and>
          members zl = map (\<lambda>(i, p). loaded mktime now i (urn zl) p) (zip [a ..< a + length ps] ps)"
    if "members zr = []" "disk (backing_store zr) = disk (backing_store z')" for zr :: "'z zip_file"
    using load [OF that(1)] that(2) z'(1) by auto
  ultimately show ?thesis using z' by metis
qed

text \<open>The URN that is taken from the comment: it lacks the characters that the search for the end record did not read.\<close>

lemma loaded_urn:
  assumes "aff4_urn z net"
  shows "FQN @ take (length net + 1 - unread_bytes n) net = take (length (urn_value (urn z)) - min 3 (n - (BUFF_SIZE - 3))) (urn_value (urn z))"
    "FQN @ take (length net + 1 - unread_bytes n) net = urn_value (urn z) \<longleftrightarrow> n \<le> BUFF_SIZE - 3"
proof -
  define k where "k = min 3 (n - (BUFF_SIZE - 3))"
  have u: "urn_value (urn z) = FQN @ net" "3 \<le> length net" using assms by (simp_all add: aff4_urn_def)
  have t: "take (length net + 1 - unread_bytes n) net = take (length net - k) net"
    using u(2) by (cases "n \<le> BUFF_SIZE - 4") (auto simp: k_def unread_bytes_def BUFF_SIZE_def min_def Suc_diff_le Suc_diff_Suc add.commute)
  have "take (length (FQN @ net) - k) (FQN @ net) = FQN @ take (length net - k) net" using u(2) by (simp add: k_def)
  then show "FQN @ take (length net + 1 - unread_bytes n) net = take (length (urn_value (urn z)) - min 3 (n - (BUFF_SIZE - 3))) (urn_value (urn z))"
    unfolding t u(1) k_def by simp
  have "take (length net - k) net = net \<longleftrightarrow> n \<le> BUFF_SIZE - 3"
    using u(2) arg_cong [of "take (length net - k) net" net length] by (auto simp: k_def min_def split: if_splits)
  then show "FQN @ take (length net + 1 - unread_bytes n) net = urn_value (urn z) \<longleftrightarrow> n \<le> BUFF_SIZE - 3" unfolding t u(1) by simp
qed

text \<open>The second directory of a volume whose first members were loaded.\<close>

lemma appended_members_refused:
  fixes zb :: "'z zip_file"
  assumes zb: "members zb = map (\<lambda>(i, p). loaded mktime now i w p) (zip [a ..< a + length ps] ps) @ ms" "archive_ready zb pb" "aff4_urn zb net"
    and st: "all_stored (disk (backing_store zb)) ps ds"
  shows "\<exists>z2 r2. ZipFile_close junk r zb = Some (z2, r2, 1) \<and>
     (\<forall>zr :: 'z zip_file. members zr = [] \<and> disk (backing_store zr) = disk (backing_store z2) \<longrightarrow>
       (\<exists>zf. ZipFile_load_from_backing_store mktime now stack a zr = Some (zf, 1) \<and> members_refused Z stack junk zf (length ps)))"
proof -
  let ?old = "map (\<lambda>(i, p). loaded mktime now i w p) (zip [a ..< a + length ps] ps)"
  have "\<forall>s \<in> set ?old. buffer s = None" by (auto simp: loaded_fields)
  then have "closed_members (members zb) = ?old @ closed_members ms" unfolding zb(1) by (auto simp: closed_members_def filter_id_conv)
  then have mf: "map fst pb = ?old @ closed_members ms" using zb(2) by (simp add: archive_ready_def)
  have le: "length ps \<le> length pb" using arg_cong [OF mf, of length] by simp
  have pb: "fst (pb ! i) = loaded mktime now (a + i) w (ps ! i)" if "i < length ps" for i
    using nth_map [of i pb fst] mf that le by (simp add: nth_append)
  obtain z2 r2 tail where z2: "ZipFile_close junk r zb = Some (z2, r2, 1)" "disk (backing_store z2) = disk (backing_store zb) @ tail"
      "length (disk (backing_store z2)) < 2 ^ 62"
    and reopen: "\<forall>zr :: 'z zip_file. members zr = [] \<and> disk (backing_store zr) = disk (backing_store z2) \<longrightarrow>
       (\<exists>zl. ZipFile_load_from_backing_store mktime now stack a zr = Some (zl, 1) \<and> disk (backing_store zl) = disk (backing_store z2) \<and>
          members zl = map (\<lambda>(i, p). loaded mktime now i (urn zl) p) (zip [a ..< a + length pb] pb))"
    using zip_close_reopen [OF zb(2,3), of junk r mktime now stack a] by blast
  have "members_refused Z stack junk zf (length ps)"
    if "disk (backing_store zf) = disk (backing_store z2)" "members zf = map (\<lambda>(i, p). loaded mktime now i (urn zf) p) (zip [a ..< a + length pb] pb)" for zf
    using reloaded_members_refused [OF _ _ that(2) le pb, where ds = ds] all_stored_append [OF st] z2(2,3) that(1) by simp
  then show ?thesis using z2(1) reopen by blast
qed

section \<open>A small volume\<close>

text \<open>Concrete states at which the properties below are instantiated: a volume with one member \<open>/a\<close>.\<close>

definition demo_urn :: "buf \<Rightarrow> rdf_urn" where
  "demo_urn path = \<lparr>urn_value = ''aff4://vol'' @ path, parser = None\<rparr>"

definition demo_cd :: CDFileHeader where
  "demo_cd = \<lparr>cd_magic = 0x2014b50, version_made_by = 0x317, version_needed = 0x14, cd_flags = 0x8, cd_compression_method = 0,
     dostime = 0, dosdate = 0, cd_crc32 = 0, compress_size = 0, file_size = 0, file_name_length = 0, extra_field_len = 0,
     file_comment_length = 0, disk_number_start = 0, internal_file_attr = 0, external_file_attr = 0,
     relative_offset_local_header = 0\<rparr>"

definition demo_segment :: "unit zip_segment" where
  "demo_segment = \<lparr>addr = 2, urn = demo_urn ''/a'', mode = CHR ''w'', complete = True, cd = demo_cd,
     container = Some (demo_urn []), compression_method = 0, timestamp = 0, strm = None, offset_of_file_header = 1,
     filename = \<lparr>str_value = Some (''/a'' @ [NUL, NUL]), str_length = 3\<rparr>, buffer = None, seg_readptr = 0\<rparr>"

definition demo_zip :: "char \<Rightarrow> buf \<Rightarrow> unit zip_segment list \<Rightarrow> unit zip_file" where
  "demo_zip m d ms = \<lparr>addr = 1, urn = demo_urn [], mode = m, complete = True, zend = None, members = ms,
     storage_urn = RDFURN_Con, zip_compression_method = 0, backing_store = \<lparr>disk = d, readptr = 0\<rparr>\<rparr>"

definition demo_now :: "tm" where
  "demo_now = \<lparr>tm_year = 0, tm_mon = 0, tm_mday = 0, tm_hour = 0, tm_min = 0, tm_sec = 0\<rparr>"

definition demo_zlib :: "unit zlib" where
  "demo_zlib = \<lparr>crc32 = (\<lambda>c d. (c + length d) mod 2 ^ 32), deflateInit2 = Some (), deflate = (\<lambda>z fin d. (z, [], d)), inflateInit2 = True,
     inflate = (\<lambda>d n. (True, take n d))\<rparr>"

lemma needs_escape_demo: "\<not> needs_escape (CHR ''/'')" "\<not> needs_escape (CHR ''a'')"
  by code_simp+

lemma demo_name: "plain_name ''/a''"
  by (simp add: plain_name_def member_name_def needs_escape_demo ascii_def BUFF_SIZE_def)

lemma demo_fits: "fits (cd_fields demo_cd)"
  by (simp add: fits_def cd_fields_def demo_cd_def)

lemma demo_closed: "closed_ok demo_segment" "seg_name demo_segment = ''/a'' @ [NUL]"
  by (simp_all add: closed_ok_def demo_segment_def name_ok_def ZIP64_LIMIT_def seg_name_def)

lemma demo_entry: "entry_ok (demo_segment, ''/a'')"
  using demo_closed demo_fits escaped_plain [OF demo_name]
  by (simp add: entry_ok_def BUFF_SIZE_def) (simp add: demo_segment_def demo_cd_def)

lemma no_magic_after:
  assumes "CHR 0x06 \<notin> set (drop 4 t)" "0 < j"
  shows "\<not> occurs_at END_MAGIC j t"
proof
  assume o: "occurs_at END_MAGIC j t"
  then have "j + 4 \<le> length t" "take 4 (drop j t) = END_MAGIC" by (simp_all add: occurs_at_def END_MAGIC_nth)
  then have "t ! (j + 3) = CHR 0x06" using nth_take [of 3 4 "drop j t"] nth_drop [of j t 3] END_MAGIC_nth(2) by simp
  moreover have "t ! (j + 3) \<in> set (drop 4 t)"
    using \<open>j + 4 \<le> length t\<close> assms(2) nth_mem [of "j - 1" "drop 4 t"] by (simp add: add.commute)
  ultimately show False using assms(1) by simp
qed

lemma le_bytes_small: "v < 256 \<Longrightarrow> v \<noteq> 6 \<Longrightarrow> CHR 0x06 \<notin> set (le_bytes n v)"
proof (induction n arbitrary: v)
  case (Suc n)
  have "char_of v \<noteq> CHR 0x06"
  proof
    assume "char_of v = CHR 0x06"
    then have "of_char (char_of v :: char) = (of_char (CHR 0x06) :: nat)" by simp
    then show False using Suc.prems by simp
  qed
  moreover have "CHR 0x06 \<notin> set (le_bytes n 0)" using Suc.IH [of 0] by simp
  ultimately show ?case using Suc.prems by simp
qed simp

lemma le_bytes_65536: "CHR 0x06 \<notin> set (le_bytes 4 65536)"
proof -
  have "le_bytes 4 65536 = char_of (0 :: nat) # char_of (0 :: nat) # le_bytes 2 1"
    using le_bytes.simps(2) [of 3 65536] le_bytes.simps(2) [of 2 256] by simp
  moreover have "char_of (0 :: nat) \<noteq> CHR 0x06" using le_bytes_small [of 0 1] by simp
  ultimately show ?thesis using le_bytes_small [of 1 2] by simp
qed

lemma demo_cd_bytes: "length (cd_bytes [demo_segment]) = 49"
  using demo_closed by (simp add: cd_bytes_def closed_members_def demo_segment_def cd_entry_def)

lemma demo_ready_member:
  assumes d: "d \<noteq> []" "length d \<le> ZIP64_LIMIT" "CHR 0x06 \<notin> set (le_bytes 4 (length d))"
    and t: "entry_ok (t, ''/a'')" "length (cd_bytes [t]) = k" "k < 256" "k \<noteq> 6"
  shows "archive_ready (demo_zip (CHR ''w'') d [t]) [(t, ''/a'')]" "aff4_urn (demo_zip (CHR ''w'') d [t]) ''vol''"
proof -
  have eleven: "CHR 0x06 \<notin> set (le_bytes n (Suc (length ''aff4://vol'')))" for n using le_bytes_small [of "Suc (length ''aff4://vol'')" n] by simp
  have "CHR 0x06 \<notin> set (drop 4 (end_bytes 1 k (length d) ''aff4://vol''))"
    using d(3) le_bytes_small [of 0] le_bytes_small [of 1] le_bytes_small [OF t(3,4)] eleven [of 2]
    by (simp add: end_bytes_def end_fields_def end_record_def)
  then have "\<not> occurs_at END_MAGIC j (end_bytes 1 k (length d) ''aff4://vol'')" if "0 < j" for j
    using no_magic_after that by blast
  moreover have "buffer t = None" using t(1) by (simp add: entry_ok_def closed_ok_def)
  ultimately show "archive_ready (demo_zip (CHR ''w'') d [t]) [(t, ''/a'')]"
    using d(1,2) t by (simp add: archive_ready_def demo_zip_def closed_members_def BUFF_SIZE_def demo_urn_def)
  show "aff4_urn (demo_zip (CHR ''w'') d [t]) ''vol''"
    by (simp add: aff4_urn_def demo_zip_def demo_urn_def FQN_def cstr_def)
qed

lemmas demo_ready = demo_ready_member [OF _ _ _ demo_entry demo_cd_bytes, simplified]

lemma demo_loaded:
  fixes mktime :: "tm \<Rightarrow> int" and now :: "tm" and a :: nat and w :: rdf_urn
  defines "t \<equiv> loaded mktime now a w (demo_segment, ''/a'')"
  shows "entry_ok (t, ''/a'')" "length (cd_bytes [t]) = 48"
proof -
  have t: "closed_ok t" "seg_name t = ''/a''" by (simp_all add: t_def loaded_fields closed_ok_def name_ok_def ZIP64_LIMIT_def demo_segment_def)
  show "entry_ok (t, ''/a'')"
    using t escaped_plain [OF demo_name] fits_listed [OF demo_entry]
    by (simp add: entry_ok_def BUFF_SIZE_def t_def loaded_fields) (simp add: listed_def demo_segment_def demo_cd_def)
  show "length (cd_bytes [t]) = 48" using t by (simp add: cd_bytes_def closed_members_def closed_ok_def cd_entry_def)
qed

text \<open>A resolver that manages one object.\<close>

lemma demo_managed:
  fixes ob :: "'x aff_object_scheme"
  shows "\<exists>r. Resolver_manage (Resolver_Con None) ob = Some r \<and> resolver_live r \<and> ds_inv (store r) \<and> ds_room (store r) 10 \<and>
     Resolver_own r (urn ob) (mode ob) = Some (addr ob)"
proof -
  obtain r where r: "Resolver_manage (Resolver_Con None) ob = Some r" "resolver_live r" "store r = store (Resolver_Con None)"
      "managed r (mode ob) (urn_value (urn ob)) = [addr ob]"
    using Resolver_manage_spec [of "Resolver_Con None" ob] Resolver_Con_live [of None] by (auto simp: same_cache_def)
  have "store (Resolver_Con None) = DataStore_Con" by (simp add: Resolver_Con_def Resolver_flush_def)
  then show ?thesis using r DataStore_Con_inv Resolver_own_spec [OF r(2), of "urn ob" "mode ob"] by (auto simp: ds_room_def DataStore_Con_def)
qed

lemma demo_owned:
  fixes ob :: "'x aff_object_scheme"
  assumes "k \<le> 10" "mode ob = CHR ''w''"
  shows "\<exists>r. volume_owned r (urn ob) (addr ob) k"
proof -
  obtain r where r: "resolver_live r" "ds_inv (store r)" "ds_room (store r) 10" "Resolver_own r (urn ob) (mode ob) = Some (addr ob)"
    using demo_managed [of ob] by blast
  have "ds_room (store r) k" using r(3) assms(1) by (simp add: ds_room_def)
  then show ?thesis using r assms(2) by (auto simp: volume_owned_def volume_live_def)
qed

lemma at_end_constructor: "at_end (StringIO_constructor junk)" "sio_content (StringIO_constructor junk) = []"
  using sio_Con_ok [of junk] by (simp_all add: at_end_def sio_pos_def StringIO_constructor_def)

lemma demo_open: "open_stored (demo_segment\<lparr>buffer := Some (StringIO_constructor (\<lambda>_. NUL))\<rparr>) []"
  using at_end_constructor [of "\<lambda>_. NUL"] by (simp add: open_stored_def demo_segment_def demo_cd_def ZIP_STORED_def)

lemma demo_relative: "RDFURN_relative_name (demo_urn ''/a'') (demo_urn []) = ''/a''"
  by code_simp

section \<open>Properties\<close>

text \<open>C4. The central directory of a volume survives closing and loading: for a volume that fits the search window, closing writes
  a directory from which a fresh volume object loads every closed member, in order, with its header fields, its
  unescaped name and the offset of its data, and takes over the URN of the volume; members still open for
  writing are left out.\<close>

theorem zip_directory_roundtrip:
  fixes z zr :: "'z zip_file"
  assumes "archive_ready z ps" "aff4_urn z net" "members zr = []"
  shows "\<exists>z' r'. ZipFile_close junk r z = Some (z', r', 1) \<and>
     (disk (backing_store zr) = disk (backing_store z') \<longrightarrow> length (disk (backing_store z')) \<le> BUFF_SIZE - 4 \<longrightarrow>
       (\<exists>zl. ZipFile_load_from_backing_store mktime now stack a zr = Some (zl, 1) \<and> urn_value (urn zl) = urn_value (urn z) \<and>
          members zl = map (\<lambda>(i, p). loaded mktime now i (urn zl) p) (zip [a ..< a + length ps] ps)))"
proof -
  obtain z' r' where z': "ZipFile_close junk r z = Some (z', r', 1)"
      "disk (backing_store zr) = disk (backing_store z') \<Longrightarrow>
       \<exists>zl. ZipFile_load_from_backing_store mktime now stack a zr = Some (zl, 1) \<and>
          members zl = map (\<lambda>(i, p). loaded mktime now i (urn zl) p) (zip [a ..< a + length ps] ps) \<and>
          urn_value (urn zl) = FQN @ take (length net + 1 - unread_bytes (length (disk (backing_store z')))) net"
    using zip_close_load [OF assms, of junk r mktime now stack a] by blast
  have "FQN @ take (length net + 1 - unread_bytes (length (disk (backing_store z')))) net = urn_value (urn z)"
    if "length (disk (backing_store z')) \<le> BUFF_SIZE - 4"
    using that assms(2) by (simp add: unread_bytes_def aff4_urn_def)
  then show ?thesis using z' by fastforce
qed

theorem zip_directory_roundtrip_witness:
  "\<exists>z' r'. ZipFile_close (\<lambda>_. NUL) (Resolver_Con None) (demo_zip (CHR ''w'') ''P'' [demo_segment]) = Some (z', r', 1) \<and>
     (\<exists>zl. ZipFile_load_from_backing_store (\<lambda>_. 0) demo_now (\<lambda>_. NUL) 7 (demo_zip (CHR ''r'') (disk (backing_store z')) []) = Some (zl, 1) \<and>
          members zl = [loaded (\<lambda>_. 0) demo_now 7 (urn zl) (demo_segment, ''/a'')])"
proof -
  let ?z = "demo_zip (CHR ''w'') ''P'' [demo_segment]" and ?r = "\<lambda>d. demo_zip (CHR ''r'') d []"
  have rd: "archive_ready ?z [(demo_segment, ''/a'')]" "aff4_urn ?z ''vol''"
    using demo_ready [of "''P''"] le_bytes_small [of 1 4] by (simp_all add: ZIP64_LIMIT_def)
  have m: "members (?r d) = []" "disk (backing_store (?r d)) = d" for d by (simp_all add: demo_zip_def)
  note * = zip_directory_roundtrip [OF rd m(1), of "\<lambda>_. NUL" "Resolver_Con None" _ "\<lambda>_. 0" demo_now "\<lambda>_. NUL" 7, unfolded m(2)]
  obtain z' r' where z': "ZipFile_close (\<lambda>_. NUL) (Resolver_Con None) ?z = Some (z', r', 1)" "length (disk (backing_store z')) \<le> BUFF_SIZE - 4"
    using zip_close_load [OF rd m(1) [of "[]"], of "\<lambda>_. NUL" "Resolver_Con None" "\<lambda>_. 0" demo_now "\<lambda>_. NUL" 7] demo_cd_bytes
    by (auto simp: demo_zip_def BUFF_SIZE_def demo_urn_def end_bytes_def)
  have "(\<exists>zl. ZipFile_load_from_backing_store (\<lambda>_. 0) demo_now (\<lambda>_. NUL) 7 (?r (disk (backing_store z'))) = Some (zl, 1) \<and>
          members zl = [loaded (\<lambda>_. 0) demo_now 7 (urn zl) (demo_segment, ''/a'')])"
    using * [of "disk (backing_store z')"] z' by (simp add: upt_rec) blast
  then show ?thesis using z' by blast
qed

text \<open>C32. A volume of more than \<^verbatim>\<open>BUFF_SIZE - 3\<close> = 40957 bytes loses the end of its URN: the search for the end record reads at most
  \<^verbatim>\<open>BUFF_SIZE - 4\<close> bytes from a position \<^verbatim>\<open>BUFF_SIZE\<close> bytes before the end of the file, so the last bytes of the comment are not
  seen. Closing and loading succeed and every closed member is in the loaded directory, but the URN that is loaded lacks one
  character for each byte beyond 40957 and three for every larger file; it is the URN of the volume exactly when the
  closed file has at most 40957 bytes. The volume has a URN as new volumes get it, and no Zip64 structures.\<close>

theorem zip_large_volume_truncates_urn:
  fixes z zr :: "'z zip_file"
  assumes "archive_ready z ps" "aff4_urn z net" "members zr = []"
  shows "\<exists>z' r'. ZipFile_close junk r z = Some (z', r', 1) \<and>
     (disk (backing_store zr) = disk (backing_store z') \<longrightarrow>
       (\<exists>zl. ZipFile_load_from_backing_store mktime now stack a zr = Some (zl, 1) \<and> length (members zl) = length ps \<and>
          urn_value (urn zl) = take (length (urn_value (urn z)) - min 3 (length (disk (backing_store z')) - (BUFF_SIZE - 3))) (urn_value (urn z)) \<and>
          (urn_value (urn zl) = urn_value (urn z) \<longleftrightarrow> length (disk (backing_store z')) \<le> BUFF_SIZE - 3)))"
proof -
  obtain z' r' where z': "ZipFile_close junk r z = Some (z', r', 1)"
      "disk (backing_store zr) = disk (backing_store z') \<Longrightarrow>
       \<exists>zl. ZipFile_load_from_backing_store mktime now stack a zr = Some (zl, 1) \<and>
          members zl = map (\<lambda>(i, p). loaded mktime now i (urn zl) p) (zip [a ..< a + length ps] ps) \<and>
          urn_value (urn zl) = FQN @ take (length net + 1 - unread_bytes (length (disk (backing_store z')))) net"
    using zip_close_load [OF assms, of junk r mktime now stack a] by blast
  note u = loaded_urn [OF assms(2), of "length (disk (backing_store z'))"]
  have "\<exists>zl. ZipFile_load_from_backing_store mktime now stack a zr = Some (zl, 1) \<and> length (members zl) = length ps \<and>
      urn_value (urn zl) = take (length (urn_value (urn z)) - min 3 (length (disk (backing_store z')) - (BUFF_SIZE - 3))) (urn_value (urn z)) \<and>
      (urn_value (urn zl) = urn_value (urn z) \<longleftrightarrow> length (disk (backing_store z')) \<le> BUFF_SIZE - 3)"
    if d: "disk (backing_store zr) = disk (backing_store z')"
  proof -
    obtain zl where zl: "ZipFile_load_from_backing_store mktime now stack a zr = Some (zl, 1)" "length (members zl) = length ps"
        "urn_value (urn zl) = FQN @ take (length net + 1 - unread_bytes (length (disk (backing_store z')))) net"
      using z'(2) [OF d] by (elim exE conjE) (rule that, auto)
    then show ?thesis using u by (intro exI [of _ zl] conjI) (simp_all only:)
  qed
  then show ?thesis using z'(1) by blast
qed

theorem zip_large_volume_truncates_urn_witness:
  "\<exists>z' r' zl. ZipFile_close (\<lambda>_. NUL) (Resolver_Con None) (demo_zip (CHR ''w'') (replicate 65536 (CHR ''P'')) [demo_segment]) = Some (z', r', 1) \<and>
     ZipFile_load_from_backing_store (\<lambda>_. 0) demo_now (\<lambda>_. NUL) 7 (demo_zip (CHR ''r'') (disk (backing_store z')) []) = Some (zl, 1) \<and>
     length (members zl) = 1 \<and> urn_value (urn zl) = ''aff4://''"
proof -
  define d where "d = replicate 65536 (CHR ''P'')"
  have ld: "length d = 65536" "d \<noteq> []" by (simp_all add: d_def)
  let ?z = "demo_zip (CHR ''w'') d [demo_segment]" and ?r = "\<lambda>D. demo_zip (CHR ''r'') D []"
  have rd: "archive_ready ?z [(demo_segment, ''/a'')]" "aff4_urn ?z ''vol''"
    using demo_ready [of d] ld le_bytes_65536 by (simp_all add: ZIP64_LIMIT_def)
  have m: "members (?r D) = []" "disk (backing_store (?r D)) = D" "urn_value (urn ?z) = ''aff4://vol''" "disk (backing_store ?z) = d" for D
    by (simp_all add: demo_zip_def demo_urn_def)
  note * = zip_large_volume_truncates_urn [OF rd m(1), of "\<lambda>_. NUL" "Resolver_Con None" _ "\<lambda>_. 0" demo_now "\<lambda>_. NUL" 7, unfolded m]
  obtain z' r' where z': "ZipFile_close (\<lambda>_. NUL) (Resolver_Con None) ?z = Some (z', r', 1)" "65536 \<le> length (disk (backing_store z'))"
    using zip_close_load [OF rd m(1) [of "[]"], of "\<lambda>_. NUL" "Resolver_Con None" "\<lambda>_. 0" demo_now "\<lambda>_. NUL" 7] ld by (auto simp: m)
  then have "min 3 (length (disk (backing_store z')) - (BUFF_SIZE - 3)) = 3" by (simp add: BUFF_SIZE_def)
  then show ?thesis using * [of "disk (backing_store z')"] z'(1) unfolding d_def by fastforce
qed

text \<open>C3. What is written to a stored segment is read back, or refused, depending on its name alone. A client writes blocks of
  together less than 128 MB to a new uncompressed segment with an ASCII name (not all of its characters needing escaping, three times
  its length within the working buffer) and closes it; this succeeds and appends the record of the segment to the volume. From the
  directory entry of the segment \<^verbatim>\<open>load_entry_from_CD\<close> builds a member, and reading this member, from any volume file that
  begins with the volume as it was after the segment was closed, returns the first bytes of the concatenated blocks, as many as asked
  for, if the escaped name begins with the name itself, which every name does in which nothing needs escaping. For all other names
  the reader compares the unescaped name with the escaped one of the file header, and refuses the member.\<close>

theorem zip_segment_roundtrip:
  fixes s :: "'z zip_segment" and zf :: "'z zip_file"
  assumes s: "open_stored s []" "mode s = CHR ''w''" "container s = Some c" "fits (cd_fields (cd s))" "cd_magic (cd s) = 0x2014b50"
    and name: "member_name (RDFURN_relative_name (urn s) c)"
    and len: "2 * length (concat xs) < 268435456" "length (disk (backing_store zf)) \<le> ZIP64_LIMIT"
    and r: "volume_owned r c (addr zf) 1"
    and Z: "\<forall>c d. crc32 Z c d < 2 ^ 32"
  shows "\<exists>s1 s2 zf' r'. zip_writes Z s xs = Some s1 \<and> ZipSegment_close Z fresh r zf s1 = Some (s2, zf', r', 1, None) \<and>
    closed_ok s2 \<and> disk (backing_store zf') = disk (backing_store zf) @ segment_record s2 (concat xs) \<and>
    (\<forall>zl :: 'z zip_file. \<forall>pre post. backing_store zl = file_at (pre @ cd_entry s2 @ post) (length pre) \<longrightarrow> length (pre @ cd_entry s2 @ post) < 2 ^ 62 \<longrightarrow>
      (\<exists>zl' t. load_entry_from_CD mktime now stack a zl = Some (zl', Some t) \<and>
        (\<forall>zr :: 'z zip_file. \<forall>tail r2 n. disk (backing_store zr) = disk (backing_store zf') @ tail \<longrightarrow> length (disk (backing_store zr)) < 2 ^ 62 \<longrightarrow>
           resolver_live r2 \<longrightarrow> Resolver_own r2 (urn zl) (CHR ''r'') = Some (addr zr) \<longrightarrow> n < 2 ^ 31 \<longrightarrow>
           (\<exists>t' zr' r3. ZipSegment_read Z stack junk r2 zr t n = Some (t', zr', r3,
              if take (length (RDFURN_relative_name (urn s) c)) (concat (map escaped (RDFURN_relative_name (urn s) c))) = RDFURN_relative_name (urn s) c
              then (int (length (take n (concat xs))), take n (concat xs)) else (- 1, []))))))"
proof -
  let ?name = "RDFURN_relative_name (urn s) c"
  obtain s1 where s1: "zip_writes Z s xs = Some s1" "open_stored s1 (concat xs)" "same_segment s s1"
    using zip_writes_stored [OF s(1), of xs Z] len(1) by auto
  have f1: "fits (cd_fields (cd s1))" using zip_writes_fits [OF s(1) _ s(4) Z s1(1)] len(1) by simp
  have e: "mode s1 = CHR ''w''" "container s1 = Some c" "urn s1 = urn s" "cd_magic (cd s1) = 0x2014b50"
    using s1(3) s(2,3,5) by (simp_all add: same_segment_def)
  have nm: "member_name (RDFURN_relative_name (urn s1) c)" using name e(3) by simp
  have ld: "length (concat xs) < 268435456" using len(1) by linarith
  obtain s2 f r' where s2: "ZipSegment_close Z fresh r zf s1 = Some (s2, zf\<lparr>backing_store := f\<rparr>, r', 1, None)"
      "disk f = disk (backing_store zf) @ segment_record s2 (concat xs)" "record_at (disk f) s2 ?name (concat xs)" "same_segment s1 s2"
    using ZipSegment_close_record_at [OF s1(2) e(1,2) nm f1 r [unfolded One_nat_def] len(2) ld, of Z fresh] unfolding e(3) by blast
  define zf' where "zf' = zf\<lparr>backing_store := f\<rparr>"
  have z: "ZipSegment_close Z fresh r zf s1 = Some (s2, zf', r', 1, None)" "closed_ok s2"
      "disk (backing_store zf') = disk (backing_store zf) @ segment_record s2 (concat xs)" "disk (backing_store zf') = disk f"
    using s2 by (simp_all add: zf'_def record_at_def)
  have "cd_magic (cd s2) = 0x2014b50" using s2(4) e(4) by (simp add: same_segment_def)
  then have ent: "entry_ok (s2, ?name)" by (rule record_at_entry [OF s2(3)])
  have rd: "\<exists>t' zr' r3. ZipSegment_read Z stack junk r2 zr (loaded mktime now a w (s2, ?name)) n = Some (t', zr', r3,
      if take (length ?name) (concat (map escaped ?name)) = ?name then (int (length (take n (concat xs))), take n (concat xs)) else (- 1, []))"
    if "disk (backing_store zr) = disk (backing_store zf') @ tail" "length (disk (backing_store zr)) < 2 ^ 62"
      "resolver_live r2" "Resolver_own r2 w (CHR ''r'') = Some (addr zr)" "n < 2 ^ 31" for zr :: "'z zip_file" and tail r2 w n
    using ZipSegment_read_start [OF _ that(2-5), unfolded self_escaped_def] record_at_append [OF s2(3)] that(1) z(4) by metis
  show ?thesis
  proof (rule exI [of _ s1], rule exI [of _ s2], rule exI [of _ zf'], rule exI [of _ r'], intro conjI allI impI, rule s1(1), rule z(1), rule z(2), rule z(3))
    fix zl :: "'z zip_file" and pre post
    assume "backing_store zl = file_at (pre @ cd_entry s2 @ post) (length pre)" "length (pre @ cd_entry s2 @ post) < 2 ^ 62"
    note load = load_entry_spec [OF ent this, of mktime now stack a]
    show "\<exists>zl' t. load_entry_from_CD mktime now stack a zl = Some (zl', Some t) \<and>
        (\<forall>zr :: 'z zip_file. \<forall>tail r2 n. disk (backing_store zr) = disk (backing_store zf') @ tail \<longrightarrow> length (disk (backing_store zr)) < 2 ^ 62 \<longrightarrow>
           resolver_live r2 \<longrightarrow> Resolver_own r2 (urn zl) (CHR ''r'') = Some (addr zr) \<longrightarrow> n < 2 ^ 31 \<longrightarrow>
           (\<exists>t' zr' r3. ZipSegment_read Z stack junk r2 zr t n = Some (t', zr', r3,
              if take (length ?name) (concat (map escaped ?name)) = ?name
              then (int (length (take n (concat xs))), take n (concat xs)) else (- 1, []))))"
      by (intro exI, rule conjI, rule load, intro allI impI, rule rd)
  qed
qed

theorem zip_segment_roundtrip_witness:
  "\<exists>r s1 s2 zf' r' r2 t. zip_writes demo_zlib (demo_segment\<lparr>buffer := Some (StringIO_constructor (\<lambda>_. NUL))\<rparr>) [''he'', ''llo''] = Some s1 \<and>
     ZipSegment_close demo_zlib (\<lambda>_. NUL) r (demo_zip (CHR ''w'') ''P'' []) s1 = Some (s2, zf', r', 1, None) \<and>
     (\<exists>zl'. load_entry_from_CD (\<lambda>_. 0) demo_now (\<lambda>_. NUL) 7 (demo_zip (CHR ''r'') (cd_entry s2) []) = Some (zl', Some t)) \<and>
     (\<exists>t' zr' r3. ZipSegment_read demo_zlib (\<lambda>_. NUL) (\<lambda>_. NUL) r2 (demo_zip (CHR ''r'') (disk (backing_store zf')) []) t 4 = Some (t', zr', r3, 4, ''hell''))"
proof -
  let ?s = "demo_segment\<lparr>buffer := Some (StringIO_constructor (\<lambda>_. NUL))\<rparr>" and ?z = "demo_zip (CHR ''w'') ''P'' []"
  have u: "urn (demo_zip m d ms) = demo_urn []" "mode (demo_zip m d ms) = m" "disk (backing_store (demo_zip m d ms)) = d"
      "backing_store (demo_zip m d ms) = file_at d 0" for m d ms
    by (simp_all add: demo_zip_def)
  have s: "mode ?s = CHR ''w''" "container ?s = Some (demo_urn [])" "urn ?s = demo_urn ''/a''" "cd ?s = demo_cd" "cd_magic (cd ?s) = 0x2014b50"
    by (simp_all add: demo_segment_def demo_cd_def)
  obtain r where r: "volume_owned r (demo_urn []) (addr ?z) 1" using demo_owned [of 1 ?z] by (auto simp: u)
  have Z: "\<forall>c d. crc32 demo_zlib c d < 2 ^ 32" by (simp add: demo_zlib_def)
  have cc: "concat [''he'', ''llo''] = ''hello''" "take (length ''/a'') (concat (map escaped ''/a'')) = ''/a''"
    using plain_self_escaped [OF demo_name] by (simp_all add: self_escaped_def)
  have f: "fits (cd_fields (cd ?s))" using demo_fits by (simp add: s(4))
  have n: "member_name (RDFURN_relative_name (urn ?s) (demo_urn []))" using demo_name unfolding s demo_relative by (simp add: plain_name_def)
  have l: "2 * length (concat [''he'', ''llo'']) < 268435456" "length (disk (backing_store ?z)) \<le> ZIP64_LIMIT"
    unfolding u by (simp_all add: ZIP64_LIMIT_def)
  obtain s1 s2 zf' r' where 1: "zip_writes demo_zlib ?s [''he'', ''llo''] = Some s1"
      "ZipSegment_close demo_zlib (\<lambda>_. NUL) r ?z s1 = Some (s2, zf', r', 1, None)"
      "closed_ok s2" "disk (backing_store zf') = disk (backing_store ?z) @ segment_record s2 ''hello''"
    and rd: "\<forall>zl :: unit zip_file. \<forall>pre post. backing_store zl = file_at (pre @ cd_entry s2 @ post) (length pre) \<longrightarrow> length (pre @ cd_entry s2 @ post) < 2 ^ 62 \<longrightarrow>
      (\<exists>zl' t. load_entry_from_CD (\<lambda>_. 0) demo_now (\<lambda>_. NUL) 7 zl = Some (zl', Some t) \<and>
        (\<forall>zr :: unit zip_file. \<forall>tail r2 n. disk (backing_store zr) = disk (backing_store zf') @ tail \<longrightarrow> length (disk (backing_store zr)) < 2 ^ 62 \<longrightarrow>
           resolver_live r2 \<longrightarrow> Resolver_own r2 (urn zl) (CHR ''r'') = Some (addr zr) \<longrightarrow> n < 2 ^ 31 \<longrightarrow>
           (\<exists>t' zr' r3. ZipSegment_read demo_zlib (\<lambda>_. NUL) (\<lambda>_. NUL) r2 zr t n = Some (t', zr', r3, int (length (take n ''hello'')), take n ''hello''))))"
    using zip_segment_roundtrip [OF demo_open s(1,2) f s(5) n l r Z, of "\<lambda>_. NUL" "\<lambda>_. 0" demo_now "\<lambda>_. NUL" 7 "\<lambda>_. NUL", unfolded s demo_relative cc if_P [OF refl]]
    by (elim exE conjE) (rule that)
  let ?r = "demo_zip (CHR ''r'') (disk (backing_store zf')) [] :: unit zip_file"
  obtain r2 where r2: "Resolver_own r2 (demo_urn []) (CHR ''r'') = Some (addr ?r)" "resolver_live r2"
    using demo_managed [of ?r] by (auto simp: u)
  have l2: "length (disk (backing_store zf')) < 2 ^ 62" "length ([] @ cd_entry s2 @ []) < 2 ^ 62"
    using 1(3,4) length_seg_name [of s2] by (auto simp: segment_record_def cd_entry_def closed_ok_def name_ok_def u)
  let ?l = "demo_zip (CHR ''r'') (cd_entry s2) [] :: unit zip_file"
  have "backing_store ?l = file_at ([] @ cd_entry s2 @ []) (length ([] :: buf))" by (simp add: u)
  from rd [rule_format, OF this l2(2)]
  obtain zl' t where t: "load_entry_from_CD (\<lambda>_. 0) demo_now (\<lambda>_. NUL) 7 ?l = Some (zl', Some t)"
    and rt: "\<forall>zr :: unit zip_file. \<forall>tail r2 n. disk (backing_store zr) = disk (backing_store zf') @ tail \<longrightarrow> length (disk (backing_store zr)) < 2 ^ 62 \<longrightarrow>
           resolver_live r2 \<longrightarrow> Resolver_own r2 (urn ?l) (CHR ''r'') = Some (addr zr) \<longrightarrow> n < 2 ^ 31 \<longrightarrow>
           (\<exists>t' zr' r3. ZipSegment_read demo_zlib (\<lambda>_. NUL) (\<lambda>_. NUL) r2 zr t n = Some (t', zr', r3, int (length (take n ''hello'')), take n ''hello''))"
    by (elim exE conjE) (rule that)
  have "\<exists>t' zr' r3. ZipSegment_read demo_zlib (\<lambda>_. NUL) (\<lambda>_. NUL) r2 ?r t 4 = Some (t', zr', r3, 4, ''hell'')"
    using rt [rule_format, of ?r "[]" r2 4] r2 l2(1) by (simp add: u)
  then show ?thesis using 1(1,2) t by blast
qed

text \<open>C35. Appending to an existing volume makes its old members unreadable for good. Take a volume of stored members with names that
  need no escaping, and close it; a fresh volume object loads it from the file and reads every member. Whatever is appended to the
  file and to the list of members of that object before it is closed again (provided the directory can be written without Zip64
  structures): closing succeeds, a fresh object loads the new directory, and every one of the old members is refused, for every
  reader and every length. Loading counts the name of a member without the terminator, closing writes that length to
  the directory, and the file header still counts the terminator.\<close>

theorem zip_append_breaks_members:
  fixes z :: "'z zip_file"
  assumes z: "archive_ready z ps" "aff4_urn z net" and stored: "all_stored (disk (backing_store z)) ps ds"
  shows "\<exists>z1 r1. ZipFile_close junk r z = Some (z1, r1, 1) \<and>
    (\<forall>za :: 'z zip_file. members za = [] \<and> disk (backing_store za) = disk (backing_store z1) \<longrightarrow>
      (\<exists>zl. ZipFile_load_from_backing_store mktime now stack a za = Some (zl, 1) \<and> members_read Z stack junk zl ds \<and>
        (\<forall>zb ms added pb net'. members zb = members zl @ ms \<and> disk (backing_store zb) = disk (backing_store z1) @ added \<and>
             archive_ready zb pb \<and> aff4_urn zb net' \<longrightarrow>
          (\<exists>z2 r2. ZipFile_close junk r zb = Some (z2, r2, 1) \<and>
            (\<forall>zr :: 'z zip_file. members zr = [] \<and> disk (backing_store zr) = disk (backing_store z2) \<longrightarrow>
              (\<exists>zf. ZipFile_load_from_backing_store mktime now stack a zr = Some (zf, 1) \<and> members_refused Z stack junk zf (length ds)))))))"
proof -
  obtain z1 r1 tail where z1: "ZipFile_close junk r z = Some (z1, r1, 1)" "disk (backing_store z1) = disk (backing_store z) @ tail"
      "length (disk (backing_store z1)) < 2 ^ 62"
    and reopen: "\<forall>zr :: 'z zip_file. members zr = [] \<and> disk (backing_store zr) = disk (backing_store z1) \<longrightarrow>
       (\<exists>zl. ZipFile_load_from_backing_store mktime now stack a zr = Some (zl, 1) \<and> disk (backing_store zl) = disk (backing_store z1) \<and>
          members zl = map (\<lambda>(i, p). loaded mktime now i (urn zl) p) (zip [a ..< a + length ps] ps))"
    using zip_close_reopen [OF z, of junk r mktime now stack a] by blast
  have st: "all_stored (disk (backing_store z1) @ added) ps ds" for added using all_stored_append [OF stored, of "tail @ added"] z1(2) by simp
  have l: "length ds = length ps" using stored by (simp add: all_stored_def)
  have key: "members_read Z stack junk zl ds \<and>
      (\<forall>zb ms added pb net'. members zb = members zl @ ms \<and> disk (backing_store zb) = disk (backing_store z1) @ added \<and>
           archive_ready zb pb \<and> aff4_urn zb net' \<longrightarrow>
        (\<exists>z2 r2. ZipFile_close junk r zb = Some (z2, r2, 1) \<and>
          (\<forall>zr :: 'z zip_file. members zr = [] \<and> disk (backing_store zr) = disk (backing_store z2) \<longrightarrow>
            (\<exists>zf. ZipFile_load_from_backing_store mktime now stack a zr = Some (zf, 1) \<and> members_refused Z stack junk zf (length ds)))))"
    if zl: "disk (backing_store zl) = disk (backing_store z1)" "members zl = map (\<lambda>(i, p). loaded mktime now i (urn zl) p) (zip [a ..< a + length ps] ps)"
    for zl :: "'z zip_file"
  proof (intro conjI allI impI)
    show "members_read Z stack junk zl ds" using loaded_members_read [OF _ _ zl(2)] st [of "[]"] zl(1) z1(3) by simp
    fix zb ms added pb net'
    assume zb: "members zb = members zl @ ms \<and> disk (backing_store zb) = disk (backing_store z1) @ added \<and> archive_ready zb pb \<and> aff4_urn zb net'"
    then show "\<exists>z2 r2. ZipFile_close junk r zb = Some (z2, r2, 1) \<and>
          (\<forall>zr :: 'z zip_file. members zr = [] \<and> disk (backing_store zr) = disk (backing_store z2) \<longrightarrow>
            (\<exists>zf. ZipFile_load_from_backing_store mktime now stack a zr = Some (zf, 1) \<and> members_refused Z stack junk zf (length ds)))"
      unfolding l using zl(2) st by (intro appended_members_refused) auto
  qed
  show ?thesis
  proof (rule exI [of _ z1], rule exI [of _ r1], intro conjI allI impI, rule z1(1))
    fix za :: "'z zip_file"
    assume "members za = [] \<and> disk (backing_store za) = disk (backing_store z1)"
    from reopen [rule_format, OF this] obtain zl where "ZipFile_load_from_backing_store mktime now stack a za = Some (zl, 1)"
        "disk (backing_store zl) = disk (backing_store z1)" "members zl = map (\<lambda>(i, p). loaded mktime now i (urn zl) p) (zip [a ..< a + length ps] ps)"
      by blast
    then show "\<exists>zl. ZipFile_load_from_backing_store mktime now stack a za = Some (zl, 1) \<and> members_read Z stack junk zl ds \<and>
        (\<forall>zb ms added pb net'. members zb = members zl @ ms \<and> disk (backing_store zb) = disk (backing_store z1) @ added \<and>
             archive_ready zb pb \<and> aff4_urn zb net' \<longrightarrow>
          (\<exists>z2 r2. ZipFile_close junk r zb = Some (z2, r2, 1) \<and>
            (\<forall>zr :: 'z zip_file. members zr = [] \<and> disk (backing_store zr) = disk (backing_store z2) \<longrightarrow>
              (\<exists>zf. ZipFile_load_from_backing_store mktime now stack a zr = Some (zf, 1) \<and> members_refused Z stack junk zf (length ds)))))"
      by (intro exI [of _ zl] conjI key) simp_all
  qed
qed

theorem zip_append_breaks_members_witness:
  "\<exists>z1 r1 zl z2 r2 zf.
     ZipFile_close (\<lambda>_. NUL) (Resolver_Con None) (demo_zip (CHR ''w'') (''P'' @ segment_record demo_segment []) [demo_segment]) = Some (z1, r1, 1) \<and>
     ZipFile_load_from_backing_store (\<lambda>_. 0) demo_now (\<lambda>_. NUL) 7 (demo_zip (CHR ''w'') (disk (backing_store z1)) []) = Some (zl, 1) \<and>
     members_read demo_zlib (\<lambda>_. NUL) (\<lambda>_. NUL) zl [[]] \<and>
     ZipFile_close (\<lambda>_. NUL) (Resolver_Con None) (demo_zip (CHR ''w'') (disk (backing_store z1)) (members zl)) = Some (z2, r2, 1) \<and>
     ZipFile_load_from_backing_store (\<lambda>_. 0) demo_now (\<lambda>_. NUL) 7 (demo_zip (CHR ''r'') (disk (backing_store z2)) []) = Some (zf, 1) \<and>
     members_refused demo_zlib (\<lambda>_. NUL) (\<lambda>_. NUL) zf 1"
proof -
  define d where "d = ''P'' @ segment_record demo_segment []"
  let ?z = "demo_zip (CHR ''w'') d [demo_segment]" and ?ps = "[(demo_segment, ''/a'')]"
  have m: "members (demo_zip c d ms) = ms" "disk (backing_store (demo_zip c d ms)) = d" "urn (demo_zip c d ms) = demo_urn []" for c d ms by (simp_all add: demo_zip_def)
  have ld: "length d = 50" "d \<noteq> []" by (simp_all add: d_def segment_record_def demo_closed)
  have rd: "archive_ready ?z ?ps" "aff4_urn ?z ''vol''"
    using demo_ready [of d] ld le_bytes_small [of 50 4] by (auto simp: ZIP64_LIMIT_def)
  have "cd_compression_method (cd demo_segment) = ZIP_STORED" "file_size (cd demo_segment) = length ([] :: buf)" "cd demo_segment = demo_cd"
      "offset_of_file_header demo_segment = length ''P''" "d = ''P'' @ segment_record demo_segment [] @ []"
    by (simp_all add: demo_segment_def demo_cd_def ZIP_STORED_def d_def)
  then have "stored_at d demo_segment ''/a'' []"
    unfolding stored_at_def using demo_closed demo_name demo_fits by (intro conjI exI [of _ "''P''"] exI [of _ "[]"]) auto
  then have st: "all_stored (disk (backing_store ?z)) ?ps [[]]" by (simp add: all_stored_def m)
  obtain z1 r1 where z1: "ZipFile_close (\<lambda>_. NUL) (Resolver_Con None) ?z = Some (z1, r1, 1)"
    and K: "\<forall>za :: unit zip_file. members za = [] \<and> disk (backing_store za) = disk (backing_store z1) \<longrightarrow>
      (\<exists>zl. ZipFile_load_from_backing_store (\<lambda>_. 0) demo_now (\<lambda>_. NUL) 7 za = Some (zl, 1) \<and> members_read demo_zlib (\<lambda>_. NUL) (\<lambda>_. NUL) zl [[]] \<and>
        (\<forall>zb ms added pb net'. members zb = members zl @ ms \<and> disk (backing_store zb) = disk (backing_store z1) @ added \<and>
             archive_ready zb pb \<and> aff4_urn zb net' \<longrightarrow>
          (\<exists>z2 r2. ZipFile_close (\<lambda>_. NUL) (Resolver_Con None) zb = Some (z2, r2, 1) \<and>
            (\<forall>zr :: unit zip_file. members zr = [] \<and> disk (backing_store zr) = disk (backing_store z2) \<longrightarrow>
              (\<exists>zf. ZipFile_load_from_backing_store (\<lambda>_. 0) demo_now (\<lambda>_. NUL) 7 zr = Some (zf, 1) \<and>
                 members_refused demo_zlib (\<lambda>_. NUL) (\<lambda>_. NUL) zf (length ([[]] :: buf list)))))))"
    using zip_append_breaks_members [OF rd st, of "\<lambda>_. NUL" "Resolver_Con None" "\<lambda>_. 0" demo_now "\<lambda>_. NUL" 7 demo_zlib]
    by (elim exE conjE) (rule that)
  let ?a = "demo_zip (CHR ''w'') (disk (backing_store z1)) []"
  have "members ?a = [] \<and> disk (backing_store ?a) = disk (backing_store z1)" by (simp add: m)
  from K [rule_format, OF this] obtain zl where zl: "ZipFile_load_from_backing_store (\<lambda>_. 0) demo_now (\<lambda>_. NUL) 7 ?a = Some (zl, 1)"
      "members_read demo_zlib (\<lambda>_. NUL) (\<lambda>_. NUL) zl [[]]"
    and N: "\<forall>zb ms added pb net'. members zb = members zl @ ms \<and> disk (backing_store zb) = disk (backing_store z1) @ added \<and>
             archive_ready zb pb \<and> aff4_urn zb net' \<longrightarrow>
          (\<exists>z2 r2. ZipFile_close (\<lambda>_. NUL) (Resolver_Con None) zb = Some (z2, r2, 1) \<and>
            (\<forall>zr :: unit zip_file. members zr = [] \<and> disk (backing_store zr) = disk (backing_store z2) \<longrightarrow>
              (\<exists>zf. ZipFile_load_from_backing_store (\<lambda>_. 0) demo_now (\<lambda>_. NUL) 7 zr = Some (zf, 1) \<and>
                 members_refused demo_zlib (\<lambda>_. NUL) (\<lambda>_. NUL) zf (length ([[]] :: buf list)))))"
    by (elim exE conjE) (rule that)
  have L: "members zl = [loaded (\<lambda>_. 0) demo_now 7 (urn zl) (demo_segment, ''/a'')]" "length (disk (backing_store z1)) = 132"
    using zip_close_load [OF rd m(1) [of "CHR ''w''" "disk (backing_store z1)" "[]"], of "\<lambda>_. NUL" "Resolver_Con None" "\<lambda>_. 0" demo_now "\<lambda>_. NUL" 7, unfolded m]
      z1 zl(1) ld demo_cd_bytes by (auto simp: end_bytes_def demo_urn_def upt_rec)
  let ?b = "demo_zip (CHR ''w'') (disk (backing_store z1)) (members zl)"
  have "disk (backing_store z1) \<noteq> []" using L(2) by auto
  then have rb: "archive_ready ?b [(hd (members zl), ''/a'')]" "aff4_urn ?b ''vol''"
    using demo_ready_member [OF _ _ _ demo_loaded, of "disk (backing_store z1)"] L le_bytes_small [of 132 4] by (auto simp: ZIP64_LIMIT_def)
  then have "members ?b = members zl @ [] \<and> disk (backing_store ?b) = disk (backing_store z1) @ [] \<and>
      archive_ready ?b [(hd (members zl), ''/a'')] \<and> aff4_urn ?b ''vol''" by (simp add: m)
  from N [rule_format, OF this] obtain z2 r2 where z2: "ZipFile_close (\<lambda>_. NUL) (Resolver_Con None) ?b = Some (z2, r2, 1)"
    and R: "\<forall>zr :: unit zip_file. members zr = [] \<and> disk (backing_store zr) = disk (backing_store z2) \<longrightarrow>
       (\<exists>zf. ZipFile_load_from_backing_store (\<lambda>_. 0) demo_now (\<lambda>_. NUL) 7 zr = Some (zf, 1) \<and>
          members_refused demo_zlib (\<lambda>_. NUL) (\<lambda>_. NUL) zf (length ([[]] :: buf list)))"
    by (elim exE conjE) (rule that)
  have "\<exists>zf. ZipFile_load_from_backing_store (\<lambda>_. 0) demo_now (\<lambda>_. NUL) 7 (demo_zip (CHR ''r'') (disk (backing_store z2)) []) = Some (zf, 1) \<and>
      members_refused demo_zlib (\<lambda>_. NUL) (\<lambda>_. NUL) zf 1"
    using R [rule_format, of "demo_zip (CHR ''r'') (disk (backing_store z2)) []"] by (simp add: m)
  then show ?thesis using z1 zl z2 unfolding d_def by blast
qed

end
