(* ===== verification/Sync.thy ===== *)
theory Sync
  imports Aff4_Prelude "HOL-Library.Multiset"
begin

text \<open>
  The concurrency layer: the bounded job queue of \<^verbatim>\<open>lib/queue.c\<close>, the global lock and the thread pool of
  \<^verbatim>\<open>lib/aff4_utils.c\<close>. Every routine runs under the global lock and gives it up only where it waits on a
  condition, so the interleavings of a pool with its workers and clients are sequences of atomic
  steps, one for each stretch of code between two waits. The step relation \<open>pool_step\<close> has one rule for each
  such stretch; waits may end by a signal, by a spurious wake-up or by a timeout.
\<close>

section \<open>Contract of a queue\<close>

locale fifo =
  fixes contents :: "'q \<Rightarrow> 'j list"
    and ok :: "'q \<Rightarrow> bool"
    and enq :: "'q \<Rightarrow> 'j \<Rightarrow> 'q"
    and some :: "'q \<Rightarrow> bool"
    and deq :: "'q \<Rightarrow> ('q \<times> 'j) option"
  assumes enq_spec: "ok q \<Longrightarrow> ok (enq q j) \<and> contents (enq q j) = contents q @ [j]"
    and some_spec: "ok q \<Longrightarrow> some q \<longleftrightarrow> contents q \<noteq> []"
    and deq_spec: "ok q \<Longrightarrow> some q \<Longrightarrow> \<exists>q' j. deq q = Some (q', j) \<and> ok q' \<and> contents q = j # contents q'"
begin

text \<open>Jobs leave in the order in which they came, whatever the interleaving of the two ends.\<close>

lemma deq_history:
  assumes "ok q" "accepted = taken @ contents q" "deq q = Some (q', j)" "some q"
  shows "ok q' \<and> accepted = (taken @ [j]) @ contents q'"
  using deq_spec [OF assms(1,4)] assms(2,3) by auto

lemma enq_history:
  assumes "ok q" "accepted = taken @ contents q"
  shows "ok (enq q j) \<and> accepted @ [j] = taken @ contents (enq q j)"
  using enq_spec [OF assms(1)] assms(2) by simp

end

section \<open>The job queue\<close>

record 'j queue =
  items :: "'j list"
  maxsize :: int
  queue_size :: int

definition Queue_Con :: "int \<Rightarrow> 'j queue" where
  "Queue_Con maxs = \<lparr>items = [], maxsize = maxs, queue_size = 0\<rparr>"

text \<open>Unlinking the first item. On an empty list \<^verbatim>\<open>list_next\<close> would yield the list head itself (\<open>None\<close>).\<close>

definition Queue_take :: "'j queue \<Rightarrow> ('j queue \<times> 'j) option" where
  "Queue_take q =
     (case items q of
        [] \<Rightarrow> None
      | j # js \<Rightarrow> Some (q\<lparr>items := js, queue_size := queue_size q - 1\<rparr>, j))"

text \<open>
  \<^verbatim>\<open>Queue_get\<close> either waits, or returns a job, or returns NULL. \<open>Queue_get_enter\<close> is one pass through its loop condition and
  the code after the loop; \<open>Queue_get_resume\<close> continues after a wait that returned \<open>res\<close>.
\<close>

datatype 'j get_result = GetWaits | GetNull | Got "'j queue" 'j | GetUndefined

definition Queue_get_enter :: "'j queue \<Rightarrow> 'j get_result" where
  "Queue_get_enter q =
     (if queue_size q = 0 then GetWaits
      else case Queue_take q of None \<Rightarrow> GetUndefined | Some (q', j) \<Rightarrow> Got q' j)"

definition Queue_get_resume :: "'j queue \<Rightarrow> int \<Rightarrow> 'j get_result" where
  "Queue_get_resume q res = (if res \<noteq> 0 then GetNull else Queue_get_enter q)"

definition Queue_append :: "'j queue \<Rightarrow> 'j \<Rightarrow> 'j queue" where
  "Queue_append q data = q\<lparr>items := items q @ [data], queue_size := queue_size q + 1\<rparr>"

text \<open>\<^verbatim>\<open>Queue_put\<close>: the test before the wait, and the code after a wait that returned \<open>res\<close>.\<close>

datatype 'j put_result = PutWaits | PutDone "'j queue" int

definition Queue_put_enter :: "'j queue \<Rightarrow> 'j \<Rightarrow> 'j put_result" where
  "Queue_put_enter q data =
     (if maxsize q \<le> queue_size q then PutWaits else PutDone (Queue_append q data) 1)"

definition Queue_put_resume :: "'j queue \<Rightarrow> 'j \<Rightarrow> int \<Rightarrow> 'j put_result" where
  "Queue_put_resume q data res = (if res \<noteq> 0 then PutDone q 0 else PutDone (Queue_append q data) 1)"

definition Queue_remove :: "'j queue \<Rightarrow> 'j \<Rightarrow> 'j queue \<times> 'j option" where
  "Queue_remove q data =
     (if data \<in> set (items q) then (q\<lparr>items := remove1 data (items q)\<rparr>, Some data) else (q, None))"

definition queue_ok :: "'j queue \<Rightarrow> bool" where
  "queue_ok q \<longleftrightarrow> queue_size q = int (length (items q))"

interpretation jobq: fifo items queue_ok Queue_append "\<lambda>q. queue_size q \<noteq> 0" Queue_take
  by unfold_locales (auto simp: queue_ok_def Queue_append_def Queue_take_def split: list.splits)

section \<open>The global lock\<close>

text \<open>
  The recursive mutex with its owner and count, and the depth that the lock object keeps beside it. An
  operation that would block on a mutex of another thread returns \<open>None\<close>.
\<close>

record gl_lock =
  mutex :: "(nat \<times> nat) option"
  depth :: int

definition AFF4GlobalLock_Con :: gl_lock where
  "AFF4GlobalLock_Con = \<lparr>mutex = None, depth = 0\<rparr>"

definition pthread_mutex_lock :: "nat \<Rightarrow> (nat \<times> nat) option \<Rightarrow> (nat \<times> nat) option option" where
  "pthread_mutex_lock t m =
     (case m of
        None \<Rightarrow> Some (Some (t, 1))
      | Some (t', n) \<Rightarrow> if t' = t then Some (Some (t, Suc n)) else None)"

definition pthread_mutex_unlock :: "nat \<Rightarrow> (nat \<times> nat) option \<Rightarrow> (nat \<times> nat) option" where
  "pthread_mutex_unlock t m =
     (case m of
        None \<Rightarrow> None
      | Some (t', n) \<Rightarrow> if t' = t then (if n \<le> 1 then None else Some (t, n - 1)) else m)"

fun lock_loop :: "nat \<Rightarrow> nat \<Rightarrow> gl_lock \<Rightarrow> gl_lock option" where
  "lock_loop t 0 l = Some l"
| "lock_loop t (Suc n) l =
     (case pthread_mutex_lock t (mutex l) of
        None \<Rightarrow> None
      | Some m \<Rightarrow> lock_loop t n (l\<lparr>mutex := m, depth := depth l + 1\<rparr>))"

definition AFF4GlobalLock_lock :: "nat \<Rightarrow> int \<Rightarrow> gl_lock \<Rightarrow> gl_lock option" where
  "AFF4GlobalLock_lock t number l = lock_loop t (nat number) l"

fun unlock_loop :: "nat \<Rightarrow> nat \<Rightarrow> gl_lock \<Rightarrow> gl_lock" where
  "unlock_loop t 0 l = l"
| "unlock_loop t (Suc n) l =
     unlock_loop t n (l\<lparr>depth := depth l - 1, mutex := pthread_mutex_unlock t (mutex l)\<rparr>)"

definition AFF4GlobalLock_unlock :: "nat \<Rightarrow> int \<Rightarrow> gl_lock \<Rightarrow> gl_lock" where
  "AFF4GlobalLock_unlock t number l = unlock_loop t (nat (min number (depth l))) l"

text \<open>
  The deadline of a wait, from the time of day (seconds and microseconds) and the timeout in
  microseconds; C division and remainder truncate, and the timeout is not negative here.
\<close>

definition wait_deadline :: "int \<times> int \<Rightarrow> int \<Rightarrow> int \<times> int" where
  "wait_deadline now timeout =
     (case now of (sec, usec) \<Rightarrow> (sec + timeout div 1000000, (usec + timeout mod 1000000) * 1000))"

text \<open>
  \<^verbatim>\<open>timedwait\<close> in two parts, since other threads run while it waits: up to the point where the condition wait has
  released the mutex, and from the point where it holds it again.
\<close>

definition AFF4GlobalLock_timedwait_release :: "nat \<Rightarrow> gl_lock \<Rightarrow> int \<times> gl_lock" where
  "AFF4GlobalLock_timedwait_release t l =
     (let saved = depth l;
          l1 = AFF4GlobalLock_unlock t (saved - 1) l
      in (saved, l1\<lparr>depth := depth l1 - 1, mutex := pthread_mutex_unlock t (mutex l1)\<rparr>))"

definition AFF4GlobalLock_timedwait_return :: "nat \<Rightarrow> int \<Rightarrow> gl_lock \<Rightarrow> gl_lock option" where
  "AFF4GlobalLock_timedwait_return t saved l =
     (case pthread_mutex_lock t (mutex l) of
        None \<Rightarrow> None
      | Some m \<Rightarrow> AFF4GlobalLock_lock t (saved - 1) (l\<lparr>mutex := m, depth := depth l + 1\<rparr>))"

definition AFF4GlobalLock_allow_threads :: "nat \<Rightarrow> gl_lock \<Rightarrow> int \<times> gl_lock" where
  "AFF4GlobalLock_allow_threads t l = (depth l, AFF4GlobalLock_unlock t (depth l) l)"

section \<open>The thread pool\<close>

text \<open>
  What a worker thread does: it is about to call \<^verbatim>\<open>get\<close>, it waits inside \<^verbatim>\<open>get\<close>, it runs a job, or it has left its loop.
\<close>

datatype 'j worker = WLoop | WWait | WRun 'j | WExit

text \<open>
  The pool with its threads and the clients blocked inside \<^verbatim>\<open>schedule\<close>. \<open>accepted\<close>, \<open>started\<close> and \<open>completed\<close> record the jobs that
  the queue took, that a worker took from it and that ended, in order.
\<close>

record 'j pool =
  jobs :: "'j queue"
  active :: bool
  threads :: "'j worker list"
  blocked :: "'j list"
  accepted :: "'j list"
  started :: "'j list"
  completed :: "'j list"

definition ThreadPool_Con :: "nat \<Rightarrow> 'j pool" where
  "ThreadPool_Con number =
     \<lparr>jobs = Queue_Con (int number), active = True, threads = replicate number WLoop, blocked = [],
      accepted = [], started = [], completed = []\<rparr>"

text \<open>The rest of a worker's turn once \<^verbatim>\<open>get\<close> has an outcome.\<close>

definition ThreadPool_worker :: "nat \<Rightarrow> 'j get_result \<Rightarrow> 'j pool \<Rightarrow> 'j pool option" where
  "ThreadPool_worker i g p =
     (case g of
        GetWaits \<Rightarrow> Some (p\<lparr>threads := (threads p)[i := WWait]\<rparr>)
      | GetNull \<Rightarrow> Some (p\<lparr>threads := (threads p)[i := (if active p then WLoop else WExit)]\<rparr>)
      | Got q j \<Rightarrow> Some (p\<lparr>jobs := q, threads := (threads p)[i := WRun j], started := started p @ [j]\<rparr>)
      | GetUndefined \<Rightarrow> None)"

definition ThreadPool_schedule :: "'j \<Rightarrow> 'j put_result \<Rightarrow> 'j pool \<Rightarrow> 'j pool" where
  "ThreadPool_schedule j r p =
     (case r of
        PutWaits \<Rightarrow> p\<lparr>blocked := blocked p @ [j]\<rparr>
      | PutDone q n \<Rightarrow> p\<lparr>jobs := q, accepted := (if n = 1 then accepted p @ [j] else accepted p)\<rparr>)"

definition ThreadPool_join_begin :: "'j pool \<Rightarrow> 'j pool" where
  "ThreadPool_join_begin p = p\<lparr>active := False\<rparr>"

definition ThreadPool_join_done :: "'j pool \<Rightarrow> bool" where
  "ThreadPool_join_done p \<longleftrightarrow> \<not> active p \<and> (\<forall>w \<in> set (threads p). w = WExit)"

inductive pool_step :: "'j pool \<Rightarrow> 'j pool \<Rightarrow> bool" where
  worker_get: "i < length (threads p) \<Longrightarrow> threads p ! i = WLoop \<Longrightarrow>
     ThreadPool_worker i (Queue_get_enter (jobs p)) p = Some p' \<Longrightarrow> pool_step p p'"
| worker_wake: "i < length (threads p) \<Longrightarrow> threads p ! i = WWait \<Longrightarrow>
     ThreadPool_worker i (Queue_get_resume (jobs p) res) p = Some p' \<Longrightarrow> pool_step p p'"
| worker_done: "i < length (threads p) \<Longrightarrow> threads p ! i = WRun j \<Longrightarrow>
     pool_step p (p\<lparr>threads := (threads p)[i := WLoop], completed := completed p @ [j]\<rparr>)"
| schedule: "pool_step p (ThreadPool_schedule j (Queue_put_enter (jobs p) j) p)"
| schedule_resume: "j \<in> set (blocked p) \<Longrightarrow>
     pool_step p (ThreadPool_schedule j (Queue_put_resume (jobs p) j res) (p\<lparr>blocked := remove1 j (blocked p)\<rparr>))"
| join: "pool_step p (ThreadPool_join_begin p)"

inductive pool_reach :: "nat \<Rightarrow> 'j pool \<Rightarrow> bool" for n where
  pool_init: "pool_reach n (ThreadPool_Con n)"
| pool_more: "pool_reach n p \<Longrightarrow> pool_step p p' \<Longrightarrow> pool_reach n p'"

inductive_cases pool_stepE: "pool_step p p'"

section \<open>Invariant of the pool\<close>

fun running :: "'j worker \<Rightarrow> 'j multiset" where
  "running (WRun j) = {#j#}"
| "running _ = {#}"

definition pool_inv :: "nat \<Rightarrow> 'j pool \<Rightarrow> bool" where
  "pool_inv n p \<longleftrightarrow> queue_ok (jobs p) \<and> maxsize (jobs p) = int n \<and> length (threads p) = n \<and>
     accepted p = started p @ items (jobs p) \<and>
     mset (started p) = mset (completed p) + (\<Sum>w \<in># mset (threads p). running w) \<and>
     (active p \<longrightarrow> WExit \<notin> set (threads p))"

lemma sum_running_update:
  assumes "i < length ws" "running (ws ! i) = {#}"
  shows "(\<Sum>w \<in># mset (ws[i := w']). running w) = (\<Sum>w \<in># mset ws. running w) + running w'"
  using assms
proof -
  have "mset ws = add_mset (ws ! i) (mset ws - {# ws ! i #})" using assms(1) by simp
  then have "(\<Sum>w \<in># mset ws. running w) = running (ws ! i) + (\<Sum>w \<in># mset ws - {# ws ! i #}. running w)"
    by (metis image_mset_add_mset sum_mset.add_mset)
  with assms show ?thesis by (simp add: mset_update)
qed

lemma sum_running_done:
  assumes "i < length ws" "ws ! i = WRun j"
  shows "(\<Sum>w \<in># mset ws. running w) = (\<Sum>w \<in># mset (ws[i := WLoop]). running w) + {#j#}"
proof -
  have "mset ws = add_mset (ws ! i) (mset ws - {# ws ! i #})" using assms(1) by simp
  then have "(\<Sum>w \<in># mset ws. running w) = running (ws ! i) + (\<Sum>w \<in># mset ws - {# ws ! i #}. running w)"
    by (metis image_mset_add_mset sum_mset.add_mset)
  with assms show ?thesis by (simp add: mset_update)
qed

text \<open>Under the invariant a get never runs into the empty list.\<close>

lemma get_enter_cases:
  assumes "queue_ok q"
  shows "(Queue_get_enter q = GetWaits \<and> items q = []) \<or>
    (\<exists>q' j. Queue_get_enter q = Got q' j \<and> queue_ok q' \<and> items q = j # items q' \<and> maxsize q' = maxsize q)"
proof (cases "queue_size q = 0")
  case True
  then show ?thesis using assms by (simp add: Queue_get_enter_def queue_ok_def)
next
  case False
  obtain q' j where "Queue_take q = Some (q', j)" "queue_ok q'" "items q = j # items q'"
    using jobq.deq_spec [OF assms False] by blast
  moreover from this(1) have "maxsize q' = maxsize q" by (auto simp: Queue_take_def split: list.splits)
  ultimately show ?thesis using False by (auto simp: Queue_get_enter_def)
qed

lemma worker_step_inv:
  assumes inv: "pool_inv n p" and i: "i < length (threads p)" "running (threads p ! i) = {#}"
    and g: "g = GetNull \<or> g = Queue_get_enter (jobs p)"
    and step: "ThreadPool_worker i g p = Some p'" and live: "threads p ! i \<noteq> WExit"
  shows "pool_inv n p'"
proof -
  have q: "queue_ok (jobs p)" using inv by (simp add: pool_inv_def)
  have ex: "active p \<Longrightarrow> WExit \<notin> set ((threads p)[i := w])" if "w \<noteq> WExit" for w
    using inv that set_update_subset_insert [of "threads p" i w] by (auto simp: pool_inv_def)
  consider "g = GetNull" | "g = GetWaits" | q' j where "g = Got q' j" "queue_ok q'" "items (jobs p) = j # items q'"
      "maxsize q' = maxsize (jobs p)"
    using g get_enter_cases [OF q] by auto
  then show ?thesis
    using step inv sum_running_update [OF i] ex
    by cases (auto simp: ThreadPool_worker_def pool_inv_def)
qed

lemma schedule_step_inv:
  assumes "pool_inv n p" "r = PutWaits \<or> r = PutDone (jobs p) 0 \<or> r = PutDone (Queue_append (jobs p) j) 1"
  shows "pool_inv n (ThreadPool_schedule j r p)"
  using assms jobq.enq_spec [of "jobs p" j]
  by (auto simp: ThreadPool_schedule_def pool_inv_def Queue_append_def)

lemma pool_step_inv: "pool_step p p' \<Longrightarrow> pool_inv n p \<Longrightarrow> pool_inv n p'"
proof (induction rule: pool_step.induct)
  case (worker_get i p p')
  then show ?case using worker_step_inv [of n p i "Queue_get_enter (jobs p)"] by simp
next
  case (worker_wake i p res p')
  then show ?case using worker_step_inv [of n p i "Queue_get_resume (jobs p) res"] by (auto simp: Queue_get_resume_def)
next
  case (worker_done i p j)
  then have "active p \<Longrightarrow> WExit \<notin> set ((threads p)[i := WLoop])"
    using set_update_subset_insert [of "threads p" i WLoop] by (auto simp: pool_inv_def)
  then show ?case using worker_done sum_running_done [of i "threads p" j] by (auto simp: pool_inv_def)
next
  case (schedule p j)
  then show ?case using schedule_step_inv [of n p] by (auto simp: Queue_put_enter_def)
next
  case (schedule_resume j p res)
  then have "pool_inv n (p\<lparr>blocked := remove1 j (blocked p)\<rparr>)" by (simp add: pool_inv_def)
  then show ?case using schedule_step_inv [of n "p\<lparr>blocked := remove1 j (blocked p)\<rparr>"]
    by (auto simp: Queue_put_resume_def)
next
  case (join p)
  then show ?case by (simp add: ThreadPool_join_begin_def pool_inv_def)
qed

lemma pool_reach_inv: "pool_reach n p \<Longrightarrow> pool_inv n p"
proof (induction rule: pool_reach.induct)
  case pool_init
  have "(\<Sum>w \<in># mset (replicate n WLoop). running w) = ({#} :: 'a multiset)" by (induction n) auto
  then show ?case by (auto simp: pool_inv_def ThreadPool_Con_def Queue_Con_def queue_ok_def)
qed (rule pool_step_inv)

section \<open>Balance of the lock\<close>

definition holds :: "nat \<Rightarrow> nat \<Rightarrow> gl_lock \<Rightarrow> bool" where
  "holds t k l \<longleftrightarrow> depth l = int k \<and> mutex l = (if k = 0 then None else Some (t, k))"

lemma lock_loop_holds: "holds t k l \<Longrightarrow> \<exists>l'. lock_loop t m l = Some l' \<and> holds t (k + m) l'"
proof (induction m arbitrary: k l)
  case (Suc m)
  have "pthread_mutex_lock t (mutex l) = Some (Some (t, Suc k))"
    using Suc.prems by (auto simp: holds_def pthread_mutex_lock_def)
  moreover have "holds t (Suc k) (l\<lparr>mutex := Some (t, Suc k), depth := depth l + 1\<rparr>)"
    using Suc.prems by (simp add: holds_def)
  ultimately show ?case using Suc.IH [of "Suc k"] by auto
qed simp

lemma unlock_loop_holds: "holds t (k + m) l \<Longrightarrow> holds t k (unlock_loop t m l)"
proof (induction m arbitrary: l)
  case (Suc m)
  have "holds t (k + m) (l\<lparr>depth := depth l - 1, mutex := pthread_mutex_unlock t (mutex l)\<rparr>)"
    using Suc.prems by (auto simp: holds_def pthread_mutex_unlock_def)
  then show ?case using Suc.IH by simp
qed simp

section \<open>Properties\<close>

text \<open>C8. Safety of the thread pool over every interleaving of workers, clients, timeouts and spurious wake-ups: the
  queue's tally counts its items, jobs are started in the order in which they were accepted, every
  started job has completed or is being run by exactly one worker, none is run twice, and no worker
  leaves its loop while the pool is active.\<close>

theorem pool_runs_jobs_once_in_order:
  assumes "pool_reach n p"
  shows "queue_size (jobs p) = int (length (items (jobs p))) \<and> accepted p = started p @ items (jobs p) \<and>
     mset (started p) = mset (completed p) + (\<Sum>w \<in># mset (threads p). running w) \<and>
     (active p \<longrightarrow> WExit \<notin> set (threads p))"
  using pool_reach_inv [OF assms] by (simp add: pool_inv_def queue_ok_def)

theorem pool_runs_jobs_once_in_order_witness:
  "\<exists>p :: nat pool. pool_reach 2 p \<and> accepted p = [5, 6] \<and> started p = [5] \<and> threads p = [WRun 5, WLoop] \<and>
     queue_size (jobs p) = int (length (items (jobs p))) \<and> accepted p = started p @ items (jobs p)"
proof -
  let ?p0 = "ThreadPool_Con 2 :: nat pool"
  let ?p1 = "ThreadPool_schedule 5 (Queue_put_enter (jobs ?p0) 5) ?p0"
  let ?p2 = "ThreadPool_schedule 6 (Queue_put_enter (jobs ?p1) 6) ?p1"
  let ?p3 = "the (ThreadPool_worker 0 (Queue_get_enter (jobs ?p2)) ?p2)"
  note defs = ThreadPool_Con_def Queue_Con_def ThreadPool_schedule_def Queue_put_enter_def Queue_append_def
    ThreadPool_worker_def Queue_get_enter_def Queue_take_def
  have "pool_reach 2 ?p2" by (intro pool_more [OF pool_more [OF pool_init schedule] schedule])
  moreover have "pool_step ?p2 ?p3" by (rule worker_get [of 0]) (simp_all add: defs numeral_2_eq_2)
  ultimately have r: "pool_reach 2 ?p3" by (rule pool_more)
  moreover have "accepted ?p3 = [5, 6] \<and> started ?p3 = [5] \<and> threads ?p3 = [WRun 5, WLoop]" by (simp add: defs numeral_2_eq_2)
  ultimately show ?thesis using pool_runs_jobs_once_in_order [OF r] by blast
qed

text \<open>The queue's bound is not kept: \<^verbatim>\<open>put\<close> tests for room once before it waits and not again after it wakes, so with a
  pool of one worker (maximum one) there is an interleaving that leaves two jobs in the queue.\<close>

lemma queue_bound_exceeded:
  "\<exists>p :: nat pool. pool_reach 1 p \<and> maxsize (jobs p) = 1 \<and> queue_size (jobs p) = 2"
proof -
  let ?p0 = "ThreadPool_Con 1 :: nat pool"
  let ?p1 = "ThreadPool_schedule 1 (Queue_put_enter (jobs ?p0) 1) ?p0"
  let ?p2 = "ThreadPool_schedule 2 (Queue_put_enter (jobs ?p1) 2) ?p1"
  let ?p3 = "the (ThreadPool_worker 0 (Queue_get_enter (jobs ?p2)) ?p2)"
  let ?p4 = "ThreadPool_schedule 3 (Queue_put_enter (jobs ?p3) 3) ?p3"
  let ?p5 = "ThreadPool_schedule 2 (Queue_put_resume (jobs ?p4) 2 0) (?p4\<lparr>blocked := remove1 2 (blocked ?p4)\<rparr>)"
  note defs = ThreadPool_Con_def Queue_Con_def ThreadPool_schedule_def Queue_put_enter_def Queue_append_def
    ThreadPool_worker_def Queue_get_enter_def Queue_take_def Queue_put_resume_def
  have "pool_reach 1 ?p2" by (intro pool_more [OF pool_more [OF pool_init schedule] schedule])
  moreover have "pool_step ?p2 ?p3" by (rule worker_get [of 0]) (simp_all add: defs)
  moreover have "pool_step ?p3 ?p4" by (rule schedule)
  moreover have "pool_step ?p4 ?p5" by (rule schedule_resume) (simp add: defs)
  ultimately have "pool_reach 1 ?p5" by (meson pool_more)
  moreover have "maxsize (jobs ?p5) = 1 \<and> queue_size (jobs ?p5) = 2" by (simp add: defs)
  ultimately show ?thesis by blast
qed

text \<open>C40. \<^verbatim>\<open>join\<close> can return with an accepted job that is never run: a worker whose wait times out does not look at the
  queue again, so if a job is scheduled and the pool is closed before the worker regains the lock,
  the worker leaves and the job stays in the queue.\<close>

theorem join_may_lose_job:
  "\<exists>p :: nat pool. pool_reach 1 p \<and> ThreadPool_join_done p \<and> accepted p = [1] \<and> started p = []"
proof -
  let ?p0 = "ThreadPool_Con 1 :: nat pool"
  let ?p1 = "the (ThreadPool_worker 0 (Queue_get_enter (jobs ?p0)) ?p0)"
  let ?p2 = "ThreadPool_schedule 1 (Queue_put_enter (jobs ?p1) 1) ?p1"
  let ?p3 = "ThreadPool_join_begin ?p2"
  let ?p4 = "the (ThreadPool_worker 0 (Queue_get_resume (jobs ?p3) 1) ?p3)"
  note defs = ThreadPool_Con_def Queue_Con_def ThreadPool_schedule_def Queue_put_enter_def Queue_append_def
    ThreadPool_worker_def Queue_get_enter_def Queue_get_resume_def ThreadPool_join_begin_def ThreadPool_join_done_def
  have "pool_step ?p0 ?p1" by (rule worker_get [of 0]) (simp_all add: defs)
  moreover have "pool_step ?p1 ?p2" by (rule schedule)
  moreover have "pool_step ?p2 ?p3" by (rule join)
  moreover have "pool_step ?p3 ?p4" by (rule worker_wake [of 0 _ 1]) (simp_all add: defs)
  ultimately have "pool_reach 1 ?p4" using pool_init by (meson pool_more)
  moreover have "ThreadPool_join_done ?p4 \<and> accepted ?p4 = [1] \<and> started ?p4 = []" by (simp add: defs)
  ultimately show ?thesis by blast
qed

text \<open>\<^verbatim>\<open>Queue_remove\<close> unlinks an item but leaves the tally, so a later \<^verbatim>\<open>get\<close> takes the list head of an empty list for an
  item: removing the only item of a well-formed queue makes the next get undefined.\<close>

lemma queue_remove_breaks_get:
  assumes "items q = [j]" "queue_size q = 1"
  shows "Queue_get_enter (fst (Queue_remove q j)) = GetUndefined"
  using assms by (simp add: Queue_remove_def Queue_get_enter_def Queue_take_def)

text \<open>A wait on a condition gives up the global lock completely and restores it: for a thread that holds it to depth
  \<open>k\<close>, the depth is zero and the mutex free while it waits, and after the wait it holds the lock to depth
  \<open>k\<close> again; the same holds of a section between \<^verbatim>\<open>AFF4_BEGIN_ALLOW_THREADS\<close> and \<^verbatim>\<open>AFF4_END_ALLOW_THREADS\<close>.\<close>

lemma timedwait_releases_and_restores:
  assumes "holds t k l" "0 < k"
  shows "\<exists>l1 l2. AFF4GlobalLock_timedwait_release t l = (int k, l1) \<and> holds t 0 l1 \<and>
     AFF4GlobalLock_timedwait_return t (int k) l1 = Some l2 \<and> holds t k l2 \<and>
     (\<exists>l3 l4. AFF4GlobalLock_allow_threads t l = (int k, l3) \<and> holds t 0 l3 \<and>
        AFF4GlobalLock_lock t (int k) l3 = Some l4 \<and> holds t k l4)"
proof -
  obtain j where k: "k = Suc j" using assms(2) by (cases k) auto
  define u where "u = unlock_loop t j l"
  have u: "holds t 1 u" using unlock_loop_holds [of t 1 j l] assms(1) k by (simp add: u_def)
  have d: "depth l = int k" using assms(1) by (simp add: holds_def)
  define l1 where "l1 = u\<lparr>depth := depth u - 1, mutex := pthread_mutex_unlock t (mutex u)\<rparr>"
  have "AFF4GlobalLock_timedwait_release t l = (int k, l1)"
    by (simp add: AFF4GlobalLock_timedwait_release_def AFF4GlobalLock_unlock_def d k u_def l1_def Let_def)
  moreover have h1: "holds t 0 l1" using u by (simp add: holds_def l1_def pthread_mutex_unlock_def)
  moreover have "\<exists>l2. AFF4GlobalLock_timedwait_return t (int k) l1 = Some l2 \<and> holds t k l2"
  proof -
    have "holds t 1 (l1\<lparr>mutex := Some (t, 1), depth := depth l1 + 1\<rparr>)" using h1 by (simp add: holds_def)
    from lock_loop_holds [OF this, of j] show ?thesis
      using h1 k by (auto simp: AFF4GlobalLock_timedwait_return_def AFF4GlobalLock_lock_def pthread_mutex_lock_def holds_def)
  qed
  moreover define l3 where "l3 = unlock_loop t k l"
  have "AFF4GlobalLock_allow_threads t l = (int k, l3)"
    by (simp add: AFF4GlobalLock_allow_threads_def AFF4GlobalLock_unlock_def d l3_def)
  moreover have "holds t 0 l3" using unlock_loop_holds [of t 0 k l] assms(1) by (simp add: l3_def)
  moreover have "\<exists>l4. AFF4GlobalLock_lock t (int k) l3 = Some l4 \<and> holds t k l4"
    using lock_loop_holds [OF \<open>holds t 0 l3\<close>, of k] by (simp add: AFF4GlobalLock_lock_def)
  ultimately show ?thesis by blast
qed

text \<open>The deadline of a wait is a valid time (nanoseconds below one thousand million) exactly when the microseconds
  of the clock and of the timeout add up to less than a second; otherwise the nanoseconds overflow
  without a carry into the seconds, and POSIX rejects the wait instead of waiting.\<close>

lemma wait_deadline_valid_iff:
  "(snd (wait_deadline (sec, usec) timeout) < 1000000000 \<longleftrightarrow> usec + timeout mod 1000000 < 1000000) \<and>
   (snd (wait_deadline (sec, usec) 100000) < 1000000000 \<longleftrightarrow> usec < 900000)"
  unfolding wait_deadline_def by auto

end
