(* ===== verification/Image.thy ===== *)
theory Image
  imports Zip_Segment Sync
begin

text \<open>
  The image stream of \<^verbatim>\<open>lib/aff4_image.c\<close>: what is written to it is cut into bevies of a fixed size, each of which is handed
  to the thread pool as a job; the job cuts its bevy into chunks, and writes the chunks and the index of their offsets as
  two members of the volume. The pool is a parameter of the stream's operations, with the contract \<open>job_pool\<close>, which
  the pool of \<open>Sync\<close> fulfils. Compression of a chunk is a parameter as well.
\<close>

section \<open>State\<close>

record image_worker =
  worker_count :: int
  bevy :: stringio

record 'p aff4_image = aff_object +
  stored :: "rdf_urn option"
  current :: "image_worker option"
  thread_pool :: "'p option"
  chunk_size :: int
  compression :: int
  chunks_in_segment :: int
  bevy_size :: int
  segment_count :: int
  thread_count :: int
  image_readptr :: int

definition ImageWorker_Con :: "(nat \<Rightarrow> byte) \<Rightarrow> int \<Rightarrow> image_worker" where
  "ImageWorker_Con junk n = \<lparr>worker_count = n, bevy = StringIO_constructor junk\<rparr>"

section \<open>Writing\<close>

text \<open>The size of a bevy is computed before the defaults are set. A product outside of the range of \<^verbatim>\<open>int\<close> is undefined.\<close>

definition AFF4Image_finish :: "(int \<Rightarrow> 'p) \<Rightarrow> buf \<Rightarrow> (nat \<Rightarrow> byte) \<Rightarrow> 'p aff4_image \<Rightarrow> ('p aff4_image \<times> int \<times> aff4_err option) option" where
  "AFF4Image_finish new_pool uuid junk self =
     (let size = chunk_size self * chunks_in_segment self;
          s1 = self\<lparr>bevy_size := u32 size\<rparr>;
          error = map_option (\<lambda>(s, _). (s, 0, Some EProgrammingError)) (AFFObject_finish uuid s1)
      in if size < - (2 ^ 31) \<or> 2 ^ 31 \<le> size then None
         else if mode self = CHR ''w''
         then (if stored self = None then error
               else (let threads = (if thread_count self \<le> 0 then 1 else thread_count self);
                         s2 = s1\<lparr>chunk_size := (if chunk_size self = 0 then 32 * 1024 else chunk_size self),
                                 compression := (if compression self = 0 then int ZIP_STORED else compression self),
                                 chunks_in_segment := (if chunks_in_segment self = 0 then 1024 else chunks_in_segment self),
                                 segment_count := 0,
                                 current := Some (ImageWorker_Con junk 0),
                                 thread_count := threads,
                                 thread_pool := Some (new_pool threads)\<rparr>
                     in map_option (\<lambda>(s, r). (s, r, None)) (AFFObject_finish uuid s2)))
         else error)"

text \<open>
  One round of the loop of \<^verbatim>\<open>write\<close>: \<open>None\<close> is undefined behaviour, otherwise the changed image and the next offset, or no offset when the
  loop is left. \<open>schedule\<close> is the operation of the pool; what it returns is not looked at. The number of the bevy, an \<^verbatim>\<open>int\<close> in the source, is
  not wrapped, which makes a difference after \<open>2 ^ 31\<close> bevies only.
\<close>

definition write_step :: "('p \<Rightarrow> image_worker \<Rightarrow> 'p) \<Rightarrow> (nat \<Rightarrow> byte) \<Rightarrow> buf \<Rightarrow> 'p aff4_image \<Rightarrow> int \<Rightarrow>
    ('p aff4_image \<times> int option) option" where
  "write_step schedule junk src self offset =
     (case (current self, thread_pool self) of
        (Some w, Some p) \<Rightarrow>
          (let need_to_write = s32 (int (length src) - offset);
               available_to_write = s32 (bevy_size self - sio_size (bevy w))
           in if need_to_write \<le> 0 then Some (self, None)
              else if 2 ^ 31 \<le> offset + available_to_write then None
              else (case mem_read (nat offset) (nat (u32 (min need_to_write available_to_write))) src of
                 None \<Rightarrow> None
               | Some d \<Rightarrow>
                   (case StringIO_write (bevy w) d of
                      None \<Rightarrow> None
                    | Some (b, _) \<Rightarrow>
                        (let w' = w\<lparr>bevy := b\<rparr>; n = segment_count self + 1
                         in Some (if bevy_size self \<le> u32 (sio_size b)
                                  then self\<lparr>thread_pool := Some (schedule p w'), segment_count := n,
                                            current := Some (ImageWorker_Con junk n)\<rparr>
                                  else self\<lparr>current := Some w'\<rparr>,
                                  Some (offset + available_to_write))))))
      | _ \<Rightarrow> None)"

partial_function (option) write_loop :: "('p \<Rightarrow> image_worker \<Rightarrow> 'p) \<Rightarrow> (nat \<Rightarrow> byte) \<Rightarrow> buf \<Rightarrow> 'p aff4_image \<Rightarrow> int \<Rightarrow>
    'p aff4_image option" where
  "write_loop schedule junk src self offset =
     (case write_step schedule junk src self offset of
        None \<Rightarrow> None
      | Some (s, None) \<Rightarrow> Some s
      | Some (s, Some off) \<Rightarrow> write_loop schedule junk src s off)"

definition AFF4Image_write :: "('p \<Rightarrow> image_worker \<Rightarrow> 'p) \<Rightarrow> (nat \<Rightarrow> byte) \<Rightarrow> 'p aff4_image \<Rightarrow> buf \<Rightarrow> ('p aff4_image \<times> int) option" where
  "AFF4Image_write schedule junk self src =
     map_option (\<lambda>s. (s, s32 (int (length src)))) (write_loop schedule junk src self 0)"

definition AFF4Image_close :: "('p \<Rightarrow> image_worker \<Rightarrow> 'p) \<Rightarrow> ('p \<Rightarrow> 'p) \<Rightarrow> 'p aff4_image \<Rightarrow> ('p aff4_image \<times> int) option" where
  "AFF4Image_close schedule join self =
     (case (current self, thread_pool self) of
        (Some w, Some p) \<Rightarrow> Some (self\<lparr>thread_pool := Some (join (schedule p w))\<rparr>, 1)
      | _ \<Rightarrow> None)"

section \<open>Contract of the pool\<close>

text \<open>The jobs that a pool has accepted, in order. A client relies on each call of schedule adding its job and keeping the pool well formed.\<close>

locale job_pool =
  fixes accepted_jobs :: "'p \<Rightarrow> image_worker list"
    and schedule :: "'p \<Rightarrow> image_worker \<Rightarrow> 'p"
    and ok :: "'p \<Rightarrow> bool"
  assumes schedule_spec: "accepted_jobs (schedule p j) = accepted_jobs p @ [j]"
    and schedule_ok: "ok p \<Longrightarrow> ok (schedule p j)"

text \<open>
  A call of \<^verbatim>\<open>schedule\<close> on the pool of \<open>Sync\<close> whose wait, if it has to wait, ends with a signal. What the workers do before and after it are
  steps of their own.
\<close>

definition schedule_signalled :: "'j pool \<Rightarrow> 'j \<Rightarrow> 'j pool" where
  "schedule_signalled p j =
     (let p1 = ThreadPool_schedule j (Queue_put_enter (jobs p) j) p
      in if Queue_put_enter (jobs p) j = PutWaits
         then ThreadPool_schedule j (Queue_put_resume (jobs p1) j 0) (p1\<lparr>blocked := remove1 j (blocked p1)\<rparr>)
         else p1)"

lemma schedule_signalled_reach: "pool_reach n p \<Longrightarrow> pool_reach n (schedule_signalled p j)"
proof -
  assume "pool_reach n p"
  then have 1: "pool_reach n (ThreadPool_schedule j (Queue_put_enter (jobs p) j) p)" by (rule pool_more [OF _ schedule])
  show ?thesis
  proof (cases "Queue_put_enter (jobs p) j = PutWaits")
    case True
    then have "j \<in> set (blocked (ThreadPool_schedule j (Queue_put_enter (jobs p) j) p))" by (simp add: ThreadPool_schedule_def)
    from pool_more [OF 1 schedule_resume [OF this, of 0]] show ?thesis by (simp add: schedule_signalled_def Let_def True)
  qed (use 1 in \<open>simp add: schedule_signalled_def Let_def\<close>)
qed

interpretation wpool: job_pool accepted schedule_signalled "pool_reach n" for n
proof
  show "accepted (schedule_signalled p j) = accepted p @ [j]" for p :: "image_worker pool" and j
    by (simp add: schedule_signalled_def Let_def ThreadPool_schedule_def Queue_put_resume_def Queue_put_enter_def)
  show "pool_reach n p \<Longrightarrow> pool_reach n (schedule_signalled p j)" for p :: "image_worker pool" and j
    by (rule schedule_signalled_reach)
qed

section \<open>The stream as bevies\<close>

definition content :: "image_worker \<Rightarrow> buf" where
  "content w = sio_content (bevy w)"

text \<open>
  An image that is being written: the jobs accepted so far are the full bevies, numbered from zero, and the current one
  is not full. The bound keeps the buffer of a bevy within the limit of the allocator.
\<close>

definition image_inv :: "('p \<Rightarrow> image_worker list) \<Rightarrow> ('p \<Rightarrow> bool) \<Rightarrow> 'p aff4_image \<Rightarrow> bool" where
  "image_inv jobs_of pool_ok self \<longleftrightarrow> 0 < bevy_size self \<and> 2 * bevy_size self < 268435456 \<and>
     (\<exists>w p. current self = Some w \<and> thread_pool self = Some p \<and> pool_ok p \<and> at_end (bevy w) \<and>
        int (length (content w)) < bevy_size self \<and> worker_count w = segment_count self \<and>
        (\<forall>j \<in> set (jobs_of p). at_end (bevy j) \<and> int (length (content j)) = bevy_size self) \<and>
        map worker_count (jobs_of p) = map int [0 ..< length (jobs_of p)] \<and> segment_count self = int (length (jobs_of p)))"

definition stream_of :: "('p \<Rightarrow> image_worker list) \<Rightarrow> 'p aff4_image \<Rightarrow> buf" where
  "stream_of jobs_of self =
     concat (map content (case thread_pool self of None \<Rightarrow> [] | Some p \<Rightarrow> jobs_of p)) @
     (case current self of None \<Rightarrow> [] | Some w \<Rightarrow> content w)"

definition same_image :: "'p aff4_image \<Rightarrow> 'p aff4_image \<Rightarrow> bool" where
  "same_image s s' \<longleftrightarrow> addr s' = addr s \<and> urn s' = urn s \<and> mode s' = mode s \<and> stored s' = stored s \<and> chunk_size s' = chunk_size s \<and>
     compression s' = compression s \<and> chunks_in_segment s' = chunks_in_segment s \<and> bevy_size s' = bevy_size s"

lemma new_worker: "at_end (bevy (ImageWorker_Con junk n))" "content (ImageWorker_Con junk n) = []" "worker_count (ImageWorker_Con junk n) = n"
  using at_end_constructor [of junk] by (simp_all add: ImageWorker_Con_def content_def)

lemma write_step_offset: "write_step schedule junk src self offset = Some (s, Some off) \<Longrightarrow> off < 2 ^ 31"
  by (auto simp: write_step_def Let_def split: option.splits if_splits)

fun image_writes :: "('p \<Rightarrow> image_worker \<Rightarrow> 'p) \<Rightarrow> (nat \<Rightarrow> byte) \<Rightarrow> 'p aff4_image \<Rightarrow> buf list \<Rightarrow> 'p aff4_image option" where
  "image_writes schedule junk self [] = Some self"
| "image_writes schedule junk self (x # xs) =
     (case AFF4Image_write schedule junk self x of None \<Rightarrow> None | Some (s, _) \<Rightarrow> image_writes schedule junk s xs)"

text \<open>The slices of \<open>B\<close> bytes of a stream, with what is left at its end.\<close>

definition slices :: "nat \<Rightarrow> buf \<Rightarrow> buf list" where
  "slices B data = map (\<lambda>i. take B (drop (i * B) data)) [0 ..< Suc (length data div B)]"

lemma slices_Cons:
  assumes "length x = B" "0 < B"
  shows "slices B (x @ d) = x # slices B d"
proof -
  have l: "length (x @ d) div B = Suc (length d div B)" using assms div_add_self1 [of B "length d"] by simp
  have u: "[0 ..< Suc (Suc n)] = 0 # map Suc [0 ..< Suc n]" for n by (subst upt_conv_Cons) (simp_all add: map_Suc_upt del: upt_Suc)
  have "take B (drop (Suc i * B) (x @ d)) = take B (drop (i * B) d)" for i using assms by simp
  then show ?thesis unfolding slices_def l u using assms(1) by (simp add: comp_def del: upt_Suc)
qed

lemma slices_concat:
  assumes "\<forall>x \<in> set xs. length x = B" "length y < B"
  shows "xs @ [y] = slices B (concat xs @ y)"
  using assms(1)
proof (induction xs)
  case Nil
  then show ?case using assms(2) by (simp add: slices_def)
next
  case (Cons x xs)
  have x: "length x = B" "0 < B" using Cons.prems assms(2) by auto
  have "slices B (concat (x # xs) @ y) = x # slices B (concat xs @ y)"
    using slices_Cons [OF x, of "concat xs @ y"] by simp
  then show ?case using Cons by simp
qed

context job_pool
begin

text \<open>A round that does not leave the loop moves bytes from the caller's buffer into the stream.\<close>

lemma write_step_spec:
  assumes inv: "image_inv accepted_jobs ok self" and off: "offset < length src" "length src < 2 ^ 30"
  shows "\<exists>self' n. write_step schedule junk src self (int offset) = Some (self', Some (int (offset + n))) \<and> 0 < n \<and>
     image_inv accepted_jobs ok self' \<and> same_image self self' \<and>
     stream_of accepted_jobs self' = stream_of accepted_jobs self @ take n (drop offset src)"
proof -
  obtain w p where I: "current self = Some w" "thread_pool self = Some p" "at_end (bevy w)" "int (length (content w)) < bevy_size self"
      "worker_count w = segment_count self" "\<forall>j \<in> set (accepted_jobs p). at_end (bevy j) \<and> int (length (content j)) = bevy_size self"
      "map worker_count (accepted_jobs p) = map int [0 ..< length (accepted_jobs p)]" "segment_count self = int (length (accepted_jobs p))" "ok p"
    and B: "0 < bevy_size self" "2 * bevy_size self < 268435456"
    using inv by (auto simp: image_inv_def)
  have sz: "sio_size (bevy w) = int (length (content w))" using at_end_contents [OF I(3)] by (simp add: content_def)
  define n where "n = nat (bevy_size self - int (length (content w)))"
  have n: "0 < n" "int n = bevy_size self - int (length (content w))" using I(4) by (auto simp: n_def)
  define d where "d = take n (drop offset src)"
  have need: "s32 (int (length src) - int offset) = int (length src) - int offset"
      "s32 (bevy_size self - sio_size (bevy w)) = int n"
    using off B I(4) n(2) unfolding sz by (auto intro!: c_int)
  have len: "u32 (min (int (length src) - int offset) (int n)) = int (min (length src - offset) n)"
    using off n B by (subst u32_id) (auto simp: min_def)
  have rd: "mem_read offset (min (length src - offset) n) src = Some d"
    using off(1) by (auto simp: mem_read_def d_def min_def)
  have ld: "length d \<le> n" by (simp add: d_def)
  obtain b where b: "StringIO_write (bevy w) d = Some (b, int (length d))" "at_end b" "sio_content b = content w @ d"
    using at_end_write [OF I(3), of d] ld n B unfolding content_def [symmetric] by auto
  have sb: "sio_size b = int (length (content w) + length d)" using at_end_contents [OF b(2)] b(3) by simp
  have us: "u32 (sio_size b) = sio_size b" using sb ld n B by (auto intro!: c_int)
  define w' where "w' = w\<lparr>bevy := b\<rparr>"
  have w': "content w' = content w @ d" "worker_count w' = segment_count self" "at_end (bevy w')" using b I(5) by (simp_all add: w'_def content_def)
  define self' where "self' = (if bevy_size self \<le> u32 (sio_size b)
      then self\<lparr>thread_pool := Some (schedule p w'), segment_count := segment_count self + 1, current := Some (ImageWorker_Con junk (segment_count self + 1))\<rparr>
      else self\<lparr>current := Some w'\<rparr>)"
  have "\<not> 2 ^ 31 \<le> int offset + int n" using off n(2) B by simp
  then have step: "write_step schedule junk src self (int offset) = Some (self', Some (int (offset + n)))"
    unfolding write_step_def I(1,2) Let_def prod.case option.case need len nat_int rd b(1) self'_def w'_def
    using off(1) by simp
  have "image_inv accepted_jobs ok self' \<and> stream_of accepted_jobs self' = stream_of accepted_jobs self @ d \<and> same_image self self'"
  proof (cases "bevy_size self \<le> u32 (sio_size b)")
    case True
    then have "int (length (content w')) = bevy_size self" using us sb ld n(2) w'(1) by simp
    then show ?thesis using True I B w' schedule_spec [of p w'] schedule_ok [OF I(9), of w'] new_worker
      by (auto simp: self'_def image_inv_def stream_of_def same_image_def)
  next
    case False
    then show ?thesis using I B w' us sb by (auto simp: self'_def image_inv_def stream_of_def same_image_def)
  qed
  then show ?thesis using step n(1) unfolding d_def by blast
qed

text \<open>The loop ends, since every round advances the offset.\<close>

lemma write_loop_spec:
  assumes "image_inv accepted_jobs ok self" "length src < 2 ^ 30" "offset < 2 ^ 31"
  shows "\<exists>self'. write_loop schedule junk src self (int offset) = Some self' \<and> image_inv accepted_jobs ok self' \<and> same_image self self' \<and>
     stream_of accepted_jobs self' = stream_of accepted_jobs self @ drop offset src"
  using assms
proof (induction "length src - offset" arbitrary: self offset rule: less_induct)
  case less
  show ?case
  proof (cases "offset < length src")
    case True
    obtain s n where s: "write_step schedule junk src self (int offset) = Some (s, Some (int (offset + n)))" "0 < n"
        "image_inv accepted_jobs ok s" "same_image self s" "stream_of accepted_jobs s = stream_of accepted_jobs self @ take n (drop offset src)"
      using write_step_spec [OF less.prems(1) True less.prems(2), of junk] by blast
    have "offset + n < 2 ^ 31" using write_step_offset [OF s(1)] by simp
    then obtain s' where s': "write_loop schedule junk src s (int (offset + n)) = Some s'" "image_inv accepted_jobs ok s'" "same_image s s'"
        "stream_of accepted_jobs s' = stream_of accepted_jobs s @ drop (offset + n) src"
      using less.hyps [OF _ s(3) less.prems(2), of "offset + n"] s(2) True by (auto simp: diff_less_mono2)
    have "take n (drop offset src) @ drop (offset + n) src = drop offset src"
      by (metis append_take_drop_id drop_drop add.commute)
    then show ?thesis using s s' by (subst write_loop.simps) (auto simp: same_image_def)
  next
    case False
    then have "s32 (int (length src) - int offset) = int (length src) - int offset" using less.prems(2,3) by (auto intro!: c_int)
    then have "write_step schedule junk src self (int offset) = Some (self, None)"
      using less.prems(1) False by (auto simp: write_step_def image_inv_def Let_def)
    then show ?thesis using False less.prems(1) by (subst write_loop.simps) (simp add: same_image_def)
  qed
qed

text \<open>A client that writes blocks one after the other.\<close>

lemma write_spec:
  assumes "image_inv accepted_jobs ok self" "length src < 2 ^ 30"
  shows "\<exists>self'. AFF4Image_write schedule junk self src = Some (self', int (length src)) \<and> image_inv accepted_jobs ok self' \<and> same_image self self' \<and>
     stream_of accepted_jobs self' = stream_of accepted_jobs self @ src"
proof -
  have "s32 (int (length src)) = int (length src)" using assms(2) by (auto intro!: c_int)
  then show ?thesis using write_loop_spec [OF assms, of 0 junk] by (auto simp: AFF4Image_write_def)
qed

lemma writes_spec:
  "image_inv accepted_jobs ok self \<Longrightarrow> \<forall>x \<in> set xs. length x < 2 ^ 30 \<Longrightarrow>
    \<exists>self'. image_writes schedule junk self xs = Some self' \<and> image_inv accepted_jobs ok self' \<and> same_image self self' \<and>
     stream_of accepted_jobs self' = stream_of accepted_jobs self @ concat xs"
proof (induction xs arbitrary: self)
  case (Cons x xs)
  obtain s where s: "AFF4Image_write schedule junk self x = Some (s, int (length x))" "image_inv accepted_jobs ok s" "same_image self s"
      "stream_of accepted_jobs s = stream_of accepted_jobs self @ x"
    using write_spec [OF Cons.prems(1), of x junk] Cons.prems(2) by auto
  then show ?case using Cons.IH [OF s(2)] Cons.prems(2) by (fastforce simp: same_image_def)
qed (simp add: same_image_def)

text \<open>After close the jobs of the pool are the slices of the stream, the last of which may be short or empty.\<close>

lemma close_spec:
  assumes "image_inv accepted_jobs ok self"
  shows "\<exists>p. AFF4Image_close schedule join self = Some (self\<lparr>thread_pool := Some (join p)\<rparr>, 1) \<and> ok p \<and>
     map content (accepted_jobs p) = slices (nat (bevy_size self)) (stream_of accepted_jobs self) \<and>
     (\<forall>j \<in> set (accepted_jobs p). at_end (bevy j)) \<and> map worker_count (accepted_jobs p) = map int [0 ..< length (accepted_jobs p)]"
proof -
  obtain w p where I: "current self = Some w" "thread_pool self = Some p" "at_end (bevy w)" "int (length (content w)) < bevy_size self"
      "worker_count w = segment_count self" "\<forall>j \<in> set (accepted_jobs p). at_end (bevy j) \<and> int (length (content j)) = bevy_size self"
      "map worker_count (accepted_jobs p) = map int [0 ..< length (accepted_jobs p)]" "segment_count self = int (length (accepted_jobs p))" "ok p"
    using assms by (auto simp: image_inv_def)
  have "\<forall>x \<in> set (map content (accepted_jobs p)). length x = nat (bevy_size self)" using I(6) by auto
  from slices_concat [OF this, of "content w"] I(4)
  have "map content (accepted_jobs p @ [w]) = slices (nat (bevy_size self)) (stream_of accepted_jobs self)"
    by (simp add: stream_of_def I(1,2))
  then show ?thesis
    using I schedule_spec [of p w] schedule_ok [OF I(9), of w]
    by (intro exI [of _ "schedule p w"]) (auto simp: AFF4Image_close_def)
qed

end

section \<open>A loop that does not end\<close>

text \<open>The rounds of the loop, at most \<open>n\<close> of them.\<close>

fun write_steps :: "nat \<Rightarrow> ('p \<Rightarrow> image_worker \<Rightarrow> 'p) \<Rightarrow> (nat \<Rightarrow> byte) \<Rightarrow> buf \<Rightarrow> 'p aff4_image \<Rightarrow> int \<Rightarrow>
    ('p aff4_image \<times> int option) option" where
  "write_steps 0 schedule junk src self off = Some (self, Some off)"
| "write_steps (Suc n) schedule junk src self off =
     (case write_step schedule junk src self off of
        None \<Rightarrow> None
      | Some (s, None) \<Rightarrow> Some (s, None)
      | Some (s, Some off') \<Rightarrow> write_steps n schedule junk src s off')"

lemma write_loop_steps:
  assumes "write_loop schedule junk src self off = Some s"
  shows "\<exists>n. write_steps n schedule junk src self off = Some (s, None)"
proof (rule write_loop.raw_induct [where P = "\<lambda>schedule junk src self off s. \<exists>n. write_steps n schedule junk src self off = Some (s, None)", OF _ assms])
  fix loop schedule junk src and self s :: "'a aff4_image" and off
  assume IH: "\<And>schedule junk src self off s. loop schedule junk src self off = Some s \<Longrightarrow> \<exists>n. write_steps n schedule junk src self off = Some (s, None)"
    and eq: "(case write_step schedule junk src self off of None \<Rightarrow> None | Some (s, None) \<Rightarrow> Some s
       | Some (s, Some off') \<Rightarrow> loop schedule junk src s off') = Some s"
  from eq obtain s1 r where st: "write_step schedule junk src self off = Some (s1, r)" by (auto split: option.splits)
  show "\<exists>n. write_steps n schedule junk src self off = Some (s, None)"
  proof (cases r)
    case None
    then have "write_steps 1 schedule junk src self off = Some (s, None)" using eq st by simp
    then show ?thesis by blast
  next
    case (Some off')
    then obtain n where "write_steps n schedule junk src s1 off' = Some (s, None)" using IH [of schedule junk src s1 off'] eq st by auto
    then have "write_steps (Suc n) schedule junk src self off = Some (s, None)" using st Some by simp
    then show ?thesis by blast
  qed
qed

text \<open>An image whose bevies have no room: what a caller gets that relies on the default parameters.\<close>

definition no_room :: "('p \<Rightarrow> image_worker list) \<Rightarrow> 'p aff4_image \<Rightarrow> nat \<Rightarrow> bool" where
  "no_room jobs_of self n \<longleftrightarrow> bevy_size self = 0 \<and>
     (\<exists>w p. current self = Some w \<and> thread_pool self = Some p \<and> at_end (bevy w) \<and> content w = [] \<and>
        length (jobs_of p) = n \<and> (\<forall>j \<in> set (jobs_of p). content j = []))"

context job_pool
begin

lemma write_step_no_room:
  assumes "no_room accepted_jobs self n" "src \<noteq> []" "length src < 2 ^ 31"
  shows "\<exists>self'. write_step schedule junk src self 0 = Some (self', Some 0) \<and> no_room accepted_jobs self' (Suc n)"
proof -
  obtain w p where I: "current self = Some w" "thread_pool self = Some p" "at_end (bevy w)" "content w = []" "length (accepted_jobs p) = n"
      "\<forall>j \<in> set (accepted_jobs p). content j = []" "bevy_size self = 0"
    using assms(1) by (auto simp: no_room_def)
  have sz: "sio_size (bevy w) = 0" using at_end_contents [OF I(3)] I(4) by (simp add: content_def)
  obtain b where b: "StringIO_write (bevy w) [] = Some (b, 0)" "at_end b" "sio_content b = []"
    using at_end_write [OF I(3), of "[]"] I(4) by (auto simp: content_def)
  have u: "u32 (sio_size b) = 0" using at_end_contents [OF b(2)] b(3) u32_id [of 0] by simp
  have c: "s32 (int (length src)) = int (length src)" "s32 0 = 0" "u32 0 = 0" using assms(3) by (auto intro!: c_int)
  let ?w = "w\<lparr>bevy := b\<rparr>"
  have "content ?w = []" using b(3) by (simp add: content_def)
  then show ?thesis
    using I b(1) u c sz assms(2) schedule_spec [of p ?w] new_worker
    by (auto simp: write_step_def Let_def mem_read_def no_room_def)
qed

lemma write_steps_no_room:
  "no_room accepted_jobs self k \<Longrightarrow> src \<noteq> [] \<Longrightarrow> length src < 2 ^ 31 \<Longrightarrow>
     \<exists>self'. write_steps n schedule junk src self 0 = Some (self', Some 0) \<and> no_room accepted_jobs self' (k + n)"
proof (induction n arbitrary: self k)
  case (Suc n)
  obtain s where "write_step schedule junk src self 0 = Some (s, Some 0)" "no_room accepted_jobs s (Suc k)"
    using write_step_no_room [OF Suc.prems] by blast
  then show ?case using Suc.IH [of s "Suc k"] Suc.prems by auto
qed simp

lemma write_no_room:
  assumes "no_room accepted_jobs self k" "src \<noteq> []" "length src < 2 ^ 31"
  shows "AFF4Image_write schedule junk self src = None"
proof (rule ccontr)
  assume "AFF4Image_write schedule junk self src \<noteq> None"
  then obtain s where "write_loop schedule junk src self 0 = Some s" by (auto simp: AFF4Image_write_def)
  then obtain n where "write_steps n schedule junk src self 0 = Some (s, None)" using write_loop_steps by blast
  then show False using write_steps_no_room [OF assms, of n junk] by auto
qed

end

text \<open>What a new image looks like, with and without parameters.\<close>

lemma finish_image:
  fixes self :: "image_worker pool aff4_image"
  assumes "mode self = CHR ''w''" "stored self \<noteq> None" "parser (urn self) \<noteq> None"
    "chunk_size self = int cs" "chunks_in_segment self = int n" "cs * n < 2 ^ 31"
  shows "\<exists>s p. AFF4Image_finish (\<lambda>n. ThreadPool_Con (nat n)) uuid junk self = Some (s, 1, None) \<and> bevy_size s = int (cs * n) \<and>
     current s = Some (ImageWorker_Con junk 0) \<and> thread_pool s = Some p \<and> accepted p = [] \<and> pool_reach (nat (thread_count s)) p \<and>
     segment_count s = 0 \<and> urn s = urn self \<and> stored s = stored self \<and> mode s = mode self \<and>
     (0 < cs \<longrightarrow> chunk_size s = int cs) \<and> (compression self = 0 \<longrightarrow> compression s = int ZIP_STORED)"
proof -
  have b: "int cs * int n = int (cs * n)" by simp
  have "u32 (int (cs * n)) = int (cs * n)" using assms(6) by (intro u32_id) (auto simp del: of_nat_mult)
  moreover have "accepted (ThreadPool_Con k) = []" "pool_reach k (ThreadPool_Con k)" for k
    by (simp add: ThreadPool_Con_def) (rule pool_init)
  ultimately show ?thesis using assms unfolding AFF4Image_finish_def assms(4,5) b Let_def
    by (auto simp: AFFObject_finish_def simp del: of_nat_mult)
qed

section \<open>Properties\<close>

text \<open>C9. Writing to an image cuts the stream into bevies: with a pool whose waits end with a signal, every write returns its length, the bevies
  accepted by the pool so far are full, numbered from zero and in order, and followed by the current one they
  are exactly the bytes written, whatever the sizes of the blocks.\<close>

theorem image_write_cuts_bevies:
  assumes "image_inv accepted (pool_reach n) self" "length src < 2 ^ 30"
  shows "\<exists>self'. AFF4Image_write schedule_signalled junk self src = Some (self', int (length src)) \<and>
     image_inv accepted (pool_reach n) self' \<and> same_image self self' \<and> stream_of accepted self' = stream_of accepted self @ src"
  by (rule wpool.write_spec [OF assms])

text \<open>A small image.\<close>

definition demo_image :: "int \<Rightarrow> int \<Rightarrow> image_worker pool aff4_image" where
  "demo_image cs n = \<lparr>addr = 3, urn = \<lparr>urn_value = ''aff4://vol/i'',
       parser = Some \<lparr>scheme = ''aff4'', netloc = ''vol'', query = ''/i'', fragment = []\<rparr>\<rparr>, mode = CHR ''w'', complete = False,
     stored = Some (demo_urn []), current = None, thread_pool = None, chunk_size = cs, compression = 0, chunks_in_segment = n,
     bevy_size = 0, segment_count = 0, thread_count = 0, image_readptr = 0\<rparr>"

lemma demo_image_finish:
  "\<exists>s. AFF4Image_finish (\<lambda>n. ThreadPool_Con (nat n)) [] (\<lambda>_. NUL) (demo_image 2 2) = Some (s, 1, None) \<and>
     image_inv accepted (pool_reach (nat (thread_count s))) s \<and> stream_of accepted s = []"
proof -
  obtain s p where "AFF4Image_finish (\<lambda>n. ThreadPool_Con (nat n)) [] (\<lambda>_. NUL) (demo_image 2 2) = Some (s, 1, None)" "bevy_size s = 4"
      "current s = Some (ImageWorker_Con (\<lambda>_. NUL) 0)" "thread_pool s = Some p" "accepted p = []" "pool_reach (nat (thread_count s)) p" "segment_count s = 0"
    using finish_image [of "demo_image 2 2" 2 2 "[]" "\<lambda>_. NUL"] by (auto simp: demo_image_def)
  then show ?thesis using new_worker [of "\<lambda>_. NUL" 0] by (auto simp: image_inv_def stream_of_def)
qed

theorem image_write_cuts_bevies_witness:
  "\<exists>s s'. AFF4Image_finish (\<lambda>n. ThreadPool_Con (nat n)) [] (\<lambda>_. NUL) (demo_image 2 2) = Some (s, 1, None) \<and>
     AFF4Image_write schedule_signalled (\<lambda>_. NUL) s ''abcdef'' = Some (s', 6) \<and> stream_of accepted s' = ''abcdef''"
proof -
  obtain s where s: "AFF4Image_finish (\<lambda>n. ThreadPool_Con (nat n)) [] (\<lambda>_. NUL) (demo_image 2 2) = Some (s, 1, None)"
      "image_inv accepted (pool_reach (nat (thread_count s))) s" "stream_of accepted s = []"
    using demo_image_finish by blast
  then show ?thesis using image_write_cuts_bevies [OF s(2), of "''abcdef''" "\<lambda>_. NUL"] by auto
qed

text \<open>C29. An image with default parameters cannot be written: \<^verbatim>\<open>finish\<close> computes the size of a bevy before it sets the defaults, so the size is zero,
  and a write of any data schedules empty bevies for ever: after any number of rounds the loop is where it started, with one
  empty job more for each round, and it never returns.\<close>

theorem image_defaults_write_forever:
  fixes self :: "image_worker pool aff4_image"
  assumes "mode self = CHR ''w''" "stored self \<noteq> None" "parser (urn self) \<noteq> None" "chunk_size self = 0" "chunks_in_segment self = 0"
    "src \<noteq> []" "length src < 2 ^ 31"
  shows "\<exists>s. AFF4Image_finish (\<lambda>n. ThreadPool_Con (nat n)) uuid junk self = Some (s, 1, None) \<and>
     AFF4Image_write schedule_signalled junk s src = None \<and>
     (\<forall>n. \<exists>s' p. write_steps n schedule_signalled junk src s 0 = Some (s', Some 0) \<and> thread_pool s' = Some p \<and> length (accepted p) = n \<and>
        (\<forall>j \<in> set (accepted p). content j = []))"
proof -
  obtain s p where s: "AFF4Image_finish (\<lambda>n. ThreadPool_Con (nat n)) uuid junk self = Some (s, 1, None)" "bevy_size s = 0"
      "current s = Some (ImageWorker_Con junk 0)" "thread_pool s = Some p" "accepted p = []"
    using finish_image [of self 0 0 uuid junk] assms(1-5) by auto
  have nr: "no_room accepted s 0" using s new_worker [of junk 0] by (auto simp: no_room_def)
  have "AFF4Image_write schedule_signalled junk s src = None" by (rule wpool.write_no_room [OF nr assms(6,7)])
  moreover have "\<exists>s' p. write_steps n schedule_signalled junk src s 0 = Some (s', Some 0) \<and> thread_pool s' = Some p \<and> length (accepted p) = n \<and>
        (\<forall>j \<in> set (accepted p). content j = [])" for n
    using wpool.write_steps_no_room [OF nr assms(6,7), of n junk] by (fastforce simp: no_room_def)
  ultimately show ?thesis using s(1) by blast
qed

theorem image_defaults_write_forever_witness:
  "\<exists>s. AFF4Image_finish (\<lambda>n. ThreadPool_Con (nat n)) [] (\<lambda>_. NUL) (demo_image 0 0) = Some (s, 1, None) \<and>
     AFF4Image_write schedule_signalled (\<lambda>_. NUL) s ''x'' = None"
  using image_defaults_write_forever [of "demo_image 0 0" "''x''" "[]" "\<lambda>_. NUL"] by (auto simp: demo_image_def)

end
