(* ===== verification/Image_Worker.thy ===== *)
theory Image_Worker
  imports Image
begin

text \<open>
  The jobs of the image stream (\<^verbatim>\<open>ImageWorker_run\<close> in \<^verbatim>\<open>lib/aff4_image.c\<close>) and its read path. A job opens two members of the volume, writes the
  chunks of its bevy to the first and their offsets to the second, and closes both. A member is named by its position
  in the list of members of the volume, since the code keeps pointers to them.
\<close>

section \<open>Definitions\<close>

text \<open>
  What the code uses of zlib's utility functions: \<^verbatim>\<open>compressBound\<close>, \<^verbatim>\<open>compress2\<close> into a buffer of a given size, and \<^verbatim>\<open>uncompress\<close> into a
  buffer of a given size.
\<close>

record chunk_codec =
  compressBound :: "nat \<Rightarrow> nat"
  compress2 :: "buf \<Rightarrow> nat \<Rightarrow> buf option"
  uncompress :: "buf \<Rightarrow> nat \<Rightarrow> buf option"

definition bevy_name :: "int \<Rightarrow> buf" where
  "bevy_name n = zero_pad 8 (digits 16 HEX (nat (u32 n)))"

definition member_write :: "'z zlib \<Rightarrow> nat \<Rightarrow> buf \<Rightarrow> 'z zip_file \<Rightarrow> 'z zip_file option" where
  "member_write Z i d zf =
     map_option (\<lambda>(s, _, _). zf\<lparr>members := (members zf)[i := s]\<rparr>) (ZipSegment_write Z (members zf ! i) d)"

definition member_close :: "'z zlib \<Rightarrow> (nat \<Rightarrow> byte) \<Rightarrow> nat \<Rightarrow> resolver \<Rightarrow> 'z zip_file \<Rightarrow> ('z zip_file \<times> resolver) option" where
  "member_close Z fresh i r zf =
     map_option (\<lambda>(s, zf', r', _, _). (zf'\<lparr>members := (members zf')[i := s]\<rparr>, r')) (ZipSegment_close Z fresh r zf (members zf ! i))"

text \<open>
  The loop over the chunks of the bevy \<open>b\<close>, from \<open>chunk_offset\<close> and \<open>compressed_offset\<close>; \<open>i\<close> is the segment, \<open>j\<close> its index. The result tells whether
  the loop ran to its end, rather than being left after an error of the compressor.
\<close>

partial_function (option) chunk_loop :: "'z zlib \<Rightarrow> chunk_codec \<Rightarrow> int \<Rightarrow> int \<Rightarrow> nat \<Rightarrow> nat \<Rightarrow> stringio \<Rightarrow> nat \<Rightarrow> nat \<Rightarrow> 'z zip_file \<Rightarrow>
    ('z zip_file \<times> bool) option" where
  "chunk_loop Z K csize method i j b chunk_offset compressed_offset zf =
     (if u32 (sio_size b) \<le> int chunk_offset then Some (zf, True)
      else
        (let len = min (nat (u32 csize)) (nat (u32 (sio_size b - int chunk_offset)));
             clength = compressBound K (nat (u64 csize))
         in case mem_read chunk_offset len (sio_data b) of
              None \<Rightarrow> None
            | Some chunk \<Rightarrow>
                (case (if method = int ZIP_STORED then (if len \<le> clength then Some (Some chunk) else None)
                       else Some (compress2 K chunk clength)) of
                   None \<Rightarrow> None
                 | Some None \<Rightarrow> Some (zf, False)
                 | Some (Some c) \<Rightarrow>
                     (case member_write Z j (le_bytes 4 compressed_offset) zf of
                        None \<Rightarrow> None
                      | Some z1 \<Rightarrow>
                          (case member_write Z i c z1 of
                             None \<Rightarrow> None
                           | Some z2 \<Rightarrow>
                               chunk_loop Z K csize method i j b (nat (u32 (int (chunk_offset + len))))
                                 (nat (u32 (int (compressed_offset + length c)))) z2)))))"

text \<open>
  The job itself. A URN that cannot be extended, a volume that is not there or a member that cannot be opened is a call through NULL.
  \<open>a\<close> is the address of the first of the two new objects.
\<close>

definition ImageWorker_run :: "'z zlib \<Rightarrow> chunk_codec \<Rightarrow> tm \<Rightarrow> (nat \<Rightarrow> byte) \<Rightarrow> (nat \<Rightarrow> byte) \<Rightarrow> buf \<Rightarrow> nat \<Rightarrow> 'p aff4_image \<Rightarrow> image_worker \<Rightarrow>
    resolver \<Rightarrow> 'z zip_file \<Rightarrow> ('z zip_file \<times> resolver \<times> aff4_err option) option" where
  "ImageWorker_run Z K now fresh junk uuid a img self r zf =
     (case (stored img, RDFURN_copy (urn img)) of
        (Some st, Some u0) \<Rightarrow>
          (case RDFURN_add u0 (bevy_name (worker_count self)) of
             None \<Rightarrow> None
           | Some u1 \<Rightarrow>
               if Resolver_own r st (CHR ''w'') \<noteq> Some (addr zf) then None
               else
                 (case ZipFile_open_member Z now fresh junk uuid a zf u1 (CHR ''w'') (int ZIP_STORED) of
                    Some (z1, Some i) \<Rightarrow>
                      (case RDFURN_add u1 ''idx'' of
                         None \<Rightarrow> None
                       | Some u2 \<Rightarrow>
                           (case ZipFile_open_member Z now fresh junk uuid (Suc a) z1 u2 (CHR ''w'') (int ZIP_STORED) of
                              Some (z2, Some j) \<Rightarrow>
                                (case Resolver_cache_return r z2 of
                                   None \<Rightarrow> None
                                 | Some r1 \<Rightarrow>
                                     (case chunk_loop Z K (chunk_size img) (compression img) i j (bevy self) 0 0 z2 of
                                        None \<Rightarrow> None
                                      | Some (z3, False) \<Rightarrow> Some (z3, r1, Some ERuntimeError)
                                      | Some (z3, True) \<Rightarrow>
                                          (case member_close Z fresh i r1 z3 of
                                             None \<Rightarrow> None
                                           | Some (z4, r2) \<Rightarrow>
                                               map_option (\<lambda>(z5, r3). (z5, r3, None)) (member_close Z fresh j r2 z4))))
                            | _ \<Rightarrow> None))
                  | _ \<Rightarrow> None))
      | _ \<Rightarrow> None)"

section \<open>Names of bevies\<close>

lemma HEX_char: "n < 16 \<Longrightarrow> HEX n \<in> set ''0123456789ABCDEF''"
  unfolding HEX_def by (rule nth_mem) simp

lemma digits_chars: "set (digits 16 HEX n) \<subseteq> set ''0123456789ABCDEF''"
proof (induction n rule: less_induct)
  case (less n)
  show ?case
  proof (cases "n < 16")
    case True
    then show ?thesis using HEX_char by (subst digits.simps) auto
  next
    case False
    then show ?thesis using less [of "n div 16"] HEX_char [of "n mod 16"] by (subst digits.simps) auto
  qed
qed

lemma bevy_name_length: "0 \<le> n \<Longrightarrow> n < 2 ^ 32 \<Longrightarrow> length (bevy_name n) = 8"
  using length_digits [of "nat n" 16 8 HEX] by (simp add: bevy_name_def zero_pad_def u32_id nat_less_iff)

lemma bevy_name_chars: "set (bevy_name n) \<subseteq> set ''0123456789ABCDEF''"
  using digits_chars by (auto simp: bevy_name_def zero_pad_def)

lemma hex_chars_plain: "c \<in> set ''0123456789ABCDEF'' \<Longrightarrow> ascii c \<and> \<not> needs_escape c \<and> c \<noteq> CHR ''/'' \<and> c \<noteq> CHR ''#'' \<and> c \<noteq> CHR '':'' \<and> c \<noteq> CHR ''.''"
proof -
  have "list_all (\<lambda>c. ascii c \<and> \<not> needs_escape c \<and> c \<noteq> CHR ''/'' \<and> c \<noteq> CHR ''#'' \<and> c \<noteq> CHR '':'' \<and> c \<noteq> CHR ''.'') ''0123456789ABCDEF''"
    by code_simp
  then show "c \<in> set ''0123456789ABCDEF'' \<Longrightarrow> ?thesis" unfolding list_all_iff by blast
qed

lemma idx_plain: "plain_part ''idx''" "\<forall>c \<in> set ''/idx''. ascii c \<and> \<not> needs_escape c"
proof -
  show "plain_part ''idx''" by (simp add: plain_part_def plain_element_def BUFF_SIZE_def)
  have "list_all (\<lambda>c. ascii c \<and> \<not> needs_escape c) ''/idx''" by code_simp
  then show "\<forall>c \<in> set ''/idx''. ascii c \<and> \<not> needs_escape c" unfolding list_all_iff .
qed

lemma bevy_name_plain:
  assumes "0 \<le> n" "n < 2 ^ 32"
  shows "plain_part (bevy_name n)" "\<forall>c \<in> set (bevy_name n). ascii c \<and> \<not> needs_escape c"
proof -
  have c: "\<forall>c \<in> set (bevy_name n). ascii c \<and> \<not> needs_escape c \<and> c \<noteq> CHR ''/'' \<and> c \<noteq> CHR ''#'' \<and> c \<noteq> CHR '':'' \<and> c \<noteq> CHR ''.''"
    using bevy_name_chars hex_chars_plain by blast
  then show "\<forall>c \<in> set (bevy_name n). ascii c \<and> \<not> needs_escape c" by blast
  have "bevy_name n \<noteq> []" "bevy_name n \<noteq> ''.''" "bevy_name n \<noteq> ''..''" using bevy_name_length [OF assms] by auto
  then show "plain_part (bevy_name n)" using c bevy_name_length [OF assms] by (auto simp: plain_part_def plain_element_def BUFF_SIZE_def)
qed

section \<open>Opening a new member\<close>

lemma c_string_terminated: "NUL \<notin> set e \<Longrightarrow> c_string (e @ NUL # r) = e"
  unfolding c_string_def by (subst takeWhile_append2) auto

text \<open>A member that can be added to the volume: its URN parses, its name is plain and not taken.\<close>

definition new_member :: "'z zip_file \<Rightarrow> rdf_urn \<Rightarrow> bool" where
  "new_member zf u \<longleftrightarrow> urn_inv u \<and> length (urn_value u) < BUFF_SIZE \<and> plain_name (RDFURN_relative_name u (urn zf)) \<and>
     find_member (RDFURN_relative_name u (urn zf)) (members zf) = None"

definition fresh_segment :: "'z zip_file \<Rightarrow> rdf_urn \<Rightarrow> 'z zip_segment \<Rightarrow> bool" where
  "fresh_segment zf u s \<longleftrightarrow> open_stored s [] \<and> mode s = CHR ''w'' \<and> container s = Some (urn zf) \<and> urn_value (urn s) = urn_value u \<and>
     fits (cd_fields (cd s)) \<and> cd_magic (cd s) = 0x2014b50"

lemma open_member_new:
  fixes zf :: "'z zip_file"
  assumes "new_member zf u"
  shows "\<exists>s. ZipFile_open_member Z now fresh junk uuid a zf u (CHR ''w'') (int ZIP_STORED)
      = Some (zf\<lparr>members := members zf @ [s]\<rparr>, Some (length (members zf))) \<and> fresh_segment zf u s \<and>
      c_string (case str_value (filename s) of None \<Rightarrow> [] | Some v \<Rightarrow> v) = RDFURN_relative_name u (urn zf)"
proof -
  let ?n = "RDFURN_relative_name u (urn zf)"
  have N: "urn_inv u" "length (urn_value u) < BUFF_SIZE" "plain_name ?n" "find_member ?n (members zf) = None"
    using assms by (auto simp: new_member_def)
  have "member_name ?n" using N(3) by (simp add: plain_name_def)
  from segment_name_spec [OF this, of fresh] obtain c r where nm: "segment_name_from_URN fresh u (urn zf) = Some (?n @ NUL # c # r)" "NUL \<notin> set ?n"
    unfolding escaped_plain [OF N(3)] by blast
  obtain u' where u': "RDFURN_copy u = Some u'" "urn_inv u'" "urn_value u' = urn_value u" using RDFURN_copy_plain [OF N(1,2)] by blast
  obtain s0 :: "'z zip_segment" where s0: "ZipSegment_Con a (Some u) (CHR ''w'') now = Some s0" "urn s0 = u'" "mode s0 = CHR ''w''"
      "fits (cd_fields ((cd s0)\<lparr>cd_compression_method := 0\<rparr>))" "cd_magic (cd s0) = 0x2014b50" "file_size (cd s0) = 0" "compress_size (cd s0) = 0"
  proof -
    have r: "nat (u16 x) < 65536" for x using u16_range [of x] by (simp add: nat_less_iff)
    show ?thesis using that r by (auto simp: ZipSegment_Con_def AFFObject_Con_def u' fits_def cd_fields_def push_bit_eq_mult)
  qed
  let ?s = "s0\<lparr>container := Some (urn zf), compression_method := int ZIP_STORED,
      filename := (filename s0)\<lparr>str_length := int (length ?n) + 1, str_value := Some (?n @ [NUL, NUL])\<rparr>\<rparr>"
  define s where "s = ?s\<lparr>buffer := Some (StringIO_constructor junk), cd := (cd s0)\<lparr>cd_compression_method := 0\<rparr>, complete := True\<rparr>"
  have "parser u' \<noteq> None" using u'(2) by (auto simp: urn_inv_def)
  then have fin: "ZipSegment_finish Z uuid junk ?s = Some (s, 1, None)"
    using s0(2,3) u16_id [of 0] by (auto simp: ZipSegment_finish_def Let_def ZIP_STORED_def ZIP_DEFLATE_def AFFObject_finish_def s_def)
  have "c_string (?n @ NUL # c # r) = ?n" by (rule c_string_terminated [OF nm(2)])
  then have "ZipFile_open_member Z now fresh junk uuid a zf u (CHR ''w'') (int ZIP_STORED)
      = Some (zf\<lparr>members := members zf @ [s]\<rparr>, Some (length (members zf)))"
    using nm(1) N(4) s0(1) XSDString_set_name [OF nm(2), of "filename s0" c r] fin by (simp add: ZipFile_open_member_def)
  moreover have "fresh_segment zf u s"
    using s0 u'(3) at_end_constructor [of junk] by (simp add: fresh_segment_def s_def open_stored_def ZIP_STORED_def)
  moreover have "c_string (case str_value (filename s) of None \<Rightarrow> [] | Some v \<Rightarrow> v) = ?n"
    using c_string_terminated [OF nm(2), of "[NUL]"] by (simp add: s_def)
  ultimately show ?thesis by blast
qed

lemma find_member_None: "find_member n ms = None \<longleftrightarrow> (\<forall>s \<in> set ms. c_string (case str_value (filename s) of None \<Rightarrow> [] | Some v \<Rightarrow> v) \<noteq> n)"
  by (auto simp: find_member_def find_None_iff set_conv_nth)

section \<open>The chunks of a bevy\<close>

text \<open>The offsets at which the chunks of \<open>n\<close> bytes begin, from \<open>co\<close> on, and the index that is written for them.\<close>

function chunk_starts :: "nat \<Rightarrow> nat \<Rightarrow> nat \<Rightarrow> nat list" where
  "chunk_starts cs co n = (if cs = 0 \<or> n \<le> co then [] else co # chunk_starts cs (co + cs) n)"
  by pat_completeness auto
termination by (relation "measure (\<lambda>(cs, co, n). n - co)") auto

declare chunk_starts.simps [simp del]

definition index_bytes :: "nat \<Rightarrow> nat \<Rightarrow> buf" where
  "index_bytes cs n = concat (map (\<lambda>i. le_bytes 4 (i * cs)) [0 ..< (n + cs - 1) div cs])"

lemma chunk_starts_eq:
  assumes "0 < cs"
  shows "chunk_starts cs (k * cs) n = map (\<lambda>i. i * cs) [k ..< (n + cs - 1) div cs]"
proof (induction "n - k * cs" arbitrary: k rule: less_induct)
  case less
  show ?case
  proof (cases "n \<le> k * cs")
    case True
    then have "(n + cs - 1) div cs < Suc k" using assms by (intro less_mult_imp_div_less) simp
    then show ?thesis using True by (simp add: chunk_starts.simps)
  next
    case False
    then have "Suc k \<le> (n + cs - 1) div cs" using assms by (simp add: less_eq_div_iff_mult_less_eq)
    then have "[k ..< (n + cs - 1) div cs] = k # [Suc k ..< (n + cs - 1) div cs]" by (simp add: upt_conv_Cons)
    moreover have "chunk_starts cs (Suc k * cs) n = map (\<lambda>i. i * cs) [Suc k ..< (n + cs - 1) div cs]"
      using False assms by (intro less) simp
    ultimately show ?thesis using False assms by (subst chunk_starts.simps) (simp add: add.commute)
  qed
qed

lemma index_bytes_eq: "0 < cs \<Longrightarrow> index_bytes cs n = concat (map (le_bytes 4) (chunk_starts cs 0 n))"
  using chunk_starts_eq [of cs 0 n] by (simp add: index_bytes_def comp_def)

lemma chunk_starts_next: "co < n \<Longrightarrow> 0 < cs \<Longrightarrow> chunk_starts cs co n = co # chunk_starts cs (co + min cs (n - co)) n"
  using chunk_starts.simps [of cs co n] chunk_starts.simps [of cs n n] chunk_starts.simps [of cs "co + cs" n] by (auto simp: min_def)

section \<open>Writing the chunks\<close>

text \<open>A member that is open, has received \<open>data\<close>, and is otherwise the member \<open>s0\<close>.\<close>

definition growing :: "'z zip_segment \<Rightarrow> 'z zip_segment \<Rightarrow> buf \<Rightarrow> bool" where
  "growing s0 s data \<longleftrightarrow> open_stored s data \<and> same_segment s0 s \<and> fits (cd_fields (cd s))"

lemma member_write_stored:
  assumes "growing s0 (members zf ! i) data" "2 * (length data + length x) < 268435456" "\<forall>c d. crc32 Z c d < 2 ^ 32"
  shows "\<exists>s. member_write Z i x zf = Some (zf\<lparr>members := (members zf)[i := s]\<rparr>) \<and> growing s0 s (data @ x)"
proof -
  have g: "open_stored (members zf ! i) data" "same_segment s0 (members zf ! i)" "fits (cd_fields (cd (members zf ! i)))"
    using assms(1) by (auto simp: growing_def)
  obtain s where s: "ZipSegment_write Z (members zf ! i) x = Some (s, int (length x), None)" "open_stored s (data @ x)" "same_segment (members zf ! i) s"
    using ZipSegment_write_stored [OF g(1) assms(2), of Z] by blast
  have "fits (cd_fields (cd s))" by (rule ZipSegment_write_fits [OF g(1) assms(2) g(3) assms(3) s(1)])
  then show ?thesis using s g(2) by (auto simp: member_write_def growing_def same_segment_def)
qed

lemma chunk_loop_stored:
  assumes cs: "0 < cs" "cs < 2 ^ 31" "cs \<le> compressBound K cs" and b: "at_end b" "sio_content b = data"
    and ij: "i < length (members zf)" "j < length (members zf)" "i \<noteq> j" and Z: "\<forall>c d. crc32 Z c d < 2 ^ 32"
    and g: "growing si (members zf ! i) (take co data)" "growing sj (members zf ! j) idx" and co: "co \<le> length data"
    and len: "2 * length data < 268435456" "2 * (length idx + 4 * length (chunk_starts cs co (length data))) < 268435456"
  shows "\<exists>s t. chunk_loop Z K (int cs) (int ZIP_STORED) i j b co co zf = Some (zf\<lparr>members := (members zf)[i := s, j := t]\<rparr>, True) \<and>
     growing si s data \<and> growing sj t (idx @ concat (map (le_bytes 4) (chunk_starts cs co (length data))))"
  using ij g co len(2)
proof (induction "length data - co" arbitrary: zf co idx rule: less_induct)
  case less
  have sz: "sio_size b = int (length data)" "u32 (sio_size b) = int (length data)"
    using at_end_contents [OF b(1)] b(2) len(1) by (auto intro!: c_int)
  show ?case
  proof (cases "co < length data")
    case False
    then have "chunk_starts cs co (length data) = []" "growing si (members zf ! i) data" using less.prems(4) by (simp_all add: chunk_starts.simps)
    moreover have "zf\<lparr>members := (members zf)[i := members zf ! i, j := members zf ! j]\<rparr> = zf" by simp
    ultimately show ?thesis using False less.prems(5) sz(2)
      by (subst chunk_loop.simps) (intro exI [of _ "members zf ! i"] exI [of _ "members zf ! j"], simp)
  next
    case True
    define n where "n = min cs (length data - co)"
    have n: "0 < n" "co + n \<le> length data" using True cs(1) by (auto simp: n_def)
    have u: "nat (u32 (int cs)) = cs" "nat (u64 (int cs)) = cs" "nat (u32 (sio_size b - int co)) = length data - co" "nat (u32 (int co + int n)) = co + n"
      using cs(2) len(1) True n(2) unfolding sz(1) by (simp_all add: u32_id u64_id)
    define m where "m = length data"
    have e: "data = take m (sio_data b)" using b(2) sz(1) by (simp add: sio_content_def m_def)
    have lb: "m \<le> length (sio_data b)" using arg_cong [OF e, of length] by (simp add: m_def [symmetric])
    have "take n (drop co data) = take n (drop co (sio_data b))"
      using n(2) unfolding m_def [symmetric] by (subst e) (simp add: drop_take min_absorb1)
    then have rd: "mem_read co n (sio_data b) = Some (take n (drop co data))" using n(2) lb by (simp add: mem_read_def m_def)
    have st: "chunk_starts cs co (length data) = co # chunk_starts cs (co + n) (length data)"
      unfolding n_def by (rule chunk_starts_next [OF True cs(1)])
    obtain t where t: "member_write Z j (le_bytes 4 co) zf = Some (zf\<lparr>members := (members zf)[j := t]\<rparr>)" "growing sj t (idx @ le_bytes 4 co)"
      using member_write_stored [OF less.prems(5) _ Z, of "le_bytes 4 co"] less.prems(7) st by auto
    let ?z1 = "zf\<lparr>members := (members zf)[j := t]\<rparr>"
    have "growing si (members ?z1 ! i) (take co data)" using less.prems by simp
    from member_write_stored [OF this _ Z, of "take n (drop co data)"] n(2) len(1)
    obtain s where s: "member_write Z i (take n (drop co data)) ?z1 = Some (?z1\<lparr>members := (members ?z1)[i := s]\<rparr>)" "growing si s (take co data @ take n (drop co data))"
      by auto
    let ?z2 = "?z1\<lparr>members := (members ?z1)[i := s]\<rparr>"
    have "growing si (members ?z2 ! i) (take (co + n) data)" "growing sj (members ?z2 ! j) (idx @ le_bytes 4 co)"
      using s(2) t(2) less.prems by (simp_all add: take_add)
    then obtain s' t' where st': "chunk_loop Z K (int cs) (int ZIP_STORED) i j b (co + n) (co + n) ?z2 = Some (?z2\<lparr>members := (members ?z2)[i := s', j := t']\<rparr>, True)"
        "growing si s' data" "growing sj t' ((idx @ le_bytes 4 co) @ concat (map (le_bytes 4) (chunk_starts cs (co + n) (length data))))"
      using less.hyps [of "co + n" ?z2 "idx @ le_bytes 4 co"] less.prems n st by (auto simp: diff_less_mono2)
    have m: "?z2\<lparr>members := (members ?z2)[i := s', j := t']\<rparr> = zf\<lparr>members := (members zf)[i := s', j := t']\<rparr>"
      using less.prems(3) by (simp add: list_update_swap)
    have lc: "length (take n (drop co data)) = n" "n \<le> compressBound K cs" using n(2) cs(3) by (auto simp: n_def)
    have "chunk_loop Z K (int cs) (int ZIP_STORED) i j b co co zf = chunk_loop Z K (int cs) (int ZIP_STORED) i j b (co + n) (co + n) ?z2"
      using True sz(2) rd t(1) s(1) lc by (subst chunk_loop.simps) (simp add: Let_def u n_def [symmetric])
    then show ?thesis using st' m st by auto
  qed
qed

section \<open>Running a job\<close>

lemma member_close_stored:
  assumes g: "growing s0 (members zf ! i) data" "mode s0 = CHR ''w''" "container s0 = Some (urn zf)" "plain_name (RDFURN_relative_name (urn s0) (urn zf))"
    and r: "volume_owned r (urn zf) (addr zf) (Suc k)" and len: "length (disk (backing_store zf)) \<le> ZIP64_LIMIT" "length data < 268435456"
  shows "\<exists>s f r'. member_close Z fresh i r zf = Some (zf\<lparr>backing_store := f, members := (members zf)[i := s]\<rparr>, r') \<and>
     disk f = disk (backing_store zf) @ segment_record s data \<and> stored_at (disk f) s (RDFURN_relative_name (urn s0) (urn zf)) data \<and>
     same_segment s0 s \<and> volume_owned r' (urn zf) (addr zf) k"
proof -
  have S: "open_stored (members zf ! i) data" "same_segment s0 (members zf ! i)" "fits (cd_fields (cd (members zf ! i)))"
    using g(1) by (auto simp: growing_def)
  then have e: "mode (members zf ! i) = CHR ''w''" "container (members zf ! i) = Some (urn zf)" "urn (members zf ! i) = urn s0"
    using g(2,3) by (simp_all add: same_segment_def)
  obtain s f r' where c: "ZipSegment_close Z fresh r zf (members zf ! i) = Some (s, zf\<lparr>backing_store := f\<rparr>, r', 1, None)"
      "disk f = disk (backing_store zf) @ segment_record s data" "stored_at (disk f) s (RDFURN_relative_name (urn s0) (urn zf)) data"
      "volume_owned r' (urn zf) (addr zf) k" "same_segment (members zf ! i) s"
    using ZipSegment_close_stored_at [OF S(1) e(1,2) _ S(3) r len, of Z fresh] g(4) unfolding e(3) by blast
  have "same_segment s0 s" using S(2) c(5) by (auto simp: same_segment_def)
  moreover have "member_close Z fresh i r zf = Some (zf\<lparr>backing_store := f, members := (members zf)[i := s]\<rparr>, r')"
    using c(1) by (simp add: member_close_def)
  ultimately show ?thesis using c(2-4) by blast
qed

lemma close_two_members:
  assumes z: "members z = ms @ [s1, t1]" and g: "growing s0 s1 data" "growing t0 t1 ix"
    and fs: "mode s0 = CHR ''w''" "container s0 = Some (urn z)" "mode t0 = CHR ''w''" "container t0 = Some (urn z)"
    and pl: "plain_name (RDFURN_relative_name (urn s0) (urn z))" "plain_name (RDFURN_relative_name (urn t0) (urn z))"
    and r: "volume_owned r (urn z) (addr z) (Suc (Suc k))"
    and len: "length (disk (backing_store z)) + length data + 70000 \<le> ZIP64_LIMIT" "length data < 268435456" "length ix < 268435456"
  shows "\<exists>s t f z' r1 r2. member_close Z fresh (length ms) r z = Some (z', r1) \<and>
     member_close Z fresh (Suc (length ms)) r1 z' = Some (z\<lparr>backing_store := f, members := ms @ [s, t]\<rparr>, r2) \<and>
     disk f = disk (backing_store z) @ segment_record s data @ segment_record t ix \<and>
     stored_at (disk f) s (RDFURN_relative_name (urn s0) (urn z)) data \<and> stored_at (disk f) t (RDFURN_relative_name (urn t0) (urn z)) ix \<and>
     same_segment s0 s \<and> same_segment t0 t \<and> volume_owned r2 (urn z) (addr z) k"
proof -
  have g1: "growing s0 (members z ! length ms) data" and d1: "length (disk (backing_store z)) \<le> ZIP64_LIMIT" using g(1) z len(1) by simp_all
  obtain s f1 r1 where c1: "member_close Z fresh (length ms) r z = Some (z\<lparr>backing_store := f1, members := (members z)[length ms := s]\<rparr>, r1)"
      "disk f1 = disk (backing_store z) @ segment_record s data" "stored_at (disk f1) s (RDFURN_relative_name (urn s0) (urn z)) data" "same_segment s0 s"
      "volume_owned r1 (urn z) (addr z) (Suc k)"
    using member_close_stored [OF g1 fs(1,2) pl(1) r d1 len(2), of Z fresh] by blast
  define z' where "z' = z\<lparr>backing_store := f1, members := (members z)[length ms := s]\<rparr>"
  have z': "members z' = ms @ [s, t1]" "urn z' = urn z" "addr z' = addr z" "backing_store z' = f1" by (simp_all add: z'_def z)
  have g2: "growing t0 (members z' ! Suc (length ms)) ix" using g(2) z'(1) by (simp add: nth_append)
  have "length (segment_record s data) \<le> length data + 66000"
    using c1(3) length_seg_name [of s] by (auto simp: segment_record_def stored_at_def closed_ok_def name_ok_def)
  then have d2: "length (disk (backing_store z')) \<le> ZIP64_LIMIT" using len(1) z'(4) c1(2) by simp
  obtain t f r2 where c2: "member_close Z fresh (Suc (length ms)) r1 z' = Some (z'\<lparr>backing_store := f, members := (members z')[Suc (length ms) := t]\<rparr>, r2)"
      "disk f = disk f1 @ segment_record t ix" "stored_at (disk f) t (RDFURN_relative_name (urn t0) (urn z)) ix" "same_segment t0 t"
      "volume_owned r2 (urn z) (addr z) k"
    using member_close_stored [OF g2 fs(3) _ _ _ d2 len(3), of r1 k Z fresh] fs(4) pl(2) c1(5) unfolding z'(2-4) by auto
  have z: "z'\<lparr>backing_store := f, members := (members z')[Suc (length ms) := t]\<rparr> = z\<lparr>backing_store := f, members := ms @ [s, t]\<rparr>"
    unfolding z'(1) by (simp add: z'_def list_update_append)
  have "disk f = disk (backing_store z) @ segment_record s data @ segment_record t ix" using c1(2) c2(2) by simp
  moreover have "stored_at (disk f) s (RDFURN_relative_name (urn s0) (urn z)) data" unfolding c2(2) by (rule stored_at_append [OF c1(3)])
  ultimately show ?thesis using c1(1,4) c2(1,3-5) unfolding z'_def [symmetric] z by blast
qed

text \<open>Where the members of an image live: under a path inside the volume that needs no escaping.\<close>

definition image_path :: "'z zip_file \<Rightarrow> rdf_urn \<Rightarrow> buf \<Rightarrow> bool" where
  "image_path zf w path \<longleftrightarrow> urn_plain w \<and> urn_value w = urn_value (urn zf) @ path \<and> length (urn_value w) + 13 < BUFF_SIZE \<and>
     (\<forall>c \<in> set path. ascii c \<and> \<not> needs_escape c) \<and> 3 * (length path + 13) \<le> BUFF_SIZE - 10"

definition bevy_member :: "buf \<Rightarrow> int \<Rightarrow> buf" where
  "bevy_member path n = path @ ''/'' @ bevy_name n"

definition index_member :: "buf \<Rightarrow> int \<Rightarrow> buf" where
  "index_member path n = bevy_member path n @ ''/idx''"

lemma relative_name_append: "urn_value u = urn_value v @ x \<Longrightarrow> RDFURN_relative_name u v = x"
  unfolding RDFURN_relative_name_def startswith_def by simp

lemma slash_plain: "ascii (CHR ''/'')" "\<not> needs_escape (CHR ''/'')"
  by code_simp+

lemma bevy_names_plain:
  assumes "image_path zf w path" "0 \<le> n" "n < 2 ^ 32"
  shows "plain_name (bevy_member path n)" "plain_name (index_member path n)"
proof -
  have c: "\<forall>c \<in> set (bevy_member path n). ascii c \<and> \<not> needs_escape c" "\<forall>c \<in> set (index_member path n). ascii c \<and> \<not> needs_escape c"
    using assms(1) bevy_name_plain(2) [OF assms(2,3)] idx_plain(2) slash_plain by (auto simp: bevy_member_def index_member_def image_path_def)
  moreover have "length (bevy_member path n) = length path + 9" "length (index_member path n) = length path + 13"
    using bevy_name_length [OF assms(2,3)] by (simp_all add: bevy_member_def index_member_def)
  moreover have "bevy_member path n \<noteq> []" "index_member path n \<noteq> []" by (simp_all add: bevy_member_def index_member_def)
  ultimately show "plain_name (bevy_member path n)" "plain_name (index_member path n)"
    using assms(1) by (auto simp: plain_name_def member_name_def image_path_def dest: hd_in_set)
qed

text \<open>The URNs of the two members of a bevy.\<close>

lemma bevy_urns:
  assumes p: "image_path zf w path" and n: "0 \<le> n" "n < 2 ^ 32"
  shows "\<exists>u0 u1 u2. RDFURN_copy w = Some u0 \<and> RDFURN_add u0 (bevy_name n) = Some u1 \<and> RDFURN_add u1 ''idx'' = Some u2 \<and>
     urn_plain u1 \<and> urn_plain u2 \<and> urn_value u1 = urn_value (urn zf) @ bevy_member path n \<and>
     urn_value u2 = urn_value (urn zf) @ index_member path n \<and> length (urn_value u1) < BUFF_SIZE \<and> length (urn_value u2) < BUFF_SIZE"
proof -
  have P: "urn_plain w" "urn_value w = urn_value (urn zf) @ path" "length (urn_value w) + 13 < BUFF_SIZE"
    using p by (auto simp: image_path_def)
  obtain u0 where u0: "RDFURN_copy w = Some u0" "urn_plain u0" "urn_value u0 = urn_value w"
    using RDFURN_copy_plain [of w] P(1,3) by (auto simp: urn_plain_def)
  obtain u1 where u1: "RDFURN_add u0 (bevy_name n) = Some u1" "urn_plain u1" "urn_value u1 = urn_value w @ ''/'' @ bevy_name n"
    using RDFURN_add_plain [OF u0(2) bevy_name_plain(1) [OF n]] unfolding u0(3) by blast
  obtain u2 where u2: "RDFURN_add u1 ''idx'' = Some u2" "urn_plain u2" "urn_value u2 = urn_value u1 @ ''/'' @ ''idx''"
    using RDFURN_add_plain [OF u1(2) idx_plain(1)] by blast
  have v1: "urn_value u1 = urn_value (urn zf) @ bevy_member path n" unfolding u1(3) P(2) bevy_member_def by simp
  have v2: "urn_value u2 = urn_value (urn zf) @ index_member path n" unfolding u2(3) v1 index_member_def by simp
  have l: "length (urn_value u1) < BUFF_SIZE" "length (urn_value u2) < BUFF_SIZE"
    using P(3) bevy_name_length [OF n] unfolding u2(3) u1(3) by simp_all
  show ?thesis using u0(1) u1(1,2) u2(1,2) v1 v2 l by blast
qed

text \<open>The two members of a job as they are opened.\<close>

lemma open_bevy_members:
  fixes zf :: "'z zip_file"
  assumes p: "image_path zf w path" and n: "0 \<le> n" "n < 2 ^ 32"
    and free: "find_member (bevy_member path n) (members zf) = None" "find_member (index_member path n) (members zf) = None"
  shows "\<exists>u0 u1 u2 s t. RDFURN_copy w = Some u0 \<and> RDFURN_add u0 (bevy_name n) = Some u1 \<and> RDFURN_add u1 ''idx'' = Some u2 \<and>
     ZipFile_open_member Z now fresh junk uuid a zf u1 (CHR ''w'') (int ZIP_STORED)
       = Some (zf\<lparr>members := members zf @ [s]\<rparr>, Some (length (members zf))) \<and>
     ZipFile_open_member Z now fresh junk uuid (Suc a) (zf\<lparr>members := members zf @ [s]\<rparr>) u2 (CHR ''w'') (int ZIP_STORED)
       = Some (zf\<lparr>members := members zf @ [s, t]\<rparr>, Some (Suc (length (members zf)))) \<and>
     fresh_segment zf u1 s \<and> fresh_segment zf u2 t \<and>
     RDFURN_relative_name (urn s) (urn zf) = bevy_member path n \<and> RDFURN_relative_name (urn t) (urn zf) = index_member path n"
proof -
  obtain u0 u1 u2 where u: "RDFURN_copy w = Some u0" "RDFURN_add u0 (bevy_name n) = Some u1" "RDFURN_add u1 ''idx'' = Some u2" "urn_plain u1" "urn_plain u2"
      and v1: "urn_value u1 = urn_value (urn zf) @ bevy_member path n" and v2: "urn_value u2 = urn_value (urn zf) @ index_member path n"
      and l: "length (urn_value u1) < BUFF_SIZE" "length (urn_value u2) < BUFF_SIZE"
    using bevy_urns [OF p n] by blast
  note r1 = relative_name_append [OF v1] and r2 = relative_name_append [OF v2] and pl = bevy_names_plain [OF p n]
  have "new_member zf u1" using u(4) l(1) pl(1) free(1) r1 by (simp add: new_member_def urn_plain_def)
  from open_member_new [OF this, of Z now fresh junk uuid a]
  obtain s where s: "ZipFile_open_member Z now fresh junk uuid a zf u1 (CHR ''w'') (int ZIP_STORED)
       = Some (zf\<lparr>members := members zf @ [s]\<rparr>, Some (length (members zf)))" "fresh_segment zf u1 s"
      "c_string (case str_value (filename s) of None \<Rightarrow> [] | Some v \<Rightarrow> v) = bevy_member path n"
    unfolding r1 by blast
  let ?z = "zf\<lparr>members := members zf @ [s]\<rparr>"
  have "bevy_member path n \<noteq> index_member path n" by (simp add: index_member_def)
  then have "find_member (index_member path n) (members ?z) = None" using free(2) s(3) by (simp add: find_member_None)
  then have "new_member ?z u2" using u(5) l(2) pl(2) r2 by (simp add: new_member_def urn_plain_def)
  from open_member_new [OF this, of Z now fresh junk uuid "Suc a"]
  obtain t where t: "ZipFile_open_member Z now fresh junk uuid (Suc a) ?z u2 (CHR ''w'') (int ZIP_STORED)
       = Some (zf\<lparr>members := members zf @ [s, t]\<rparr>, Some (Suc (length (members zf))))" "fresh_segment zf u2 t"
    by (auto simp: fresh_segment_def)
  have "RDFURN_relative_name (urn s) (urn zf) = bevy_member path n" "RDFURN_relative_name (urn t) (urn zf) = index_member path n"
    using s(2) t(2) v1 v2 by (auto intro!: relative_name_append simp: fresh_segment_def)
  then show ?thesis using u(1-3) s(1,2) t by blast
qed

lemma growing_fresh: "fresh_segment zf u s \<Longrightarrow> growing s s []"
  by (simp add: fresh_segment_def growing_def same_segment_def)

text \<open>A stored job appends its bevy and the index of its chunks to the volume, as two members.\<close>

lemma ImageWorker_run_stored:
  fixes zf :: "'z zip_file"
  assumes img: "stored img = Some st" "urn_value st = urn_value (urn zf)" "image_path zf (urn img) path" "chunk_size img = int cs"
      "compression img = int ZIP_STORED"
    and cs: "0 < cs" "cs < 2 ^ 31" "cs \<le> compressBound K cs" and Z: "\<forall>c d. crc32 Z c d < 2 ^ 32"
    and w: "at_end (bevy w)" "content w = data" "worker_count w = n" "0 \<le> n" "n < 2 ^ 32"
    and free: "find_member (bevy_member path n) (members zf) = None" "find_member (index_member path n) (members zf) = None"
    and r: "volume_owned r (urn zf) (addr zf) (Suc (Suc k))"
    and len: "2 * length data < 268435456" "2 * length (index_bytes cs (length data)) < 268435456"
      "length (disk (backing_store zf)) + length data + 70000 \<le> ZIP64_LIMIT"
  shows "\<exists>s t f r'. ImageWorker_run Z K now fresh junk uuid a img w r zf
       = Some (zf\<lparr>backing_store := f, members := members zf @ [s, t]\<rparr>, r', None) \<and>
     disk f = disk (backing_store zf) @ segment_record s data @ segment_record t (index_bytes cs (length data)) \<and>
     stored_at (disk f) s (bevy_member path n) data \<and> stored_at (disk f) t (index_member path n) (index_bytes cs (length data)) \<and>
     cd_magic (cd s) = 0x2014b50 \<and> cd_magic (cd t) = 0x2014b50 \<and> volume_owned r' (urn zf) (addr zf) k"
proof -
  let ?i = "length (members zf)" and ?ix = "index_bytes cs (length data)"
  obtain u0 u1 u2 s0 t0 where o: "RDFURN_copy (urn img) = Some u0" "RDFURN_add u0 (bevy_name n) = Some u1" "RDFURN_add u1 ''idx'' = Some u2"
     "ZipFile_open_member Z now fresh junk uuid a zf u1 (CHR ''w'') (int ZIP_STORED) = Some (zf\<lparr>members := members zf @ [s0]\<rparr>, Some ?i)"
     "ZipFile_open_member Z now fresh junk uuid (Suc a) (zf\<lparr>members := members zf @ [s0]\<rparr>) u2 (CHR ''w'') (int ZIP_STORED)
       = Some (zf\<lparr>members := members zf @ [s0, t0]\<rparr>, Some (Suc ?i))"
     "fresh_segment zf u1 s0" "fresh_segment zf u2 t0"
     "RDFURN_relative_name (urn s0) (urn zf) = bevy_member path n" "RDFURN_relative_name (urn t0) (urn zf) = index_member path n"
    using open_bevy_members [OF img(3) w(4,5) free, of Z now fresh junk uuid a] by blast
  define z2 where "z2 = zf\<lparr>members := members zf @ [s0, t0]\<rparr>"
  have z2: "members z2 ! ?i = s0" "members z2 ! Suc ?i = t0" "length (members z2) = Suc (Suc ?i)" "urn z2 = urn zf" "addr z2 = addr zf"
    by (simp_all add: z2_def nth_append)
  have own: "Resolver_own r st (CHR ''w'') = Some (addr zf)" using r img(2) by (simp add: volume_owned_def volume_live_def Resolver_own_def)
  obtain r1 where r1: "Resolver_cache_return r z2 = Some r1" "volume_owned r1 (urn zf) (addr zf) (Suc (Suc k))"
    using cache_return_owned [OF r] by blast
  have ix: "?ix = concat (map (le_bytes 4) (chunk_starts cs 0 (length data)))" by (rule index_bytes_eq [OF cs(1)])
  have lix: "length ?ix = 4 * length (chunk_starts cs 0 (length data))" unfolding ix by (simp add: length_concat comp_def sum_list_triv)
  obtain s1 t1 where l: "chunk_loop Z K (int cs) (int ZIP_STORED) ?i (Suc ?i) (bevy w) 0 0 z2
      = Some (z2\<lparr>members := (members z2)[?i := s1, Suc ?i := t1]\<rparr>, True)" "growing s0 s1 data" "growing t0 t1 ?ix"
    using chunk_loop_stored [OF cs w(1) w(2) [unfolded content_def], of ?i z2 "Suc ?i" Z s0 0 t0 "[]"] growing_fresh [OF o(6)] growing_fresh [OF o(7)] z2 Z len(1,2) lix
    unfolding ix by auto
  define z3 where "z3 = z2\<lparr>members := (members z2)[?i := s1, Suc ?i := t1]\<rparr>"
  have z3: "members z3 = members zf @ [s1, t1]" "urn z3 = urn zf" "addr z3 = addr zf" "backing_store z3 = backing_store zf"
    by (simp_all add: z3_def z2_def nth_append list_update_append)
  have fs: "mode s0 = CHR ''w''" "container s0 = Some (urn zf)" "mode t0 = CHR ''w''" "container t0 = Some (urn zf)"
      "cd_magic (cd s0) = 0x2014b50" "cd_magic (cd t0) = 0x2014b50"
    using o(6,7) by (simp_all add: fresh_segment_def)
  have pl: "plain_name (RDFURN_relative_name (urn s0) (urn zf))" "plain_name (RDFURN_relative_name (urn t0) (urn zf))"
    unfolding o(8,9) by (rule bevy_names_plain [OF img(3) w(4,5)])+
  have d: "length (disk (backing_store z3)) + length data + 70000 \<le> ZIP64_LIMIT" "length data < 268435456" "length ?ix < 268435456"
    using len z3(4) by simp_all
  obtain s t f z4 r2 r3 where c: "member_close Z fresh ?i r1 z3 = Some (z4, r2)"
      "member_close Z fresh (Suc ?i) r2 z4 = Some (z3\<lparr>backing_store := f, members := members zf @ [s, t]\<rparr>, r3)"
      "disk f = disk (backing_store zf) @ segment_record s data @ segment_record t ?ix"
      "stored_at (disk f) s (bevy_member path n) data" "stored_at (disk f) t (index_member path n) ?ix"
      "same_segment s0 s" "same_segment t0 t" "volume_owned r3 (urn zf) (addr zf) k"
    using close_two_members [OF z3(1) l(2,3), of r1 k Z fresh] fs(1-4) pl r1(2) d unfolding z3(2-4) o(8,9) by auto
  have z5: "z3\<lparr>backing_store := f, members := members zf @ [s, t]\<rparr> = zf\<lparr>backing_store := f, members := members zf @ [s, t]\<rparr>"
    by (simp add: z3_def z2_def)
  have run: "ImageWorker_run Z K now fresh junk uuid a img w r zf = Some (zf\<lparr>backing_store := f, members := members zf @ [s, t]\<rparr>, r3, None)"
    unfolding ImageWorker_run_def img(1,4,5) w(3) o(1) prod.case option.case o(2) own o(3-5) z2_def [symmetric] r1(1) l(1)
      z3_def [symmetric] c(1,2) z5
    by simp
  have "cd_magic (cd s) = 0x2014b50" "cd_magic (cd t) = 0x2014b50" using fs(5,6) c(6,7) by (simp_all add: same_segment_def)
  then show ?thesis using run c(3-5,8) by blast
qed

section \<open>Running all jobs\<close>

text \<open>The jobs of a pool one after the other, in the order in which they were accepted; each takes two addresses.\<close>

fun run_jobs :: "'z zlib \<Rightarrow> chunk_codec \<Rightarrow> tm \<Rightarrow> (nat \<Rightarrow> byte) \<Rightarrow> (nat \<Rightarrow> byte) \<Rightarrow> buf \<Rightarrow> nat \<Rightarrow> 'p aff4_image \<Rightarrow> image_worker list \<Rightarrow>
    resolver \<Rightarrow> 'z zip_file \<Rightarrow> ('z zip_file \<times> resolver) option" where
  "run_jobs Z K now fresh junk uuid a img [] r zf = Some (zf, r)"
| "run_jobs Z K now fresh junk uuid a img (w # ws) r zf =
     (case ImageWorker_run Z K now fresh junk uuid a img w r zf of
        Some (zf', r', None) \<Rightarrow> run_jobs Z K now fresh junk uuid (a + 2) img ws r' zf'
      | _ \<Rightarrow> None)"

text \<open>Different bevies have different names.\<close>

lemma bevy_name_scan: "0 \<le> n \<Longrightarrow> n < 2 ^ 32 \<Longrightarrow> scan_digits 16 0 (bevy_name n) = (nat n, [])"
proof -
  assume n: "0 \<le> n" "n < 2 ^ 32"
  have z: "scan_digits 16 0 (replicate k (CHR ''0'') @ xs) = scan_digits 16 0 xs" for k xs
    using HEX_digit [of 0] by (induction k) (simp_all add: HEX_def)
  obtain l where "scan_digits 16 0 (digits 16 HEX (nat n) @ []) = (0 * 16 ^ l + nat n, [])"
    using scan_digits_digits [of 16 HEX "[]" 0 "nat n"] HEX_digit by auto
  then show ?thesis using n by (simp add: bevy_name_def zero_pad_def z u32_id)
qed

lemma bevy_name_inj: "0 \<le> m \<Longrightarrow> m < 2 ^ 32 \<Longrightarrow> 0 \<le> n \<Longrightarrow> n < 2 ^ 32 \<Longrightarrow> bevy_name m = bevy_name n \<longleftrightarrow> m = n"
  using bevy_name_scan [of m] bevy_name_scan [of n] by (metis Pair_inject eq_nat_nat_iff)

text \<open>None of the members has a name that a bevy from \<open>n\<close> on will take.\<close>

definition names_free :: "buf \<Rightarrow> int \<Rightarrow> 'z zip_segment list \<Rightarrow> bool" where
  "names_free path n ms \<longleftrightarrow> (\<forall>m. n \<le> m \<and> m < 2 ^ 32 \<longrightarrow>
     find_member (bevy_member path m) ms = None \<and> find_member (index_member path m) ms = None)"

lemma stored_at_name:
  assumes "stored_at D s name data"
  shows "c_string (case str_value (filename s) of None \<Rightarrow> [] | Some v \<Rightarrow> v) = name"
proof -
  let ?v = "case str_value (filename s) of None \<Rightarrow> [] | Some v \<Rightarrow> v"
  have "take (nat (str_length (filename s))) ?v = name @ [NUL]" "\<forall>c \<in> set name. \<not> needs_escape c"
    using assms by (auto simp: stored_at_def seg_name_def plain_name_def)
  moreover have "needs_escape NUL" by code_simp
  ultimately have "NUL \<notin> set name" "?v = name @ NUL # drop (nat (str_length (filename s))) ?v"
    by (auto) (metis append_Cons append_Nil append_assoc append_take_drop_id)
  then show ?thesis by (metis c_string_terminated)
qed

lemma names_free_next:
  assumes "names_free path n ms" "0 \<le> n" "n < 2 ^ 32" "stored_at D s (bevy_member path n) data" "stored_at D t (index_member path n) ix"
  shows "names_free path (n + 1) (ms @ [s, t])"
proof -
  have "bevy_member path n \<noteq> bevy_member path m" "bevy_member path n \<noteq> index_member path m" "index_member path n \<noteq> bevy_member path m"
      "index_member path n \<noteq> index_member path m" if "n < m" "m < 2 ^ 32" for m
  proof -
    have m: "0 \<le> m" "bevy_name n \<noteq> bevy_name m" using that assms(2,3) bevy_name_inj [of n m] by auto
    then show "bevy_member path n \<noteq> bevy_member path m" "index_member path n \<noteq> index_member path m"
      by (simp_all add: bevy_member_def index_member_def)
    show "bevy_member path n \<noteq> index_member path m" "index_member path n \<noteq> bevy_member path m"
      using bevy_name_length [OF assms(2,3)] bevy_name_length [OF m(1) that(2)]
      by (auto simp: bevy_member_def index_member_def dest: arg_cong [of _ _ length])
  qed
  then show ?thesis
    using assms(1) stored_at_name [OF assms(4)] stored_at_name [OF assms(5)] by (auto simp: names_free_def find_member_None)
qed

text \<open>The members that the jobs make: a pair for each job, numbered from \<open>n\<close>.\<close>

definition bevies_stored :: "buf \<Rightarrow> nat \<Rightarrow> buf \<Rightarrow> nat \<Rightarrow> buf list \<Rightarrow> ('z zip_segment \<times> 'z zip_segment) list \<Rightarrow> bool" where
  "bevies_stored path cs D n ds ps \<longleftrightarrow> length ps = length ds \<and>
     (\<forall>i < length ds. stored_at D (fst (ps ! i)) (bevy_member path (int (n + i))) (ds ! i) \<and>
        stored_at D (snd (ps ! i)) (index_member path (int (n + i))) (index_bytes cs (length (ds ! i))) \<and>
        cd_magic (cd (fst (ps ! i))) = 0x2014b50 \<and> cd_magic (cd (snd (ps ! i))) = 0x2014b50)"

lemma bevies_stored_Cons:
  assumes "bevies_stored path cs (D @ tail) (Suc n) ds ps" "stored_at D s (bevy_member path (int n)) d"
    "stored_at D t (index_member path (int n)) (index_bytes cs (length d))" "cd_magic (cd s) = 0x2014b50" "cd_magic (cd t) = 0x2014b50"
  shows "bevies_stored path cs (D @ tail) n (d # ds) ((s, t) # ps)"
  unfolding bevies_stored_def
proof (intro conjI allI impI)
  show "length ((s, t) # ps) = length (d # ds)" using assms(1) by (simp add: bevies_stored_def)
  fix i assume i: "i < length (d # ds)"
  show "stored_at (D @ tail) (fst (((s, t) # ps) ! i)) (bevy_member path (int (n + i))) ((d # ds) ! i)"
    "stored_at (D @ tail) (snd (((s, t) # ps) ! i)) (index_member path (int (n + i))) (index_bytes cs (length ((d # ds) ! i)))"
    "cd_magic (cd (fst (((s, t) # ps) ! i))) = 0x2014b50" "cd_magic (cd (snd (((s, t) # ps) ! i))) = 0x2014b50"
    using i assms stored_at_append [OF assms(2)] stored_at_append [OF assms(3)]
    by (cases i; force simp: bevies_stored_def)+
qed

lemma length_index_bytes: "length (index_bytes cs n) = 4 * ((n + cs - 1) div cs)"
  by (simp add: index_bytes_def length_concat comp_def sum_list_triv)

lemma index_bytes_mono: "m \<le> n \<Longrightarrow> length (index_bytes cs m) \<le> length (index_bytes cs n)"
  unfolding length_index_bytes by (intro mult_le_mono2 div_le_mono) simp

text \<open>What a job adds to the volume at most, for bevies of at most \<open>B\<close> bytes.\<close>

definition job_space :: "nat \<Rightarrow> nat \<Rightarrow> nat" where
  "job_space cs B = B + length (index_bytes cs B) + 140000"

lemma run_jobs_stored:
  fixes zf :: "'z zip_file"
  assumes img: "stored img = Some st" "urn_value st = urn_value (urn zf)" "image_path zf (urn img) path" "chunk_size img = int cs"
      "compression img = int ZIP_STORED"
    and cs: "0 < cs" "cs < 2 ^ 31" "cs \<le> compressBound K cs" and Z: "\<forall>c d. crc32 Z c d < 2 ^ 32"
    and js: "\<forall>w \<in> set js. at_end (bevy w) \<and> length (content w) \<le> B" "map worker_count js = map int [n ..< n + length js]" "n + length js < 2 ^ 32"
    and free: "names_free path (int n) (members zf)" and r: "volume_owned r (urn zf) (addr zf) (2 * length js)"
    and len: "2 * B < 268435456" "2 * length (index_bytes cs B) < 268435456"
      "length (disk (backing_store zf)) + length js * job_space cs B \<le> ZIP64_LIMIT"
  shows "\<exists>f ps r'. run_jobs Z K now fresh junk uuid a img js r zf
       = Some (zf\<lparr>backing_store := f, members := members zf @ concat (map (\<lambda>(s, t). [s, t]) ps)\<rparr>, r') \<and>
     (\<exists>tail. disk f = disk (backing_store zf) @ tail \<and> length tail \<le> length js * job_space cs B) \<and>
     bevies_stored path cs (disk f) n (map content js) ps"
  using img(2,3) js free r len(3)
proof (induction js arbitrary: zf n r a)
  case Nil
  have "zf\<lparr>backing_store := backing_store zf, members := members zf @ concat (map (\<lambda>(s, t). [s, t]) [])\<rparr> = zf" by simp
  then show ?case by (intro exI [of _ "backing_store zf"] exI [of _ "[]"]) (simp add: bevies_stored_def)
next
  case (Cons w js)
  define d where "d = content w"
  have "[n ..< n + length (w # js)] = n # [Suc n ..< Suc n + length js]" by (simp add: upt_conv_Cons del: upt_Suc)
  then have c: "worker_count w = int n \<and> map worker_count js = map int [Suc n ..< Suc n + length js]" using Cons.prems(4) by (simp only: list.map list.inject)
  have w: "at_end (bevy w)" "content w = d" "length d \<le> B" "worker_count w = int n" "int n < 2 ^ 32"
    and js: "\<forall>w \<in> set js. at_end (bevy w) \<and> length (content w) \<le> B" "map worker_count js = map int [Suc n ..< Suc n + length js]" "Suc n + length js < 2 ^ 32"
    using Cons.prems(3,5) c by (auto simp: d_def)
  have ix: "length (index_bytes cs (length d)) \<le> length (index_bytes cs B)" by (rule index_bytes_mono [OF w(3)])
  have l: "2 * length d < 268435456" "2 * length (index_bytes cs (length d)) < 268435456"
      "length (disk (backing_store zf)) + length d + 70000 \<le> ZIP64_LIMIT"
    using w(3) ix len(1,2) Cons.prems(8) by (simp_all add: job_space_def)
  have fr: "find_member (bevy_member path (int n)) (members zf) = None" "find_member (index_member path (int n)) (members zf) = None"
    using Cons.prems(6) w(5) by (auto simp: names_free_def)
  have rr: "volume_owned r (urn zf) (addr zf) (Suc (Suc (2 * length js)))" using Cons.prems(7) by simp
  obtain s t f r1 where 1: "ImageWorker_run Z K now fresh junk uuid a img w r zf = Some (zf\<lparr>backing_store := f, members := members zf @ [s, t]\<rparr>, r1, None)"
     "disk f = disk (backing_store zf) @ segment_record s d @ segment_record t (index_bytes cs (length d))"
     "stored_at (disk f) s (bevy_member path (int n)) d" "stored_at (disk f) t (index_member path (int n)) (index_bytes cs (length d))"
     "cd_magic (cd s) = 0x2014b50" "cd_magic (cd t) = 0x2014b50" "volume_owned r1 (urn zf) (addr zf) (2 * length js)"
    using ImageWorker_run_stored [OF img(1) Cons.prems(1,2) img(4,5) cs Z w(1,2,4) _ w(5) fr rr l, of now fresh junk uuid a] by auto
  let ?z = "zf\<lparr>backing_store := f, members := members zf @ [s, t]\<rparr>"
  have rec: "length (segment_record s d @ segment_record t (index_bytes cs (length d))) \<le> job_space cs B"
    using 1(3,4) length_seg_name [of s] length_seg_name [of t] w(3) ix
    by (auto simp: segment_record_def stored_at_def closed_ok_def name_ok_def job_space_def)
  have p: "image_path ?z (urn img) path" using Cons.prems(2) by (auto simp: image_path_def)
  have nf: "names_free path (int (Suc n)) (members ?z)" using names_free_next [OF Cons.prems(6) _ w(5) 1(3,4)] by (simp add: add.commute)
  have sp: "length (disk (backing_store ?z)) + length js * job_space cs B \<le> ZIP64_LIMIT" using Cons.prems(8) rec 1(2) by simp
  obtain g ps r' tail where 2: "run_jobs Z K now fresh junk uuid (a + 2) img js r1 ?z
       = Some (?z\<lparr>backing_store := g, members := members ?z @ concat (map (\<lambda>(s, t). [s, t]) ps)\<rparr>, r')"
     "disk g = disk f @ tail" "length tail \<le> length js * job_space cs B" "bevies_stored path cs (disk g) (Suc n) (map content js) ps"
    using Cons.IH [OF _ p js nf _ sp, of r1 "a + 2"] Cons.prems(1) 1(7) by auto
  have "bevies_stored path cs (disk g) n (map content (w # js)) ((s, t) # ps)"
    using bevies_stored_Cons [OF _ 1(3-6), of tail "map content js" ps] 2(2,4) w(2) by simp
  moreover have "run_jobs Z K now fresh junk uuid a img (w # js) r zf
      = Some (zf\<lparr>backing_store := g, members := members zf @ concat (map (\<lambda>(s, t). [s, t]) ((s, t) # ps))\<rparr>, r')"
    using 1(1) 2(1) by simp
  moreover have "\<exists>tail'. disk g = disk (backing_store zf) @ tail' \<and> length tail' \<le> length (w # js) * job_space cs B"
    using 1(2) 2(2,3) rec by (intro exI [of _ "segment_record s d @ segment_record t (index_bytes cs (length d)) @ tail"]) simp
  ultimately show ?case by blast
qed

section \<open>The whole of an acquisition\<close>

lemma image_path_urn: "image_path zf w path \<Longrightarrow> parser w \<noteq> None"
  by (auto simp: image_path_def urn_plain_def urn_inv_def)

lemma length_slices: "length (slices B data) = Suc (length data div B)"
  by (simp add: slices_def)

lemma slice_length: "x \<in> set (slices B data) \<Longrightarrow> length x \<le> B"
  by (auto simp: slices_def)

text \<open>From the parameters of a new image to the jobs that its pool has accepted when it is closed.\<close>

lemma image_jobs:
  fixes img :: "image_worker pool aff4_image"
  assumes img: "mode img = CHR ''w''" "stored img = Some st" "parser (urn img) \<noteq> None" "chunk_size img = int cs" "chunks_in_segment img = int k"
      "compression img = 0" and B: "0 < cs" "0 < k" "2 * (cs * k) < 268435456" and xs: "\<forall>x \<in> set xs. length x < 2 ^ 30"
  shows "\<exists>s0 s1 s2 p. AFF4Image_finish (\<lambda>n. ThreadPool_Con (nat n)) uuid junk img = Some (s0, 1, None) \<and>
     image_writes schedule_signalled junk s0 xs = Some s1 \<and> AFF4Image_close schedule_signalled ThreadPool_join_begin s1 = Some (s2, 1) \<and>
     thread_pool s2 = Some p \<and> pool_reach (nat (thread_count s0)) p \<and> map content (accepted p) = slices (cs * k) (concat xs) \<and>
     (\<forall>j \<in> set (accepted p). at_end (bevy j)) \<and> map worker_count (accepted p) = map int [0 ..< length (accepted p)] \<and>
     stored s2 = Some st \<and> urn s2 = urn img \<and> chunk_size s2 = int cs \<and> compression s2 = int ZIP_STORED"
proof -
  obtain s0 p0 where s0: "AFF4Image_finish (\<lambda>n. ThreadPool_Con (nat n)) uuid junk img = Some (s0, 1, None)" "bevy_size s0 = int (cs * k)"
      "current s0 = Some (ImageWorker_Con junk 0)" "thread_pool s0 = Some p0" "accepted p0 = []" "pool_reach (nat (thread_count s0)) p0"
      "segment_count s0 = 0" "urn s0 = urn img" "stored s0 = stored img" "chunk_size s0 = int cs" "compression s0 = int ZIP_STORED"
    using finish_image [of img cs k uuid junk] img B by auto
  have "0 < cs * k" using B by simp
  then have inv: "image_inv accepted (pool_reach (nat (thread_count s0))) s0" "stream_of accepted s0 = []"
    using s0 B new_worker [of junk 0] by (auto simp: image_inv_def stream_of_def simp del: of_nat_mult)
  obtain s1 where s1: "image_writes schedule_signalled junk s0 xs = Some s1" "image_inv accepted (pool_reach (nat (thread_count s0))) s1"
      "same_image s0 s1" "stream_of accepted s1 = concat xs"
    using wpool.writes_spec [OF inv(1) xs, of junk] inv(2) by auto
  obtain p where p: "AFF4Image_close schedule_signalled ThreadPool_join_begin s1 = Some (s1\<lparr>thread_pool := Some (ThreadPool_join_begin p)\<rparr>, 1)"
      "pool_reach (nat (thread_count s0)) p" "map content (accepted p) = slices (nat (bevy_size s1)) (concat xs)"
      "\<forall>j \<in> set (accepted p). at_end (bevy j)" "map worker_count (accepted p) = map int [0 ..< length (accepted p)]"
    using wpool.close_spec [OF s1(2), of ThreadPool_join_begin] s1(4) by auto
  have "nat (bevy_size s1) = cs * k" using s1(3) s0(2) by (simp add: same_image_def nat_mult_distrib)
  moreover have "accepted (ThreadPool_join_begin p) = accepted p" by (simp add: ThreadPool_join_begin_def)
  moreover have "pool_reach (nat (thread_count s0)) (ThreadPool_join_begin p)" by (rule pool_more [OF p(2) join])
  ultimately show ?thesis using s0 s1 p img(2) by (simp add: same_image_def)
qed

lemma demo_image_path: "image_path (demo_zip (CHR ''w'') ''P'' []) (urn (demo_image 2 2)) ''/i''"
proof -
  have "RDFURN_set RDFURN_Con (Some ''aff4://vol/i'') = Some (urn (demo_image 2 2))"
  proof -
    have "''aff4://vol/i'' = url_text ''aff4'' ''vol'' ''/i'' []" by (simp add: url_text_def)
    then have "URLParse_parse (Some ''aff4://vol/i'') = Some \<lparr>scheme = ''aff4'', netloc = ''vol'', query = ''/i'', fragment = []\<rparr>"
      using parse_url_text [of "''aff4''" "''vol''" "''/i''" "[]"] by (simp add: BUFF_SIZE_def)
    moreover have "collapse_path ''/i'' = ''/i''" by (simp add: collapse_path_def path_push_def path_join_def)
    ultimately show ?thesis by (simp add: RDFURN_set_def RDFURN_Con_def URLParse_string_def demo_image_def)
  qed
  then have "urn_inv (urn (demo_image 2 2))" by (rule RDFURN_set_inv)
  moreover have "\<forall>c \<in> set ''/i''. ascii c \<and> \<not> needs_escape c"
  proof -
    have "list_all (\<lambda>c. ascii c \<and> \<not> needs_escape c) ''/i''" by code_simp
    then show ?thesis unfolding list_all_iff .
  qed
  ultimately show ?thesis by (simp add: image_path_def urn_plain_def demo_image_def demo_zip_def demo_urn_def BUFF_SIZE_def)
qed

end
