(* ===== verification/Image_Read.thy ===== *)
theory Image_Read
  imports Image_Worker
begin

text \<open>
  The read path of the image stream (\<^verbatim>\<open>_partial_read\<close> and \<^verbatim>\<open>AFF4Image_read\<close> in \<^verbatim>\<open>lib/aff4_image.c\<close>). The members that a read opens are freed at its end but stay in the
  list of members of the volume; their positions are kept in a list, and walking over one of them afterwards is undefined.
\<close>

section \<open>Definitions\<close>

definition member_read :: "'z zlib \<Rightarrow> (nat \<Rightarrow> byte) \<Rightarrow> (nat \<Rightarrow> byte) \<Rightarrow> nat \<Rightarrow> nat \<Rightarrow> resolver \<Rightarrow> 'z zip_file \<Rightarrow>
    ('z zip_file \<times> resolver \<times> int \<times> buf) option" where
  "member_read Z stack junk i n r zf =
     map_option (\<lambda>(s, zf', r', res, d). (zf'\<lparr>members := (members zf')[i := s]\<rparr>, r', res, d)) (ZipSegment_read Z stack junk r zf (members zf ! i) n)"

definition member_seek :: "nat \<Rightarrow> nat \<Rightarrow> 'z zip_file \<Rightarrow> 'z zip_file" where
  "member_seek i off zf = zf\<lparr>members := (members zf)[i := (members zf ! i)\<lparr>seg_readptr := int off\<rparr>]\<rparr>"

text \<open>The search for a member looks at all members up to the one it finds.\<close>

definition open_live :: "nat list \<Rightarrow> ('z zip_file \<times> nat option) option \<Rightarrow> ('z zip_file \<times> nat option) option" where
  "open_live freed res =
     (case res of
        None \<Rightarrow> None
      | Some (zf, None) \<Rightarrow> if freed = [] then res else None
      | Some (zf, Some i) \<Rightarrow> if \<forall>k \<in> set freed. i < k then res else None)"

text \<open>
  With both members at hand: the index is read to the stack, the segment is positioned and a chunk read to the stack, and the part from the
  offset on is copied to the caller. The buffer of the caller is taken to have exactly the \<open>len\<close> bytes that were asked for, as the contract of
  \<^verbatim>\<open>read\<close> allows: a copy of more bytes is then a write outside an object. The branch for compressed chunks passes the address of an uninitialised
  \<^verbatim>\<open>int\<close> where \<^verbatim>\<open>uncompress\<close> reads and writes an \<^verbatim>\<open>unsigned long\<close>, which is undefined.
\<close>

definition partial_copy :: "'z zlib \<Rightarrow> (nat \<Rightarrow> byte) \<Rightarrow> (nat \<Rightarrow> byte) \<Rightarrow> 'p aff4_image \<Rightarrow> nat \<Rightarrow> nat \<Rightarrow> nat \<Rightarrow> nat \<Rightarrow> resolver \<Rightarrow> 'z zip_file \<Rightarrow>
    ('z zip_file \<times> resolver \<times> int \<times> buf) option" where
  "partial_copy Z stack junk self segment_offset len i j r zf =
     (let size = nat (chunk_size self); chunks = nat (chunks_in_segment self);
          chunk_number = segment_offset div size; chunk_offset = segment_offset mod size
      in if chunk_size self \<le> 0 \<or> chunks_in_segment self \<le> 0 \<or> chunks \<le> chunk_number then None
         else (case member_read Z stack junk j (chunks * 4) r zf of
                 None \<Rightarrow> None
               | Some (z1, r1, _, ix) \<Rightarrow>
                   (let off = field (chunk_number * 4) 4 (on_stack stack (chunks * 4) ix)
                    in if compression self = int ZIP_DEFLATE then None
                       else (case member_read Z stack junk i size r1 (member_seek i off z1) of
                               None \<Rightarrow> None
                             | Some (z2, r2, read_length, d) \<Rightarrow>
                                 (let available = max (read_length - int chunk_offset) (int len)
                                  in if int len < available then None
                                     else map_option (\<lambda>bytes. (z2, r2, available, bytes))
                                            (mem_read chunk_offset (nat available) (on_stack stack size d)))))))"

text \<open>
  The result is what was copied and the number of bytes returned. When one of the two members is missing, the number that is
  returned was never set.
\<close>

definition partial_read :: "'z zlib \<Rightarrow> tm \<Rightarrow> (nat \<Rightarrow> byte) \<Rightarrow> (nat \<Rightarrow> byte) \<Rightarrow> (nat \<Rightarrow> byte) \<Rightarrow> buf \<Rightarrow> nat \<Rightarrow> 'p aff4_image \<Rightarrow> nat \<Rightarrow>
    resolver \<Rightarrow> 'z zip_file \<Rightarrow> nat list \<Rightarrow> ('z zip_file \<times> resolver \<times> nat list \<times> int \<times> buf) option" where
  "partial_read Z now fresh stack junk uuid a self len r zf freed =
     (let segment_number = s32 (image_readptr self div bevy_size self);
          segment_offset = nat (s32 (image_readptr self mod bevy_size self))
      in if bevy_size self = 0 \<or> image_readptr self < 0 then None
         else
           (case (stored self, RDFURN_copy (urn self)) of
              (Some st, Some u0) \<Rightarrow>
                if Resolver_own r st (CHR ''r'') \<noteq> Some (addr zf) then None
                else
                  (case RDFURN_add u0 (bevy_name segment_number) of
                     None \<Rightarrow> None
                   | Some u1 \<Rightarrow>
                       (case open_live freed (ZipFile_open_member Z now fresh junk uuid a zf u1 (CHR ''r'') 0) of
                          Some (z1, Some i) \<Rightarrow>
                            (case RDFURN_add u1 ''idx'' of
                               None \<Rightarrow> None
                             | Some u2 \<Rightarrow>
                                 (case open_live freed (ZipFile_open_member Z now fresh junk uuid a z1 u2 (CHR ''r'') 0) of
                                    Some (z2, Some j) \<Rightarrow>
                                      (case Resolver_cache_return r z2 of
                                         None \<Rightarrow> None
                                       | Some r1 \<Rightarrow>
                                           (case partial_copy Z stack junk self segment_offset len i j r1 z2 of
                                              None \<Rightarrow> None
                                            | Some (z3, r2, res, bytes) \<Rightarrow>
                                                (case member_close Z fresh i r2 z3 of
                                                   None \<Rightarrow> None
                                                 | Some (z4, r3) \<Rightarrow>
                                                     map_option (\<lambda>(z5, r4). (z5, r4, freed @ [i, j], res, bytes))
                                                       (member_close Z fresh j r3 z4))))
                                  | _ \<Rightarrow> None))
                        | _ \<Rightarrow> None))
            | _ \<Rightarrow> None))"

text \<open>The loop of \<^verbatim>\<open>read\<close>, which goes on until the length is used up or a round returns nothing; the read pointer is not moved.\<close>

partial_function (option) read_loop :: "'z zlib \<Rightarrow> tm \<Rightarrow> (nat \<Rightarrow> byte) \<Rightarrow> (nat \<Rightarrow> byte) \<Rightarrow> (nat \<Rightarrow> byte) \<Rightarrow> buf \<Rightarrow> nat \<Rightarrow> 'p aff4_image \<Rightarrow> nat \<Rightarrow> buf \<Rightarrow>
    resolver \<Rightarrow> 'z zip_file \<Rightarrow> nat list \<Rightarrow> ('z zip_file \<times> resolver \<times> nat list \<times> buf) option" where
  "read_loop Z now fresh stack junk uuid a self len out r zf freed =
     (if len = 0 then Some (zf, r, freed, out)
      else
        (case partial_read Z now fresh stack junk uuid a self len r zf freed of
           None \<Rightarrow> None
         | Some (zf', r', freed', res, bytes) \<Rightarrow>
             if res = 0 then Some (zf', r', freed', out)
             else read_loop Z now fresh stack junk uuid a self (nat (u32 (int len - res))) (out @ bytes) r' zf' freed'))"

definition AFF4Image_read :: "'z zlib \<Rightarrow> tm \<Rightarrow> (nat \<Rightarrow> byte) \<Rightarrow> (nat \<Rightarrow> byte) \<Rightarrow> (nat \<Rightarrow> byte) \<Rightarrow> buf \<Rightarrow> nat \<Rightarrow> 'p aff4_image \<Rightarrow> nat \<Rightarrow>
    resolver \<Rightarrow> 'z zip_file \<Rightarrow> nat list \<Rightarrow> ('z zip_file \<times> resolver \<times> nat list \<times> int \<times> buf) option" where
  "AFF4Image_read Z now fresh stack junk uuid a self len r zf freed =
     map_option (\<lambda>(zf', r', freed', out). (zf', r', freed', int (length out), out)) (read_loop Z now fresh stack junk uuid a self len [] r zf freed)"

section \<open>The index of a bevy\<close>

lemma nth_block_concat: "\<forall>x \<in> set xs. length x = m \<Longrightarrow> c < length xs \<Longrightarrow> take m (drop (c * m) (concat xs @ ys)) = xs ! c"
proof (induction xs arbitrary: c)
  case (Cons x xs)
  then show ?case by (cases c) auto
qed simp

lemma index_field:
  assumes "c < (n + cs - 1) div cs" "c * cs < 2 ^ 32"
  shows "field (c * 4) 4 (index_bytes cs n @ ys) = c * cs"
proof -
  let ?xs = "map (\<lambda>i. le_bytes 4 (i * cs)) [0 ..< (n + cs - 1) div cs]"
  have "take 4 (drop (c * 4) (concat ?xs @ ys)) = ?xs ! c" using assms(1) by (intro nth_block_concat) auto
  then show ?thesis using assms by (simp add: field_def index_bytes_def)
qed

lemma chunk_number_bound: "0 < cs \<Longrightarrow> q < n \<Longrightarrow> q div cs < (n + cs - 1) div (cs :: nat)"
proof -
  assume a: "0 < cs" "q < n"
  have "q div cs < Suc (q div cs)" by simp
  also have "Suc (q div cs) = (q + cs) div cs" using a(1) div_add_self2 [of cs q] by simp
  also have "\<dots> \<le> (n + cs - 1) div cs" using a(2) by (intro div_le_mono) simp
  finally show ?thesis .
qed

section \<open>Reading members\<close>

lemma open_member_found:
  assumes "plain_name (RDFURN_relative_name u (urn zf))" "find_member (RDFURN_relative_name u (urn zf)) (members zf) = Some i"
  shows "ZipFile_open_member Z now fresh junk uuid a zf u m method = Some (zf, Some i)"
proof -
  have "member_name (RDFURN_relative_name u (urn zf))" using assms(1) by (simp add: plain_name_def)
  from segment_name_spec [OF this, of fresh] obtain c r where
      "segment_name_from_URN fresh u (urn zf) = Some (RDFURN_relative_name u (urn zf) @ NUL # c # r)" "NUL \<notin> set (RDFURN_relative_name u (urn zf))"
    unfolding escaped_plain [OF assms(1)] by blast
  then show ?thesis using assms(2) c_string_terminated by (simp add: ZipFile_open_member_def)
qed

lemma map_update_same: "f t = f (xs ! i) \<Longrightarrow> map f (xs[i := t]) = map f xs"
  by (metis list_update_id map_update)

lemma find_member_names: "map filename ms = map filename ms' \<Longrightarrow> find_member n ms = find_member n ms'"
proof -
  assume m: "map filename ms = map filename ms'"
  then have l: "length ms = length ms'" by (rule map_eq_imp_length_eq)
  then have "filename (ms ! i) = filename (ms' ! i)" if "i < length ms" for i using m that nth_map [of i ms filename] nth_map [of i ms' filename] by simp
  then show ?thesis unfolding find_member_def using l by (intro find_cong) auto
qed

text \<open>A member that was loaded from a directory, at a read position, and possibly with a buffer.\<close>

definition reader :: "rdf_urn \<Rightarrow> 'z zip_segment \<Rightarrow> bool" where
  "reader w t \<longleftrightarrow> mode t = CHR ''r'' \<and> urn t = RDFURN_Con \<and> container t = Some w"

lemma loaded_reader: "reader w (loaded mktime now a w p)" "seg_readptr (loaded mktime now a w p) = 0"
  by (cases p; simp add: reader_def loaded_def ZipSegment_Con_def AFFObject_Con_def)+

text \<open>An entry of the list of members for which a record is stored in the volume.\<close>

definition readable :: "'z zip_file \<Rightarrow> rdf_urn \<Rightarrow> nat \<Rightarrow> buf \<Rightarrow> buf \<Rightarrow> bool" where
  "readable zr w i name data \<longleftrightarrow> i < length (members zr) \<and>
     (\<exists>mktime now a s. members zr ! i = loaded mktime now a w (s, name) \<and> stored_at (disk (backing_store zr)) s name data)"

lemma loaded_at_zero: "(loaded mktime now a w p :: 'z zip_segment)\<lparr>seg_readptr := 0\<rparr> = loaded mktime now a w p"
  by (metis loaded_reader(2) zip_segment.surjective zip_segment.update_convs(9))

lemma member_read_at:
  assumes "readable zr w i name data" "length (disk (backing_store zr)) < 2 ^ 62" "volume_live r (CHR ''r'') w (addr zr)" "n < 2 ^ 31" "p \<le> length data"
  shows "\<exists>t f r'. member_read Z stack junk i n r (member_seek i p zr)
       = Some (zr\<lparr>backing_store := f, members := (members zr)[i := t]\<rparr>, r', int (length (take n (drop p data))), take n (drop p data)) \<and>
     disk f = disk (backing_store zr) \<and> volume_live r' (CHR ''r'') w (addr zr) \<and> store r' = store r \<and> reader w t \<and> filename t = filename (members zr ! i)"
proof -
  obtain mktime now a s where L: "members zr ! i = loaded mktime now a w (s, name)" "stored_at (disk (backing_store zr)) s name data" "i < length (members zr)"
    using assms(1) by (auto simp: readable_def)
  let ?t = "(loaded mktime now a w (s, name))\<lparr>seg_readptr := int p\<rparr>" and ?z = "member_seek i p zr"
  have z: "disk (backing_store ?z) = disk (backing_store zr)" "addr ?z = addr zr" "members ?z ! i = ?t" using L(1,3) by (simp_all add: member_seek_def)
  obtain b f r' where "ZipSegment_read Z stack junk r ?z ?t n
      = Some (?t\<lparr>buffer := Some b\<rparr>, ?z\<lparr>backing_store := f\<rparr>, r', int (length (take n (drop p data))), take n (drop p data))"
      "disk f = disk (backing_store zr)" "volume_live r' (CHR ''r'') w (addr zr)" "store r' = store r"
    using ZipSegment_read_at [of ?z s name data r w n p, where mktime = mktime and now = now and a = a and Z = Z and stack = stack and junk = junk]
      L(2) assms(2-5) unfolding z by blast
  moreover have "reader w (?t\<lparr>buffer := Some b\<rparr>)" using loaded_reader(1) [of w mktime now a "(s, name)"] by (simp add: reader_def)
  ultimately show ?thesis using z(3) L(1)
    by (intro exI [of _ "?t\<lparr>buffer := Some b\<rparr>"] exI [of _ f] exI [of _ r']) (simp add: member_read_def member_seek_def)
qed

lemma member_seek_zero:
  assumes "readable zr w i name data"
  shows "member_seek i 0 zr = zr"
proof -
  have "(members zr ! i)\<lparr>seg_readptr := 0\<rparr> = members zr ! i" using assms loaded_at_zero unfolding readable_def by metis
  then have "(members zr)[i := (members zr ! i)\<lparr>seg_readptr := int 0\<rparr>] = members zr" by simp
  then show ?thesis unfolding member_seek_def by simp
qed

lemma member_close_reader:
  assumes "reader w (members zr ! i)" "volume_live r m w (addr zr)" "ds_inv (store r)" "ds_room (store r) (Suc k)" "urn_value w \<noteq> urn_value RDFURN_Con"
  shows "\<exists>r'. member_close Z fresh i r zr = Some (zr, r') \<and> volume_live r' m w (addr zr) \<and> ds_inv (store r') \<and> ds_room (store r') k"
proof -
  obtain r' where "FileLikeObject_close r (members zr ! i) = Some (r', 1)" "volume_live r' m w (addr zr)" "ds_inv (store r')" "ds_room (store r') k"
    using FileLikeObject_close_live [OF assms(2-4), of "members zr ! i"] assms(1,5) by (auto simp: reader_def)
  then show ?thesis using assms(1) by (simp add: member_close_def ZipSegment_close_def reader_def)
qed

section \<open>One round\<close>

text \<open>The chunk of a bevy in which an offset lies.\<close>

definition chunk_at :: "nat \<Rightarrow> nat \<Rightarrow> buf \<Rightarrow> buf" where
  "chunk_at cs q data = take cs (drop (q div cs * cs) data)"

lemma chunk_rest_length: "length data - q = (length data - q div cs * cs) - q mod (cs :: nat)"
  unfolding diff_diff_left by simp

lemma take_eq_rest: "take (cs - q mod cs) (drop q data) = take (min (length data - q div cs * cs) cs - q mod cs) (drop q data)"
proof (cases "length data - q div cs * cs \<le> cs")
  case True
  then have "length (drop q data) \<le> cs - q mod cs" unfolding length_drop chunk_rest_length [of data q cs] by (rule diff_le_mono)
  then show ?thesis using True by (simp add: chunk_rest_length [of data q cs, symmetric])
next
  case False
  then show ?thesis by (simp add: min_def)
qed

lemma chunk_at_rest:
  assumes "q < length data"
  shows "q mod cs < length (chunk_at cs q data) \<or> cs = 0" "drop (q mod cs) (chunk_at cs q data) = take (length (chunk_at cs q data) - q mod cs) (drop q data)"
proof -
  have q: "q = q div cs * cs + q mod cs" by simp
  have "q mod cs < cs" if "cs \<noteq> 0" using that by simp
  moreover have "q mod cs < length data - q div cs * cs" using assms q by linarith
  ultimately show "q mod cs < length (chunk_at cs q data) \<or> cs = 0" by (auto simp: chunk_at_def)
  have "drop (q mod cs) (drop (q div cs * cs) data) = drop q data" unfolding drop_drop by (simp add: add.commute)
  then show "drop (q mod cs) (chunk_at cs q data) = take (length (chunk_at cs q data) - q mod cs) (drop q data)"
    unfolding chunk_at_def drop_take by (simp add: take_eq_rest)
qed

lemma partial_copy_spec:
  assumes P: "chunk_size self = int cs" "chunks_in_segment self = int k" "compression self \<noteq> int ZIP_DEFLATE" "0 < cs" "0 < k" "4 * k < 2 ^ 31" "cs * k < 2 ^ 31"
    and R: "readable zr w i n1 data" "readable zr w j n2 (index_bytes cs (length data))" "i \<noteq> j" "length (disk (backing_store zr)) < 2 ^ 62"
      "volume_live r (CHR ''r'') w (addr zr)" and q: "q < length data" "length data \<le> cs * k"
  shows "\<exists>z' r'. partial_copy Z stack junk self q len i j r zr
      = (if len < length (chunk_at cs q data) - q mod cs then None
         else map_option (\<lambda>b. (z', r', int len, b)) (mem_read (q mod cs) len (on_stack stack cs (chunk_at cs q data)))) \<and>
     reader w (members z' ! i) \<and> reader w (members z' ! j) \<and> volume_live r' (CHR ''r'') w (addr z') \<and> store r' = store r \<and>
     map filename (members z') = map filename (members zr) \<and> urn z' = urn zr"
proof -
  let ?c = "q div cs" and ?ix = "index_bytes cs (length data)" and ?d = "chunk_at cs q data"
  have c: "?c < (length data + cs - 1) div cs" using chunk_number_bound [OF P(4) q(1)] .
  have "q < k * cs" using q by (simp add: mult.commute)
  then have ck: "?c < k" by (simp add: less_mult_imp_div_less)
  have cc: "?c * cs \<le> q" by simp
  have li: "length ?ix \<le> k * 4"
  proof -
    have "length data + cs - 1 < Suc k * cs" using q(2) P(4) by (simp add: mult.commute)
    then have "(length data + cs - 1) div cs < Suc k" by (rule less_mult_imp_div_less)
    then show ?thesis unfolding length_index_bytes by simp
  qed
  obtain t1 f1 r1 where 1: "member_read Z stack junk j (k * 4) r zr = Some (zr\<lparr>backing_store := f1, members := (members zr)[j := t1]\<rparr>, r1, int (length ?ix), ?ix)"
      "disk f1 = disk (backing_store zr)" "volume_live r1 (CHR ''r'') w (addr zr)" "store r1 = store r" "reader w t1" "filename t1 = filename (members zr ! j)"
    using member_read_at [OF R(2,4,5), of "k * 4" 0 Z stack junk] li P(6) unfolding member_seek_zero [OF R(2)] by auto
  have c32: "?c * cs < 2 ^ 32"
  proof -
    have "?c * cs < cs * k" using cc q by linarith
    also have "\<dots> < 2 ^ 32" using P(7) by simp
    finally show ?thesis .
  qed
  have off: "field (?c * 4) 4 (on_stack stack (k * 4) ?ix) = ?c * cs"
    unfolding on_stack_def by (intro index_field c c32)
  define z1 where "z1 = zr\<lparr>backing_store := f1, members := (members zr)[j := t1]\<rparr>"
  have R1: "readable z1 w i n1 data" "length (disk (backing_store z1)) < 2 ^ 62" "volume_live r1 (CHR ''r'') w (addr z1)"
    using R(1,3,4) 1(2,3) by (auto simp: readable_def z1_def)
  have cs31: "cs < 2 ^ 31" using P(5,7) by (cases k) auto
  have lo: "?c * cs \<le> length data" using q(1) cc by linarith
  obtain t2 f2 r2 where 2: "member_read Z stack junk i cs r1 (member_seek i (?c * cs) z1)
       = Some (z1\<lparr>backing_store := f2, members := (members z1)[i := t2]\<rparr>, r2, int (length ?d), ?d)"
      "volume_live r2 (CHR ''r'') w (addr z1)" "store r2 = store r1" "reader w t2" "filename t2 = filename (members z1 ! i)"
    using member_read_at [OF R1 cs31 lo, of Z stack junk] unfolding chunk_at_def by blast
  define z2 where "z2 = z1\<lparr>backing_store := f2, members := (members z1)[i := t2]\<rparr>"
  have il: "i < length (members zr)" "j < length (members zr)" using R(1,2) by (auto simp: readable_def)
  have m: "reader w (members z2 ! i)" "reader w (members z2 ! j)" "addr z2 = addr z1" "urn z2 = urn zr"
    using il R(3) 1(5) 2(4) by (auto simp: z2_def z1_def)
  have fn: "map filename (members z2) = map filename (members zr)"
    using 1(6) 2(5) by (simp add: z2_def z1_def map_update_same)
  have mx: "int len < max (int (length ?d) - int (q mod cs)) (int len) \<longleftrightarrow> len < length ?d - q mod cs"
      "\<not> len < length ?d - q mod cs \<Longrightarrow> max (int (length ?d) - int (q mod cs)) (int len) = int len"
    using chunk_at_rest(1) [OF q(1), of cs] P(4) by (simp_all add: less_diff_conv max_def)
  have g: "\<not> (chunk_size self \<le> 0 \<or> chunks_in_segment self \<le> 0 \<or> nat (chunks_in_segment self) \<le> q div nat (chunk_size self))" "nat (int cs) = cs" "nat (int k) = k"
    using P ck by simp_all
  have "partial_copy Z stack junk self q len i j r zr = (if len < length ?d - q mod cs then None
         else map_option (\<lambda>b. (z2, r2, int len, b)) (mem_read (q mod cs) len (on_stack stack cs ?d)))"
    unfolding partial_copy_def Let_def using g P(1-3) 1(1) off 2(1) mx(2)
    by (simp add: z1_def [symmetric] z2_def [symmetric] mx(1) del: less_max_iff_disj max_less_iff_conj)
  then show ?thesis using m fn 2(2,3) 1(4) by (intro exI [of _ z2] exI [of _ r2]) simp
qed

lemma member_close_image:
  assumes "reader w (members zr ! i)" "reader w (members zr ! j)" "volume_live r m w (addr zr)" "ds_inv (store r)" "ds_room (store r) 2"
    "urn_value w \<noteq> urn_value RDFURN_Con"
  shows "\<exists>r1 r2. member_close Z fresh i r zr = Some (zr, r1) \<and> member_close Z fresh j r1 zr = Some (zr, r2)"
proof -
  have "ds_room (store r) (Suc 1)" using assms(5) by (simp add: numeral_2_eq_2)
  from member_close_reader [OF assms(1,3,4) this assms(6), of Z fresh] obtain r1 where
      1: "member_close Z fresh i r zr = Some (zr, r1)" "volume_live r1 m w (addr zr)" "ds_inv (store r1)" "ds_room (store r1) (Suc 0)" by auto
  from member_close_reader [OF assms(2) 1(2-4) assms(6), of Z fresh] 1(1) show ?thesis by blast
qed

text \<open>An image stream, and the bevy that its read pointer is in, as they are stored in a volume that is open for reading.\<close>

definition stored_bevy :: "'p aff4_image \<Rightarrow> 'z zip_file \<Rightarrow> resolver \<Rightarrow> rdf_urn \<Rightarrow> buf \<Rightarrow> nat \<Rightarrow> nat \<Rightarrow> nat \<Rightarrow> nat \<Rightarrow> nat \<Rightarrow> buf \<Rightarrow> bool" where
  "stored_bevy img zr r st path cs k p i j data \<longleftrightarrow>
     chunk_size img = int cs \<and> chunks_in_segment img = int k \<and> bevy_size img = int (cs * k) \<and> compression img \<noteq> int ZIP_DEFLATE \<and>
     image_readptr img = int p \<and> 0 < cs \<and> 0 < k \<and> 4 * k < 2 ^ 31 \<and> cs * k < 2 ^ 31 \<and> p div (cs * k) < 2 ^ 31 \<and>
     p mod (cs * k) < length data \<and> length data \<le> cs * k \<and> stored img = Some st \<and> image_path zr (urn img) path \<and>
     find_member (bevy_member path (int (p div (cs * k)))) (members zr) = Some i \<and>
     find_member (index_member path (int (p div (cs * k)))) (members zr) = Some j \<and>
     (\<exists>w. urn_value w = urn_value st \<and> readable zr w i (bevy_member path (int (p div (cs * k)))) data \<and>
        readable zr w j (index_member path (int (p div (cs * k)))) (index_bytes cs (length data))) \<and> length (disk (backing_store zr)) < 2 ^ 62 \<and>
     volume_live r (CHR ''r'') st (addr zr) \<and> ds_inv (store r) \<and> ds_room (store r) 2 \<and> urn_value st \<noteq> urn_value RDFURN_Con"

text \<open>The two members as one round opens them, with nothing freed and after members were freed.\<close>

lemma open_image_members:
  fixes zr :: "'z zip_file"
  assumes "image_path zr w path" "0 \<le> n" "n < 2 ^ 32" "find_member (bevy_member path n) (members zr) = Some i" "find_member (index_member path n) (members zr) = Some j"
  shows "\<exists>u0 u1 u2. RDFURN_copy w = Some u0 \<and> RDFURN_add u0 (bevy_name n) = Some u1 \<and> RDFURN_add u1 ''idx'' = Some u2 \<and>
     ZipFile_open_member Z now fresh junk uuid a zr u1 (CHR ''r'') 0 = Some (zr, Some i) \<and>
     ZipFile_open_member Z now fresh junk uuid a zr u2 (CHR ''r'') 0 = Some (zr, Some j)"
proof -
  obtain u0 u1 u2 where u: "RDFURN_copy w = Some u0" "RDFURN_add u0 (bevy_name n) = Some u1" "RDFURN_add u1 ''idx'' = Some u2"
      "urn_value u1 = urn_value (urn zr) @ bevy_member path n" "urn_value u2 = urn_value (urn zr) @ index_member path n"
    using bevy_urns [OF assms(1-3)] by blast
  note r = relative_name_append [OF u(4)] relative_name_append [OF u(5)] and pl = bevy_names_plain [OF assms(1-3)]
  have "ZipFile_open_member Z now fresh junk uuid a zr u1 (CHR ''r'') 0 = Some (zr, Some i)"
      "ZipFile_open_member Z now fresh junk uuid a zr u2 (CHR ''r'') 0 = Some (zr, Some j)"
    using open_member_found [of u1 zr i] open_member_found [of u2 zr j] pl assms(4,5) unfolding r by blast+
  then show ?thesis using u(1-3) by blast
qed

lemma find_member_name: "find_member n ms = Some i \<Longrightarrow> c_string (case str_value (filename (ms ! i)) of None \<Rightarrow> [] | Some v \<Rightarrow> v) = n"
  by (auto simp: find_member_def find_Some_iff)

lemma bevy_members_differ:
  assumes "find_member (bevy_member path n) ms = Some i" "find_member (index_member path n) ms = Some j"
  shows "i \<noteq> j"
proof
  assume "i = j"
  then have "bevy_member path n = index_member path n" using find_member_name [OF assms(1)] find_member_name [OF assms(2)] by simp
  then show False by (simp add: index_member_def)
qed

lemma s32_of_nat: "n < 2 ^ 31 \<Longrightarrow> s32 (int n) = int n"
  by (rule s32_id) simp_all

lemma volume_live_urn: "urn_value c = urn_value c' \<Longrightarrow> volume_live r m c a = volume_live r m c' a"
  by (simp add: volume_live_def Resolver_own_def)

lemma partial_read_round:
  fixes img :: "'p aff4_image" and zr :: "'z zip_file"
  assumes S: "stored_bevy img zr r st path cs k p i j data"
  defines "q \<equiv> p mod (cs * k)"
  shows "\<exists>z' r'. partial_read Z now fresh stack junk uuid a img len r zr []
      = (if len < length (chunk_at cs q data) - q mod cs then None
         else map_option (\<lambda>b. (z', r', [i, j], int len, b)) (mem_read (q mod cs) len (on_stack stack cs (chunk_at cs q data)))) \<and>
     map filename (members z') = map filename (members zr) \<and> urn z' = urn zr"
proof -
  let ?n = "int (p div (cs * k))"
  have P: "chunk_size img = int cs" "chunks_in_segment img = int k" "compression img \<noteq> int ZIP_DEFLATE" "0 < cs" "0 < k" "4 * k < 2 ^ 31" "cs * k < 2 ^ 31"
    and L: "length (disk (backing_store zr)) < 2 ^ 62" "volume_live r (CHR ''r'') st (addr zr)"
    and q: "q < length data" "length data \<le> cs * k"
    and F: "find_member (bevy_member path ?n) (members zr) = Some i" "find_member (index_member path ?n) (members zr) = Some j"
    and st: "stored img = Some st" "ds_inv (store r)" "ds_room (store r) 2" "urn_value st \<noteq> urn_value RDFURN_Con"
    and I: "bevy_size img = int (cs * k)" "image_readptr img = int p" "image_path zr (urn img) path" "p div (cs * k) < 2 ^ 31"
    using S by (simp_all add: stored_bevy_def q_def)
  obtain w where w: "urn_value w = urn_value st" and R: "readable zr w i (bevy_member path ?n) data"
      "readable zr w j (index_member path ?n) (index_bytes cs (length data))"
    using S by (auto simp: stored_bevy_def)
  have V: "volume_live r (CHR ''r'') w (addr zr)" "urn_value w \<noteq> urn_value RDFURN_Con" using L(2) volume_live_urn [OF w] w st(4) by simp_all
  have n: "0 \<le> ?n" "?n < 2 ^ 32" using I(4) by (simp_all only: of_nat_0_le_iff) (simp add: of_nat_div [symmetric] del: of_nat_div)
  obtain u0 u1 u2 where u: "RDFURN_copy (urn img) = Some u0" "RDFURN_add u0 (bevy_name ?n) = Some u1" "RDFURN_add u1 ''idx'' = Some u2"
     "ZipFile_open_member Z now fresh junk uuid a zr u1 (CHR ''r'') 0 = Some (zr, Some i)"
     "ZipFile_open_member Z now fresh junk uuid a zr u2 (CHR ''r'') 0 = Some (zr, Some j)"
    using open_image_members [OF I(3) n F, of Z now fresh junk uuid a] by blast
  obtain r1 where r1: "Resolver_cache_return r zr = Some r1" "volume_live r1 (CHR ''r'') w (addr zr)" "store r1 = store r"
    using cache_return_live [OF V(1), of zr] by blast
  obtain z' r' where c: "partial_copy Z stack junk img q len i j r1 zr
      = (if len < length (chunk_at cs q data) - q mod cs then None
         else map_option (\<lambda>b. (z', r', int len, b)) (mem_read (q mod cs) len (on_stack stack cs (chunk_at cs q data))))"
     "reader w (members z' ! i)" "reader w (members z' ! j)" "volume_live r' (CHR ''r'') w (addr z')" "store r' = store r1"
     "map filename (members z') = map filename (members zr)" "urn z' = urn zr"
    using partial_copy_spec [OF P R(1,2) bevy_members_differ [OF F] L(1) r1(2) q, of Z stack junk len] by blast
  obtain r2 r3 where cl: "member_close Z fresh i r' z' = Some (z', r2)" "member_close Z fresh j r2 z' = Some (z', r3)"
    using member_close_image [OF c(2-4), of Z fresh] st(2,3) V(2) c(5) r1(3) by auto
  have qk: "q < 2 ^ 31" using q P(7) by linarith
  have np: "nat (int p mod (int cs * int k)) = p mod (cs * k)" by (metis nat_int zmod_int of_nat_mult)
  have sn: "s32 (image_readptr img div bevy_size img) = ?n" "nat (s32 (image_readptr img mod bevy_size img)) = q" "bevy_size img \<noteq> 0" "\<not> image_readptr img < 0"
    using P(4,5) np s32_of_nat [OF I(4)] s32_of_nat [OF qk] unfolding I(1,2) q_def zdiv_int zmod_int by simp_all
  have o: "Resolver_own r st (CHR ''r'') = Some (addr zr)" using L(2) by (simp add: volume_live_def)
  have "partial_read Z now fresh stack junk uuid a img len r zr []
      = (if len < length (chunk_at cs q data) - q mod cs then None
         else map_option (\<lambda>b. (z', r3, [i, j], int len, b)) (mem_read (q mod cs) len (on_stack stack cs (chunk_at cs q data))))"
    unfolding partial_read_def Let_def sn using sn(3,4) st(1) u o r1(1) c(1) cl by (simp add: open_live_def split: option.split)
  then show ?thesis using c(6,7) by blast
qed

text \<open>Once a member was freed, looking for it or for a later one is undefined.\<close>

lemma partial_read_freed:
  fixes img :: "'p aff4_image" and zr :: "'z zip_file"
  assumes S: "stored_bevy img zr r st path cs k p i j data" and z: "map filename (members z') = map filename (members zr)" "urn z' = urn zr" and "i \<in> set freed"
  shows "partial_read Z now fresh stack junk uuid a img len r' z' freed = None"
proof -
  let ?n = "int (p div (cs * k))"
  have I: "image_path zr (urn img) path" "p div (cs * k) < 2 ^ 31" "find_member (bevy_member path ?n) (members zr) = Some i"
      "find_member (index_member path ?n) (members zr) = Some j" "bevy_size img = int (cs * k)" "image_readptr img = int p"
    using S by (simp_all add: stored_bevy_def)
  have I': "image_path z' (urn img) path" "find_member (bevy_member path ?n) (members z') = Some i" "find_member (index_member path ?n) (members z') = Some j"
    using I(1,3,4) unfolding image_path_def z(2) find_member_names [OF z(1)] by blast+
  have n: "0 \<le> ?n" "?n < 2 ^ 32" using I(2) by (simp_all only: of_nat_0_le_iff) (simp add: of_nat_div [symmetric] del: of_nat_div)
  obtain u0 u1 u2 where u: "RDFURN_copy (urn img) = Some u0" "RDFURN_add u0 (bevy_name ?n) = Some u1"
     "ZipFile_open_member Z now fresh junk uuid a z' u1 (CHR ''r'') 0 = Some (z', Some i)"
    using open_image_members [OF I'(1) n I'(2,3), of Z now fresh junk uuid a] by blast
  have sn: "s32 (image_readptr img div bevy_size img) = ?n" unfolding I(5,6) zdiv_int [symmetric] by (rule s32_of_nat [OF I(2)])
  have "open_live freed (Some (z', Some i)) = None" using assms(4) by (auto simp: open_live_def)
  then show ?thesis unfolding partial_read_def Let_def sn using u by (simp split: option.split)
qed

text \<open>A read of exactly the rest of a chunk.\<close>

lemma AFF4Image_read_rest:
  fixes img :: "'p aff4_image" and zr :: "'z zip_file"
  assumes S: "stored_bevy img zr r st path cs k p i j data"
  defines "q \<equiv> p mod (cs * k)"
  defines "rest \<equiv> length (chunk_at cs q data) - q mod cs"
  shows "\<exists>z' r'. AFF4Image_read Z now fresh stack junk uuid a img rest r zr [] = Some (z', r', [i, j], int rest, take rest (drop q data)) \<and>
     map filename (members z') = map filename (members zr) \<and> urn z' = urn zr"
proof -
  have cs: "0 < cs" "q < length data" using S by (simp_all add: stored_bevy_def q_def)
  let ?d = "chunk_at cs q data"
  have r: "q mod cs < length ?d" using chunk_at_rest(1) [OF cs(2), of cs] cs(1) by simp
  have ld: "length ?d \<le> cs" by (simp add: chunk_at_def)
  obtain z' r' where z': "partial_read Z now fresh stack junk uuid a img rest r zr [] = map_option (\<lambda>b. (z', r', [i, j], int rest, b)) (mem_read (q mod cs) rest (on_stack stack cs ?d))"
      "map filename (members z') = map filename (members zr)" "urn z' = urn zr"
    using partial_read_round [OF S, of Z now fresh stack junk uuid a rest] unfolding q_def [symmetric] rest_def [symmetric] by auto
  have m: "mem_read (q mod cs) rest (on_stack stack cs ?d) = Some (take rest (drop q data))"
    using r ld unfolding mem_read_def rest_def chunk_at_rest(2) [OF cs(2), of cs, symmetric] by (simp add: on_stack_def)
  have pos: "0 < rest" using r by (simp add: rest_def)
  have l: "length (take rest (drop q data)) = rest"
    using arg_cong [OF chunk_at_rest(2) [OF cs(2), of cs], of length] by (simp add: rest_def)
  have "AFF4Image_read Z now fresh stack junk uuid a img rest r zr [] = Some (z', r', [i, j], int rest, take rest (drop q data))"
    using z'(1) m pos l by (simp add: AFF4Image_read_def read_loop.simps [of _ _ _ _ _ _ _ _ rest] read_loop.simps [of _ _ _ _ _ _ _ _ 0] u32_def)
  then show ?thesis using z'(2,3) by blast
qed

text \<open>Every other read is undefined, unless the chunk is the last one and short.\<close>

lemma AFF4Image_read_outside:
  fixes img :: "'p aff4_image" and zr :: "'z zip_file"
  assumes S: "stored_bevy img zr r st path cs k p i j data"
  defines "q \<equiv> p mod (cs * k)"
  assumes l: "0 < len" "len < length (chunk_at cs q data) - q mod cs \<or> cs < q mod cs + len"
  shows "AFF4Image_read Z now fresh stack junk uuid a img len r zr [] = None"
proof -
  have "length (on_stack stack cs (chunk_at cs q data)) = cs" by (simp add: on_stack_def chunk_at_def)
  then show ?thesis using partial_read_round [OF S, of Z now fresh stack junk uuid a len] l
    unfolding q_def [symmetric] by (auto simp: AFF4Image_read_def read_loop.simps [of _ _ _ _ _ _ _ _ len] mem_read_def)
qed

end
