(* ===== verification/Image_Roundtrip.thy ===== *)
theory Image_Roundtrip
  imports Image_Read
begin

text \<open>
  Images across a volume file: the members that the jobs of an image left in a volume, the directory that closing the volume writes for
  them, the members that are loaded from it, and the bytes that the image stream reads back.
\<close>

section \<open>The directory of the bevies\<close>

text \<open>The entries of the directory, with their names.\<close>

definition bevy_entries :: "buf \<Rightarrow> ('z zip_segment \<times> 'z zip_segment) list \<Rightarrow> ('z zip_segment \<times> buf) list" where
  "bevy_entries path ps =
     concat (map (\<lambda>n. [(fst (ps ! n), bevy_member path (int n)), (snd (ps ! n), index_member path (int n))]) [0 ..< length ps])"

definition loaded_entries :: "(tm \<Rightarrow> int) \<Rightarrow> tm \<Rightarrow> nat \<Rightarrow> rdf_urn \<Rightarrow> ('z zip_segment \<times> buf) list \<Rightarrow> 'z zip_segment list" where
  "loaded_entries mktime now a w ps = map (\<lambda>(i, p). loaded mktime now i w p) (zip [a ..< a + length ps] ps)"

lemma concat_pairs_nth:
  "length (concat (map (\<lambda>n. [f n, g n]) [0 ..< m])) = 2 * m"
  "n < m \<Longrightarrow> concat (map (\<lambda>n. [f n, g n]) [0 ..< m]) ! (2 * n) = f n"
  "n < m \<Longrightarrow> concat (map (\<lambda>n. [f n, g n]) [0 ..< m]) ! Suc (2 * n) = g n"
proof (induction m)
  case (Suc m)
  { case 1 then show ?case using Suc.IH(1) by simp }
  { case 2 then show ?case using Suc.IH(1,2) by (cases "n = m") (simp_all add: nth_append) }
  { case 3 then show ?case using Suc.IH(1,3) by (cases "n = m") (simp_all add: nth_append) }
qed simp_all

lemma length_bevy_entries [simp]: "length (bevy_entries path ps) = 2 * length ps"
  unfolding bevy_entries_def by (rule concat_pairs_nth(1))

lemma bevy_entries_nth:
  assumes "n < length ps"
  shows "bevy_entries path ps ! (2 * n) = (fst (ps ! n), bevy_member path (int n))"
    "bevy_entries path ps ! Suc (2 * n) = (snd (ps ! n), index_member path (int n))"
  unfolding bevy_entries_def using assms by (simp_all add: concat_pairs_nth(2,3))

lemma bevy_entries_fst: "map fst (bevy_entries path ps) = concat (map (\<lambda>(s, t). [s, t]) ps)"
proof -
  have "map fst (bevy_entries path ps) = concat (map (\<lambda>p. [fst p, snd p]) (map ((!) ps) [0 ..< length ps]))"
    by (simp add: bevy_entries_def map_concat comp_def)
  then show ?thesis by (simp add: map_nth case_prod_unfold)
qed

lemma loaded_entries_nth:
  "length (loaded_entries mktime now a w ps) = length ps"
  "i < length ps \<Longrightarrow> loaded_entries mktime now a w ps ! i = loaded mktime now (a + i) w (ps ! i)"
  by (simp_all add: loaded_entries_def)

lemma even_odd_cases:
  fixes i m :: nat
  assumes "i < 2 * m"
  obtains (even) n where "n < m" "i = 2 * n" | (odd) n where "n < m" "i = Suc (2 * n)"
proof (cases "even i")
  case True
  then obtain n where "i = 2 * n" by blast
  then show ?thesis using assms that(1) by simp
next
  case False
  then obtain n where "i = Suc (2 * n)" by (metis oddE Suc_eq_plus1)
  then show ?thesis using assms that(2) by simp
qed

lemma bevy_entries_ok:
  assumes "bevies_stored path cs D 0 ds ps" "p \<in> set (bevy_entries path ps)"
  shows "entry_ok p"
proof -
  obtain i where i: "i < 2 * length ps" "p = bevy_entries path ps ! i" using assms(2) by (metis in_set_conv_nth length_bevy_entries)
  have ok: "entry_ok (s, name)" if "stored_at D s name d" "cd_magic (cd s) = 0x2014b50" for s :: "'a zip_segment" and name d
  proof -
    have "plain_name name" using that(1) by (simp add: stored_at_def)
    then have "concat (map escaped name) = name" "length name \<le> BUFF_SIZE - 10" using escaped_plain by (auto simp: plain_name_def member_name_def)
    then show ?thesis using that by (simp add: stored_at_def entry_ok_def)
  qed
  from i(1) show ?thesis
  proof (cases rule: even_odd_cases)
    case e: (even n)
    then have "stored_at D (fst (ps ! n)) (bevy_member path (int n)) (ds ! n)" "cd_magic (cd (fst (ps ! n))) = 0x2014b50"
      using assms(1) by (auto simp: bevies_stored_def)
    then show ?thesis unfolding i(2) e(2) bevy_entries_nth [OF e(1)] by (rule ok)
  next
    case e: (odd n)
    then have "stored_at D (snd (ps ! n)) (index_member path (int n)) (index_bytes cs (length (ds ! n)))" "cd_magic (cd (snd (ps ! n))) = 0x2014b50"
      using assms(1) by (auto simp: bevies_stored_def)
    then show ?thesis unfolding i(2) e(2) bevy_entries_nth [OF e(1)] by (rule ok)
  qed
qed

lemma bevies_archive_ready:
  fixes z :: "'z zip_file"
  assumes b: "bevies_stored path cs D 0 ds ps" and z: "members z = concat (map (\<lambda>(s, t). [s, t]) ps)" "mode z = CHR ''w''"
      "2 * length ps < 2 ^ 16" "0 < length (disk (backing_store z))" "length (disk (backing_store z)) \<le> ZIP64_LIMIT"
      "length (cd_bytes (members z)) < 2 ^ 32" "length (urn_value (urn z)) < BUFF_SIZE - 23"
      "\<forall>j>0. \<not> occurs_at END_MAGIC j (end_bytes (2 * length ps) (length (cd_bytes (members z))) (length (disk (backing_store z))) (urn_value (urn z)))"
  shows "archive_ready z (bevy_entries path ps)"
proof -
  have "buffer s = None" if s: "s \<in> set (members z)" for s
  proof -
    obtain p where "p \<in> set (bevy_entries path ps)" "s = fst p" using s unfolding z(1) bevy_entries_fst [of path, symmetric] by auto
    then have "entry_ok p" "s = fst p" using bevy_entries_ok [OF b] by blast+
    then have "closed_ok s" by (auto simp: entry_ok_def)
    then show ?thesis by (simp add: closed_ok_def)
  qed
  then have "closed_members (members z) = members z" by (simp add: closed_members_def)
  then show ?thesis using z bevy_entries_ok [OF b] by (auto simp: archive_ready_def bevy_entries_fst)
qed

section \<open>The bevy of a position\<close>

lemma find_member_first:
  assumes "i < length ms" "c_string (case str_value (filename (ms ! i)) of None \<Rightarrow> [] | Some v \<Rightarrow> v) = n"
    "\<And>j. j < i \<Longrightarrow> c_string (case str_value (filename (ms ! j)) of None \<Rightarrow> [] | Some v \<Rightarrow> v) \<noteq> n"
  shows "find_member n ms = Some i"
  unfolding find_member_def find_Some_iff using assms by (intro exI [of _ i]) auto

lemma loaded_name:
  assumes "NUL \<notin> set (snd p)"
  shows "c_string (case str_value (filename (loaded mktime now a w p :: 'z zip_segment)) of None \<Rightarrow> [] | Some v \<Rightarrow> v) = snd p"
  using assms c_string_terminated [of "snd p" "[]"] by (cases p) (simp add: loaded_def)

lemma bevy_member_inj:
  assumes "0 \<le> m" "m < 2 ^ 32" "0 \<le> n" "n < 2 ^ 32"
  shows "bevy_member path m = bevy_member path n \<longleftrightarrow> m = n" "index_member path m = index_member path n \<longleftrightarrow> m = n"
    "bevy_member path m \<noteq> index_member path n"
proof -
  show "bevy_member path m = bevy_member path n \<longleftrightarrow> m = n" "index_member path m = index_member path n \<longleftrightarrow> m = n"
    using bevy_name_inj [OF assms] by (simp_all add: bevy_member_def index_member_def)
  have "length (bevy_member path m) \<noteq> length (index_member path n)"
    using bevy_name_length assms by (simp add: bevy_member_def index_member_def)
  then show "bevy_member path m \<noteq> index_member path n" by metis
qed

lemma bevy_entries_distinct:
  assumes "i < j" "j < 2 * length ps" "length ps < 2 ^ 32"
  shows "snd (bevy_entries path ps ! i) \<noteq> snd (bevy_entries path ps ! j)"
proof -
  have i: "i < 2 * length ps" using assms by simp
  have b: "0 \<le> int n" "int n < 2 ^ 32" if "n < length ps" for n using that assms(3) by simp_all
  show ?thesis using i assms(2)
  proof (cases rule: even_odd_cases [case_product even_odd_cases])
    case (even_even m n)
    then show ?thesis using assms(1) b bevy_member_inj(1) [of "int m" "int n"] by (simp add: bevy_entries_nth)
  next
    case (even_odd m n)
    then show ?thesis using b bevy_member_inj(3) [of "int m" "int n"] by (simp add: bevy_entries_nth)
  next
    case (odd_even m n)
    then show ?thesis using b bevy_member_inj(3) [of "int n" "int m" path] by (simp add: bevy_entries_nth)
  next
    case (odd_odd m n)
    then show ?thesis using assms(1) b bevy_member_inj(2) [of "int m" "int n"] by (simp add: bevy_entries_nth)
  qed
qed

lemma find_loaded_entry:
  assumes "i < 2 * length ps" "length ps < 2 ^ 32" "\<forall>p \<in> set (bevy_entries path ps). NUL \<notin> set (snd p)"
  shows "find_member (snd (bevy_entries path ps ! i)) (loaded_entries mktime now a w (bevy_entries path ps)) = Some i"
proof (rule find_member_first)
  have l: "loaded_entries mktime now a w (bevy_entries path ps) ! j = loaded mktime now (a + j) w (bevy_entries path ps ! j)"
      "NUL \<notin> set (snd (bevy_entries path ps ! j))" if "j \<le> i" for j
    using that assms(1,3) by (simp_all add: loaded_entries_nth)
  show "i < length (loaded_entries mktime now a w (bevy_entries path ps))" using assms(1) by (simp add: loaded_entries_nth)
  show "c_string (case str_value (filename (loaded_entries mktime now a w (bevy_entries path ps) ! i)) of None \<Rightarrow> [] | Some v \<Rightarrow> v) = snd (bevy_entries path ps ! i)"
    unfolding l(1) [OF order_refl] by (rule loaded_name [OF l(2) [OF order_refl]])
  fix j assume j: "j < i"
  then have "c_string (case str_value (filename (loaded_entries mktime now a w (bevy_entries path ps) ! j)) of None \<Rightarrow> [] | Some v \<Rightarrow> v) = snd (bevy_entries path ps ! j)"
    unfolding l(1) [OF less_imp_le [OF j]] by (intro loaded_name l(2)) simp
  then show "c_string (case str_value (filename (loaded_entries mktime now a w (bevy_entries path ps) ! j)) of None \<Rightarrow> [] | Some v \<Rightarrow> v) \<noteq> snd (bevy_entries path ps ! i)"
    using bevy_entries_distinct [OF j assms(1,2), of path] by simp
qed

text \<open>The part of a bevy that a read from a position returns is the same part of the stream.\<close>

lemma slice_at:
  fixes data :: buf
  assumes "0 < cs" "0 < k" "p < length data"
  defines "x \<equiv> slices (cs * k) data ! (p div (cs * k))" and "q \<equiv> p mod (cs * k)"
  defines "rest \<equiv> length (chunk_at cs q x) - q mod cs"
  shows "q < length x" "rest = min (cs - p mod cs) (length data - p)" "take rest (drop q x) = take rest (drop p data)"
proof -
  let ?B = "cs * k" and ?n = "p div (cs * k)"
  have n: "?n \<le> length data div ?B" using assms(3) by (intro div_le_mono) simp
  have x: "x = take ?B (drop (?n * ?B) data)" unfolding x_def slices_def using n by (simp del: upt_Suc)
  have p: "p = ?n * ?B + q" unfolding q_def by (rule div_mult_mod_eq [symmetric])
  have qB: "q < ?B" unfolding q_def using assms(1,2) by simp
  have qc: "q mod cs = p mod cs" unfolding q_def by (simp add: mod_mod_cancel)
  have lx: "length x - q = min (?B - q) (length data - p)" unfolding x using p by simp
  show "q < length x" unfolding x using qB p assms(3) by simp
  have "q div cs < k" using qB by (simp add: less_mult_imp_div_less mult.commute)
  then have "(q div cs + 1) * cs \<le> k * cs" by (intro mult_le_mono1) simp
  moreover have "q + (cs - q mod cs) = (q div cs + 1) * cs"
    using mod_less_divisor [OF assms(1), of q] div_mult_mod_eq [of q cs] unfolding add_mult_distrib by linarith
  ultimately have cB: "cs - q mod cs \<le> ?B - q" by (simp add: mult.commute)
  have "rest = min (length x - q div cs * cs) cs - q mod cs" by (simp add: rest_def chunk_at_def)
  also have "\<dots> = min (length x - q) (cs - q mod cs)" unfolding chunk_rest_length [of x q cs] by (rule min_diff [symmetric])
  also have "\<dots> = min (cs - p mod cs) (length data - p)" unfolding lx using cB unfolding qc by linarith
  finally show r: "rest = min (cs - p mod cs) (length data - p)" .
  then have "rest \<le> ?B - q" using cB unfolding qc by simp
  then show "take rest (drop q x) = take rest (drop p data)" unfolding x drop_take using p by (simp add: add.commute)
qed

lemma plain_no_nul: "plain_name name \<Longrightarrow> NUL \<notin> set name"
proof -
  assume a: "plain_name name"
  have "needs_escape NUL" by code_simp
  then show ?thesis using a by (auto simp: plain_name_def)
qed

lemma bevy_entries_names:
  assumes "image_path zf w path" "length ps < 2 ^ 31"
  shows "\<forall>p \<in> set (bevy_entries path ps). NUL \<notin> set (snd p)"
proof
  fix p assume "p \<in> set (bevy_entries path ps)"
  then obtain n where n: "n < length ps" "p = (fst (ps ! n), bevy_member path (int n)) \<or> p = (snd (ps ! n), index_member path (int n))"
    by (auto simp: bevy_entries_def)
  then have "plain_name (snd p)" using bevy_names_plain [OF assms(1), of "int n"] assms(2) by auto
  then show "NUL \<notin> set (snd p)" by (rule plain_no_nul)
qed

lemma loaded_stored_bevy:
  fixes img :: "'p aff4_image" and zr :: "'z zip_file"
  assumes P: "chunk_size img = int cs" "chunks_in_segment img = int k" "bevy_size img = int (cs * k)" "compression img \<noteq> int ZIP_DEFLATE"
      "image_readptr img = int p" "stored img = Some st" "urn_value st = urn_value w" "image_path zr (urn img) path" and c: "0 < cs" "0 < k" "4 * k < 2 ^ 31" "cs * k < 2 ^ 31"
    and b: "bevies_stored path cs D 0 (slices (cs * k) data) ps" "length ps < 2 ^ 31" "p < length data"
    and z: "members zr = loaded_entries mktime now a w (bevy_entries path ps)" "disk (backing_store zr) = D @ tail" "length (disk (backing_store zr)) < 2 ^ 62"
    and r: "volume_live r (CHR ''r'') st (addr zr)" "ds_inv (store r)" "ds_room (store r) 2" "urn_value st \<noteq> urn_value RDFURN_Con"
  shows "stored_bevy img zr r st path cs k p (2 * (p div (cs * k))) (Suc (2 * (p div (cs * k)))) (slices (cs * k) data ! (p div (cs * k)))"
proof -
  let ?n = "p div (cs * k)" and ?x = "slices (cs * k) data ! (p div (cs * k))"
  have lp: "length ps = length (slices (cs * k) data)" using b(1) by (simp add: bevies_stored_def)
  have n: "?n < length ps" unfolding lp length_slices using b(3) by (simp add: div_le_mono less_Suc_eq_le)
  then have n2: "2 * ?n < 2 * length ps" "Suc (2 * ?n) < 2 * length ps" by linarith+
  have l32: "length ps < 2 ^ 32" using b(2) by simp
  note names = bevy_entries_names [OF P(8) b(2)]
  note f = find_loaded_entry [OF n2(1) l32 names, of mktime now a w] find_loaded_entry [OF n2(2) l32 names, of mktime now a w]
  have st: "stored_at (D @ tail) (fst (ps ! ?n)) (bevy_member path (int ?n)) ?x"
      "stored_at (D @ tail) (snd (ps ! ?n)) (index_member path (int ?n)) (index_bytes cs (length ?x))"
    using b(1) n lp by (auto simp: bevies_stored_def intro!: stored_at_append)
  have "members zr ! (2 * ?n) = loaded mktime now (a + 2 * ?n) w (fst (ps ! ?n), bevy_member path (int ?n))"
      "members zr ! Suc (2 * ?n) = loaded mktime now (a + Suc (2 * ?n)) w (snd (ps ! ?n), index_member path (int ?n))"
      "length (members zr) = 2 * length ps"
    using n2 n unfolding z(1) by (simp_all add: loaded_entries_nth bevy_entries_nth)
  then have rd: "readable zr w (2 * ?n) (bevy_member path (int ?n)) ?x" "readable zr w (Suc (2 * ?n)) (index_member path (int ?n)) (index_bytes cs (length ?x))"
    using n2 st unfolding readable_def z(2) by auto
  have "length ?x \<le> cs * k" using slice_length [of ?x "cs * k" data] n lp by simp
  moreover have "?n < 2 ^ 31" using n b(2) by linarith
  moreover have "find_member (bevy_member path (int ?n)) (members zr) = Some (2 * ?n)" "find_member (index_member path (int ?n)) (members zr) = Some (Suc (2 * ?n))"
    using f unfolding z(1) bevy_entries_nth [OF n] by simp_all
  moreover have "\<exists>w. urn_value w = urn_value st \<and> readable zr w (2 * ?n) (bevy_member path (int ?n)) ?x \<and>
      readable zr w (Suc (2 * ?n)) (index_member path (int ?n)) (index_bytes cs (length ?x))"
    using rd P(7) by (intro exI [of _ w]) simp
  ultimately show ?thesis
    using P c z(3) r slice_at(1) [OF c(1,2) b(3)] unfolding stored_bevy_def by - (intro conjI; assumption)
qed

section \<open>A small image in a volume\<close>

text \<open>The volume \<open>aff4://vol\<close> with one bevy of the image \<open>/i\<close>, which has chunks of two bytes and holds \<open>abc\<close>.\<close>

definition demo_member :: "buf \<Rightarrow> nat \<Rightarrow> nat \<Rightarrow> unit zip_segment" where
  "demo_member name off n = demo_segment\<lparr>filename := \<lparr>str_value = Some (name @ [NUL, NUL]), str_length = int (length name) + 1\<rparr>,
     cd := demo_cd\<lparr>file_size := n\<rparr>, offset_of_file_header := off\<rparr>"

lemma demo_member_stored:
  assumes "plain_name name" "length name < 1000" "length data = n" "length pre = off" "n < 256" "off < 256"
  shows "stored_at (pre @ segment_record (demo_member name off n) data @ post) (demo_member name off n) name data"
    "length (segment_record (demo_member name off n) data) = 47 + length name + n" "length (cd_entry (demo_member name off n)) = 47 + length name"
proof -
  let ?s = "demo_member name off n"
  have "nat (int (length name) + 1) = length name + 1" by simp
  then have s: "closed_ok ?s" "seg_name ?s = name @ [NUL]" "fits (cd_fields (cd ?s))"
    using assms(2-6) by (simp_all add: demo_member_def demo_segment_def closed_ok_def name_ok_def seg_name_def ZIP64_LIMIT_def fits_def cd_fields_def demo_cd_def)
  then show "stored_at (pre @ segment_record ?s data @ post) ?s name data"
    using assms unfolding stored_at_def by (auto simp: demo_member_def demo_segment_def demo_cd_def ZIP_STORED_def)
  show "length (segment_record ?s data) = 47 + length name + n" using s(2) assms(3) by (simp add: segment_record_def)
  show "length (cd_entry ?s) = 47 + length name" using length_cd_entry [OF s(1)] by (simp add: demo_member_def)
qed

definition demo_bevy :: "unit zip_segment \<times> unit zip_segment" where
  "demo_bevy = (demo_member (bevy_member ''/i'' 0) 1 3, demo_member (index_member ''/i'' 0) 62 8)"

definition demo_bytes :: buf where
  "demo_bytes = ''P'' @ segment_record (fst demo_bevy) ''abc'' @ segment_record (snd demo_bevy) (index_bytes 2 3)"

lemma demo_bevy_names:
  "length (bevy_member ''/i'' 0) = 11" "length (index_member ''/i'' 0) = 15" "plain_name (bevy_member ''/i'' 0)" "plain_name (index_member ''/i'' 0)"
  using bevy_name_length [of 0] bevy_names_plain [OF demo_image_path, of 0] by (simp_all add: bevy_member_def index_member_def)

lemma demo_bevies:
  "bevies_stored ''/i'' 2 demo_bytes 0 (slices (2 * 2) ''abc'') [demo_bevy]" "length demo_bytes = 132" "length (cd_bytes [fst demo_bevy, snd demo_bevy]) = 120"
proof -
  note n = demo_bevy_names
  have i: "length (index_bytes 2 3) = 8" by (simp add: length_index_bytes)
  have sl: "slices (2 * 2) ''abc'' = [''abc'']" by code_simp
  have "stored_at (''P'' @ segment_record (demo_member (bevy_member ''/i'' 0) 1 3) ''abc'' @ post) (demo_member (bevy_member ''/i'' 0) 1 3) (bevy_member ''/i'' 0) ''abc''"
      "length (segment_record (demo_member (bevy_member ''/i'' 0) 1 3) ''abc'') = 61" "length (cd_entry (demo_member (bevy_member ''/i'' 0) 1 3)) = 58" for post
    using demo_member_stored [OF n(3), of "''abc''" 3 "''P''" 1] by (simp_all add: n(1))
  then have a: "stored_at (''P'' @ segment_record (fst demo_bevy) ''abc'' @ post) (fst demo_bevy) (bevy_member ''/i'' 0) ''abc''"
      "length (segment_record (fst demo_bevy) ''abc'') = 61" "length (cd_entry (fst demo_bevy)) = 58" for post
    by (simp_all add: demo_bevy_def)
  have l1: "length (''P'' @ segment_record (fst demo_bevy) ''abc'') = 62" using a(2) by simp
  have b: "stored_at ((''P'' @ segment_record (fst demo_bevy) ''abc'') @ segment_record (snd demo_bevy) (index_bytes 2 3) @ []) (snd demo_bevy) (index_member ''/i'' 0) (index_bytes 2 3)"
      "length (segment_record (snd demo_bevy) (index_bytes 2 3)) = 70" "length (cd_entry (snd demo_bevy)) = 62"
    using demo_member_stored(1) [OF n(4) _ i l1, of "[]"] demo_member_stored(2,3) [OF n(4) _ i l1] by (simp_all add: n(2) demo_bevy_def)
  have "stored_at demo_bytes (fst demo_bevy) (bevy_member ''/i'' 0) ''abc''"
    using a(1) by (simp add: demo_bytes_def)
  moreover have "stored_at demo_bytes (snd demo_bevy) (index_member ''/i'' 0) (index_bytes 2 3)"
    using b(1) by (simp add: demo_bytes_def)
  moreover have "cd_magic (cd (fst demo_bevy)) = 0x2014b50" "cd_magic (cd (snd demo_bevy)) = 0x2014b50"
    by (simp_all add: demo_bevy_def demo_member_def demo_cd_def)
  ultimately show "bevies_stored ''/i'' 2 demo_bytes 0 (slices (2 * 2) ''abc'') [demo_bevy]" unfolding sl by (simp add: bevies_stored_def numeral_3_eq_3)
  show "length demo_bytes = 132" using l1 b(2) by (simp add: demo_bytes_def)
  have "buffer (fst demo_bevy) = None" "buffer (snd demo_bevy) = None" by (simp_all add: demo_bevy_def demo_member_def demo_segment_def)
  then show "length (cd_bytes [fst demo_bevy, snd demo_bevy]) = 120"
    using a(3) b(3) by (simp add: cd_bytes_def closed_members_def)
qed

definition demo_reader :: "nat \<Rightarrow> image_worker pool aff4_image" where
  "demo_reader p = (demo_image 2 2)\<lparr>mode := CHR ''r'', bevy_size := 4, image_readptr := int p\<rparr>"

lemma demo_volume:
  fixes m :: char and d :: buf and ms :: "unit zip_segment list"
  shows "members (demo_zip m d ms) = ms" "mode (demo_zip m d ms) = m" "disk (backing_store (demo_zip m d ms)) = d" "urn (demo_zip m d ms) = demo_urn []"
    "addr (demo_zip m d ms) = 1" "urn_value (demo_urn []) = ''aff4://vol''"
  by (simp_all add: demo_zip_def demo_urn_def)

lemma demo_reader_ok:
  "chunk_size (demo_reader p) = int 2" "chunks_in_segment (demo_reader p) = int 2" "bevy_size (demo_reader p) = int (2 * 2)" "compression (demo_reader p) \<noteq> int ZIP_DEFLATE"
  "image_readptr (demo_reader p) = int p" "stored (demo_reader p) = Some (demo_urn [])" "image_path (demo_zip m d ms) (urn (demo_reader p)) ''/i''"
proof -
  have "urn (demo_reader p) = urn (demo_image 2 2)" by (simp add: demo_reader_def)
  then show "image_path (demo_zip m d ms) (urn (demo_reader p)) ''/i''" using demo_image_path unfolding image_path_def demo_volume(4) by metis
qed (simp_all add: demo_reader_def demo_image_def ZIP_DEFLATE_def)

lemma demo_no_magic: "\<forall>j>0. \<not> occurs_at END_MAGIC j (end_bytes 2 120 132 ''aff4://vol'')"
proof -
  have "CHR 0x06 \<notin> set (le_bytes n (Suc (length ''aff4://vol'')))" for n using le_bytes_small [of "Suc (length ''aff4://vol'')" n] by simp
  then have "CHR 0x06 \<notin> set (drop 4 (end_bytes 2 120 132 ''aff4://vol''))"
    using le_bytes_small [of 0] le_bytes_small [of 2] le_bytes_small [of 120] le_bytes_small [of 132]
    by (simp add: end_bytes_def end_fields_def end_record_def)
  then show ?thesis using no_magic_after by blast
qed

lemma demo_resolver:
  fixes zl :: "'z zip_file"
  shows "\<exists>r. volume_live r (CHR ''r'') (demo_urn []) (addr zl) \<and> ds_inv (store r) \<and> ds_room (store r) 2"
proof -
  obtain r where "resolver_live r" "ds_inv (store r)" "ds_room (store r) 10" "Resolver_own r (demo_urn []) (CHR ''r'') = Some (addr zl)"
    using demo_managed [of "\<lparr>addr = addr zl, urn = demo_urn [], mode = CHR ''r'', complete = True\<rparr>"] by auto
  then show ?thesis by (auto simp: volume_live_def ds_room_def)
qed

section \<open>Properties\<close>

text \<open>C2. What was acquired is read back from a volume whose closed file has at most \<^verbatim>\<open>BUFF_SIZE - 3\<close> = 40957 bytes. A volume object, open for
  writing, holds the bevies of an image and their indexes, and nothing else, as uncompressed members; the path of the image under the
  volume needs no escaping, the URN of the volume is of the generated form, and the directory needs no Zip64 structures. Closing
  the volume succeeds, and a fresh object over the file loads it. The URN that is loaded is the URN of the volume exactly when
  the file has at most 40957 bytes, and then the stream of an image that is not compressed with DEFLATE returns at every position of
  the data exactly the bytes of the acquired stream up to the end of the chunk or of the stream, when it is asked for exactly these.\<close>

theorem image_volume_roundtrip:
  fixes z zr :: "'z zip_file" and img :: "'p aff4_image"
  assumes b: "bevies_stored path cs (disk (backing_store z)) 0 (slices (cs * k) data) ps" "members z = concat (map (\<lambda>(s, t). [s, t]) ps)"
    and z: "mode z = CHR ''w''" "2 * length ps < 2 ^ 16" "0 < length (disk (backing_store z))" "length (disk (backing_store z)) \<le> ZIP64_LIMIT"
      "length (cd_bytes (members z)) < 2 ^ 32" "length (urn_value (urn z)) < BUFF_SIZE - 23" "aff4_urn z net"
      "\<forall>j>0. \<not> occurs_at END_MAGIC j (end_bytes (2 * length ps) (length (cd_bytes (members z))) (length (disk (backing_store z))) (urn_value (urn z)))"
    and img: "chunk_size img = int cs" "chunks_in_segment img = int k" "bevy_size img = int (cs * k)" "compression img \<noteq> int ZIP_DEFLATE"
      "image_readptr img = int p" "p < length data" "stored img = Some st" "urn_value st = urn_value (urn z)" "image_path z (urn img) path"
      "0 < cs" "0 < k" "4 * k < 2 ^ 31" "cs * k < 2 ^ 31"
    and zr: "members zr = []"
  defines "rest \<equiv> min (cs - p mod cs) (length data - p)"
  shows "\<exists>z' r'. ZipFile_close junk r z = Some (z', r', 1) \<and>
     (disk (backing_store zr) = disk (backing_store z') \<longrightarrow>
       (\<exists>zl. ZipFile_load_from_backing_store mktime now stack a zr = Some (zl, 1) \<and>
         (urn_value (urn zl) = urn_value (urn z) \<longleftrightarrow> length (disk (backing_store z')) \<le> BUFF_SIZE - 3) \<and>
         (length (disk (backing_store z')) \<le> BUFF_SIZE - 3 \<longrightarrow>
           (\<forall>r2. volume_live r2 (CHR ''r'') st (addr zl) \<longrightarrow> ds_inv (store r2) \<longrightarrow> ds_room (store r2) 2 \<longrightarrow>
              (\<exists>z3 r3 freed. AFF4Image_read Z now fresh stack junk uuid a img rest r2 zl [] = Some (z3, r3, freed, int rest, take rest (drop p data)))))))"
proof -
  note ready = bevies_archive_ready [OF b z(1-6,8)]
  obtain z' r' where z': "ZipFile_close junk r z = Some (z', r', 1)"
      "disk (backing_store zr) = disk (backing_store z') \<longrightarrow>
       (\<exists>zl. ZipFile_load_from_backing_store mktime now stack a zr = Some (zl, 1) \<and> mode zl = mode zr \<and>
          members zl = map (\<lambda>(i, p). loaded mktime now i (urn zl) p) (zip [a ..< a + length (bevy_entries path ps)] (bevy_entries path ps)) \<and>
          disk (backing_store zl) = disk (backing_store z') \<and>
          urn_value (urn zl) = FQN @ take (length net + 1 - unread_bytes (length (disk (backing_store z')))) net)"
      "\<exists>tail. disk (backing_store z') = disk (backing_store z) @ tail"
    using zip_close_load [OF ready z(7) zr, of junk r mktime now stack a] by blast
  note lu = loaded_urn(2) [OF z(7), of "length (disk (backing_store z'))"]
  { assume a: "disk (backing_store zr) = disk (backing_store z')"
    obtain zl where zl: "ZipFile_load_from_backing_store mktime now stack a zr = Some (zl, 1)"
        "members zl = loaded_entries mktime now a (urn zl) (bevy_entries path ps)" "disk (backing_store zl) = disk (backing_store z')"
        "urn_value (urn zl) = FQN @ take (length net + 1 - unread_bytes (length (disk (backing_store z')))) net"
      using z'(2) a unfolding loaded_entries_def by blast
    have "\<exists>z3 r3 freed. AFF4Image_read Z now fresh stack junk uuid a img rest r2 zl [] = Some (z3, r3, freed, int rest, take rest (drop p data))"
      if w: "length (disk (backing_store z')) \<le> BUFF_SIZE - 3" and r2: "volume_live r2 (CHR ''r'') st (addr zl)" "ds_inv (store r2)" "ds_room (store r2) 2" for r2
    proof -
      have u: "urn_value (urn zl) = urn_value (urn z)" unfolding zl(4) lu by (rule w)
      obtain tail where t: "disk (backing_store zl) = disk (backing_store z) @ tail" using z'(3) zl(3) by auto
      have l: "length (disk (backing_store zl)) < 2 ^ 62" "length ps < 2 ^ 31" using w zl(3) z(2) by (simp_all add: BUFF_SIZE_def)
      have pth: "image_path zl (urn img) path" "urn_value st = urn_value (urn zl)" using img(8,9) unfolding image_path_def u by blast+
      have "urn_value st \<noteq> urn_value RDFURN_Con" using img(8) z(7) by (simp add: aff4_urn_def FQN_def RDFURN_Con_def)
      note S = loaded_stored_bevy [OF img(1-5,7) pth(2,1) img(10-13) b(1) l(2) img(6) zl(2) t l(1) r2 this]
      note sl = slice_at(2,3) [OF img(10,11,6)]
      show ?thesis using AFF4Image_read_rest [OF S, of Z now fresh stack junk uuid a] unfolding sl(1) sl(2) [unfolded sl(1)] rest_def by blast
    qed
    moreover have "urn_value (urn zl) = urn_value (urn z) \<longleftrightarrow> length (disk (backing_store z')) \<le> BUFF_SIZE - 3" unfolding zl(4) by (rule lu)
    ultimately have "\<exists>zl. ZipFile_load_from_backing_store mktime now stack a zr = Some (zl, 1) \<and>
         (urn_value (urn zl) = urn_value (urn z) \<longleftrightarrow> length (disk (backing_store z')) \<le> BUFF_SIZE - 3) \<and>
         (length (disk (backing_store z')) \<le> BUFF_SIZE - 3 \<longrightarrow>
           (\<forall>r2. volume_live r2 (CHR ''r'') st (addr zl) \<longrightarrow> ds_inv (store r2) \<longrightarrow> ds_room (store r2) 2 \<longrightarrow>
              (\<exists>z3 r3 freed. AFF4Image_read Z now fresh stack junk uuid a img rest r2 zl [] = Some (z3, r3, freed, int rest, take rest (drop p data)))))"
      using zl(1) by blast }
  then show ?thesis using z'(1) by blast
qed

theorem image_volume_roundtrip_witness:
  "\<exists>z' r'. ZipFile_close (\<lambda>_. NUL) (Resolver_Con None) (demo_zip (CHR ''w'') demo_bytes [fst demo_bevy, snd demo_bevy]) = Some (z', r', 1) \<and>
     (\<exists>zl r2 z3 r3 freed. ZipFile_load_from_backing_store (\<lambda>_. 0) demo_now (\<lambda>_. NUL) 7 (demo_zip (CHR ''r'') (disk (backing_store z')) []) = Some (zl, 1) \<and>
        AFF4Image_read demo_zlib demo_now (\<lambda>_. NUL) (\<lambda>_. NUL) (\<lambda>_. NUL) [] 7 (demo_reader 1) 1 r2 zl [] = Some (z3, r3, freed, 1, ''b''))"
proof -
  let ?z = "demo_zip (CHR ''w'') demo_bytes [fst demo_bevy, snd demo_bevy]" and ?r = "\<lambda>d. demo_zip (CHR ''r'') d []"
  note V = demo_volume and B = demo_bevies
  have m: "members ?z = concat (map (\<lambda>(s, t). [s, t]) [demo_bevy])" by (simp add: V case_prod_unfold)
  have b: "bevies_stored ''/i'' 2 (disk (backing_store ?z)) 0 (slices (2 * 2) ''abc'') [demo_bevy]" using B(1) by (simp add: V)
  have z: "2 * length [demo_bevy] < 2 ^ 16" "0 < length (disk (backing_store ?z))" "length (disk (backing_store ?z)) \<le> ZIP64_LIMIT"
      "length (cd_bytes (members ?z)) < 2 ^ 32" "length (urn_value (urn ?z)) < BUFF_SIZE - 23" "aff4_urn ?z ''vol''"
      "\<forall>j>0. \<not> occurs_at END_MAGIC j (end_bytes (2 * length [demo_bevy]) (length (cd_bytes (members ?z))) (length (disk (backing_store ?z))) (urn_value (urn ?z)))"
    using B(2,3) demo_no_magic by (simp_all add: V ZIP64_LIMIT_def BUFF_SIZE_def aff4_urn_def FQN_def cstr_def)
  have p: "1 < length ''abc''" "urn_value (demo_urn []) = urn_value (urn ?z)" "(0 :: nat) < 2" "4 * (2 :: nat) < 2 ^ 31" "2 * (2 :: nat) < 2 ^ 31" by (simp_all add: V)
  note I = demo_reader_ok [where p = 1]
  note * = image_volume_roundtrip [OF b m V(2) z I(1-5) p(1) I(6) p(2) I(7) p(3,3,4,5) V(1), of "\<lambda>_. NUL" "Resolver_Con None" _ _ "\<lambda>_. 0" demo_now "\<lambda>_. NUL" 7 demo_zlib "\<lambda>_. NUL" "[]"]
  obtain z' r' where z': "ZipFile_close (\<lambda>_. NUL) (Resolver_Con None) ?z = Some (z', r', 1)" "length (disk (backing_store z')) \<le> BUFF_SIZE - 3"
    using zip_close_load [OF bevies_archive_ready [OF b m V(2) z(1-5,7)] z(6) V(1) [of "CHR ''r''" "[]" "[]"], of "\<lambda>_. NUL" "Resolver_Con None" "\<lambda>_. 0" demo_now "\<lambda>_. NUL" 7] B(2,3)
    by (auto simp: V BUFF_SIZE_def end_bytes_def)
  obtain zl where zl: "ZipFile_load_from_backing_store (\<lambda>_. 0) demo_now (\<lambda>_. NUL) 7 (?r (disk (backing_store z'))) = Some (zl, 1)"
      "\<And>r2. volume_live r2 (CHR ''r'') (demo_urn []) (addr zl) \<Longrightarrow> ds_inv (store r2) \<Longrightarrow> ds_room (store r2) 2 \<Longrightarrow>
         \<exists>z3 r3 freed. AFF4Image_read demo_zlib demo_now (\<lambda>_. NUL) (\<lambda>_. NUL) (\<lambda>_. NUL) [] 7 (demo_reader 1) 1 r2 zl [] = Some (z3, r3, freed, 1, ''b'')"
    using * [of "CHR ''r''" "disk (backing_store z')"] z' by (auto simp: V(3))
  then show ?thesis using z'(1) demo_resolver [of zl] by blast
qed

text \<open>C30. Reading from an image: for an image whose bevy is stored uncompressed in the volume, a read of exactly the bytes from the read pointer to the end of
  their chunk returns them. A shorter read copies the whole rest of the chunk, because the larger of the two lengths is taken, and so
  writes beyond the memory of the caller; a read that goes beyond the chunk size reads beyond the buffer of
  the chunk. The members that the read opened are freed but remain in the list of the volume, so that every later read of the same
  bevy walks over freed memory.\<close>

theorem image_read_only_rest_of_chunk:
  fixes img :: "'p aff4_image" and zr :: "'z zip_file"
  assumes S: "stored_bevy img zr r st path cs k p i j data"
  defines "q \<equiv> p mod (cs * k)"
  defines "rest \<equiv> length (chunk_at cs q data) - q mod cs"
  shows "\<exists>z' r'. AFF4Image_read Z now fresh stack junk uuid a img rest r zr [] = Some (z', r', [i, j], int rest, take rest (drop q data)) \<and>
     (\<forall>r2 len. 0 < len \<longrightarrow> AFF4Image_read Z now fresh stack junk uuid a img len r2 z' [i, j] = None) \<and>
     (\<forall>len. 0 < len \<and> (len < rest \<or> cs < q mod cs + len) \<longrightarrow> AFF4Image_read Z now fresh stack junk uuid a img len r zr [] = None)"
proof -
  obtain z' r' where z': "AFF4Image_read Z now fresh stack junk uuid a img rest r zr [] = Some (z', r', [i, j], int rest, take rest (drop q data))"
      "map filename (members z') = map filename (members zr)" "urn z' = urn zr"
    using AFF4Image_read_rest [OF S, of Z now fresh stack junk uuid a] unfolding q_def rest_def by blast
  have "AFF4Image_read Z now fresh stack junk uuid a img len r2 z' [i, j] = None" if "0 < len" for r2 len
    using partial_read_freed [OF S z'(2,3), of "[i, j]"] that by (simp add: AFF4Image_read_def read_loop.simps [of _ _ _ _ _ _ _ _ len])
  moreover have "AFF4Image_read Z now fresh stack junk uuid a img len r zr [] = None" if "0 < len" "len < rest \<or> cs < q mod cs + len" for len
    using AFF4Image_read_outside [OF S that [unfolded q_def rest_def]] by blast
  ultimately show ?thesis using z'(1) by blast
qed


theorem image_read_only_rest_of_chunk_witness:
  "\<exists>zr r z' r'. AFF4Image_read demo_zlib demo_now (\<lambda>_. NUL) (\<lambda>_. NUL) (\<lambda>_. NUL) [] 7 (demo_reader 0) 2 r zr [] = Some (z', r', [0, 1], 2, ''ab'') \<and>
     AFF4Image_read demo_zlib demo_now (\<lambda>_. NUL) (\<lambda>_. NUL) (\<lambda>_. NUL) [] 7 (demo_reader 0) 2 r' z' [0, 1] = None \<and>
     AFF4Image_read demo_zlib demo_now (\<lambda>_. NUL) (\<lambda>_. NUL) (\<lambda>_. NUL) [] 7 (demo_reader 0) 1 r zr [] = None"
proof -
  note V = demo_volume and B = demo_bevies
  let ?z = "demo_zip (CHR ''r'') demo_bytes (loaded_entries (\<lambda>_. 0) demo_now 7 (demo_urn []) (bevy_entries ''/i'' [demo_bevy]))"
  obtain r where r: "volume_live r (CHR ''r'') (demo_urn []) (addr ?z)" "ds_inv (store r)" "ds_room (store r) 2" using demo_resolver [of ?z] by blast
  have p: "(0 :: nat) < 2" "4 * (2 :: nat) < 2 ^ 31" "2 * (2 :: nat) < 2 ^ 31" "length [demo_bevy] < 2 ^ 31" "0 < length ''abc''" "disk (backing_store ?z) = demo_bytes @ []"
      "length (disk (backing_store ?z)) < 2 ^ 62" "urn_value (demo_urn []) \<noteq> urn_value RDFURN_Con"
    using B(2) by (simp_all add: V RDFURN_Con_def)
  note I = demo_reader_ok [where p = 0]
  note S = loaded_stored_bevy [OF I(1-6) refl I(7) p(1,1-3) B(1) p(4,5) V(1) p(6,7) r p(8)]
  have e: "0 mod (2 * 2) = (0 :: nat)" "0 div (2 * 2) = (0 :: nat)" "chunk_at 2 0 (slices (2 * 2) ''abc'' ! 0) = ''ab''" "take 2 (drop 0 (slices (2 * 2) ''abc'' ! 0)) = ''ab''" by code_simp+
  have "length ''ab'' - 0 mod 2 = (2 :: nat)" by simp
  note T = image_read_only_rest_of_chunk [OF S, of demo_zlib demo_now "\<lambda>_. NUL" "\<lambda>_. NUL" "\<lambda>_. NUL" "[]" 7, unfolded e(1,2) e(3) this e(4)]
  then obtain z' r' where "AFF4Image_read demo_zlib demo_now (\<lambda>_. NUL) (\<lambda>_. NUL) (\<lambda>_. NUL) [] 7 (demo_reader 0) 2 r ?z [] = Some (z', r', [0, 1], 2, ''ab'')"
      "AFF4Image_read demo_zlib demo_now (\<lambda>_. NUL) (\<lambda>_. NUL) (\<lambda>_. NUL) [] 7 (demo_reader 0) 2 r' z' [0, 1] = None"
    by auto
  moreover have "AFF4Image_read demo_zlib demo_now (\<lambda>_. NUL) (\<lambda>_. NUL) (\<lambda>_. NUL) [] 7 (demo_reader 0) 1 r ?z [] = None" using T by auto
  ultimately show ?thesis by blast
qed

end
