(* ===== verification/Treap.thy ===== *)
theory Treap
  imports Aff4_Prelude "HOL-Library.Word" "HOL-Library.Multiset"
begin

text \<open>
  The treaps of \<^verbatim>\<open>include/trp.h\<close>, which the map stream uses for its points: binary search trees whose nodes carry a pseudo-random priority and
  are heap ordered by it. A node with its embedded links is a node of a datatype. A call that fails an \<^verbatim>\<open>assert\<close> is \<open>None\<close>.
\<close>

section \<open>Definitions\<close>

datatype 'a trp_node = NULL | TNode "'a trp_node" 'a "32 word" "'a trp_node"

record 'a trp =
  trp_root :: "'a trp_node"
  trp_prn_state :: "32 word"

fun trp_prio :: "'a trp_node \<Rightarrow> 32 word" where
  "trp_prio (TNode l x p r) = p"

definition trp_prn :: "32 word \<Rightarrow> 32 word \<Rightarrow> 'a trp \<Rightarrow> 'a trp \<times> 32 word" where
  "trp_prn a c t = (let prn = trp_prn_state t * a + c in (t\<lparr>trp_prn_state := prn\<rparr>, prn))"

definition trp_new :: "32 word \<Rightarrow> 'a trp" where
  "trp_new seed = \<lparr>trp_root = NULL, trp_prn_state = seed\<rparr>"

fun trpn_first :: "'a trp_node \<Rightarrow> 'a option" where
  "trpn_first NULL = None"
| "trpn_first (TNode NULL x p r) = Some x"
| "trpn_first (TNode l x p r) = trpn_first l"

fun trpn_last :: "'a trp_node \<Rightarrow> 'a option" where
  "trpn_last NULL = None"
| "trpn_last (TNode l x p NULL) = Some x"
| "trpn_last (TNode l x p r) = trpn_last r"

fun rotate_left :: "'a trp_node \<Rightarrow> 'a trp_node" where
  "rotate_left (TNode l x p (TNode a y q b)) = TNode (TNode l x p a) y q b"

fun rotate_right :: "'a trp_node \<Rightarrow> 'a trp_node" where
  "rotate_right (TNode (TNode a y q b) x p r) = TNode a y q (TNode b x p r)"

fun trp_search :: "('a \<Rightarrow> 'a \<Rightarrow> int) \<Rightarrow> 'a \<Rightarrow> 'a trp_node \<Rightarrow> 'a option" where
  "trp_search cmp key NULL = None"
| "trp_search cmp key (TNode l x p r) =
     (let c = cmp key x in if c = 0 then Some x else if c < 0 then trp_search cmp key l else trp_search cmp key r)"

text \<open>The searches for the next and for the previous node keep the best node so far.\<close>

fun nsearch_loop :: "('a \<Rightarrow> 'a \<Rightarrow> int) \<Rightarrow> 'a \<Rightarrow> 'a trp_node \<Rightarrow> 'a option \<Rightarrow> 'a option" where
  "nsearch_loop cmp key NULL ret = ret"
| "nsearch_loop cmp key (TNode l x p r) ret =
     (let c = cmp key x in if c < 0 then nsearch_loop cmp key l (Some x) else if c > 0 then nsearch_loop cmp key r ret else Some x)"

definition trp_nsearch :: "('a \<Rightarrow> 'a \<Rightarrow> int) \<Rightarrow> 'a \<Rightarrow> 'a trp_node \<Rightarrow> 'a option" where
  "trp_nsearch cmp key t = nsearch_loop cmp key t None"

fun psearch_loop :: "('a \<Rightarrow> 'a \<Rightarrow> int) \<Rightarrow> 'a \<Rightarrow> 'a trp_node \<Rightarrow> 'a option \<Rightarrow> 'a option" where
  "psearch_loop cmp key NULL ret = ret"
| "psearch_loop cmp key (TNode l x p r) ret =
     (let c = cmp key x in if c < 0 then psearch_loop cmp key l ret else if c > 0 then psearch_loop cmp key r (Some x) else Some x)"

definition trp_psearch :: "('a \<Rightarrow> 'a \<Rightarrow> int) \<Rightarrow> 'a \<Rightarrow> 'a trp_node \<Rightarrow> 'a option" where
  "trp_psearch cmp key t = psearch_loop cmp key t None"

text \<open>The successor and the predecessor of a node of the treap: in its own subtree, or on the way from the root to it. Leaving the tree on that way is a failed assertion.\<close>

fun next_loop :: "('a \<Rightarrow> 'a \<Rightarrow> int) \<Rightarrow> 'a \<Rightarrow> 'a trp_node \<Rightarrow> 'a option \<Rightarrow> 'a option option" where
  "next_loop cmp x NULL ret = None"
| "next_loop cmp x (TNode l y p r) ret =
     (let c = cmp x y in if c < 0 then next_loop cmp x l (Some y) else if c > 0 then next_loop cmp x r ret else Some ret)"

fun trp_next :: "('a \<Rightarrow> 'a \<Rightarrow> int) \<Rightarrow> 'a trp_node \<Rightarrow> 'a trp_node \<Rightarrow> 'a option option" where
  "trp_next cmp t NULL = None"
| "trp_next cmp t (TNode l x p r) = (if r \<noteq> NULL then Some (trpn_first r) else next_loop cmp x t None)"

fun prev_loop :: "('a \<Rightarrow> 'a \<Rightarrow> int) \<Rightarrow> 'a \<Rightarrow> 'a trp_node \<Rightarrow> 'a option \<Rightarrow> 'a option option" where
  "prev_loop cmp x NULL ret = None"
| "prev_loop cmp x (TNode l y p r) ret =
     (let c = cmp x y in if c < 0 then prev_loop cmp x l ret else if c > 0 then prev_loop cmp x r (Some y) else Some ret)"

fun trp_prev :: "('a \<Rightarrow> 'a \<Rightarrow> int) \<Rightarrow> 'a trp_node \<Rightarrow> 'a trp_node \<Rightarrow> 'a option option" where
  "trp_prev cmp t NULL = None"
| "trp_prev cmp t (TNode l x p r) = (if l \<noteq> NULL then Some (trpn_last l) else prev_loop cmp x t None)"

fun insert_recurse :: "('a \<Rightarrow> 'a \<Rightarrow> int) \<Rightarrow> 'a trp_node \<Rightarrow> 'a \<Rightarrow> 32 word \<Rightarrow> 'a trp_node option" where
  "insert_recurse cmp NULL x p = Some (TNode NULL x p NULL)"
| "insert_recurse cmp (TNode l y q r) x p =
     (let c = cmp x y
      in if c = 0 then None
         else if c < 0
         then map_option (\<lambda>l'. if trp_prio l' < q then rotate_right (TNode l' y q r) else TNode l' y q r) (insert_recurse cmp l x p)
         else map_option (\<lambda>r'. if trp_prio r' < q then rotate_left (TNode l y q r') else TNode l y q r') (insert_recurse cmp r x p))"

definition trp_insert :: "('a \<Rightarrow> 'a \<Rightarrow> int) \<Rightarrow> 'a trp \<Rightarrow> 'a \<Rightarrow> 'a trp option" where
  "trp_insert cmp t x =
     (case trp_prn 1297 1301 t of
        (t1, prio) \<Rightarrow> map_option (\<lambda>n. t1\<lparr>trp_root := n\<rparr>) (insert_recurse cmp (trp_root t1) x prio))"

fun remove_recurse :: "('a \<Rightarrow> 'a \<Rightarrow> int) \<Rightarrow> 'a trp_node \<Rightarrow> 'a \<Rightarrow> 'a trp_node" where
  "remove_recurse cmp NULL y = NULL"
| "remove_recurse cmp (TNode l x p r) y =
     (let c = cmp y x
      in if c = 0
         then (case l of
                 NULL \<Rightarrow>
                   (case r of
                      NULL \<Rightarrow> NULL
                    | TNode a z s b \<Rightarrow> TNode (remove_recurse cmp (TNode l x p a) y) z s b)
               | TNode a z s b \<Rightarrow>
                   (case r of
                      NULL \<Rightarrow> TNode a z s (remove_recurse cmp (TNode b x p r) y)
                    | TNode a' z' s' b' \<Rightarrow>
                        if s < s' then TNode a z s (remove_recurse cmp (TNode b x p r) y)
                        else TNode (remove_recurse cmp (TNode l x p a') y) z' s' b'))
         else if c < 0 then TNode (remove_recurse cmp l y) x p r
         else TNode l x p (remove_recurse cmp r y))"

definition trp_remove :: "('a \<Rightarrow> 'a \<Rightarrow> int) \<Rightarrow> 'a trp \<Rightarrow> 'a \<Rightarrow> 'a trp" where
  "trp_remove cmp t x = (if trp_root t \<noteq> NULL then t\<lparr>trp_root := remove_recurse cmp (trp_root t) x\<rparr> else t)"

text \<open>Iteration from the start, with the effects of the callback as a state; it stops at the first node that the callback returns.\<close>

fun iter_recurse :: "'a trp_node \<Rightarrow> ('a \<Rightarrow> 's \<Rightarrow> 's \<times> 'a option) \<Rightarrow> 's \<Rightarrow> 's \<times> 'a option" where
  "iter_recurse NULL cb s = (s, None)"
| "iter_recurse (TNode l x p r) cb s =
     (case iter_recurse l cb s of
        (s1, Some y) \<Rightarrow> (s1, Some y)
      | (s1, None) \<Rightarrow> (case cb x s1 of (s2, Some y) \<Rightarrow> (s2, Some y) | (s2, None) \<Rightarrow> iter_recurse r cb s2))"

fun iter_start :: "('a \<Rightarrow> 'a \<Rightarrow> int) \<Rightarrow> 'a \<Rightarrow> 'a trp_node \<Rightarrow> ('a \<Rightarrow> 's \<Rightarrow> 's \<times> 'a option) \<Rightarrow> 's \<Rightarrow> ('s \<times> 'a option) option" where
  "iter_start cmp start NULL cb s = None"
| "iter_start cmp start (TNode l x p r) cb s =
     (let c = cmp start x
      in if c < 0
         then (case iter_start cmp start l cb s of
                 None \<Rightarrow> None
               | Some (s1, Some y) \<Rightarrow> Some (s1, Some y)
               | Some (s1, None) \<Rightarrow> Some (case cb x s1 of (s2, Some y) \<Rightarrow> (s2, Some y) | (s2, None) \<Rightarrow> iter_recurse r cb s2))
         else if c > 0 then iter_start cmp start r cb s
         else Some (case cb x s of (s2, Some y) \<Rightarrow> (s2, Some y) | (s2, None) \<Rightarrow> iter_recurse r cb s2))"

definition trp_iter :: "('a \<Rightarrow> 'a \<Rightarrow> int) \<Rightarrow> 'a trp \<Rightarrow> 'a option \<Rightarrow> ('a \<Rightarrow> 's \<Rightarrow> 's \<times> 'a option) \<Rightarrow> 's \<Rightarrow> ('s \<times> 'a option) option" where
  "trp_iter cmp t start cb s =
     (case start of None \<Rightarrow> Some (iter_recurse (trp_root t) cb s) | Some x \<Rightarrow> iter_start cmp x (trp_root t) cb s)"

fun reverse_iter_recurse :: "'a trp_node \<Rightarrow> ('a \<Rightarrow> 's \<Rightarrow> 's \<times> 'a option) \<Rightarrow> 's \<Rightarrow> 's \<times> 'a option" where
  "reverse_iter_recurse NULL cb s = (s, None)"
| "reverse_iter_recurse (TNode l x p r) cb s =
     (case reverse_iter_recurse r cb s of
        (s1, Some y) \<Rightarrow> (s1, Some y)
      | (s1, None) \<Rightarrow> (case cb x s1 of (s2, Some y) \<Rightarrow> (s2, Some y) | (s2, None) \<Rightarrow> reverse_iter_recurse l cb s2))"

section \<open>Contents and invariant\<close>

fun trp_inorder :: "'a trp_node \<Rightarrow> 'a list" where
  "trp_inorder NULL = []"
| "trp_inorder (TNode l x p r) = trp_inorder l @ x # trp_inorder r"

fun trp_prios :: "'a trp_node \<Rightarrow> 32 word multiset" where
  "trp_prios NULL = {#}"
| "trp_prios (TNode l x p r) = add_mset p (trp_prios l + trp_prios r)"

fun trp_heap :: "'a trp_node \<Rightarrow> bool" where
  "trp_heap NULL = True"
| "trp_heap (TNode l x p r) \<longleftrightarrow> (\<forall>q \<in># trp_prios l + trp_prios r. p \<le> q) \<and> trp_heap l \<and> trp_heap r"

lemma inorder_Nil [simp]: "trp_inorder t = [] \<longleftrightarrow> t = NULL"
  by (cases t) auto

lemma prios_nonempty: "trp_prios t \<noteq> {#} \<Longrightarrow> \<exists>l x p r. t = TNode l x p r"
  by (cases t) auto

lemma heap_root: "trp_heap (TNode a z s b) \<Longrightarrow> q \<le> s \<Longrightarrow> v \<in># trp_prios (TNode a z s b) \<Longrightarrow> q \<le> v"
proof -
  assume h: "trp_heap (TNode a z s b)" "q \<le> s" "v \<in># trp_prios (TNode a z s b)"
  then have "s \<le> v" by auto
  then show "q \<le> v" using h(2) by (rule order.trans [rotated])
qed

text \<open>A subtree that received one more priority and now has a smaller root can be rotated up.\<close>

lemma rotated_heap:
  assumes "trp_heap (TNode a z s b)" "add_mset s (trp_prios a + trp_prios b) = add_mset p (trp_prios l)" "s < q" "\<forall>v \<in># trp_prios l. q \<le> v"
  shows "\<forall>v \<in># trp_prios a + trp_prios b. q \<le> v"
proof -
  have "s \<in># add_mset p (trp_prios l)" using assms(2) by (metis union_single_eq_member)
  then have "s = p" using assms(3,4) by fastforce
  then have "trp_prios a + trp_prios b = trp_prios l" using assms(2) by simp
  then show ?thesis using assms(4) by simp
qed

lemma insert_recurse_prios:
  assumes "insert_recurse cmp t x p = Some t'"
  shows "trp_prios t' = add_mset p (trp_prios t) \<and> (trp_heap t \<longrightarrow> trp_heap t')"
  using assms
proof (induction t arbitrary: t')
  case (TNode l y q r)
  have "cmp x y \<noteq> 0" using TNode.prems by (auto simp: Let_def)
  then consider (left) "cmp x y < 0" | (right) "cmp x y > 0" by linarith
  then show ?case
  proof cases
    case left
    then obtain l' where l': "insert_recurse cmp l x p = Some l'" and t': "t' = (if trp_prio l' < q then rotate_right (TNode l' y q r) else TNode l' y q r)"
      using TNode.prems by (auto simp: Let_def)
    note IH = TNode.IH(1) [OF l']
    obtain a z s b where e: "l' = TNode a z s b" using prios_nonempty [of l'] IH by auto
    then have m: "add_mset s (trp_prios a + trp_prios b) = add_mset p (trp_prios l)" using IH by simp
    show ?thesis
    proof (cases "s < q")
      case True
      then have T: "t' = TNode a z s (TNode b y q r)" using t' e by simp
      have "trp_prios t' = add_mset q (add_mset s (trp_prios a + trp_prios b) + trp_prios r)" unfolding T by simp
      then have "trp_prios t' = add_mset p (trp_prios (TNode l y q r))" unfolding m by simp
      moreover have "trp_heap t'" if h: "trp_heap (TNode l y q r)"
      proof -
        have H: "trp_heap (TNode a z s b)" using IH e h by simp
        have ql: "\<forall>v \<in># trp_prios a + trp_prios b. q \<le> v" using rotated_heap [OF H m True] h by auto
        have "\<forall>v \<in># trp_prios r. q \<le> v" using h by auto
        then show ?thesis unfolding T using H h True ql by (auto intro: order.trans [OF less_imp_le])
      qed
      ultimately show ?thesis by blast
    next
      case False
      then have T: "t' = TNode l' y q r" using t' e by simp
      have "q \<le> v" if "trp_heap (TNode l y q r)" "v \<in># trp_prios l'" for v
        using heap_root [of a z s b q v] that IH e False by simp
      then show ?thesis unfolding T using IH by auto
    qed
  next
    case right
    then obtain r' where r': "insert_recurse cmp r x p = Some r'" and t': "t' = (if trp_prio r' < q then rotate_left (TNode l y q r') else TNode l y q r')"
      using TNode.prems by (auto simp: Let_def)
    note IH = TNode.IH(2) [OF r']
    obtain a z s b where e: "r' = TNode a z s b" using prios_nonempty [of r'] IH by auto
    then have m: "add_mset s (trp_prios a + trp_prios b) = add_mset p (trp_prios r)" using IH by simp
    show ?thesis
    proof (cases "s < q")
      case True
      then have T: "t' = TNode (TNode l y q a) z s b" using t' e by simp
      have "trp_prios t' = add_mset q (add_mset s (trp_prios a + trp_prios b) + trp_prios l)" unfolding T by simp
      then have "trp_prios t' = add_mset p (trp_prios (TNode l y q r))" unfolding m by simp
      moreover have "trp_heap t'" if h: "trp_heap (TNode l y q r)"
      proof -
        have H: "trp_heap (TNode a z s b)" using IH e h by simp
        have ql: "\<forall>v \<in># trp_prios a + trp_prios b. q \<le> v" using rotated_heap [OF H m True] h by auto
        have "\<forall>v \<in># trp_prios l. q \<le> v" using h by auto
        then show ?thesis unfolding T using H h True ql by (auto intro: order.trans [OF less_imp_le])
      qed
      ultimately show ?thesis by blast
    next
      case False
      then have T: "t' = TNode l y q r'" using t' e by simp
      have "q \<le> v" if "trp_heap (TNode l y q r)" "v \<in># trp_prios r'" for v
        using heap_root [of a z s b q v] that IH e False by simp
      then show ?thesis unfolding T using IH by auto
    qed
  qed
qed simp

lemma remove_root_prios:
  assumes "cmp y x = 0"
  shows "set_mset (trp_prios (remove_recurse cmp (TNode l x p r) y)) \<subseteq> set_mset (trp_prios l + trp_prios r) \<and>
     (trp_heap l \<and> trp_heap r \<longrightarrow> trp_heap (remove_recurse cmp (TNode l x p r) y))"
proof (induction "size l + size r" arbitrary: l r rule: less_induct)
  case less
  show ?case
  proof (cases l)
    case l: NULL
    show ?thesis
    proof (cases r)
      case (TNode a z s b)
      then show ?thesis using less [of NULL a] l assms by fastforce
    qed (use l assms in simp)
  next
    case l: (TNode a z s b)
    show ?thesis
    proof (cases r)
      case NULL
      then show ?thesis using less [of b NULL] l assms by fastforce
    next
      case r: (TNode a' z' s' b')
      show ?thesis
      proof (cases "s < s'")
        case True
        have R: "remove_recurse cmp (TNode l x p r) y = TNode a z s (remove_recurse cmp (TNode b x p r) y)" using l r assms True by simp
        have IH: "set_mset (trp_prios (remove_recurse cmp (TNode b x p r) y)) \<subseteq> set_mset (trp_prios b + trp_prios r)"
            "trp_heap b \<and> trp_heap r \<longrightarrow> trp_heap (remove_recurse cmp (TNode b x p r) y)"
          using less [of b r] l by simp_all
        have "s \<le> v" if "trp_heap l" "trp_heap r" "v \<in># trp_prios b + trp_prios r" for v
          using that l r heap_root [of a' z' s' b' s v] True by auto
        then show ?thesis unfolding R using IH l by auto
      next
        case False
        have R: "remove_recurse cmp (TNode l x p r) y = TNode (remove_recurse cmp (TNode l x p a') y) z' s' b'" using l r assms False by simp
        have IH: "set_mset (trp_prios (remove_recurse cmp (TNode l x p a') y)) \<subseteq> set_mset (trp_prios l + trp_prios a')"
            "trp_heap l \<and> trp_heap a' \<longrightarrow> trp_heap (remove_recurse cmp (TNode l x p a') y)"
          using less [of l a'] r by simp_all
        have "s' \<le> v" if "trp_heap l" "trp_heap r" "v \<in># trp_prios l + trp_prios a'" for v
          using that l r heap_root [of a z s b s' v] False by auto
        then show ?thesis unfolding R using IH r by auto
      qed
    qed
  qed
qed

lemma remove_recurse_prios:
  "set_mset (trp_prios (remove_recurse cmp t y)) \<subseteq> set_mset (trp_prios t) \<and> (trp_heap t \<longrightarrow> trp_heap (remove_recurse cmp t y))"
proof (induction t)
  case (TNode l x p r)
  consider "cmp y x = 0" | "cmp y x < 0" | "cmp y x > 0" by linarith
  then show ?case
  proof cases
    case 1
    then show ?thesis using remove_root_prios [of cmp y x l p r] by auto
  qed (use TNode.IH in \<open>auto simp: Let_def\<close>)
qed simp

section \<open>Treaps and sorted lists\<close>

text \<open>
  The contract under which the macro is used: the comparison is the one of a key. Every operation is then the one on the sorted list of the nodes.
\<close>

definition by_key :: "('a \<Rightarrow> 'k :: linorder) \<Rightarrow> 'a list \<Rightarrow> bool" where
  "by_key key xs \<longleftrightarrow> sorted_wrt (<) (map key xs)"

lemma by_key_append [simp]:
  "by_key key (xs @ x # ys) \<longleftrightarrow> by_key key xs \<and> by_key key ys \<and> (\<forall>y \<in> set xs. key y < key x) \<and> (\<forall>y \<in> set ys. key x < key y)"
  by (auto simp: by_key_def sorted_wrt_append dest: less_trans)

lemma by_key_Nil [simp]: "by_key key []"
  by (simp add: by_key_def)

locale treap_order =
  fixes key :: "'a \<Rightarrow> 'k :: linorder" and cmp :: "'a \<Rightarrow> 'a \<Rightarrow> int"
  assumes cmp_less: "cmp a b < 0 \<longleftrightarrow> key a < key b" and cmp_greater: "0 < cmp a b \<longleftrightarrow> key b < key a"
begin

lemma cmp_zero: "cmp a b = 0 \<longleftrightarrow> key a = key b"
  using cmp_less [of a b] cmp_greater [of a b] by (metis less_irrefl linorder_neqE)

lemma key_cases: obtains "key a = key b" | "key a < key b" | "key b < key a"
  by (metis linorder_neqE)

lemma search_list:
  "by_key key (trp_inorder t) \<Longrightarrow> trp_search cmp k t = (case filter (\<lambda>x. key x = key k) (trp_inorder t) of [] \<Rightarrow> None | x # _ \<Rightarrow> Some x)"
proof (induction t)
  case (TNode l x p r)
  show ?case
  proof (cases rule: key_cases [of k x])
    case 1
    then have "filter (\<lambda>y. key y = key k) (trp_inorder l) = []" using TNode.prems by (auto simp: filter_empty_conv)
    then show ?thesis using 1 by (simp add: cmp_zero)
  next
    case 2
    then have "filter (\<lambda>y. key y = key k) (x # trp_inorder r) = []" using TNode.prems by (auto simp: filter_empty_conv)
    then show ?thesis using 2 TNode by (auto simp: cmp_zero cmp_less)
  next
    case 3
    then have "filter (\<lambda>y. key y = key k) (trp_inorder l @ [x]) = []" using TNode.prems by (fastforce simp: filter_empty_conv)
    then show ?thesis using 3 TNode by (auto simp: cmp_zero cmp_less)
  qed
qed simp

lemma nsearch_loop_list:
  "by_key key (trp_inorder t) \<Longrightarrow> nsearch_loop cmp k t ret = (case filter (\<lambda>x. key k \<le> key x) (trp_inorder t) of [] \<Rightarrow> ret | x # _ \<Rightarrow> Some x)"
proof (induction t arbitrary: ret)
  case (TNode l x p r)
  show ?case
  proof (cases rule: key_cases [of k x])
    case 1
    then have "filter (\<lambda>y. key k \<le> key y) (trp_inorder l) = []" using TNode.prems by (auto simp: filter_empty_conv)
    then show ?thesis using 1 by (simp add: cmp_less cmp_greater)
  next
    case 2
    then show ?thesis using TNode by (auto simp: cmp_less split: list.split)
  next
    case 3
    then have "filter (\<lambda>y. key k \<le> key y) (trp_inorder l @ [x]) = []" using TNode.prems by (fastforce simp: filter_empty_conv)
    then show ?thesis using 3 TNode by (auto simp: cmp_greater cmp_less)
  qed
qed simp

lemma psearch_loop_list:
  "by_key key (trp_inorder t) \<Longrightarrow> psearch_loop cmp k t ret = (if filter (\<lambda>x. key x \<le> key k) (trp_inorder t) = [] then ret else Some (last (filter (\<lambda>x. key x \<le> key k) (trp_inorder t))))"
proof (induction t arbitrary: ret)
  case (TNode l x p r)
  show ?case
  proof (cases rule: key_cases [of k x])
    case 1
    then have "filter (\<lambda>y. key y \<le> key k) (trp_inorder r) = []" using TNode.prems by (auto simp: filter_empty_conv not_le)
    then show ?thesis using 1 by (simp add: cmp_less cmp_greater)
  next
    case 2
    then have "filter (\<lambda>y. key y \<le> key k) (x # trp_inorder r) = []" using TNode.prems by (fastforce simp: filter_empty_conv)
    then show ?thesis using 2 TNode by (auto simp: cmp_less)
  next
    case 3
    then show ?thesis using TNode by (auto simp: cmp_greater cmp_less)
  qed
qed simp

lemma rotate_inorder:
  "trp_inorder (rotate_right (TNode (TNode a y q b) x p r)) = trp_inorder (TNode (TNode a y q b) x p r)"
  "trp_inorder (rotate_left (TNode l x p (TNode a y q b))) = trp_inorder (TNode l x p (TNode a y q b))"
  by simp_all

lemma insert_recurse_present:
  assumes "by_key key (trp_inorder t)" "z \<in> set (trp_inorder t)" "key z = key x"
  shows "insert_recurse cmp t x p = None"
  using assms
proof (induction t)
  case (TNode l y q r)
  show ?case
  proof (cases rule: key_cases [of x y])
    case 2
    then have "z \<in> set (trp_inorder l)" using TNode.prems by auto
    then show ?thesis using TNode 2 by (simp add: cmp_less cmp_zero)
  next
    case 3
    then have "z \<in> set (trp_inorder r)" using TNode.prems by auto
    then show ?thesis using TNode 3 by (auto simp: cmp_less cmp_zero)
  qed (simp add: cmp_zero)
qed simp

lemma insert_recurse_absent:
  assumes "by_key key (trp_inorder t)" "\<forall>z \<in> set (trp_inorder t). key z \<noteq> key x"
  shows "\<exists>t'. insert_recurse cmp t x p = Some t' \<and>
       trp_inorder t' = filter (\<lambda>y. key y < key x) (trp_inorder t) @ x # filter (\<lambda>y. key x < key y) (trp_inorder t)"
  using assms
proof (induction t)
  case (TNode l y q r)
  show ?case
  proof (cases rule: key_cases [of x y])
    case 2
    then have r: "filter (\<lambda>z. key z < key x) (trp_inorder r) = []" "filter (\<lambda>z. key x < key z) (trp_inorder r) = trp_inorder r"
      using TNode.prems by (auto simp: filter_empty_conv filter_id_conv dest: less_trans)
    obtain l' where l': "insert_recurse cmp l x p = Some l'" "trp_inorder l' = filter (\<lambda>y. key y < key x) (trp_inorder l) @ x # filter (\<lambda>y. key x < key y) (trp_inorder l)"
      using TNode by auto
    obtain a z s b where "l' = TNode a z s b" using insert_recurse_prios [OF l'(1)] prios_nonempty [of l'] by auto
    then have "trp_inorder (if trp_prio l' < q then rotate_right (TNode l' y q r) else TNode l' y q r) = trp_inorder l' @ y # trp_inorder r" by simp
    then show ?thesis using l' r 2 by (auto simp: Let_def cmp_less cmp_zero)
  next
    case 3
    then have l: "filter (\<lambda>z. key x < key z) (trp_inorder l) = []" "filter (\<lambda>z. key z < key x) (trp_inorder l) = trp_inorder l"
      using TNode.prems by (auto simp: filter_empty_conv filter_id_conv dest: less_trans)
    obtain r' where r': "insert_recurse cmp r x p = Some r'" "trp_inorder r' = filter (\<lambda>y. key y < key x) (trp_inorder r) @ x # filter (\<lambda>y. key x < key y) (trp_inorder r)"
      using TNode by auto
    obtain a z s b where "r' = TNode a z s b" using insert_recurse_prios [OF r'(1)] prios_nonempty [of r'] by auto
    then have "trp_inorder (if trp_prio r' < q then rotate_left (TNode l y q r') else TNode l y q r') = trp_inorder l @ y # trp_inorder r'" by simp
    then show ?thesis using r' l 3 by (auto simp: Let_def cmp_less cmp_zero)
  qed (use TNode.prems in simp)
qed simp

lemma remove_root_list:
  assumes "key x = key y"
  shows "trp_inorder (remove_recurse cmp (TNode l x p r) y) = trp_inorder l @ trp_inorder r"
proof (induction "size l + size r" arbitrary: l r rule: less_induct)
  case less
  have c: "cmp y x = 0" using assms by (simp add: cmp_zero)
  show ?case
  proof (cases l)
    case l: NULL
    show ?thesis
    proof (cases r)
      case (TNode a z s b)
      then show ?thesis using less [of NULL a] l c by simp
    qed (use l c in simp)
  next
    case l: (TNode a z s b)
    show ?thesis
    proof (cases r)
      case NULL
      then show ?thesis using less [of b NULL] l c by simp
    next
      case r: (TNode a' z' s' b')
      show ?thesis using less [of b r] less [of l a'] l r c by simp
    qed
  qed
qed

lemma remove_recurse_list:
  "by_key key (trp_inorder t) \<Longrightarrow> trp_inorder (remove_recurse cmp t y) = filter (\<lambda>x. key x \<noteq> key y) (trp_inorder t)"
proof (induction t)
  case (TNode l x p r)
  show ?case
  proof (cases rule: key_cases [of y x])
    case 1
    then have "filter (\<lambda>z. key z \<noteq> key y) (trp_inorder l) = trp_inorder l" "filter (\<lambda>z. key z \<noteq> key y) (trp_inorder r) = trp_inorder r"
      using TNode.prems by (auto simp: filter_id_conv)
    then show ?thesis using remove_root_list [of x y l p r] 1 by simp
  next
    case 2
    then have "filter (\<lambda>z. key z \<noteq> key y) (trp_inorder r) = trp_inorder r" using TNode.prems by (auto simp: filter_id_conv)
    then show ?thesis using TNode 2 by (auto simp: cmp_less cmp_zero)
  next
    case 3
    then have "filter (\<lambda>z. key z \<noteq> key y) (trp_inorder l) = trp_inorder l" using TNode.prems by (auto simp: filter_id_conv)
    then show ?thesis using TNode 3 by (auto simp: cmp_less cmp_zero)
  qed
qed simp

end

text \<open>The whole structure: ordered by the key and by the priorities.\<close>

definition trp_ok :: "('a \<Rightarrow> 'k :: linorder) \<Rightarrow> 'a trp \<Rightarrow> bool" where
  "trp_ok key t \<longleftrightarrow> by_key key (trp_inorder (trp_root t)) \<and> trp_heap (trp_root t)"

definition trp_nodes :: "'a trp \<Rightarrow> 'a list" where
  "trp_nodes t = trp_inorder (trp_root t)"

lemma trp_new_ok: "trp_ok key (trp_new seed)" "trp_nodes (trp_new seed) = []"
  by (simp_all add: trp_ok_def trp_nodes_def trp_new_def)

lemma by_key_filter: "by_key key xs \<Longrightarrow> by_key key (filter P xs)"
  unfolding by_key_def by (induction xs) auto

lemma by_key_insert: "by_key key xs \<Longrightarrow> by_key key (filter (\<lambda>y. key y < key x) xs @ x # filter (\<lambda>y. key x < key y) xs)"
  by (simp add: by_key_filter)

context treap_order
begin

lemma trp_insert_absent:
  assumes "trp_ok key t" "\<forall>z \<in> set (trp_nodes t). key z \<noteq> key x"
  shows "\<exists>t'. trp_insert cmp t x = Some t' \<and> trp_ok key t' \<and>
     trp_nodes t' = filter (\<lambda>y. key y < key x) (trp_nodes t) @ x # filter (\<lambda>y. key x < key y) (trp_nodes t)"
proof -
  obtain p where p: "trp_prn 1297 1301 t = (t\<lparr>trp_prn_state := p\<rparr>, p)" by (simp add: trp_prn_def Let_def)
  obtain n where n: "insert_recurse cmp (trp_root t) x p = Some n"
      "trp_inorder n = filter (\<lambda>y. key y < key x) (trp_nodes t) @ x # filter (\<lambda>y. key x < key y) (trp_nodes t)"
    using insert_recurse_absent [of "trp_root t" x p] assms by (auto simp: trp_ok_def trp_nodes_def)
  have "trp_heap n" using insert_recurse_prios [OF n(1)] assms(1) by (simp add: trp_ok_def)
  moreover have "by_key key (trp_inorder n)" unfolding n(2) by (rule by_key_insert) (use assms(1) in \<open>simp add: trp_ok_def trp_nodes_def\<close>)
  ultimately show ?thesis using n p by (simp add: trp_insert_def trp_ok_def trp_nodes_def)
qed

lemma trp_insert_present:
  assumes "trp_ok key t" "z \<in> set (trp_nodes t)" "key z = key x"
  shows "trp_insert cmp t x = None"
  using insert_recurse_present [of "trp_root t" z x] assms by (simp add: trp_insert_def trp_prn_def Let_def trp_ok_def trp_nodes_def)

lemma trp_remove_spec:
  assumes "trp_ok key t"
  shows "trp_ok key (trp_remove cmp t x)" "trp_nodes (trp_remove cmp t x) = filter (\<lambda>y. key y \<noteq> key x) (trp_nodes t)"
  using assms remove_recurse_list [of "trp_root t" x] remove_recurse_prios [of cmp "trp_root t" x] by_key_filter
  by (auto simp: trp_remove_def trp_ok_def trp_nodes_def)

lemma trp_psearch_spec:
  "trp_ok key t \<Longrightarrow> trp_psearch cmp k (trp_root t)
     = (if filter (\<lambda>x. key x \<le> key k) (trp_nodes t) = [] then None else Some (last (filter (\<lambda>x. key x \<le> key k) (trp_nodes t))))"
  using psearch_loop_list [of "trp_root t" k None] by (simp add: trp_psearch_def trp_ok_def trp_nodes_def)

lemma trp_nsearch_spec:
  "trp_ok key t \<Longrightarrow> trp_nsearch cmp k (trp_root t) = (case filter (\<lambda>x. key k \<le> key x) (trp_nodes t) of [] \<Rightarrow> None | x # _ \<Rightarrow> Some x)"
  using nsearch_loop_list [of "trp_root t" k None] by (simp add: trp_nsearch_def trp_ok_def trp_nodes_def)

lemma trp_search_spec:
  "trp_ok key t \<Longrightarrow> trp_search cmp k (trp_root t) = (case filter (\<lambda>x. key x = key k) (trp_nodes t) of [] \<Rightarrow> None | x # _ \<Rightarrow> Some x)"
  using search_list [of "trp_root t" k] by (simp add: trp_ok_def trp_nodes_def)

end

section \<open>Iteration\<close>

lemma iter_recurse_fold:
  "\<forall>x \<in> set (trp_inorder t). \<forall>s. snd (cb x s) = None \<Longrightarrow> iter_recurse t cb s = (fold (\<lambda>x s. fst (cb x s)) (trp_inorder t) s, None)"
proof (induction t arbitrary: s)
  case (TNode l x p r)
  then show ?case by (auto split: prod.split option.split) (metis fst_conv snd_conv option.distinct(1))+
qed simp

end
