(* ===== verification/Map_Value.thy ===== *)
theory Map_Value
  imports Treap Cache Rdf
begin

text \<open>
  The map stream (\<^verbatim>\<open>lib/map.c\<close>): a logical stream made of slices of other streams. A map value keeps its points in a treap that is ordered by
  the offset in the image; a position belongs to the last point before it. The targets are numbered, and a cache finds the number of a target
  by its name. Integer fields are 64-bit signed, parameters 64-bit unsigned. \<open>None\<close> is undefined behaviour (a division by zero, an
  overflow, an access outside an array, a failed assertion).
\<close>

section \<open>Map values\<close>

record map_point_node =
  image_offset :: int
  target_offset :: int
  target_idx :: nat

record map_value =
  map_size :: int
  number_of_points :: int
  number_of_urns :: int
  tree :: "map_point_node trp"
  targets :: "rdf_urn list"
  target_cache :: "int cache"
  target_period :: int
  image_period :: int

definition map_point_cmp :: "map_point_node \<Rightarrow> map_point_node \<Rightarrow> int" where
  "map_point_cmp a b = of_bool (image_offset b < image_offset a) - of_bool (image_offset a < image_offset b)"

definition point_at :: "int \<Rightarrow> map_point_node" where
  "point_at off = \<lparr>image_offset = off, target_offset = 0, target_idx = 0\<rparr>"

definition MapValue_Con :: map_value where
  "MapValue_Con = \<lparr>map_size = 0, number_of_points = 0, number_of_urns = 0, tree = trp_new 42, targets = [],
     target_cache = Cache_Con 100 0, target_period = - 1, image_period = - 1\<rparr>"

text \<open>The result of \<^verbatim>\<open>get_range\<close>: the target and its number, the offset in the target, and how far the point reaches; nothing if the map is empty.\<close>

definition MapValue_get_range :: "map_value \<Rightarrow> int \<Rightarrow> (rdf_urn \<times> int \<times> int \<times> nat) option option" where
  "MapValue_get_range self readptr =
     (if u64 (image_period self) = 0 \<or> s64 readptr = 2 ^ 63 - 1 then None
      else
        (let period_number = readptr div u64 (image_period self);
             image_period_offset = readptr mod u64 (image_period self);
             pnode = trp_psearch map_point_cmp (point_at (s64 readptr)) (trp_root (tree self));
             nnode = trp_nsearch map_point_cmp (point_at (s64 readptr + 1)) (trp_root (tree self));
             next_offset = (case nnode of None \<Rightarrow> map_size self | Some n \<Rightarrow> image_offset n)
         in case pnode of
              Some p \<Rightarrow>
                if target_idx p < length (targets self)
                then Some (Some (targets self ! target_idx p,
                       u64 (target_offset p + image_period_offset - image_offset p + period_number * target_period self),
                       u64 (next_offset - readptr), target_idx p))
                else None
            | None \<Rightarrow>
                (case nnode of
                   Some n \<Rightarrow>
                     if target_idx n < length (targets self)
                     then Some (Some (targets self ! target_idx n,
                            u64 (target_offset n - (image_offset n - image_period_offset) + period_number * target_period self),
                            u64 (image_offset n - readptr), target_idx n))
                     else None
                 | None \<Rightarrow> Some None)))"

text \<open>The number of a target, which is added if it is not known yet.\<close>

definition map_target :: "map_value \<Rightarrow> buf \<Rightarrow> (map_value \<times> int) option" where
  "map_target self target =
     (case Cache_borrow (target_cache self) (target @ [NUL]) of
        Some i \<Rightarrow> Some (self, i)
      | None \<Rightarrow>
          (case RDFURN_set RDFURN_Con (Some target) of
             None \<Rightarrow> None
           | Some u \<Rightarrow>
               (case Cache_put (target_cache self) (target @ [NUL]) (Some (number_of_urns self)) of
                  None \<Rightarrow> None
                | Some (c, _) \<Rightarrow>
                    Some (self\<lparr>targets := targets self @ [u], number_of_urns := s32 (number_of_urns self + 1), target_cache := c\<rparr>,
                          number_of_urns self))))"

definition MapValue_add_point :: "map_value \<Rightarrow> int \<Rightarrow> int \<Rightarrow> buf \<Rightarrow> (map_value \<times> int) option" where
  "MapValue_add_point self ioff toff target =
     (case map_target self target of
        None \<Rightarrow> None
      | Some (s1, idx) \<Rightarrow>
          (let node = \<lparr>image_offset = s64 ioff, target_offset = s64 toff, target_idx = nat (u32 idx)\<rparr>;
               s2 = (case trp_search map_point_cmp (point_at (image_offset node)) (trp_root (tree s1)) of
                       None \<Rightarrow> s1
                     | Some old \<Rightarrow> s1\<lparr>tree := trp_remove map_point_cmp (tree s1) old\<rparr>)
           in case MapValue_get_range s2 ioff of
                None \<Rightarrow> None
              | Some (Some (_, old_target_offset, available, existing_idx)) \<Rightarrow>
                  if int existing_idx = idx \<and> old_target_offset = toff then Some (s2, available)
                  else map_option (\<lambda>t. (s2\<lparr>tree := t, number_of_points := s32 (number_of_points s2 + 1)\<rparr>, available))
                         (trp_insert map_point_cmp (tree s2) node)
              | Some None \<Rightarrow>
                  map_option (\<lambda>t. (s2\<lparr>tree := t, number_of_points := s32 (number_of_points s2 + 1)\<rparr>, 0))
                    (trp_insert map_point_cmp (tree s2) node)))"

section \<open>Text form\<close>

definition print_lld :: "int \<Rightarrow> buf" where
  "print_lld n = (if n < 0 then CHR ''-'' # digits 10 DIGIT (nat (- n)) else digits 10 DIGIT (nat n))"

definition map_line :: "char \<Rightarrow> map_value \<Rightarrow> map_point_node \<Rightarrow> buf" where
  "map_line sep self node =
     print_lld (image_offset node) @ '','' @ print_lld (target_offset node) @ '','' @ urn_value (targets self ! target_idx node) @ [sep]"

text \<open>One line of the text form. A line that does not fit the buffer is cut and written with the terminator.\<close>

definition text_map_iterate_cb :: "map_value \<Rightarrow> map_point_node \<Rightarrow> buf \<Rightarrow> buf \<times> map_point_node option" where
  "text_map_iterate_cb self node out =
     (let line = map_line (CHR 0x0A) self node
      in (out @ (if length line < BUFF_SIZE then line else take (BUFF_SIZE - 1) line @ [NUL]), None))"

definition map_text :: "map_value \<Rightarrow> buf" where
  "map_text self = fst (iter_recurse (trp_root (tree self)) (text_map_iterate_cb self) [])"

text \<open>
  The form that is stored in the attribute itself: a buffer of fixed size and the position in it. When an earlier line did not fit, the
  position is the end of the buffer and the room that is passed to \<^verbatim>\<open>snprintf\<close> is negative, that is, unlimited. The number of the target
  is bounded by the number of points.
\<close>

definition inline_map_iterate_cb :: "map_value \<Rightarrow> map_point_node \<Rightarrow> (buf \<times> nat) option \<Rightarrow> (buf \<times> nat) option \<times> map_point_node option" where
  "inline_map_iterate_cb self node st =
     ((case st of
         None \<Rightarrow> None
       | Some (b, i) \<Rightarrow>
           (let idx = min (nat (u32 (number_of_points self))) (target_idx node);
                line = map_line (CHR ''|'') self (node\<lparr>target_idx := idx\<rparr>);
                available = BUFF_SIZE - i - 1
            in if BUFF_SIZE \<le> i \<or> length (targets self) \<le> idx then None
               else map_option (\<lambda>b'. (b', min (i + length line) BUFF_SIZE))
                      (if available = 0 then Some b else mem_write i (take (available - 1) line @ [NUL]) b))), None)"

definition MapValueInline_serialise :: "map_value \<Rightarrow> buf option" where
  "MapValueInline_serialise self =
     map_option fst (fst (iter_recurse (trp_root (tree self)) (inline_map_iterate_cb self) (Some (replicate BUFF_SIZE NUL, 0))))"

text \<open>The conversions of \<^verbatim>\<open>sscanf\<close>: \<^verbatim>\<open>%lld\<close>, a comma, and \<^verbatim>\<open>%1000s\<close>.\<close>

definition scan_lld :: "buf \<Rightarrow> (int \<times> buf) option" where
  "scan_lld s =
     (let s1 = dropWhile is_space s;
          neg = (s1 \<noteq> [] \<and> hd s1 = CHR ''-'');
          s2 = (if s1 \<noteq> [] \<and> (hd s1 = CHR ''-'' \<or> hd s1 = CHR ''+'') then tl s1 else s1)
      in if s2 \<noteq> [] \<and> digit_val (hd s2) < 10
         then (case scan_digits 10 0 s2 of (n, rest) \<Rightarrow> Some (saturate64 (if neg then - int n else int n), rest))
         else None)"

definition scan_comma :: "buf \<Rightarrow> buf option" where
  "scan_comma s = (case s of c # r \<Rightarrow> if c = CHR '','' then Some r else None | [] \<Rightarrow> None)"

definition scan_word :: "buf \<Rightarrow> buf option" where
  "scan_word s = (let w = take 1000 (takeWhile (\<lambda>c. \<not> is_space c) (dropWhile is_space s)) in if w = [] then None else Some w)"

definition scan_point :: "buf \<Rightarrow> (int \<times> int \<times> buf) option" where
  "scan_point line =
     (case scan_lld line of
        None \<Rightarrow> None
      | Some (i, r1) \<Rightarrow>
          (case scan_comma r1 of
             None \<Rightarrow> None
           | Some r2 \<Rightarrow>
               (case scan_lld r2 of
                  None \<Rightarrow> None
                | Some (t, r3) \<Rightarrow>
                    (case scan_comma r3 of
                       None \<Rightarrow> None
                     | Some r4 \<Rightarrow> map_option (\<lambda>w. (i, t, w)) (scan_word r4)))))"

text \<open>
  The loop over the lines of a string. It steps over the character after each line, so when the last line has no separator it leaves
  the string.
\<close>

function map_decode_loop :: "(char \<Rightarrow> bool) \<Rightarrow> buf \<Rightarrow> map_value \<Rightarrow> map_value option" where
  "map_decode_loop sep x self =
     (if x = [] then Some self
      else
        (let line = takeWhile (\<lambda>c. \<not> sep c) x
         in case (case scan_point line of
                    None \<Rightarrow> Some self
                  | Some (i, t, w) \<Rightarrow> map_option fst (MapValue_add_point self (u64 i) (u64 t) w)) of
              None \<Rightarrow> None
            | Some self1 \<Rightarrow> if length line = length x then None else map_decode_loop sep (drop (length line + 1) x) self1))"
  by pat_completeness auto
termination
  by (relation "measure (\<lambda>(sep, x, self). length x)") auto

declare map_decode_loop.simps [simp del]

definition MapValue_decode :: "buf \<Rightarrow> map_value \<Rightarrow> map_value option" where
  "MapValue_decode segment self = map_decode_loop (\<lambda>c. c = CHR 0x0D \<or> c = CHR 0x0A) (takeWhile (\<lambda>c. c \<noteq> NUL) segment) self"

definition MapValueInline_decode :: "buf \<Rightarrow> map_value \<Rightarrow> map_value option" where
  "MapValueInline_decode data self = map_decode_loop (\<lambda>c. c = CHR ''|'') (takeWhile (\<lambda>c. c \<noteq> NUL) data) self"

section \<open>The stream\<close>

text \<open>
  The stream once \<^verbatim>\<open>finish\<close> has given it a map: the record always holds one, so the check of \<^verbatim>\<open>write_from\<close> for a driver without a map,
  which reports an error and changes nothing, has no counterpart.
\<close>

record map_driver =
  driver_map :: map_value
  driver_readptr :: int
  driver_mode :: char

definition MapDriver_write_from :: "map_driver \<Rightarrow> rdf_urn \<Rightarrow> int \<Rightarrow> int \<Rightarrow> map_driver option" where
  "MapDriver_write_from self target toff tlen =
     map_option (\<lambda>(m, _). let p = s64 (driver_readptr self + tlen)
                         in self\<lparr>driver_map := m\<lparr>map_size := max (map_size m) p\<rparr>, driver_readptr := p\<rparr>)
       (MapValue_add_point (driver_map self) (u64 (driver_readptr self)) toff (urn_value target))"

text \<open>
  Reading from a target: opening it in the resolver, positioning and reading give the bytes that were read, or nothing if the target cannot
  be opened or the read fails.
\<close>

type_synonym target_read = "rdf_urn \<Rightarrow> int \<Rightarrow> nat \<Rightarrow> buf option"

definition MapDriver_partial_read :: "target_read \<Rightarrow> map_driver \<Rightarrow> nat \<Rightarrow> (map_driver \<times> int \<times> buf) option" where
  "MapDriver_partial_read rd self len =
     (case MapValue_get_range (driver_map self) (u64 (driver_readptr self)) of
        None \<Rightarrow> None
      | Some None \<Rightarrow> Some (self, 0, [])
      | Some (Some (target, off, available, _)) \<Rightarrow>
          (case rd target off (min (nat available) len) of
             None \<Rightarrow> Some (self, - 1, [])
           | Some bytes \<Rightarrow> Some (self\<lparr>driver_readptr := driver_readptr self + int (length bytes)\<rparr>, int (length bytes), bytes)))"

text \<open>
  The loop of \<^verbatim>\<open>read\<close>, with the bytes stored so far. When a partial read fails, the rest of the buffer is filled with zeros and the whole
  length is added to the count.
\<close>

function map_read_loop :: "target_read \<Rightarrow> map_driver \<Rightarrow> nat \<Rightarrow> nat \<Rightarrow> buf \<Rightarrow> (map_driver \<times> nat \<times> buf) option" where
  "map_read_loop rd self len i out =
     (if len \<le> i then Some (self, i, out)
      else
        (case MapDriver_partial_read rd self (len - i) of
           None \<Rightarrow> None
         | Some (s1, n, bytes) \<Rightarrow>
             if n = 0 then Some (s1, i, out)
             else if n < 0 then map_read_loop rd s1 len (i + len) (out @ replicate (len - i) NUL)
             else map_read_loop rd s1 len (i + nat n) (out @ bytes)))"
  by pat_completeness auto
termination
  by (relation "measure (\<lambda>(rd, self, len, i, out). len - i)") auto

declare map_read_loop.simps [simp del]

text \<open>The length is clipped to the rest of the stream, in unsigned arithmetic. A count that leaves the range of \<^verbatim>\<open>int\<close> is undefined.\<close>

definition MapDriver_read :: "target_read \<Rightarrow> map_driver \<Rightarrow> nat \<Rightarrow> (map_driver \<times> int \<times> buf) option" where
  "MapDriver_read rd self len =
     (case map_read_loop rd self (min len (nat (u64 (map_size (driver_map self) - driver_readptr self)))) 0 [] of
        None \<Rightarrow> None
      | Some (s1, i, out) \<Rightarrow> if i < 2 ^ 31 then Some (s1, int i, out) else None)"

datatype map_kind = AFF4_MAP_INLINE | AFF4_MAP_TEXT | AFF4_MAP_BINARY

text \<open>The form in which \<^verbatim>\<open>close\<close> stores the map.\<close>

definition map_implementation :: "map_value \<Rightarrow> map_kind" where
  "map_implementation m = (if number_of_points m < 2 then AFF4_MAP_INLINE else if number_of_points m > 10 then AFF4_MAP_BINARY else AFF4_MAP_TEXT)"

section \<open>Points and positions\<close>

text \<open>The comparison of points is the one of their offsets, so that the laws of treaps hold.\<close>

interpretation mtree: treap_order image_offset map_point_cmp
  by unfold_locales (auto simp: map_point_cmp_def)

text \<open>The last point at or before a position.\<close>

definition point_before :: "map_value \<Rightarrow> int \<Rightarrow> map_point_node option" where
  "point_before m p =
     (let ns = filter (\<lambda>n. image_offset n \<le> p) (trp_nodes (tree m)) in if ns = [] then None else Some (last ns))"

definition next_offset_of :: "map_value \<Rightarrow> int \<Rightarrow> int" where
  "next_offset_of m p = (case filter (\<lambda>n. p < image_offset n) (trp_nodes (tree m)) of [] \<Rightarrow> map_size m | n # _ \<Rightarrow> image_offset n)"

text \<open>What a position of the map stands for: a target and an offset in it.\<close>

definition map_loc :: "map_value \<Rightarrow> int \<Rightarrow> (buf \<times> int) option" where
  "map_loc m p = map_option (\<lambda>n. (urn_value (targets m ! target_idx n), target_offset n + (p - image_offset n))) (point_before m p)"

definition node_ok :: "map_value \<Rightarrow> map_point_node \<Rightarrow> bool" where
  "node_ok m n \<longleftrightarrow> target_idx n < length (targets m) \<and> 0 \<le> image_offset n \<and> 0 \<le> target_offset n \<and> target_offset n < 2 ^ 62"

definition map_inv :: "map_value \<Rightarrow> bool" where
  "map_inv m \<longleftrightarrow> trp_ok image_offset (tree m) \<and> (\<forall>n \<in> set (trp_nodes (tree m)). node_ok m n) \<and> cache_live (target_cache m) \<and>
     (\<forall>k i. Cache_borrow (target_cache m) (k @ [NUL]) = Some i \<longrightarrow> 0 \<le> i \<and> nat i < length (targets m) \<and> urn_value (targets m ! nat i) = k) \<and>
     number_of_urns m = int (length (targets m)) \<and> image_period m = - 1 \<and> target_period m = - 1"

lemma get_range_before:
  assumes m: "map_inv m" and p: "0 \<le> p" "p < 2 ^ 62" and n: "point_before m p = Some n"
  shows "MapValue_get_range m p = Some (Some (targets m ! target_idx n, target_offset n + (p - image_offset n), u64 (next_offset_of m p - p), target_idx n))"
    and "node_ok m n" "image_offset n \<le> p"
proof -
  have t: "trp_ok image_offset (tree m)" "image_period m = - 1" "target_period m = - 1" using m by (simp_all add: map_inv_def)
  have s: "s64 p = p" "u64 (- 1) = 2 ^ 64 - 1" using p by (simp_all add: s64_id u64_def)
  have ps: "trp_psearch map_point_cmp (point_at p) (trp_root (tree m)) = point_before m p"
    unfolding mtree.trp_psearch_spec [OF t(1)] by (simp add: point_before_def point_at_def Let_def)
  have ns: "(case trp_nsearch map_point_cmp (point_at (p + 1)) (trp_root (tree m)) of None \<Rightarrow> map_size m | Some n \<Rightarrow> image_offset n) = next_offset_of m p"
    unfolding mtree.trp_nsearch_spec [OF t(1)] by (simp add: next_offset_of_def point_at_def add1_zle_eq split: list.split)
  have "n \<in> set (trp_nodes (tree m))" "image_offset n \<le> p" using n last_in_set [of "filter (\<lambda>n. image_offset n \<le> p) (trp_nodes (tree m))"]
    by (auto simp: point_before_def Let_def split: if_splits)
  then show ok: "node_ok m n" "image_offset n \<le> p" using m by (auto simp: map_inv_def)
  have "p div (2 ^ 64 - 1) = 0" "p mod (2 ^ 64 - 1) = p" using p by (auto intro: div_pos_pos_trivial mod_pos_pos_trivial)
  moreover have "u64 (target_offset n + p - image_offset n) = target_offset n + (p - image_offset n)"
    using ok p by (subst u64_id) (auto simp: node_ok_def)
  ultimately show "MapValue_get_range m p = Some (Some (targets m ! target_idx n, target_offset n + (p - image_offset n), u64 (next_offset_of m p - p), target_idx n))"
    using ok p unfolding MapValue_get_range_def t s ps n ns Let_def by (simp add: node_ok_def ns)
qed

text \<open>A name that survives being set as a URN.\<close>

definition urn_name :: "buf \<Rightarrow> bool" where
  "urn_name name \<longleftrightarrow> (\<exists>u. RDFURN_set RDFURN_Con (Some name) = Some u \<and> urn_value u = name)"

lemma node_ok_more: "node_ok m n \<Longrightarrow> length (targets m) \<le> length (targets m') \<Longrightarrow> node_ok m' n"
  by (simp add: node_ok_def)

lemma map_target_spec:
  assumes m: "map_inv m" and name: "urn_name name" and l: "length (targets m) < 2 ^ 31 - 1"
  shows "\<exists>m' i. map_target m name = Some (m', int i) \<and> map_inv m' \<and> tree m' = tree m \<and> map_size m' = map_size m \<and> i < length (targets m') \<and>
     urn_value (targets m' ! i) = name \<and> (\<exists>us. targets m' = targets m @ us) \<and> length (targets m') \<le> Suc (length (targets m)) \<and>
     Cache_borrow (target_cache m') (name @ [NUL]) = Some (int i)"
proof (cases "Cache_borrow (target_cache m) (name @ [NUL])")
  case (Some i)
  then have "0 \<le> i" "nat i < length (targets m)" "urn_value (targets m ! nat i) = name" using m by (auto simp: map_inv_def)
  then show ?thesis using Some m by (intro exI [of _ m] exI [of _ "nat i"]) (simp add: map_target_def)
next
  case None
  obtain u where u: "RDFURN_set RDFURN_Con (Some name) = Some u" "urn_value u = name" using name by (auto simp: urn_name_def)
  have live: "cache_live (target_cache m)" and nu: "number_of_urns m = int (length (targets m))" using m by (simp_all add: map_inv_def)
  obtain c where c: "cache_add (target_cache m) (name @ [NUL]) (number_of_urns m) = Some c" "cache_live c"
      "cache_values c = (cache_values (target_cache m))(name @ [NUL] := cache_values (target_cache m) (name @ [NUL]) @ [number_of_urns m])"
    using cmap.put_spec [OF live] by blast
  then obtain it where put: "Cache_put (target_cache m) (name @ [NUL]) (Some (number_of_urns m)) = Some (c, it)" by (auto simp: cache_add_def)
  have e: "cache_values (target_cache m) (name @ [NUL]) = []" using None cmap.peek_spec [OF live, of "name @ [NUL]"] by (simp split: list.splits)
  have s: "s32 (number_of_urns m + 1) = int (length (targets m)) + 1" using l nu by (subst s32_id) auto
  let ?m = "m\<lparr>targets := targets m @ [u], number_of_urns := int (length (targets m)) + 1, target_cache := c\<rparr>"
  have T: "map_target m name = Some (?m, int (length (targets m)))" unfolding map_target_def using None u put nu s by simp
  have b: "Cache_borrow c (k @ [NUL]) = (if k = name then Some (number_of_urns m) else Cache_borrow (target_cache m) (k @ [NUL]))" for k
    using cmap.peek_spec [OF c(2), of "k @ [NUL]"] cmap.peek_spec [OF live, of "k @ [NUL]"] c(3) e by simp
  have "0 \<le> i \<and> nat i < Suc (length (targets m)) \<and> urn_value ((targets m @ [u]) ! nat i) = k" if "Cache_borrow c (k @ [NUL]) = Some i" for k i
    using that m nu u(2) unfolding b by (auto simp: map_inv_def nth_append split: if_splits)
  then have "map_inv ?m" using m c(2) node_ok_more [of m _ ?m] by (auto simp: map_inv_def)
  then show ?thesis using T u(2) b [of name] nu by (intro exI [of _ ?m] exI [of _ "length (targets m)"]) simp
qed

text \<open>Adding a point behind all others.\<close>

lemma point_before_end:
  assumes "\<forall>n \<in> set (trp_nodes (tree m)). image_offset n < o'" "o' \<le> p"
  shows "point_before m p = (if trp_nodes (tree m) = [] then None else Some (last (trp_nodes (tree m))))"
proof -
  have "filter (\<lambda>n. image_offset n \<le> p) (trp_nodes (tree m)) = trp_nodes (tree m)" using assms by (auto simp: filter_id_conv)
  then show ?thesis by (simp add: point_before_def)
qed

lemma point_before_in: "point_before m p = Some n \<Longrightarrow> n \<in> set (trp_nodes (tree m))"
  using last_in_set [of "filter (\<lambda>n. image_offset n \<le> p) (trp_nodes (tree m))"] by (auto simp: point_before_def Let_def split: if_splits)

lemma map_loc_targets:
  assumes "map_inv m" "tree m' = tree m" "targets m' = targets m @ us"
  shows "map_loc m' p = map_loc m p"
proof -
  have "point_before m' p = point_before m p" using assms(2) by (simp add: point_before_def)
  moreover have "targets m' ! target_idx n = targets m ! target_idx n" if "point_before m p = Some n" for n
    using point_before_in [OF that] assms(1,3) by (auto simp: map_inv_def node_ok_def nth_append)
  ultimately show ?thesis by (cases "point_before m p") (simp_all add: map_loc_def)
qed

lemma get_range_empty:
  assumes "map_inv m" "trp_nodes (tree m) = []" "0 \<le> p" "p < 2 ^ 62"
  shows "MapValue_get_range m p = Some None"
proof -
  have t: "trp_ok image_offset (tree m)" "u64 (image_period m) \<noteq> 0" using assms(1) by (simp_all add: map_inv_def u64_def)
  have "s64 p = p" using assms(3,4) by (intro s64_id) auto
  then show ?thesis using assms(2-4) t(2)
    unfolding MapValue_get_range_def mtree.trp_psearch_spec [OF t(1)] mtree.trp_nsearch_spec [OF t(1)] by simp
qed

lemma insert_end:
  assumes m: "map_inv m" and n: "\<forall>x \<in> set (trp_nodes (tree m)). image_offset x < image_offset n" "node_ok m n"
  shows "\<exists>t. trp_insert map_point_cmp (tree m) n = Some t \<and> trp_nodes t = trp_nodes (tree m) @ [n] \<and>
     (\<forall>k. map_inv (m\<lparr>tree := t, number_of_points := k\<rparr>)) \<and>
     (\<forall>k p. map_loc (m\<lparr>tree := t, number_of_points := k\<rparr>) p = (if p < image_offset n then map_loc m p
        else Some (urn_value (targets m ! target_idx n), target_offset n + (p - image_offset n))))"
proof -
  have ok: "trp_ok image_offset (tree m)" using m by (simp add: map_inv_def)
  have "\<forall>z \<in> set (trp_nodes (tree m)). image_offset z \<noteq> image_offset n" using n(1) by auto
  from mtree.trp_insert_absent [OF ok this] obtain t where t: "trp_insert map_point_cmp (tree m) n = Some t" "trp_ok image_offset t"
      "trp_nodes t = filter (\<lambda>y. image_offset y < image_offset n) (trp_nodes (tree m)) @ n # filter (\<lambda>y. image_offset n < image_offset y) (trp_nodes (tree m))"
    by blast
  have "filter (\<lambda>y. image_offset y < image_offset n) (trp_nodes (tree m)) = trp_nodes (tree m)" using n(1) by (simp add: filter_id_conv)
  moreover have "filter (\<lambda>y. image_offset n < image_offset y) (trp_nodes (tree m)) = []" using n(1) by (auto simp: filter_empty_conv)
  ultimately have t': "trp_nodes t = trp_nodes (tree m) @ [n]" using t(3) by simp
  have "map_inv (m\<lparr>tree := t, number_of_points := k\<rparr>)" for k using m t(2) t' n(2) by (auto simp: map_inv_def node_ok_def)
  moreover have "map_loc (m\<lparr>tree := t, number_of_points := k\<rparr>) p = (if p < image_offset n then map_loc m p
        else Some (urn_value (targets m ! target_idx n), target_offset n + (p - image_offset n)))" for k p
    using t' by (simp add: map_loc_def point_before_def Let_def)
  ultimately show ?thesis using t(1) t' by blast
qed

lemma add_point_end:
  assumes m: "map_inv m" and name: "urn_name name" "length (targets m) < 2 ^ 31 - 1"
    and off: "\<forall>n \<in> set (trp_nodes (tree m)). image_offset n < off" "0 \<le> off" "off < 2 ^ 62" and t: "0 \<le> t" "t < 2 ^ 62"
  shows "\<exists>m' a. MapValue_add_point m off t name = Some (m', a) \<and> map_inv m' \<and> map_size m' = map_size m \<and> length (targets m') \<le> Suc (length (targets m)) \<and>
     Cache_borrow (target_cache m') (name @ [NUL]) \<noteq> None \<and> (\<forall>n \<in> set (trp_nodes (tree m')). image_offset n \<le> off) \<and>
     (\<forall>p. map_loc m' p = (if p < off then map_loc m p else Some (name, t + (p - off))))"
proof -
  obtain m1 i us where m1: "map_target m name = Some (m1, int i)" "map_inv m1" "tree m1 = tree m" "map_size m1 = map_size m" "i < length (targets m1)"
     "urn_value (targets m1 ! i) = name" "targets m1 = targets m @ us" "length (targets m1) \<le> Suc (length (targets m))"
     "Cache_borrow (target_cache m1) (name @ [NUL]) = Some (int i)"
    using map_target_spec [OF m name] by blast
  have loc: "map_loc m1 p = map_loc m p" for p by (rule map_loc_targets [OF m m1(3,7)])
  have ok: "trp_ok image_offset (tree m)" using m by (simp add: map_inv_def)
  define n where "n = \<lparr>image_offset = off, target_offset = t, target_idx = i\<rparr>"
  have "s64 off = off" "s64 t = t" using off t by (auto intro!: s64_id)
  moreover have "u32 (int i) = int i" using m1(5,8) name(2) by (subst u32_id) auto
  ultimately have nd: "\<lparr>image_offset = s64 off, target_offset = s64 t, target_idx = nat (u32 (int i))\<rparr> = n" by (simp add: n_def)
  have "filter (\<lambda>x. image_offset x = off) (trp_nodes (tree m)) = []" using off(1) by (auto simp: filter_empty_conv)
  then have sr: "trp_search map_point_cmp (point_at (image_offset n)) (trp_root (tree m1)) = None"
    unfolding m1(3) mtree.trp_search_spec [OF ok] by (simp add: n_def point_at_def)
  have nok: "node_ok m1 n" using m1(5) off t by (simp add: node_ok_def n_def)
  have ends: "\<forall>x \<in> set (trp_nodes (tree m1)). image_offset x < image_offset n" using off(1) m1(3) by (simp add: n_def)
  obtain tr where tr: "trp_insert map_point_cmp (tree m1) n = Some tr" "trp_nodes tr = trp_nodes (tree m1) @ [n]"
     "\<forall>k. map_inv (m1\<lparr>tree := tr, number_of_points := k\<rparr>)"
     "\<forall>k p. map_loc (m1\<lparr>tree := tr, number_of_points := k\<rparr>) p = (if p < off then map_loc m p else Some (name, t + (p - off)))"
    using insert_end [OF m1(2) ends nok] unfolding loc by (auto simp: n_def m1(6))
  have add: "MapValue_add_point m off t name =
      (case MapValue_get_range m1 off of
         None \<Rightarrow> None
       | Some (Some (_, x, a, e)) \<Rightarrow>
           if int e = int i \<and> x = t then Some (m1, a)
           else map_option (\<lambda>t. (m1\<lparr>tree := t, number_of_points := s32 (number_of_points m1 + 1)\<rparr>, a)) (trp_insert map_point_cmp (tree m1) n)
       | Some None \<Rightarrow> map_option (\<lambda>t. (m1\<lparr>tree := t, number_of_points := s32 (number_of_points m1 + 1)\<rparr>, 0)) (trp_insert map_point_cmp (tree m1) n))"
    unfolding MapValue_add_point_def m1(1) option.case prod.case Let_def nd sr ..
  let ?m2 = "m1\<lparr>tree := tr, number_of_points := s32 (number_of_points m1 + 1)\<rparr>"
  have all: "\<forall>x \<in> set (trp_nodes (tree ?m2)). image_offset x \<le> off" using tr(2) ends by (auto simp: n_def)
  have fresh: "\<exists>m' a. MapValue_add_point m off t name = Some (m', a) \<and> map_inv m' \<and> map_size m' = map_size m \<and> length (targets m') \<le> Suc (length (targets m)) \<and>
     Cache_borrow (target_cache m') (name @ [NUL]) \<noteq> None \<and>
     (\<forall>n \<in> set (trp_nodes (tree m')). image_offset n \<le> off) \<and> (\<forall>p. map_loc m' p = (if p < off then map_loc m p else Some (name, t + (p - off))))"
    if "MapValue_add_point m off t name = Some (?m2, a)" for a
    using that tr(3,4) all m1(4,8,9) by (intro exI [of _ ?m2] exI [of _ a]) simp
  show ?thesis
  proof (cases "trp_nodes (tree m) = []")
    case True
    then have "MapValue_get_range m1 off = Some None" using get_range_empty [OF m1(2)] m1(3) off by simp
    then have "MapValue_add_point m off t name = Some (?m2, 0)"
      unfolding add by (simp add: tr(1))
    then show ?thesis by (rule fresh)
  next
    case False
    define l where "l = last (trp_nodes (tree m))"
    have pb: "point_before m1 p = Some l" if "off \<le> p" for p using point_before_end [of m1 off p] off(1) that False m1(3) by (simp add: l_def)
    note g = get_range_before [OF m1(2) off(2,3) pb [OF order_refl]]
    show ?thesis
    proof (cases "target_idx l = i \<and> target_offset l + (off - image_offset l) = t")
      case same: True
      have "MapValue_add_point m off t name = Some (m1, u64 (next_offset_of m1 off - off))"
        unfolding add using same by (simp add: g(1))
      moreover have "map_loc m1 p = (if p < off then map_loc m p else Some (name, t + (p - off)))" for p
      proof (cases "p < off")
        case False
        then show ?thesis using pb [of p] same m1(6) by (auto simp: map_loc_def)
      qed (simp add: loc)
      moreover have "\<forall>n \<in> set (trp_nodes (tree m1)). image_offset n \<le> off" using off(1) m1(3) by auto
      ultimately show ?thesis using m1(2,4,8,9) by (intro exI [of _ m1] exI) auto
    next
      case False
      then have "MapValue_add_point m off t name = Some (?m2, u64 (next_offset_of m1 off - off))"
        unfolding add by (auto simp: g(1) tr(1))
      then show ?thesis by (rule fresh)
    qed
  qed
qed

text \<open>A point that continues the last one is not stored.\<close>

lemma add_point_redundant:
  assumes m: "map_inv m" and i: "Cache_borrow (target_cache m) (name @ [NUL]) = Some (int i)"
    and off: "\<forall>n \<in> set (trp_nodes (tree m)). image_offset n < off" "0 \<le> off" "off < 2 ^ 62"
    and n: "point_before m off = Some n" "target_idx n = i" "target_offset n + (off - image_offset n) = t"
  shows "\<exists>a. MapValue_add_point m off t name = Some (m, a)"
proof -
  have ok: "trp_ok image_offset (tree m)" using m by (simp add: map_inv_def)
  have "filter (\<lambda>x. image_offset x = off) (trp_nodes (tree m)) = []" using off(1) by (auto simp: filter_empty_conv)
  then have sr: "trp_search map_point_cmp (point_at off) (trp_root (tree m)) = None" unfolding mtree.trp_search_spec [OF ok] by (simp add: point_at_def)
  have s: "s64 off = off" using off by (intro s64_id) auto
  have T: "map_target m name = Some (m, int i)" by (simp add: map_target_def i)
  show ?thesis using get_range_before(1) [OF m off(2,3) n(1)] n(2,3) by (simp add: MapValue_add_point_def T s sr Let_def)
qed

lemma get_range_loc:
  assumes "map_inv m" "0 \<le> p" "p < 2 ^ 62" "map_loc m p = Some (k, x)"
  shows "\<exists>u av i. MapValue_get_range m p = Some (Some (u, x, av, i)) \<and> urn_value u = k"
  using assms get_range_before(1) [OF assms(1-3)] by (auto simp: map_loc_def)

section \<open>Writing slices\<close>

fun map_writes :: "map_driver \<Rightarrow> (rdf_urn \<times> int \<times> int) list \<Rightarrow> map_driver option" where
  "map_writes d [] = Some d"
| "map_writes d ((u, off, len) # xs) = (case MapDriver_write_from d u off len of None \<Rightarrow> None | Some d' \<Rightarrow> map_writes d' xs)"

text \<open>What a position stands for, given the slices from a start on.\<close>

fun slice_loc :: "int \<Rightarrow> (rdf_urn \<times> int \<times> int) list \<Rightarrow> int \<Rightarrow> (buf \<times> int) option" where
  "slice_loc start [] p = None"
| "slice_loc start ((u, off, len) # xs) p = (if p < start + len then Some (urn_value u, off + (p - start)) else slice_loc (start + len) xs p)"

definition slice_ok :: "rdf_urn \<times> int \<times> int \<Rightarrow> bool" where
  "slice_ok = (\<lambda>(u, off, len). urn_name (urn_value u) \<and> 0 < len \<and> 0 \<le> off \<and> off < 2 ^ 62)"

definition total_length :: "(rdf_urn \<times> int \<times> int) list \<Rightarrow> int" where
  "total_length xs = sum_list (map (\<lambda>(u, off, len). len) xs)"

text \<open>A stream that is written in order: all points lie before the pointer, which is the size.\<close>

definition appending :: "map_driver \<Rightarrow> bool" where
  "appending d \<longleftrightarrow> map_inv (driver_map d) \<and> 0 \<le> driver_readptr d \<and> map_size (driver_map d) = driver_readptr d \<and>
     (\<forall>n \<in> set (trp_nodes (tree (driver_map d))). image_offset n < driver_readptr d)"

lemma total_nonneg: "\<forall>x \<in> set xs. slice_ok x \<Longrightarrow> 0 \<le> total_length xs"
  unfolding total_length_def by (intro sum_list_nonneg) (auto simp: slice_ok_def)

lemma write_from_step:
  assumes d: "appending d" and s: "slice_ok (u, off, len)" and b: "driver_readptr d + len < 2 ^ 62" "length (targets (driver_map d)) < 2 ^ 31 - 1"
  shows "\<exists>d'. MapDriver_write_from d u off len = Some d' \<and> appending d' \<and> driver_readptr d' = driver_readptr d + len \<and> driver_mode d' = driver_mode d \<and>
     length (targets (driver_map d')) \<le> Suc (length (targets (driver_map d))) \<and>
     (\<forall>p. map_loc (driver_map d') p = (if p < driver_readptr d then map_loc (driver_map d) p else Some (urn_value u, off + (p - driver_readptr d))))"
proof -
  have D: "map_inv (driver_map d)" "0 \<le> driver_readptr d" "map_size (driver_map d) = driver_readptr d"
      "\<forall>n \<in> set (trp_nodes (tree (driver_map d))). image_offset n < driver_readptr d" using d by (simp_all add: appending_def)
  have S: "urn_name (urn_value u)" "0 < len" "0 \<le> off" "off < 2 ^ 62" using s by (simp_all add: slice_ok_def)
  have r: "driver_readptr d < 2 ^ 62" "u64 (driver_readptr d) = driver_readptr d" "s64 (driver_readptr d + len) = driver_readptr d + len"
    using D(2) S(2) b(1) by (auto intro!: u64_id s64_id)
  obtain m' a where m': "MapValue_add_point (driver_map d) (driver_readptr d) off (urn_value u) = Some (m', a)" "map_inv m'" "map_size m' = map_size (driver_map d)"
      "length (targets m') \<le> Suc (length (targets (driver_map d)))" "\<forall>n \<in> set (trp_nodes (tree m')). image_offset n \<le> driver_readptr d"
      "\<forall>p. map_loc m' p = (if p < driver_readptr d then map_loc (driver_map d) p else Some (urn_value u, off + (p - driver_readptr d)))"
    using add_point_end [OF D(1) S(1) b(2) D(4,2) r(1) S(3,4)] by blast
  let ?m = "m'\<lparr>map_size := driver_readptr d + len\<rparr>"
  let ?d = "d\<lparr>driver_map := ?m, driver_readptr := driver_readptr d + len\<rparr>"
  have W: "MapDriver_write_from d u off len = Some ?d" unfolding MapDriver_write_from_def r using m'(1,3) D(3) S(2) by (simp add: Let_def r)
  have "map_inv ?m" using m'(2) by (simp add: map_inv_def node_ok_def)
  then have "appending ?d" using D(2) S(2) m'(5) by (auto simp: appending_def)
  moreover have "map_loc ?m p = map_loc m' p" for p by (simp add: map_loc_def point_before_def)
  ultimately show ?thesis using W m'(4,6) by (intro exI [of _ ?d]) simp
qed

lemma map_writes_loc:
  assumes "appending d" "\<forall>x \<in> set xs. slice_ok x" "driver_readptr d + total_length xs < 2 ^ 62" "length (targets (driver_map d)) + length xs < 2 ^ 31"
  shows "\<exists>d'. map_writes d xs = Some d' \<and> appending d' \<and> driver_readptr d' = driver_readptr d + total_length xs \<and> driver_mode d' = driver_mode d \<and>
     (\<forall>p < driver_readptr d'. map_loc (driver_map d') p = (if p < driver_readptr d then map_loc (driver_map d) p else slice_loc (driver_readptr d) xs p))"
  using assms
proof (induction xs arbitrary: d)
  case (Cons x xs)
  obtain u off len where x: "x = (u, off, len)" by (cases x)
  have t: "total_length (x # xs) = len + total_length xs" "0 \<le> total_length xs" using total_nonneg [of xs] Cons.prems(2) by (auto simp: total_length_def x)
  have b: "slice_ok (u, off, len)" "driver_readptr d + len < 2 ^ 62" "length (targets (driver_map d)) < 2 ^ 31 - 1" using Cons.prems t by (auto simp: x)
  obtain d1 where d1: "MapDriver_write_from d u off len = Some d1" "appending d1" "driver_readptr d1 = driver_readptr d + len" "driver_mode d1 = driver_mode d"
     "length (targets (driver_map d1)) \<le> Suc (length (targets (driver_map d)))"
     "\<forall>p. map_loc (driver_map d1) p = (if p < driver_readptr d then map_loc (driver_map d) p else Some (urn_value u, off + (p - driver_readptr d)))"
    using write_from_step [OF Cons.prems(1) b] by blast
  obtain d' where d': "map_writes d1 xs = Some d'" "appending d'" "driver_readptr d' = driver_readptr d1 + total_length xs" "driver_mode d' = driver_mode d1"
     "\<forall>p < driver_readptr d'. map_loc (driver_map d') p = (if p < driver_readptr d1 then map_loc (driver_map d1) p else slice_loc (driver_readptr d1) xs p)"
    using Cons.IH [OF d1(2)] Cons.prems(2-4) d1(3,5) t(1) by auto
  have "0 < len" using b(1) by (simp add: slice_ok_def)
  then show ?case using d1 d' t(1) by (intro exI [of _ d']) (auto simp: x)
qed (auto simp: total_length_def)

section \<open>Reading\<close>

text \<open>Targets that can be read, with their contents by name; and a map whose positions have the bytes of a list.\<close>

definition reads_targets :: "target_read \<Rightarrow> (buf \<Rightarrow> buf) \<Rightarrow> bool" where
  "reads_targets rd T \<longleftrightarrow> (\<forall>u off n. 0 \<le> off \<longrightarrow> rd u off n = Some (take n (drop (nat off) (T (urn_value u)))))"

definition map_content :: "(buf \<Rightarrow> buf) \<Rightarrow> map_value \<Rightarrow> buf \<Rightarrow> bool" where
  "map_content T m c \<longleftrightarrow> map_inv m \<and> map_size m = int (length c) \<and> length c < 2 ^ 62 \<and> (\<forall>n \<in> set (trp_nodes (tree m)). image_offset n \<le> map_size m) \<and>
     (\<forall>p < length c. \<exists>k x. map_loc m (int p) = Some (k, int x) \<and> x < length (T k) \<and> T k ! x = c ! p)"

lemma next_offset_bounds:
  assumes "\<forall>n \<in> set (trp_nodes (tree m)). image_offset n \<le> map_size m" "p < map_size m"
  shows "p < next_offset_of m p" "next_offset_of m p \<le> map_size m"
proof -
  let ?ns = "filter (\<lambda>n. p < image_offset n) (trp_nodes (tree m))"
  have "p < next_offset_of m p \<and> next_offset_of m p \<le> map_size m"
  proof (cases ?ns)
    case (Cons n ns)
    then have "n \<in> set ?ns" by simp
    then have "n \<in> set (trp_nodes (tree m))" "p < image_offset n" by auto
    then show ?thesis using assms Cons by (simp add: next_offset_of_def)
  qed (use assms in \<open>simp add: next_offset_of_def\<close>)
  then show "p < next_offset_of m p" "next_offset_of m p \<le> map_size m" by auto
qed

lemma point_before_same:
  assumes "by_key image_offset (trp_nodes (tree m))" "p \<le> q" "q < next_offset_of m p" "q < map_size m"
  shows "point_before m q = point_before m p"
proof -
  have none: "\<not> (p < image_offset n \<and> image_offset n \<le> q)" if n: "n \<in> set (trp_nodes (tree m))" for n
  proof
    assume a: "p < image_offset n \<and> image_offset n \<le> q"
    then obtain x xs where f: "filter (\<lambda>n. p < image_offset n) (trp_nodes (tree m)) = x # xs" using n by (metis (mono_tags, lifting) filter_empty_conv neq_Nil_conv)
    have "by_key image_offset (x # xs)" using by_key_filter [OF assms(1), of "\<lambda>n. p < image_offset n"] f by simp
    moreover have "n \<in> set (x # xs)" using n a unfolding f [symmetric] by simp
    ultimately have "image_offset x \<le> image_offset n" by (auto simp: by_key_def)
    then show False using assms(3) a f by (simp add: next_offset_of_def)
  qed
  have "filter (\<lambda>n. image_offset n \<le> q) (trp_nodes (tree m)) = filter (\<lambda>n. image_offset n \<le> p) (trp_nodes (tree m))"
    by (rule filter_cong) (use none assms(2) in \<open>force+\<close>)
  then show ?thesis by (simp add: point_before_def)
qed

lemma partial_read_content:
  assumes c: "map_content T (driver_map d) c" and r: "reads_targets rd T" and p: "driver_readptr d = int p" "p < length c" "0 < len"
  shows "\<exists>n. 0 < n \<and> n \<le> len \<and> p + n \<le> length c \<and>
     MapDriver_partial_read rd d len = Some (d\<lparr>driver_readptr := int (p + n)\<rparr>, int n, take n (drop p c))"
proof -
  let ?m = "driver_map d"
  have C: "map_inv ?m" "map_size ?m = int (length c)" "length c < 2 ^ 62" "\<forall>n \<in> set (trp_nodes (tree ?m)). image_offset n \<le> map_size ?m"
    and L: "\<And>q. q < length c \<Longrightarrow> \<exists>k x. map_loc ?m (int q) = Some (k, int x) \<and> x < length (T k) \<and> T k ! x = c ! q"
    using c by (auto simp: map_content_def)
  obtain k x where kx: "map_loc ?m (int p) = Some (k, int x)" using L [OF p(2)] by blast
  then obtain nd where nd: "point_before ?m (int p) = Some nd" "k = urn_value (targets ?m ! target_idx nd)" "int x = target_offset nd + (int p - image_offset nd)"
    by (auto simp: map_loc_def)
  have pb: "0 \<le> int p" "int p < 2 ^ 62" using p(2) C(3) by simp_all
  note g = get_range_before [OF C(1) pb nd(1)]
  let ?nx = "next_offset_of ?m (int p)"
  have nx: "int p < ?nx" "?nx \<le> int (length c)" using next_offset_bounds [OF C(4), of "int p"] p(2) C(2) by simp_all
  have av: "u64 (?nx - int p) = ?nx - int p" using nx C(3) by (intro u64_id) auto
  define n where "n = min (nat (?nx - int p)) len"
  have n: "0 < n" "n \<le> len" "p + n \<le> length c" "int (p + n) \<le> ?nx" using nx p(3) by (auto simp: n_def)
  have ok: "by_key image_offset (trp_nodes (tree ?m))" using C(1) by (simp add: map_inv_def trp_ok_def trp_nodes_def)
  have at: "x + j < length (T k) \<and> T k ! (x + j) = c ! (p + j)" if "j < n" for j
  proof -
    have q: "p + j < length c" "int p \<le> int (p + j)" "int (p + j) < ?nx" using that n by auto
    then have "point_before ?m (int (p + j)) = Some nd" using point_before_same [OF ok q(2,3)] C(2) nd(1) by simp
    then have "map_loc ?m (int (p + j)) = Some (k, int (x + j))" using nd(2,3) by (simp add: map_loc_def)
    then show ?thesis using L [OF q(1)] by (auto simp del: of_nat_add)
  qed
  have "x + n \<le> length (T k)" using at [of "n - 1"] n(1) by auto
  then have bytes: "take n (drop x (T k)) = take n (drop p c)" using at n(3) by (intro nth_equalityI) auto
  have "rd (targets ?m ! target_idx nd) (int x) n = Some (take n (drop p c))"
    using r bytes nd(2) by (simp add: reads_targets_def)
  moreover have "u64 (int p) = int p" using pb by (intro u64_id) auto
  ultimately have "MapDriver_partial_read rd d len = Some (d\<lparr>driver_readptr := int p + int (length (take n (drop p c)))\<rparr>, int (length (take n (drop p c))), take n (drop p c))"
    unfolding MapDriver_partial_read_def p(1) using g(1) av nd(3) by (simp add: n_def [symmetric] p(1))
  then show ?thesis using n by (intro exI [of _ n]) simp
qed

lemma map_read_loop_content:
  assumes c: "map_content T (driver_map d) c" and r: "reads_targets rd T" and p: "driver_readptr d = int (p + i)" "i \<le> len" "p + len \<le> length c"
  shows "map_read_loop rd d len i (take i (drop p c)) = Some (d\<lparr>driver_readptr := int (p + len)\<rparr>, len, take len (drop p c))"
  using c p
proof (induction "len - i" arbitrary: d i rule: less_induct)
  case less
  show ?case
  proof (cases "i = len")
    case True
    then show ?thesis using less.prems(2) by (simp add: map_read_loop.simps [of _ _ _ len])
  next
    case False
    then have b: "p + i < length c" "0 < len - i" using less.prems by linarith+
    obtain n where n: "0 < n" "n \<le> len - i" "MapDriver_partial_read rd d (len - i) = Some (d\<lparr>driver_readptr := int (p + i + n)\<rparr>, int n, take n (drop (p + i) c))"
      using partial_read_content [OF less.prems(1) r less.prems(2) b] by blast
    let ?d = "d\<lparr>driver_readptr := int (p + i + n)\<rparr>"
    have e: "take i (drop p c) @ take n (drop (p + i) c) = take (i + n) (drop p c)" by (simp add: take_add add.commute)
    have h: "len - (i + n) < len - i" "driver_readptr ?d = int (p + (i + n))" "i + n \<le> len" using n b(2) by auto
    have "map_read_loop rd ?d len (i + n) (take (i + n) (drop p c)) = Some (?d\<lparr>driver_readptr := int (p + len)\<rparr>, len, take len (drop p c))"
      by (rule less.hyps [OF h(1) _ h(2,3) less.prems(4)]) (use less.prems(1) in simp)
    then show ?thesis using n b by (subst map_read_loop.simps) (simp add: e)
  qed
qed

lemma MapDriver_read_content:
  assumes c: "map_content T (driver_map d) c" and r: "reads_targets rd T" and p: "driver_readptr d = int p" "p \<le> length c" "min len (length c - p) < 2 ^ 31"
  shows "\<exists>d'. MapDriver_read rd d len = Some (d', int (length (take len (drop p c))), take len (drop p c))"
proof -
  let ?l = "min len (length c - p)"
  have "map_size (driver_map d) = int (length c)" "length c < 2 ^ 62" using c by (simp_all add: map_content_def)
  then have "nat (u64 (map_size (driver_map d) - driver_readptr d)) = length c - p" using p(1,2) by (subst u64_id) auto
  moreover have "map_read_loop rd d ?l 0 [] = Some (d\<lparr>driver_readptr := int (p + ?l)\<rparr>, ?l, take ?l (drop p c))"
    using map_read_loop_content [OF c r, of p 0 ?l] p(1,2) by simp
  moreover have "take ?l (drop p c) = take len (drop p c)" by (simp add: min_def)
  ultimately show ?thesis using p(3) unfolding MapDriver_read_def by (simp add: min.commute)
qed

text \<open>The bytes of a sequence of slices.\<close>

definition slice_bytes :: "(buf \<Rightarrow> buf) \<Rightarrow> rdf_urn \<times> int \<times> int \<Rightarrow> buf" where
  "slice_bytes T = (\<lambda>(u, off, len). take (nat len) (drop (nat off) (T (urn_value u))))"

definition slice_inside :: "(buf \<Rightarrow> buf) \<Rightarrow> rdf_urn \<times> int \<times> int \<Rightarrow> bool" where
  "slice_inside T = (\<lambda>(u, off, len). slice_ok (u, off, len) \<and> nat off + nat len \<le> length (T (urn_value u)))"

lemma slices_length: "\<forall>x \<in> set xs. slice_inside T x \<Longrightarrow> int (length (concat (map (slice_bytes T) xs))) = total_length xs"
  by (induction xs) (auto simp: total_length_def slice_bytes_def slice_inside_def slice_ok_def)

lemma slices_content:
  assumes "\<forall>x \<in> set xs. slice_inside T x" "p < length (concat (map (slice_bytes T) xs))"
  shows "\<exists>k x. slice_loc start xs (start + int p) = Some (k, int x) \<and> x < length (T k) \<and> T k ! x = concat (map (slice_bytes T) xs) ! p"
  using assms
proof (induction xs arbitrary: start p)
  case (Cons y xs)
  obtain u off len where y: "y = (u, off, len)" by (cases y)
  have s: "0 < len" "0 \<le> off" "nat off + nat len \<le> length (T (urn_value u))" "length (slice_bytes T y) = nat len"
    using Cons.prems(1) by (auto simp: slice_inside_def slice_ok_def slice_bytes_def y)
  show ?case
  proof (cases "p < nat len")
    case True
    then have "int p < len" by linarith
    then have "slice_loc start (y # xs) (start + int p) = Some (urn_value u, int (nat off + p))" using s(2) by (simp add: y)
    moreover have "concat (map (slice_bytes T) (y # xs)) ! p = T (urn_value u) ! (nat off + p)" "nat off + p < length (T (urn_value u))"
      using True s by (auto simp: nth_append slice_bytes_def y)
    ultimately show ?thesis by metis
  next
    case False
    then have "len \<le> int p" by linarith
    then have "slice_loc start (y # xs) (start + int p) = slice_loc (start + len) xs (start + len + int (p - nat len))" using s(1) by (simp add: y)
    moreover have "concat (map (slice_bytes T) (y # xs)) ! p = concat (map (slice_bytes T) xs) ! (p - nat len)" using False s(4) by (simp add: nth_append)
    moreover have "p - nat len < length (concat (map (slice_bytes T) xs))" using False Cons.prems(2) s(4) by simp
    ultimately show ?thesis using Cons.IH [of "p - nat len" "start + len"] Cons.prems(1) by simp
  qed
qed simp

text \<open>A new map.\<close>

definition MapDriver_new :: "char \<Rightarrow> map_driver" where
  "MapDriver_new m = \<lparr>driver_map = MapValue_Con, driver_readptr = 0, driver_mode = m\<rparr>"

lemma MapValue_Con_inv: "map_inv MapValue_Con" "trp_nodes (tree MapValue_Con) = []"
proof -
  have "cache_live (Cache_Con 100 0 :: int cache)" "cache_values (Cache_Con 100 0 :: int cache) = (\<lambda>_. [])"
    using Cache_Con_live [of 100, where 'a = int] by simp_all
  then have "Cache_borrow (Cache_Con 100 0 :: int cache) k = None" for k using cmap.peek_spec [of "Cache_Con 100 0 :: int cache" k] by simp
  then show "map_inv MapValue_Con" using \<open>cache_live (Cache_Con 100 0 :: int cache)\<close>
    by (simp add: map_inv_def MapValue_Con_def trp_new_ok)
qed (simp add: MapValue_Con_def trp_new_ok(2))

lemma MapDriver_new_appending: "appending (MapDriver_new m)"
  using MapValue_Con_inv by (simp add: appending_def MapDriver_new_def) (simp add: MapValue_Con_def)

end
