(* ===== verification/Map_Text.thy ===== *)
theory Map_Text
  imports Map_Value
begin

text \<open>
  The text form of maps, and the limits of the map stream: storing a map as lines and decoding them, points that are dropped although a
  later point needs them, periods, and the count that a failed read returns.
\<close>

section \<open>Numbers and lines\<close>

lemma DIGIT_plain: "c < 10 \<Longrightarrow> \<not> is_space (DIGIT c) \<and> DIGIT c \<noteq> CHR ''-'' \<and> DIGIT c \<noteq> CHR ''+'' \<and> DIGIT c \<noteq> NUL"
proof -
  have "\<forall>c \<in> {..<10}. \<not> is_space (DIGIT c) \<and> DIGIT c \<noteq> CHR ''-'' \<and> DIGIT c \<noteq> CHR ''+'' \<and> DIGIT c \<noteq> NUL" by code_simp
  then show "c < 10 \<Longrightarrow> \<not> is_space (DIGIT c) \<and> DIGIT c \<noteq> CHR ''-'' \<and> DIGIT c \<noteq> CHR ''+'' \<and> DIGIT c \<noteq> NUL" by blast
qed

lemma digits_set: "2 \<le> base \<Longrightarrow> set (digits base d n) \<subseteq> d ` {..<base}"
proof (induction base d n rule: digits.induct)
  case (1 base d n)
  then show ?case by (subst digits.simps) auto
qed

lemma print_lld_plain: "0 \<le> n \<Longrightarrow> c \<in> set (print_lld n) \<Longrightarrow> \<not> is_space c \<and> c \<noteq> NUL"
proof -
  assume a: "0 \<le> n" "c \<in> set (print_lld n)"
  then have "c \<in> set (digits 10 DIGIT (nat n))" by (simp add: print_lld_def)
  moreover have "set (digits 10 DIGIT (nat n)) \<subseteq> DIGIT ` {..<10}" by (rule digits_set) simp
  ultimately obtain k where k: "k < 10" "c = DIGIT k" by blast
  show ?thesis unfolding k(2) using DIGIT_plain [OF k(1)] by simp
qed

lemma print_lld_length: "0 \<le> n \<Longrightarrow> n < 2 ^ 62 \<Longrightarrow> length (print_lld n) \<le> 19"
  by (auto simp: print_lld_def intro!: length_digits)

lemma scan_lld_print:
  assumes "0 \<le> n" "n < 2 ^ 62" "r = [] \<or> \<not> digit_val (hd r) < 10"
  shows "scan_lld (print_lld n @ r) = Some (n, r)"
proof -
  obtain c cs where d: "digits 10 DIGIT (nat n) = DIGIT c # cs" "c < 10" using digits_Cons [of 10 DIGIT "nat n"] by auto
  obtain l where "scan_digits 10 0 (digits 10 DIGIT (nat n) @ r) = (0 * 10 ^ l + nat n, r)"
    using scan_digits_digits [of 10 DIGIT r 0 "nat n"] DIGIT_val assms(3) by auto
  moreover have "saturate64 n = n" using assms(1,2) by (simp add: saturate64_def)
  moreover have "print_lld n = DIGIT c # cs" using assms(1) d(1) by (simp add: print_lld_def)
  ultimately show ?thesis using DIGIT_plain [OF d(2)] DIGIT_val [OF d(2)] d assms(1) by (simp add: scan_lld_def)
qed

text \<open>A target name that the text form can hold.\<close>

definition text_name :: "buf \<Rightarrow> bool" where
  "text_name k \<longleftrightarrow> urn_name k \<and> k \<noteq> [] \<and> length k \<le> 1000 \<and> (\<forall>c \<in> set k. \<not> is_space c \<and> c \<noteq> NUL)"

definition point_text :: "int \<Rightarrow> int \<Rightarrow> buf \<Rightarrow> buf" where
  "point_text i t k = print_lld i @ '','' @ print_lld t @ '','' @ k"

lemma comma_no_digit: "\<not> digit_val (CHR '','') < 10" "\<not> is_space (CHR '','')"
  by code_simp+

lemma scan_point_text:
  assumes "0 \<le> i" "i < 2 ^ 62" "0 \<le> t" "t < 2 ^ 62" "text_name k"
  shows "scan_point (point_text i t k) = Some (i, t, k)"
proof -
  have k: "dropWhile is_space k = k" "takeWhile (\<lambda>c. \<not> is_space c) k = k" "take 1000 k = k" "k \<noteq> []"
    using assms(5) by (cases k; simp add: text_name_def takeWhile_eq_all_conv)+
  then have "scan_word k = Some k" unfolding scan_word_def k(1,2) by (simp add: Let_def)
  moreover have "scan_lld (print_lld i @ CHR '','' # print_lld t @ CHR '','' # k) = Some (i, CHR '','' # print_lld t @ CHR '','' # k)"
      "scan_lld (print_lld t @ CHR '','' # k) = Some (t, CHR '','' # k)"
    using scan_lld_print assms(1-4) comma_no_digit by simp_all
  ultimately show ?thesis by (simp add: scan_point_def point_text_def scan_comma_def)
qed

lemma point_text_plain:
  assumes "0 \<le> i" "0 \<le> t" "text_name k" "c \<in> set (point_text i t k)"
  shows "\<not> is_space c \<and> c \<noteq> NUL"
  using assms print_lld_plain [of i c] print_lld_plain [of t c] comma_no_digit by (auto simp: point_text_def text_name_def)

section \<open>Decoding\<close>

lemma decode_line:
  assumes "\<forall>c \<in> set line. \<not> sep c" "sep s" "scan_point line = Some (i, t, k)" "MapValue_add_point m (u64 i) (u64 t) k = Some (m', a)"
  shows "map_decode_loop sep (line @ s # rest) m = map_decode_loop sep rest m'"
proof -
  have "takeWhile (\<lambda>c. \<not> sep c) (line @ s # rest) = line" using assms(1,2) by simp
  then show ?thesis using assms(3,4) by (subst map_decode_loop.simps) (simp add: Let_def)
qed

text \<open>What a list of points, added in order, stands for.\<close>

fun points_loc :: "('n \<Rightarrow> int) \<Rightarrow> ('n \<Rightarrow> int \<Rightarrow> 'v) \<Rightarrow> 'n list \<Rightarrow> (int \<Rightarrow> 'v option) \<Rightarrow> int \<Rightarrow> 'v option" where
  "points_loc off f [] base p = base p"
| "points_loc off f (n # ns) base p = points_loc off f ns (\<lambda>p. if p < off n then base p else Some (f n p)) p"

lemma points_loc_last:
  "points_loc off f ns base p = (let fs = filter (\<lambda>n. off n \<le> p) ns in if fs = [] then base p else Some (f (last fs) p))"
  by (induction ns arbitrary: base) (auto simp: Let_def)

lemma decode_points:
  fixes ns :: "map_point_node list" and name :: "map_point_node \<Rightarrow> buf"
  assumes "map_inv m" "\<forall>n \<in> set (trp_nodes (tree m)). \<forall>n' \<in> set ns. image_offset n < image_offset n'" "by_key image_offset ns"
    "\<forall>n \<in> set ns. 0 \<le> image_offset n \<and> image_offset n < 2 ^ 62 \<and> 0 \<le> target_offset n \<and> target_offset n < 2 ^ 62 \<and> text_name (name n)"
    "length (targets m) + length ns < 2 ^ 31" "sep s" "\<forall>n \<in> set ns. \<forall>c \<in> set (point_text (image_offset n) (target_offset n) (name n)). \<not> sep c"
  shows "\<exists>m'. map_decode_loop sep (concat (map (\<lambda>n. point_text (image_offset n) (target_offset n) (name n) @ [s]) ns)) m = Some m' \<and> map_inv m' \<and>
     (\<forall>p. map_loc m' p = points_loc image_offset (\<lambda>n p. (name n, target_offset n + (p - image_offset n))) ns (map_loc m) p)"
  using assms(1-5,7)
proof (induction ns arbitrary: m)
  case Nil
  then show ?case by (simp add: map_decode_loop.simps)
next
  case (Cons n ns)
  have n: "0 \<le> image_offset n" "image_offset n < 2 ^ 62" "0 \<le> target_offset n" "target_offset n < 2 ^ 62" "text_name (name n)" using Cons.prems(4) by auto
  have un: "urn_name (name n)" using n(5) by (simp add: text_name_def)
  have l: "length (targets m) < 2 ^ 31 - 1" using Cons.prems(5) by simp
  have b: "\<forall>x \<in> set (trp_nodes (tree m)). image_offset x < image_offset n" using Cons.prems(2) by auto
  obtain m1 a where m1: "MapValue_add_point m (image_offset n) (target_offset n) (name n) = Some (m1, a)" "map_inv m1" "length (targets m1) \<le> Suc (length (targets m))"
      "\<forall>x \<in> set (trp_nodes (tree m1)). image_offset x \<le> image_offset n"
      "\<forall>p. map_loc m1 p = (if p < image_offset n then map_loc m p else Some (name n, target_offset n + (p - image_offset n)))"
    using add_point_end [OF Cons.prems(1) un l b n(1-4)] by blast
  have u: "u64 (image_offset n) = image_offset n" "u64 (target_offset n) = target_offset n" using n by (auto intro!: u64_id)
  have ns: "\<forall>c \<in> set (point_text (image_offset n) (target_offset n) (name n)). \<not> sep c" using Cons.prems(6) by simp
  have by_ns: "by_key image_offset ns" "\<forall>x \<in> set ns. image_offset n < image_offset x" using Cons.prems(3) by_key_append [of image_offset "[]" n ns] by simp_all
  have s1: "\<forall>x \<in> set (trp_nodes (tree m1)). \<forall>n' \<in> set ns. image_offset x < image_offset n'" using m1(4) by_ns(2) by (meson order.strict_trans1)
  have t1: "length (targets m1) + length ns < 2 ^ 31" using m1(3) Cons.prems(5) by simp
  obtain m' where m': "map_decode_loop sep (concat (map (\<lambda>n. point_text (image_offset n) (target_offset n) (name n) @ [s]) ns)) m1 = Some m'" "map_inv m'"
      "\<forall>p. map_loc m' p = points_loc image_offset (\<lambda>n p. (name n, target_offset n + (p - image_offset n))) ns (map_loc m1) p"
    using Cons.IH [OF m1(2) s1 by_ns(1) _ t1] Cons.prems(4,6) by auto
  have m1f: "map_loc m1 = (\<lambda>p. if p < image_offset n then map_loc m p else Some (name n, target_offset n + (p - image_offset n)))" using m1(5) by (intro ext) blast
  have "map_decode_loop sep (concat (map (\<lambda>n. point_text (image_offset n) (target_offset n) (name n) @ [s]) (n # ns))) m = Some m'"
    using decode_line [where rest = "concat (map (\<lambda>n. point_text (image_offset n) (target_offset n) (name n) @ [s]) ns)",
        OF ns assms(6) scan_point_text [OF n], of m m1 a] m1(1) m'(1) u by simp
  then show ?case using m'(2,3) by (simp add: m1f)
qed

lemma map_line_text: "map_line s m n = point_text (image_offset n) (target_offset n) (urn_value (targets m ! target_idx n)) @ [s]"
  by (simp add: map_line_def point_text_def)

lemma map_text_lines:
  assumes "map_inv m" "\<forall>u \<in> set (targets m). text_name (urn_value u)" "\<forall>n \<in> set (trp_nodes (tree m)). image_offset n < 2 ^ 62"
  shows "map_text m = concat (map (map_line (CHR 0x0A) m) (trp_nodes (tree m)))"
proof -
  have cb: "text_map_iterate_cb m n out = (out @ map_line (CHR 0x0A) m n, None)" if "n \<in> set (trp_nodes (tree m))" for n out
  proof -
    have n: "node_ok m n" "image_offset n < 2 ^ 62" using assms(1,3) that by (auto simp: map_inv_def)
    then have "length (urn_value (targets m ! target_idx n)) \<le> 1000" using assms(2) by (auto simp: node_ok_def text_name_def)
    moreover have "length (print_lld (image_offset n)) \<le> 19" "length (print_lld (target_offset n)) \<le> 19"
      using n print_lld_length by (auto simp: node_ok_def)
    ultimately have "length (map_line (CHR 0x0A) m n) < BUFF_SIZE" by (simp add: map_line_def BUFF_SIZE_def)
    then show ?thesis by (simp add: text_map_iterate_cb_def)
  qed
  then have "iter_recurse (trp_root (tree m)) (text_map_iterate_cb m) [] = (fold (\<lambda>n s. fst (text_map_iterate_cb m n s)) (trp_nodes (tree m)) [], None)"
    using iter_recurse_fold [of "trp_root (tree m)" "text_map_iterate_cb m" "[]"] by (simp add: trp_nodes_def)
  moreover have "fold (\<lambda>n s. fst (text_map_iterate_cb m n s)) ns out = out @ concat (map (map_line (CHR 0x0A) m) ns)" if "set ns \<subseteq> set (trp_nodes (tree m))" for ns out
    using that by (induction ns arbitrary: out) (auto simp: cb)
  ultimately show ?thesis by (simp add: map_text_def)
qed

text \<open>Both text forms, with their separator.\<close>

definition lines_of :: "char \<Rightarrow> map_value \<Rightarrow> buf" where
  "lines_of s m = concat (map (map_line s m) (trp_nodes (tree m)))"

lemma decode_lines:
  assumes m: "map_inv m" and names: "\<forall>u \<in> set (targets m). text_name (urn_value u)"
    and pts: "\<forall>n \<in> set (trp_nodes (tree m)). image_offset n < 2 ^ 62" "length (trp_nodes (tree m)) < 2 ^ 31"
    and sep: "sep s" "s \<noteq> NUL" "\<forall>n \<in> set (trp_nodes (tree m)). \<forall>c \<in> set (point_text (image_offset n) (target_offset n) (urn_value (targets m ! target_idx n))). \<not> sep c"
  shows "\<exists>m'. map_decode_loop sep (lines_of s m) MapValue_Con = Some m' \<and> map_inv m' \<and> (\<forall>p. map_loc m' p = map_loc m p)" "NUL \<notin> set (lines_of s m)"
proof -
  let ?ns = "trp_nodes (tree m)" and ?nm = "\<lambda>n. urn_value (targets m ! target_idx n)"
  have ok: "node_ok m n" "image_offset n < 2 ^ 62" if "n \<in> set ?ns" for n using m pts(1) that by (auto simp: map_inv_def)
  have nm: "text_name (?nm n)" if "n \<in> set ?ns" for n using names ok(1) [OF that] by (auto simp: node_ok_def)
  have srt: "by_key image_offset ?ns" using m by (simp add: map_inv_def trp_ok_def trp_nodes_def)
  have lines: "lines_of s m = concat (map (\<lambda>n. point_text (image_offset n) (target_offset n) (?nm n) @ [s]) ?ns)"
    unfolding lines_of_def map_line_text ..
  have "c \<noteq> NUL" if c: "c \<in> set (lines_of s m)" for c
  proof -
    obtain n where n: "n \<in> set ?ns" "c \<in> set (point_text (image_offset n) (target_offset n) (?nm n) @ [s])"
      using c unfolding lines set_concat set_map by blast
    have "0 \<le> image_offset n" "0 \<le> target_offset n" using ok(1) [OF n(1)] by (simp_all add: node_ok_def)
    then show ?thesis using point_text_plain [OF _ _ nm [OF n(1)], of _ _ c] n(2) sep(2) by auto
  qed
  then show "NUL \<notin> set (lines_of s m)" by blast
  have b: "\<forall>n \<in> set ?ns. 0 \<le> image_offset n \<and> image_offset n < 2 ^ 62 \<and> 0 \<le> target_offset n \<and> target_offset n < 2 ^ 62 \<and> text_name (?nm n)"
    using ok nm by (auto simp: node_ok_def)
  have e: "\<forall>n \<in> set (trp_nodes (tree MapValue_Con)). \<forall>n' \<in> set ?ns. image_offset n < image_offset n'" "length (targets MapValue_Con) + length ?ns < 2 ^ 31"
    using MapValue_Con_inv(2) pts(2) by (simp_all add: MapValue_Con_def)
  obtain m' where m': "map_decode_loop sep (lines_of s m) MapValue_Con = Some m'" "map_inv m'"
      "\<forall>p. map_loc m' p = points_loc image_offset (\<lambda>n p. (?nm n, target_offset n + (p - image_offset n))) ?ns (map_loc MapValue_Con) p"
    using decode_points [OF MapValue_Con_inv(1) e(1) srt b e(2) sep(1,3)] unfolding lines by blast
  have "map_loc MapValue_Con p = None" for p using MapValue_Con_inv(2) by (simp add: map_loc_def point_before_def)
  then have "map_loc m' p = map_loc m p" for p using m'(3) by (simp add: points_loc_last map_loc_def point_before_def Let_def)
  then show "\<exists>m'. map_decode_loop sep (lines_of s m) MapValue_Con = Some m' \<and> map_inv m' \<and> (\<forall>p. map_loc m' p = map_loc m p)" using m'(1,2) by blast
qed

lemma newline_no_text:
  assumes "map_inv m" "\<forall>u \<in> set (targets m). text_name (urn_value u)" "n \<in> set (trp_nodes (tree m))"
    "c \<in> set (point_text (image_offset n) (target_offset n) (urn_value (targets m ! target_idx n)))"
  shows "\<not> (c = CHR 0x0D \<or> c = CHR 0x0A)"
proof -
  have ok: "node_ok m n" using assms(1,3) by (auto simp: map_inv_def)
  then have "0 \<le> image_offset n" "0 \<le> target_offset n" "text_name (urn_value (targets m ! target_idx n))" using assms(2) by (auto simp: node_ok_def)
  moreover have "is_space (CHR 0x0D)" "is_space (CHR 0x0A)" by code_simp+
  ultimately show ?thesis using point_text_plain [OF _ _ _ assms(4)] by blast
qed

section \<open>The inline form\<close>

lemma inline_line:
  assumes "length pre + length (map_line (CHR ''|'') m n) \<le> BUFF_SIZE - 2" "target_idx n < length (targets m)" "int (target_idx n) \<le> number_of_points m" "number_of_points m < 2 ^ 31"
  shows "fst (inline_map_iterate_cb m n (Some (pre @ replicate (BUFF_SIZE - length pre) NUL, length pre)))
     = Some ((pre @ map_line (CHR ''|'') m n) @ replicate (BUFF_SIZE - length (pre @ map_line (CHR ''|'') m n)) NUL, length (pre @ map_line (CHR ''|'') m n))"
proof -
  let ?l = "map_line (CHR ''|'') m n" and ?k = "BUFF_SIZE - length pre"
  have "u32 (number_of_points m) = number_of_points m" using assms(3,4) by (intro u32_id) auto
  then have idx: "min (nat (u32 (number_of_points m))) (target_idx n) = target_idx n" using assms(3) by simp
  have b: "length pre + length ?l + 2 \<le> BUFF_SIZE" using assms(1) by (simp add: BUFF_SIZE_def)
  define j where "j = ?k - length ?l - 1"
  have j: "?k = length ?l + Suc j" using b by (simp add: j_def)
  have "mem_write (length pre) (?l @ [NUL]) (pre @ replicate ?k NUL) = Some (pre @ ?l @ replicate (?k - length ?l) NUL)"
    unfolding j by (simp add: mem_write_def)
  then show ?thesis using b idx assms(2) by (simp add: inline_map_iterate_cb_def Let_def)
qed

lemma inline_lines:
  assumes "\<forall>n \<in> set ns. target_idx n < length (targets m) \<and> int (target_idx n) \<le> number_of_points m" "number_of_points m < 2 ^ 31"
    "length pre + length (concat (map (map_line (CHR ''|'') m) ns)) \<le> BUFF_SIZE - 2"
  shows "fold (\<lambda>n s. fst (inline_map_iterate_cb m n s)) ns (Some (pre @ replicate (BUFF_SIZE - length pre) NUL, length pre))
     = Some ((pre @ concat (map (map_line (CHR ''|'') m) ns)) @ replicate (BUFF_SIZE - length (pre @ concat (map (map_line (CHR ''|'') m) ns))) NUL,
         length (pre @ concat (map (map_line (CHR ''|'') m) ns)))"
  using assms
proof (induction ns arbitrary: pre)
  case (Cons n ns)
  have b: "length pre + length (map_line (CHR ''|'') m n) \<le> BUFF_SIZE - 2" "length (pre @ map_line (CHR ''|'') m n) + length (concat (map (map_line (CHR ''|'') m) ns)) \<le> BUFF_SIZE - 2"
    using Cons.prems(3) by auto
  have "fst (inline_map_iterate_cb m n (Some (pre @ replicate (BUFF_SIZE - length pre) NUL, length pre)))
     = Some ((pre @ map_line (CHR ''|'') m n) @ replicate (BUFF_SIZE - length (pre @ map_line (CHR ''|'') m n)) NUL, length (pre @ map_line (CHR ''|'') m n))"
    using Cons.prems(1,2) by (intro inline_line [OF b(1)]) auto
  then show ?case using Cons.IH [OF _ Cons.prems(2) b(2)] Cons.prems(1) by simp
qed simp

text \<open>A map whose lines fit the buffer is decoded from its inline form as it was.\<close>

lemma map_inline_roundtrip:
  assumes m: "map_inv m" and names: "\<forall>u \<in> set (targets m). text_name (urn_value u) \<and> CHR ''|'' \<notin> set (urn_value u)"
    and pts: "\<forall>n \<in> set (trp_nodes (tree m)). image_offset n < 2 ^ 62" "length (trp_nodes (tree m)) < 2 ^ 31"
      "\<forall>n \<in> set (trp_nodes (tree m)). int (target_idx n) \<le> number_of_points m" "number_of_points m < 2 ^ 31"
    and fits: "length (lines_of (CHR ''|'') m) \<le> BUFF_SIZE - 2"
  shows "\<exists>b m'. MapValueInline_serialise m = Some b \<and> MapValueInline_decode b MapValue_Con = Some m' \<and> map_inv m' \<and> (\<forall>p. map_loc m' p = map_loc m p)"
proof -
  let ?ns = "trp_nodes (tree m)" and ?t = "lines_of (CHR ''|'') m"
  have ok: "node_ok m n" if "n \<in> set ?ns" for n using m that by (auto simp: map_inv_def)
  have ix: "\<forall>n \<in> set ?ns. target_idx n < length (targets m) \<and> int (target_idx n) \<le> number_of_points m" using ok pts(3) by (auto simp: node_ok_def)
  have cb: "snd (inline_map_iterate_cb m n s) = None" for n s by (simp add: inline_map_iterate_cb_def)
  have "iter_recurse (trp_root (tree m)) (inline_map_iterate_cb m) (Some (replicate BUFF_SIZE NUL, 0))
      = (fold (\<lambda>n s. fst (inline_map_iterate_cb m n s)) ?ns (Some (replicate BUFF_SIZE NUL, 0)), None)"
    unfolding trp_nodes_def by (rule iter_recurse_fold) (simp add: cb)
  moreover have "fold (\<lambda>n s. fst (inline_map_iterate_cb m n s)) ?ns (Some (replicate BUFF_SIZE NUL, 0)) = Some (?t @ replicate (BUFF_SIZE - length ?t) NUL, length ?t)"
    using inline_lines [OF ix pts(4), of "[]"] fits by (simp add: lines_of_def)
  ultimately have ser: "MapValueInline_serialise m = Some (?t @ replicate (BUFF_SIZE - length ?t) NUL)" by (simp add: MapValueInline_serialise_def)
  have bar: "\<not> c = CHR ''|''" if "n \<in> set ?ns" "c \<in> set (point_text (image_offset n) (target_offset n) (urn_value (targets m ! target_idx n)))" for n c
  proof -
    have D: "\<forall>k \<in> {..<10}. DIGIT k \<noteq> CHR ''|''" by code_simp
    have "CHR ''|'' \<notin> set (print_lld x)" if "0 \<le> x" for x using that D digits_set [of 10 DIGIT "nat x"] by (force simp: print_lld_def)
    then show ?thesis using that(2) ok [OF that(1)] names by (auto simp: point_text_def node_ok_def)
  qed
  have nn: "CHR ''|'' \<noteq> NUL" by simp
  have nm: "\<forall>u \<in> set (targets m). text_name (urn_value u)" using names by blast
  note d = decode_lines [where sep = "\<lambda>c. c = CHR ''|''" and s = "CHR ''|''", OF m nm pts(1,2) refl nn ballI [OF ballI [OF bar]]]
  have "takeWhile (\<lambda>c. c \<noteq> NUL) (?t @ replicate (BUFF_SIZE - length ?t) NUL) = ?t" using d(2) by (subst takeWhile_append2) auto
  then have "MapValueInline_decode (?t @ replicate (BUFF_SIZE - length ?t) NUL) MapValue_Con = map_decode_loop (\<lambda>c. c = CHR ''|'') ?t MapValue_Con"
    unfolding MapValueInline_decode_def by (rule arg_cong)
  then show ?thesis using ser d(1) by auto
qed

section \<open>Properties\<close>

text \<open>Names of targets for the examples.\<close>

lemma demo_target_names: "urn_name ''aff4://a''" "urn_name ''aff4://b''" "text_name ''aff4://a''" "text_name ''aff4://b''"
proof -
  have p: "URLParse_parse (Some (url_text ''aff4'' [c] [] [])) = Some \<lparr>scheme = ''aff4'', netloc = [c], query = [], fragment = []\<rparr>"
    if "c = CHR ''a'' \<or> c = CHR ''b''" for c
    using that parse_url_text [of "''aff4''" "[c]" "[]" "[]"] by (auto simp: BUFF_SIZE_def)
  have u: "urn_name (''aff4://'' @ [c])" if "c = CHR ''a'' \<or> c = CHR ''b''" for c
    using p [OF that] by (simp add: urn_name_def RDFURN_set_def RDFURN_Con_def URLParse_string_def url_text_def)
  show n: "urn_name ''aff4://a''" "urn_name ''aff4://b''" using u [of "CHR ''a''"] u [of "CHR ''b''"] by simp_all
  have "list_all (\<lambda>c. \<not> is_space c \<and> c \<noteq> NUL) ''aff4://a''" "list_all (\<lambda>c. \<not> is_space c \<and> c \<noteq> NUL) ''aff4://b''" by code_simp+
  then show "text_name ''aff4://a''" "text_name ''aff4://b''" using n unfolding text_name_def list_all_iff by simp_all
qed

text \<open>C5. A map that is written as a sequence of slices of other streams reads as the concatenation of these slices: writing succeeds, the size is the
  sum of the lengths, and a read from any position returns the bytes from there, across the borders of slices and whether or not points
  were merged, up to the length that was asked for or to the end.\<close>

theorem map_write_read:
  assumes xs: "\<forall>x \<in> set xs. slice_inside T x" "total_length xs < 2 ^ 62" "length xs < 2 ^ 31"
    and rd: "reads_targets rd T" and p: "p \<le> length (concat (map (slice_bytes T) xs))" "len < 2 ^ 31"
  shows "\<exists>d d'. map_writes (MapDriver_new (CHR ''w'')) xs = Some d \<and> map_size (driver_map d) = total_length xs \<and>
     MapDriver_read rd (d\<lparr>driver_readptr := int p\<rparr>) len
       = Some (d', int (length (take len (drop p (concat (map (slice_bytes T) xs))))), take len (drop p (concat (map (slice_bytes T) xs))))"
proof -
  let ?c = "concat (map (slice_bytes T) xs)"
  have ok: "\<forall>x \<in> set xs. slice_ok x" using xs(1) by (auto simp: slice_inside_def)
  have z: "driver_readptr (MapDriver_new (CHR ''w'')) = 0" "targets (driver_map (MapDriver_new (CHR ''w''))) = []" by (simp_all add: MapDriver_new_def MapValue_Con_def)
  obtain d where d: "map_writes (MapDriver_new (CHR ''w'')) xs = Some d" "appending d" "driver_readptr d = total_length xs"
      "\<forall>p < driver_readptr d. map_loc (driver_map d) p = (if p < 0 then map_loc (driver_map (MapDriver_new (CHR ''w''))) p else slice_loc 0 xs p)"
    using map_writes_loc [OF MapDriver_new_appending ok, of "CHR ''w''"] xs(2,3) unfolding z by auto
  have l: "total_length xs = int (length ?c)" using slices_length [OF xs(1)] by simp
  have sz: "map_size (driver_map d) = int (length ?c)" using d(2,3) l by (simp add: appending_def)
  have "\<exists>k x. map_loc (driver_map d) (int q) = Some (k, int x) \<and> x < length (T k) \<and> T k ! x = ?c ! q" if "q < length ?c" for q
    using slices_content [OF xs(1) that, of 0] d(3,4) l that by simp
  then have "map_content T (driver_map d) ?c" using d(2) sz xs(2) l by (auto simp: map_content_def appending_def)
  then have "map_content T (driver_map (d\<lparr>driver_readptr := int p\<rparr>)) ?c" by simp
  from MapDriver_read_content [OF this rd _ p(1), of len] p(2) show ?thesis using d(1) sz l by auto
qed

text \<open>Two targets.\<close>

definition demo_content :: "buf \<Rightarrow> buf" where
  "demo_content k = (if k = ''aff4://a'' then ''hello'' else ''world'')"

theorem map_write_read_witness:
  "\<exists>d d'. map_writes (MapDriver_new (CHR ''w'')) [(\<lparr>urn_value = ''aff4://a'', parser = None\<rparr>, 1, 3), (\<lparr>urn_value = ''aff4://b'', parser = None\<rparr>, 0, 2)] = Some d \<and>
     MapDriver_read (\<lambda>u off n. Some (take n (drop (nat off) (demo_content (urn_value u))))) (d\<lparr>driver_readptr := int 2\<rparr>) 2 = Some (d', 2, ''lw'')"
proof -
  let ?xs = "[(\<lparr>urn_value = ''aff4://a'', parser = None\<rparr>, 1, 3), (\<lparr>urn_value = ''aff4://b'', parser = None\<rparr>, 0, 2)]"
  have x: "\<forall>x \<in> set ?xs. slice_inside demo_content x" "total_length ?xs < 2 ^ 62" "length ?xs < 2 ^ 31"
    using demo_target_names(1,2) by (simp_all add: slice_inside_def slice_ok_def demo_content_def total_length_def)
  have c: "concat (map (slice_bytes demo_content) ?xs) = ''ellwo''" by (simp add: slice_bytes_def demo_content_def)
  have r: "reads_targets (\<lambda>u off n. Some (take n (drop (nat off) (demo_content (urn_value u))))) demo_content" by (simp add: reads_targets_def)
  show ?thesis using map_write_read [OF x r, of 2 2] unfolding c by auto
qed


text \<open>C16. The text form of a map keeps what the map means: writing the points of a map as lines and decoding them into a new map gives, for every
  position, the same target and the same offset in it. This holds for maps without periods that satisfy the invariant of the map, with
  fewer than \<^verbatim>\<open>2^31\<close> points at offsets below \<^verbatim>\<open>2^62\<close>, whose targets are named by non-empty URNs in normal form of at most 1000
  characters without white space.\<close>

theorem map_text_roundtrip:
  assumes m: "map_inv m" and names: "\<forall>u \<in> set (targets m). text_name (urn_value u)"
    and pts: "\<forall>n \<in> set (trp_nodes (tree m)). image_offset n < 2 ^ 62" "length (trp_nodes (tree m)) < 2 ^ 31"
  shows "\<exists>m'. MapValue_decode (map_text m) MapValue_Con = Some m' \<and> map_inv m' \<and> (\<forall>p. map_loc m' p = map_loc m p)"
proof -
  have t: "map_text m = lines_of (CHR 0x0A) m" unfolding map_text_lines [OF m names pts(1)] lines_of_def ..
  have nn: "CHR 0x0A \<noteq> NUL" by simp
  note d = decode_lines [where sep = "\<lambda>c. c = CHR 0x0D \<or> c = CHR 0x0A" and s = "CHR 0x0A", OF m names pts disjI2 [OF refl] nn ballI [OF ballI [OF newline_no_text [OF m names]]]]
  have "takeWhile (\<lambda>c. c \<noteq> NUL) (lines_of (CHR 0x0A) m) = lines_of (CHR 0x0A) m" using d(2) by (auto simp: takeWhile_eq_all_conv)
  then have "MapValue_decode (map_text m) MapValue_Con = map_decode_loop (\<lambda>c. c = CHR 0x0D \<or> c = CHR 0x0A) (lines_of (CHR 0x0A) m) MapValue_Con"
    unfolding MapValue_decode_def t by (rule arg_cong)
  then show ?thesis using d(1) by simp
qed

theorem map_text_roundtrip_witness:
  "\<exists>m a b m'. MapValue_add_point MapValue_Con 0 7 ''aff4://a'' = Some (m, a) \<and> MapValue_decode (map_text m) MapValue_Con = Some m' \<and>
     map_loc m' 10 = Some (''aff4://a'', 17)"
proof -
  have e: "\<forall>n \<in> set (trp_nodes (tree MapValue_Con)). image_offset n < 0" "length (targets MapValue_Con) < 2 ^ 31 - 1" using MapValue_Con_inv(2) by (simp_all add: MapValue_Con_def)
  obtain m a where m: "MapValue_add_point MapValue_Con 0 7 ''aff4://a'' = Some (m, a)" "map_inv m" "length (targets m) \<le> Suc (length (targets MapValue_Con))"
      "\<forall>n \<in> set (trp_nodes (tree m)). image_offset n \<le> 0" "\<forall>p. map_loc m p = (if p < 0 then map_loc MapValue_Con p else Some (''aff4://a'', 7 + (p - 0)))"
    using add_point_end [OF MapValue_Con_inv(1) demo_target_names(1) e(2,1), of 7] by auto
  obtain n where n: "point_before m 0 = Some n" "urn_value (targets m ! target_idx n) = ''aff4://a''" using m(5) [rule_format, of 0] by (auto simp: map_loc_def)
  have "target_idx n < length (targets m)" using point_before_in [OF n(1)] m(2) by (auto simp: map_inv_def node_ok_def)
  moreover have "length (targets m) \<le> 1" using m(3) by (simp add: MapValue_Con_def)
  ultimately have "targets m = [targets m ! target_idx n]" by (cases "targets m") auto
  then have "\<forall>u \<in> set (targets m). text_name (urn_value u)" using n(2) demo_target_names(3) by (metis empty_iff list.set(1) set_ConsD)
  moreover have "\<forall>n \<in> set (trp_nodes (tree m)). image_offset n < 2 ^ 62" using m(4) by (auto intro: le_less_trans)
  moreover have "length (trp_nodes (tree m)) < 2 ^ 31"
  proof -
    have "image_offset x = 0" if "x \<in> set (trp_nodes (tree m))" for x using m(2,4) that by (force simp: map_inv_def node_ok_def)
    then have "set (map image_offset (trp_nodes (tree m))) \<subseteq> {0}" by auto
    moreover have "distinct (map image_offset (trp_nodes (tree m)))" using m(2) by (simp add: map_inv_def trp_ok_def trp_nodes_def by_key_def strict_sorted_iff)
    ultimately have "length (map image_offset (trp_nodes (tree m))) \<le> 1" by (metis card_mono card.empty card_insert_disjoint distinct_card finite.emptyI empty_iff finite_insert One_nat_def)
    then show ?thesis by simp
  qed
  ultimately obtain m' where "MapValue_decode (map_text m) MapValue_Con = Some m'" "\<forall>p. map_loc m' p = map_loc m p" using map_text_roundtrip [OF m(2)] by blast
  then show ?thesis using m(1,5) by auto
qed

text \<open>The order in which points are added matters: a point that continues the last one is dropped, and when a point of another target is added between the
  two later, everything behind it is read from the wrong target. Added in the order of their offsets, the same three points give the
  map that was meant.\<close>

lemma map_dropped_point:
  assumes names: "urn_name a" "urn_name b" and x: "0 < x" "x < y" "y < 2 ^ 62" and p: "y \<le> p" "p < 2 ^ 62"
  shows "\<exists>m1 m3 n3 r1 r2 r3 r5 u v. MapValue_add_point MapValue_Con 0 0 a = Some (m1, r1) \<and> MapValue_add_point m1 y y a = Some (m1, r2) \<and>
     MapValue_add_point m1 x 0 b = Some (m3, r3) \<and> (\<exists>av i. MapValue_get_range m3 p = Some (Some (u, p - x, av, i))) \<and> urn_value u = b \<and>
     MapValue_add_point m3 y y a = Some (n3, r5) \<and> (\<exists>av i. MapValue_get_range n3 p = Some (Some (v, p, av, i))) \<and> urn_value v = a"
proof -
  have e: "\<forall>n \<in> set (trp_nodes (tree MapValue_Con)). image_offset n < 0" "length (targets MapValue_Con) < 2 ^ 31 - 1" using MapValue_Con_inv(2) by (simp_all add: MapValue_Con_def)
  obtain m1 r1 where m1: "MapValue_add_point MapValue_Con 0 0 a = Some (m1, r1)" "map_inv m1" "length (targets m1) \<le> Suc (length (targets MapValue_Con))"
      "Cache_borrow (target_cache m1) (a @ [NUL]) \<noteq> None" "\<forall>n \<in> set (trp_nodes (tree m1)). image_offset n \<le> 0"
      "\<forall>p. map_loc m1 p = (if p < 0 then map_loc MapValue_Con p else Some (a, 0 + (p - 0)))"
    using add_point_end [OF MapValue_Con_inv(1) names(1) e(2,1), of 0] by auto
  have one: "length (targets m1) \<le> 1" using m1(3) by (simp add: MapValue_Con_def)
  obtain i where i: "Cache_borrow (target_cache m1) (a @ [NUL]) = Some i" using m1(4) by blast
  have "0 \<le> i" "nat i < length (targets m1)" using i m1(2) by (auto simp: map_inv_def)
  then have i0: "i = 0" using one by linarith
  obtain n where n: "point_before m1 y = Some n" "target_offset n + (y - image_offset n) = y" using m1(6) [rule_format, of y] x by (auto simp: map_loc_def)
  have "target_idx n < length (targets m1)" using point_before_in [OF n(1)] m1(2) by (auto simp: map_inv_def node_ok_def)
  then have n0: "target_idx n = 0" using one by simp
  have b1: "\<forall>n \<in> set (trp_nodes (tree m1)). image_offset n < z" if "0 < z" for z using m1(5) that by (auto intro: le_less_trans)
  obtain r2 where r2: "MapValue_add_point m1 y y a = Some (m1, r2)"
    using add_point_redundant [OF m1(2) _ b1 _ x(3) n(1) n0 n(2), of a] i i0 x by auto
  have l1: "length (targets m1) < 2 ^ 31 - 1" using one by simp
  obtain m3 r3 where m3: "MapValue_add_point m1 x 0 b = Some (m3, r3)" "map_inv m3" "length (targets m3) \<le> Suc (length (targets m1))"
      "\<forall>n \<in> set (trp_nodes (tree m3)). image_offset n \<le> x" "\<forall>p. map_loc m3 p = (if p < x then map_loc m1 p else Some (b, 0 + (p - x)))"
    using add_point_end [OF m1(2) names(2) l1 b1 [OF x(1)], of 0] x by auto
  have b3: "\<forall>n \<in> set (trp_nodes (tree m3)). image_offset n < y" using m3(4) x(2) by (auto intro: le_less_trans)
  obtain n3 r5 where n3: "MapValue_add_point m3 y y a = Some (n3, r5)" "map_inv n3" "\<forall>p. map_loc n3 p = (if p < y then map_loc m3 p else Some (a, y + (p - y)))"
    using add_point_end [OF m3(2) names(1) _ b3, of y] m3(3) one x by auto
  have pp: "0 \<le> p" "map_loc m3 p = Some (b, p - x)" "map_loc n3 p = Some (a, p)" using m3(5) n3(3) p x by simp_all
  obtain u where "\<exists>av i. MapValue_get_range m3 p = Some (Some (u, p - x, av, i))" "urn_value u = b" using get_range_loc [OF m3(2) pp(1) p(2) pp(2)] by blast
  moreover obtain v where "\<exists>av i. MapValue_get_range n3 p = Some (Some (v, p, av, i))" "urn_value v = a" using get_range_loc [OF n3(2) pp(1) p(2) pp(3)] by blast
  ultimately show ?thesis using m1(1) r2 m3(1) n3(1) by blast
qed

text \<open>C11. The treap of the points is the sorted list of its nodes: the three searches find the node with an offset, the last one at or before it and the first
  one at or after it; removing and inserting keep the order of the offsets and of the priorities, and change the list
  by exactly that node; inserting an offset that is there already fails the assertion.\<close>

theorem map_points_refine_sorted_list:
  assumes t: "trp_ok image_offset t"
  shows "trp_search map_point_cmp k (trp_root t) = (case filter (\<lambda>x. image_offset x = image_offset k) (trp_nodes t) of [] \<Rightarrow> None | x # _ \<Rightarrow> Some x) \<and>
     trp_psearch map_point_cmp k (trp_root t) = (if filter (\<lambda>x. image_offset x \<le> image_offset k) (trp_nodes t) = [] then None
        else Some (last (filter (\<lambda>x. image_offset x \<le> image_offset k) (trp_nodes t)))) \<and>
     trp_nsearch map_point_cmp k (trp_root t) = (case filter (\<lambda>x. image_offset k \<le> image_offset x) (trp_nodes t) of [] \<Rightarrow> None | x # _ \<Rightarrow> Some x) \<and>
     trp_ok image_offset (trp_remove map_point_cmp t k) \<and> trp_nodes (trp_remove map_point_cmp t k) = filter (\<lambda>x. image_offset x \<noteq> image_offset k) (trp_nodes t) \<and>
     (if \<exists>x \<in> set (trp_nodes t). image_offset x = image_offset k then trp_insert map_point_cmp t k = None
      else \<exists>t'. trp_insert map_point_cmp t k = Some t' \<and> trp_ok image_offset t' \<and>
        trp_nodes t' = filter (\<lambda>x. image_offset x < image_offset k) (trp_nodes t) @ k # filter (\<lambda>x. image_offset k < image_offset x) (trp_nodes t))"
  using mtree.trp_search_spec [OF t] mtree.trp_psearch_spec [OF t] mtree.trp_nsearch_spec [OF t] mtree.trp_remove_spec [OF t]
    mtree.trp_insert_absent [OF t, of k] mtree.trp_insert_present [OF t, of _ k] by auto

theorem map_points_refine_sorted_list_witness:
  "\<exists>t1 t2. trp_insert map_point_cmp (trp_new 42) (point_at 5) = Some t1 \<and> trp_insert map_point_cmp t1 (point_at 3) = Some t2 \<and>
     trp_nodes t2 = [point_at 3, point_at 5] \<and> trp_psearch map_point_cmp (point_at 4) (trp_root t2) = Some (point_at 3) \<and>
     trp_insert map_point_cmp t2 (point_at 3) = None"
proof -
  have o: "image_offset (point_at x) = x" for x by (simp add: point_at_def)
  obtain t1 where t1: "trp_insert map_point_cmp (trp_new 42) (point_at 5) = Some t1" "trp_ok image_offset t1" "trp_nodes t1 = [point_at 5]"
    using map_points_refine_sorted_list [OF trp_new_ok(1), of "point_at 5" 42] by (auto simp: trp_new_ok)
  obtain t2 where t2: "trp_insert map_point_cmp t1 (point_at 3) = Some t2" "trp_ok image_offset t2" "trp_nodes t2 = [point_at 3, point_at 5]"
    using map_points_refine_sorted_list [OF t1(2), of "point_at 3"] t1(3) by (auto simp: o)
  have "trp_psearch map_point_cmp (point_at 4) (trp_root t2) = Some (point_at 3)" "trp_insert map_point_cmp t2 (point_at 3) = None"
    using map_points_refine_sorted_list [OF t2(2), of "point_at 4"] map_points_refine_sorted_list [OF t2(2), of "point_at 3"] t2(3) by (simp_all add: o)
  then show ?thesis using t1(1) t2(1,3) by blast
qed

text \<open>A map with a period looks its points up at the position and not at the offset in the period, so every position behind the first period belongs to
  the last point; the Python implementation (\<^verbatim>\<open>python/aff4.py\<close>) looks up the offset in the period.\<close>

lemma map_period_uses_last_point:
  assumes t: "trp_ok image_offset (tree m)" "trp_nodes (tree m) \<noteq> []" "\<forall>n \<in> set (trp_nodes (tree m)). image_offset n < image_period m"
    and P: "0 < image_period m" "image_period m \<le> p" "p < 2 ^ 62" and l: "target_idx (last (trp_nodes (tree m))) < length (targets m)"
  shows "MapValue_get_range m p = Some (Some (targets m ! target_idx (last (trp_nodes (tree m))),
       u64 (target_offset (last (trp_nodes (tree m))) + p mod image_period m - image_offset (last (trp_nodes (tree m))) + p div image_period m * target_period m),
       u64 (map_size m - p), target_idx (last (trp_nodes (tree m)))))"
proof -
  have s: "s64 p = p" "u64 (image_period m) = image_period m" using P by (auto intro!: s64_id u64_id)
  have f: "filter (\<lambda>x. image_offset x \<le> p) (trp_nodes (tree m)) = trp_nodes (tree m)" "filter (\<lambda>x. p + 1 \<le> image_offset x) (trp_nodes (tree m)) = []"
    using t(3) P(2) by (auto simp: filter_id_conv filter_empty_conv)
  have "trp_psearch map_point_cmp (point_at p) (trp_root (tree m)) = Some (last (trp_nodes (tree m)))"
    "trp_nsearch map_point_cmp (point_at (p + 1)) (trp_root (tree m)) = None"
    unfolding mtree.trp_psearch_spec [OF t(1)] mtree.trp_nsearch_spec [OF t(1)] using t(2) f by (simp_all add: point_at_def)
  then show ?thesis using P l by (simp add: MapValue_get_range_def s Let_def)
qed

text \<open>A read that fails in the middle fills the rest of the buffer with zeros but adds the whole length to the count, so that it returns more bytes
  than it was asked for.\<close>

lemma map_failed_read_count:
  assumes "MapDriver_partial_read rd d len = Some (d1, int n, bytes)" "0 < n" "n < len" "MapDriver_partial_read rd d1 (len - n) = Some (d2, - 1, [])"
    and sz: "int len \<le> map_size (driver_map d) - driver_readptr d" "map_size (driver_map d) - driver_readptr d < 2 ^ 62" and l: "n + len < 2 ^ 31"
  shows "MapDriver_read rd d len = Some (d2, int (n + len), bytes @ replicate (len - n) NUL)"
proof -
  have "nat (u64 (map_size (driver_map d) - driver_readptr d)) = nat (map_size (driver_map d) - driver_readptr d)" using sz by (subst u64_id) auto
  moreover have "len \<le> nat (map_size (driver_map d) - driver_readptr d)" using sz(1) by linarith
  ultimately have "min len (nat (u64 (map_size (driver_map d) - driver_readptr d))) = len" by simp
  moreover have "map_read_loop rd d len 0 [] = Some (d2, n + len, bytes @ replicate (len - n) NUL)"
    using assms(1-4) by (simp add: map_read_loop.simps [of _ _ len])
  ultimately show ?thesis using l by (simp add: MapDriver_read_def)
qed

end
