(* ===== verification/Map_Binary.thy ===== *)
theory Map_Binary
  imports Map_Text File_Object Resolver
begin

unbundle bit_operations_syntax

text \<open>
  The stored forms of a map (\<^verbatim>\<open>lib/map.c\<close>): the text form and the binary form as segments of a volume, and the life of the map stream from
  its constructor to \<^verbatim>\<open>close\<close>. The resolver that this code calls has an interface of its own, so what it answers is the record
  \<open>map_env\<close>, and what the code asks it to change is a list of effects in the order of the calls. The theory shows that the
  binary form gives the map back when all its points are read at once, and that a map with one point more loses it.
\<close>

section \<open>What the resolver answers\<close>

text \<open>
  The segments that can be opened for reading, the size of an open segment and a read from it; the values of integer attributes; whether
  the volume of the map is known, whether it opens and is a volume, and whether a member can be opened in it.
\<close>

record 'f map_env =
  env_segment :: "buf \<Rightarrow> 'f option"
  env_size :: "'f \<Rightarrow> int"
  env_read :: "'f \<Rightarrow> nat \<Rightarrow> 'f \<times> int \<times> buf"
  env_value :: "buf \<Rightarrow> buf \<Rightarrow> int option"
  env_stored :: "buf option"
  env_volume :: "bool option"
  env_member :: "buf \<Rightarrow> bool"

datatype map_effect =
    Member buf buf
  | SetValue buf buf int
  | StoreMap buf map_kind
  | SetType buf
  | AddContained buf buf
  | SetTimestamp buf

definition PREDICATE_NAMESPACE :: buf where "PREDICATE_NAMESPACE = ''http://afflib.org/2009/aff4#''"

definition AFF4_IMAGE_PERIOD :: buf where "AFF4_IMAGE_PERIOD = PREDICATE_NAMESPACE @ ''image_period''"

definition AFF4_TARGET_PERIOD :: buf where "AFF4_TARGET_PERIOD = PREDICATE_NAMESPACE @ ''target_period''"

definition AFF4_SIZE :: buf where "AFF4_SIZE = PREDICATE_NAMESPACE @ ''size''"

definition DIRTY_STATE_NEED_TO_CLOSE :: int where "DIRTY_STATE_NEED_TO_CLOSE = 1"

section \<open>Stored forms\<close>

text \<open>The name of a segment of the map.\<close>

definition segment_urn :: "rdf_urn \<Rightarrow> buf \<Rightarrow> rdf_urn option" where
  "segment_urn u part =
     (case RDFURN_set RDFURN_Con (Some (urn_value u)) of None \<Rightarrow> None | Some s \<Rightarrow> RDFURN_add s part)"

text \<open>The parameters that are stored next to the segments.\<close>

definition map_params :: "rdf_urn \<Rightarrow> map_value \<Rightarrow> map_effect list" where
  "map_params u self =
     (if image_period self \<noteq> - 1
      then [SetValue (urn_value u) AFF4_IMAGE_PERIOD (image_period self), SetValue (urn_value u) AFF4_TARGET_PERIOD (target_period self)]
      else []) @ [SetValue (urn_value u) AFF4_SIZE (map_size self)]"

text \<open>The text form. A segment that exists already is not written again.\<close>

definition MapValue_serialise :: "'f map_env \<Rightarrow> rdf_urn \<Rightarrow> map_value \<Rightarrow> (map_effect list \<times> buf option \<times> aff4_err option) option" where
  "MapValue_serialise env u self =
     (case segment_urn u ''map'' of
        None \<Rightarrow> None
      | Some segment \<Rightarrow>
          if env_segment env (urn_value segment) \<noteq> None then Some ([], Some [], None)
          else if env_stored env = None then Some ([], None, Some ERuntimeError)
          else if env_volume env = None then Some ([], None, None)
          else if env_volume env = Some False then Some ([], None, Some ERuntimeError)
          else if \<not> env_member env (urn_value segment) then Some ([], None, None)
          else Some (Member (urn_value segment) (map_text self) # map_params u self, Some [], None))"

definition MAP_POINT_SIZE :: nat where "MAP_POINT_SIZE = 20"

text \<open>The packed struct of a point, as it lies in memory.\<close>

definition point_bytes :: "map_point_node \<Rightarrow> buf" where
  "point_bytes node =
     le_bytes 8 (nat (htonll (u64 (image_offset node)))) @ le_bytes 8 (nat (htonll (u64 (target_offset node)))) @
     le_bytes 4 (nat (htonl (int (target_idx node))))"

definition binary_map_iterate_cb :: "map_point_node \<Rightarrow> buf \<Rightarrow> buf \<times> map_point_node option" where
  "binary_map_iterate_cb node out = (out @ point_bytes node, None)"

definition map_index :: "map_value \<Rightarrow> buf" where
  "map_index self = concat (map (\<lambda>u. urn_value u @ [NUL]) (take (nat (number_of_urns self)) (targets self)))"

definition map_points :: "map_value \<Rightarrow> buf" where
  "map_points self = fst (iter_recurse (trp_root (tree self)) binary_map_iterate_cb [])"

text \<open>The binary form. When the second member cannot be opened the first one has been written.\<close>

definition MapValueBinary_serialise :: "'f map_env \<Rightarrow> rdf_urn \<Rightarrow> map_value \<Rightarrow> (map_effect list \<times> buf option \<times> aff4_err option) option" where
  "MapValueBinary_serialise env u self =
     (if number_of_points self = 0 then Some ([], Some ''/map'', None)
      else case (segment_urn u ''map'', segment_urn u ''idx'') of
        (Some segment, Some index_segment) \<Rightarrow>
          if env_segment env (urn_value segment) \<noteq> None then Some ([], Some ''/map'', None)
          else if env_stored env = None then Some ([], None, Some ERuntimeError)
          else if env_volume env = None then Some ([], None, None)
          else if env_volume env = Some False then Some ([], None, Some ERuntimeError)
          else if \<not> env_member env (urn_value index_segment) then Some ([], None, None)
          else if \<not> env_member env (urn_value segment) then Some ([Member (urn_value index_segment) (map_index self)], None, None)
          else Some (Member (urn_value index_segment) (map_index self) # Member (urn_value segment) (map_points self) # map_params u self,
                     Some ''/map'', None)
      | _ \<Rightarrow> None)"

section \<open>Decoding\<close>

text \<open>The parameters that the resolver knows.\<close>

definition load_params :: "'f map_env \<Rightarrow> rdf_urn \<Rightarrow> map_value \<Rightarrow> map_value" where
  "load_params env u self =
     (let get = (\<lambda>attr old. case env_value env (urn_value u) attr of None \<Rightarrow> old | Some v \<Rightarrow> v)
      in self\<lparr>image_period := get AFF4_IMAGE_PERIOD (image_period self), target_period := get AFF4_TARGET_PERIOD (target_period self),
             map_size := get AFF4_SIZE (map_size self)\<rparr>)"

text \<open>
  The loop over the names in the index: \<open>x\<close> is the position in the buffer of the whole index. The search for the end of a name does not stop
  at the end of the buffer.
\<close>

function index_loop :: "buf \<Rightarrow> nat \<Rightarrow> nat \<Rightarrow> map_value \<Rightarrow> (map_value \<times> bool) option" where
  "index_loop b n x self =
     (if x < n
      then (let name = takeWhile (\<lambda>c. c \<noteq> NUL) (drop x b)
            in if length b \<le> x + length name then None
               else if name = [] then Some (self, False)
               else (case RDFURN_set RDFURN_Con (Some name) of
                       None \<Rightarrow> None
                     | Some u \<Rightarrow>
                         index_loop b n (x + length name + 1)
                           (self\<lparr>targets := targets self @ [u], number_of_urns := s32 (number_of_urns self + 1)\<rparr>)))
      else Some (self, True))"
  by pat_completeness auto
termination
  by (relation "measure (\<lambda>(b, n, x, self). n - x)") auto

declare index_loop.simps [simp del]

definition read_point :: "buf \<Rightarrow> map_point_node" where
  "read_point b =
     \<lparr>image_offset = s64 (htonll (int (le_val (take 8 b)))), target_offset = s64 (htonll (int (le_val (take 8 (drop 8 b))))),
      target_idx = nat (htonl (int (le_val (take 4 (drop 16 b)))))\<rparr>"

text \<open>Inserting the first \<open>k\<close> points of a buffer. Inserting an offset that is in the tree already fails an assertion.\<close>

fun insert_points :: "nat \<Rightarrow> buf \<Rightarrow> map_point_node trp \<Rightarrow> map_point_node trp option" where
  "insert_points 0 b t = Some t"
| "insert_points (Suc k) b t =
     (if length b < MAP_POINT_SIZE then None
      else case trp_insert map_point_cmp t (read_point b) of
             None \<Rightarrow> None
           | Some t' \<Rightarrow> insert_points k (drop MAP_POINT_SIZE b) t')"

text \<open>The loop over the points. The counter is decremented for every point, and once more by the loop for every read.\<close>

function points_loop :: "('f \<Rightarrow> nat \<Rightarrow> 'f \<times> int \<times> buf) \<Rightarrow> 'f \<Rightarrow> int \<Rightarrow> map_point_node trp \<Rightarrow> map_point_node trp option" where
  "points_loop rd fd i t =
     (if i \<le> 0 then Some t
      else (case rd fd (BUFF_SIZE * MAP_POINT_SIZE) of
              (fd', res, b) \<Rightarrow>
                if res < 0 then Some t
                else (case insert_points (nat res div MAP_POINT_SIZE) b t of
                        None \<Rightarrow> None
                      | Some t' \<Rightarrow> points_loop rd fd' (i - int (nat res div MAP_POINT_SIZE) - 1) t')))"
  by pat_completeness auto
termination
  by (relation "measure (\<lambda>(rd, fd, i, t). nat i)") auto

declare points_loop.simps [simp del]

text \<open>
  The array for the index has one byte more than the index, and the terminator is written behind it: \<open>slack\<close> is what follows the array in
  its block of memory. Without it the write is undefined. A segment that cannot be opened is not an error.
\<close>

definition MapValueBinary_decode ::
    "'f map_env \<Rightarrow> (nat \<Rightarrow> byte) \<Rightarrow> buf \<Rightarrow> rdf_urn \<Rightarrow> map_value \<Rightarrow> (map_value \<times> int \<times> aff4_err option) option" where
  "MapValueBinary_decode env junk slack u self =
     (case (segment_urn u ''idx'', segment_urn u ''map'') of
        (Some index_segment, Some segment) \<Rightarrow>
          (let s1 = load_params env u self
           in case env_segment env (urn_value index_segment) of
                None \<Rightarrow> Some (s1, 1, None)
              | Some fd \<Rightarrow>
                  if s32 (env_size env fd) < 0 \<or> slack = [] then None
                  else
                    (let n = nat (s32 (env_size env fd));
                         d = take n (snd (snd (env_read env fd n)))
                     in case index_loop (d @ map junk [length d ..< n + 1] @ NUL # tl slack) n 0 s1 of
                          None \<Rightarrow> None
                        | Some (s2, False) \<Rightarrow> Some (s2, 0, Some ERuntimeError)
                        | Some (s2, True) \<Rightarrow>
                            (case env_segment env (urn_value segment) of
                               None \<Rightarrow> Some (s2, 1, None)
                             | Some fd2 \<Rightarrow>
                                 (let k = s32 (u64 (env_size env fd2) div int MAP_POINT_SIZE)
                                  in map_option (\<lambda>t. (s2\<lparr>number_of_points := k, tree := t\<rparr>, 1, None))
                                       (points_loop (env_read env) fd2 k (tree s2))))))
      | _ \<Rightarrow> None)"

text \<open>The decoders of the text forms with the parameters; \<open>get_data\<close> is the whole content of a segment.\<close>

definition MapValue_load :: "'f map_env \<Rightarrow> ('f \<Rightarrow> buf) \<Rightarrow> rdf_urn \<Rightarrow> map_value \<Rightarrow> (map_value \<times> int) option" where
  "MapValue_load env get_data u self =
     (case segment_urn u ''map'' of
        None \<Rightarrow> None
      | Some segment \<Rightarrow>
          (case env_segment env (urn_value segment) of
             None \<Rightarrow> Some (load_params env u self, 0)
           | Some fd \<Rightarrow> map_option (\<lambda>s. (s, 1)) (MapValue_decode (get_data fd) (load_params env u self))))"

definition MapValueInline_load :: "'f map_env \<Rightarrow> rdf_urn \<Rightarrow> buf \<Rightarrow> map_value \<Rightarrow> (map_value \<times> int) option" where
  "MapValueInline_load env u data self = map_option (\<lambda>s. (s, 1)) (MapValueInline_decode data (load_params env u self))"

section \<open>The stream\<close>

text \<open>
  The constructor of a map that is written or read. \<open>preset\<close> is the map that was chosen before, \<open>loaded\<close> what the resolver made of the stored
  attribute, with the answer whether it is a map.
\<close>

definition MapDriver_Con ::
    "'f map_env \<Rightarrow> rdf_urn \<Rightarrow> char \<Rightarrow> map_value option \<Rightarrow> (map_value \<times> bool) option \<Rightarrow> map_effect list \<times> map_driver option \<times> aff4_err option" where
  "MapDriver_Con env uri m preset loaded =
     (case env_stored env of
        None \<Rightarrow> ([], None, Some ERuntimeError)
      | Some stored \<Rightarrow>
          if m = CHR ''w''
          then ([SetType (urn_value uri), AddContained stored (urn_value uri), SetTimestamp (urn_value uri),
                 SetValue (urn_value uri) AFF4_VOLATILE_DIRTY DIRTY_STATE_NEED_TO_CLOSE, SetValue stored AFF4_VOLATILE_DIRTY DIRTY_STATE_NEED_TO_CLOSE],
                Some \<lparr>driver_map = (case preset of None \<Rightarrow> MapValue_Con | Some v \<Rightarrow> v), driver_readptr = 0, driver_mode = m\<rparr>, None)
          else (case loaded of
                  None \<Rightarrow> ([], None, Some EIOError)
                | Some (v, is_map) \<Rightarrow>
                    if \<not> is_map then ([], None, Some ERuntimeError)
                    else ([], Some \<lparr>driver_map = v, driver_readptr = 0, driver_mode = m\<rparr>, None)))"

definition MapDriver_add :: "map_driver \<Rightarrow> int \<Rightarrow> int \<Rightarrow> buf \<Rightarrow> map_driver option" where
  "MapDriver_add self ioff toff target =
     map_option (\<lambda>(v, _). self\<lparr>driver_map := v\<rparr>) (MapValue_add_point (driver_map self) ioff toff target)"

text \<open>\<open>custom\<close> is the form that was chosen explicitly; otherwise the number of points decides. The last element tells whether the base class closes.\<close>

definition MapDriver_close ::
    "'f map_env \<Rightarrow> rdf_urn \<Rightarrow> bool \<Rightarrow> map_kind option \<Rightarrow> map_driver \<Rightarrow> map_effect list \<times> int \<times> aff4_err option \<times> bool" where
  "MapDriver_close env uri finished custom self =
     (if driver_mode self = CHR ''r'' then ([], 1, None, True)
      else if driver_mode self = CHR ''w'' \<and> \<not> finished then ([], 0, Some EProgrammingError, False)
      else if (case env_stored env of None \<Rightarrow> False
               | Some stored \<Rightarrow> (case env_value env stored AFF4_VOLATILE_DIRTY of None \<Rightarrow> False | Some v \<Rightarrow> v \<noteq> DIRTY_STATE_NEED_TO_CLOSE))
      then ([], 0, Some ERuntimeError, True)
      else ([StoreMap (urn_value uri) (case custom of None \<Rightarrow> map_implementation (driver_map self) | Some k \<Rightarrow> k),
             SetValue (urn_value uri) AFF4_SIZE (map_size (driver_map self))], 1, None, True))"

text \<open>Choosing a form; \<open>new\<close> is the registry of value classes, which may not know the type.\<close>

definition MapDriver_set_data_type ::
    "(buf \<Rightarrow> (map_value \<times> map_kind) option) \<Rightarrow> map_driver \<Rightarrow> map_kind option \<Rightarrow> buf \<Rightarrow> map_driver \<times> map_kind option" where
  "MapDriver_set_data_type new self custom type =
     (case new type of None \<Rightarrow> (self, custom) | Some (v, k) \<Rightarrow> (self\<lparr>driver_map := v\<rparr>, Some k))"

definition MapDriver_seek :: "map_driver \<Rightarrow> int \<Rightarrow> whence \<Rightarrow> map_driver \<times> int \<times> aff4_err option" where
  "MapDriver_seek self offset w =
     (if driver_mode self = CHR ''r''
      then (let r = (case w of
                       SEEK_SET \<Rightarrow> offset
                     | SEEK_CUR \<Rightarrow> max 0 (s64 (driver_readptr self + offset))
                     | SEEK_END \<Rightarrow> s64 (map_size (driver_map self) + offset)
                     | SEEK_OTHER \<Rightarrow> driver_readptr self);
                r' = (if r < 0 then 0 else r)
            in (self\<lparr>driver_readptr := r'\<rparr>, r', None))
      else (self, u64 (- 1), Some ERuntimeError))"

section \<open>Byte order\<close>

lemma htonl_eq: "v < 2 ^ 32 \<Longrightarrow> htonl (int v) = int (le_val (rev (le_bytes 4 v)))"
  by (simp add: htonl_def u32_id)

lemma le_val_rev_bound: "le_val (rev (le_bytes n v)) < 256 ^ n"
  using le_val_bound [of "rev (le_bytes n v)"] by simp

lemma shifted_or: "0 \<le> x \<Longrightarrow> 0 \<le> y \<Longrightarrow> y < 2 ^ n \<Longrightarrow> push_bit n x OR y = push_bit n x + (y :: int)"
proof -
  assume "0 \<le> y" "y < 2 ^ n"
  then have "take_bit n y = y" by (simp add: take_bit_int_eq_self_iff)
  then have "\<not> bit y m" if "n \<le> m" for m using that by (metis bit_take_bit_iff not_less)
  then show ?thesis by (intro disjunctive_add_eq_or [symmetric] bit_eqI) (auto simp: bit_and_iff bit_push_bit_iff)
qed

lemma htonll_eq:
  assumes "v < 2 ^ 64"
  shows "htonll (int v) = int (le_val (rev (le_bytes 8 v)))"
proof -
  have lo: "int v AND 0xFFFFFFFF = int (v mod 2 ^ 32)"
    using take_bit_eq_mask [of 32 "int v"] by (simp add: mask_eq_exp_minus_1 take_bit_eq_mod zmod_int)
  have "drop_bit 32 (int v AND 0xFFFFFFFF00000000) = drop_bit 32 (int v) AND 0xFFFFFFFF" by (simp add: drop_bit_and)
  also have "\<dots> = take_bit 32 (drop_bit 32 (int v))" using take_bit_eq_mask [of 32 "drop_bit 32 (int v)"] by (simp add: mask_eq_exp_minus_1)
  also have "\<dots> = int (v div 2 ^ 32)" using assms by (simp add: take_bit_eq_mod drop_bit_eq_div zdiv_int)
  finally have hi: "drop_bit 32 (int v AND 0xFFFFFFFF00000000) = int (v div 2 ^ 32)" .
  have h: "v div 2 ^ 32 < 2 ^ 32" using assms by simp
  let ?l = "le_val (rev (le_bytes 4 (v mod 2 ^ 32)))" and ?h = "le_val (rev (le_bytes 4 (v div 2 ^ 32)))"
  have b: "?l < 2 ^ 32" "?h < 2 ^ 32" using le_val_rev_bound [of 4] by simp_all
  have u: "u64 (push_bit 32 (int ?l)) = push_bit 32 (int ?l)" using b(1) by (intro u64_id) (simp_all add: push_bit_eq_mult)
  have "htonll (int v) = push_bit 32 (int ?l) OR int ?h"
    unfolding htonll_def lo hi Let_def using htonl_eq [of "v mod 2 ^ 32"] htonl_eq [OF h] u by simp
  also have "\<dots> = push_bit 32 (int ?l) + int ?h" using b by (intro shifted_or) simp_all
  finally have "htonll (int v) = int (?h + 2 ^ 32 * ?l)" by (simp add: push_bit_eq_mult)
  moreover have "le_bytes 8 v = le_bytes 4 (v mod 2 ^ 32) @ le_bytes 4 (v div 2 ^ 32)"
    using le_bytes_add [of 4 4 v] le_bytes_mod [of 4 v] by simp
  ultimately show ?thesis by (simp add: le_val_append)
qed

lemma network_bytes:
  assumes "v < 2 ^ 64"
  shows "le_bytes 8 (nat (htonll (int v))) = rev (le_bytes 8 v)" "htonll (int (le_val (rev (le_bytes 8 v)))) = int v"
proof -
  have r: "le_bytes 8 (le_val (rev (le_bytes 8 w))) = rev (le_bytes 8 w)" for w using le_bytes_le_val [of "rev (le_bytes 8 w)"] by simp
  show "le_bytes 8 (nat (htonll (int v))) = rev (le_bytes 8 v)" using r htonll_eq [OF assms] by simp
  have "le_val (rev (le_bytes 8 v)) < 2 ^ 64" using le_val_rev_bound [of 8 v] by simp
  from htonll_eq [OF this] r show "htonll (int (le_val (rev (le_bytes 8 v)))) = int v" using assms by simp
qed

lemma network_bytes4:
  assumes "v < 2 ^ 32"
  shows "le_bytes 4 (nat (htonl (int v))) = rev (le_bytes 4 v)" "htonl (int (le_val (rev (le_bytes 4 v)))) = int v"
proof -
  have r: "le_bytes 4 (le_val (rev (le_bytes 4 w))) = rev (le_bytes 4 w)" for w using le_bytes_le_val [of "rev (le_bytes 4 w)"] by simp
  show "le_bytes 4 (nat (htonl (int v))) = rev (le_bytes 4 v)" using r htonl_eq [OF assms] by simp
  have "le_val (rev (le_bytes 4 v)) < 2 ^ 32" using le_val_rev_bound [of 4 v] by simp
  from htonl_eq [OF this] r show "htonl (int (le_val (rev (le_bytes 4 v)))) = int v" using assms by simp
qed

section \<open>Points and names\<close>

definition node_stored :: "map_point_node \<Rightarrow> bool" where
  "node_stored n \<longleftrightarrow> 0 \<le> image_offset n \<and> image_offset n < 2 ^ 62 \<and> 0 \<le> target_offset n \<and> target_offset n < 2 ^ 62 \<and> target_idx n < 2 ^ 32"

lemma point_bytes_length [simp]: "length (point_bytes n) = MAP_POINT_SIZE"
  by (simp add: point_bytes_def MAP_POINT_SIZE_def)

lemma read_point_bytes:
  assumes "node_stored n"
  shows "read_point (point_bytes n @ r) = n"
proof -
  define i t k where "i = nat (image_offset n)" and "t = nat (target_offset n)" and "k = target_idx n"
  have n: "image_offset n = int i" "target_offset n = int t" "i < 2 ^ 62" "t < 2 ^ 62" "k < 2 ^ 32"
    using assms by (auto simp: node_stored_def i_def t_def k_def nat_less_iff)
  then have u: "u64 (int i) = int i" "u64 (int t) = int t" "s64 (int i) = int i" "s64 (int t) = int t" "i < 2 ^ 64" "t < 2 ^ 64"
    by (auto intro!: c_int u64_id)
  have p: "point_bytes n = rev (le_bytes 8 i) @ rev (le_bytes 8 t) @ rev (le_bytes 4 k)"
    unfolding point_bytes_def n(1,2) u(1,2) k_def [symmetric]
    by (simp only: network_bytes(1) [OF u(5)] network_bytes(1) [OF u(6)] network_bytes4(1) [OF n(5)])
  have "read_point (point_bytes n @ r) = \<lparr>image_offset = int i, target_offset = int t, target_idx = k\<rparr>"
    unfolding p read_point_def using network_bytes(2) [OF u(5)] network_bytes(2) [OF u(6)] network_bytes4(2) [OF n(5)] u(3,4) by simp
  then show ?thesis using n(1,2) by (cases n) (simp add: k_def)
qed

lemma insert_points_spec:
  assumes "trp_ok image_offset t" "\<forall>x \<in> set (trp_nodes t). \<forall>y \<in> set ns. image_offset x < image_offset y" "by_key image_offset ns"
    "\<forall>n \<in> set ns. node_stored n"
  shows "\<exists>t'. insert_points (length ns) (concat (map point_bytes ns) @ r) t = Some t' \<and> trp_ok image_offset t' \<and> trp_nodes t' = trp_nodes t @ ns"
  using assms
proof (induction ns arbitrary: t)
  case (Cons n ns)
  have s: "by_key image_offset ns" "\<forall>y \<in> set ns. image_offset n < image_offset y" using Cons.prems(3) by_key_append [of image_offset "[]" n ns] by simp_all
  have lt: "\<forall>x \<in> set (trp_nodes t). image_offset x < image_offset n" using Cons.prems(2) by simp
  then have "\<forall>z \<in> set (trp_nodes t). image_offset z \<noteq> image_offset n" by auto
  from mtree.trp_insert_absent [OF Cons.prems(1) this] obtain t1 where t1: "trp_insert map_point_cmp t n = Some t1" "trp_ok image_offset t1"
      "trp_nodes t1 = filter (\<lambda>y. image_offset y < image_offset n) (trp_nodes t) @ n # filter (\<lambda>y. image_offset n < image_offset y) (trp_nodes t)"
    by blast
  moreover have "filter (\<lambda>y. image_offset y < image_offset n) (trp_nodes t) = trp_nodes t" using lt by (simp add: filter_id_conv)
  moreover have "filter (\<lambda>y. image_offset n < image_offset y) (trp_nodes t) = []" using lt by (auto simp: filter_empty_conv)
  ultimately have nodes: "trp_nodes t1 = trp_nodes t @ [n]" by simp
  have "\<forall>x \<in> set (trp_nodes t1). \<forall>y \<in> set ns. image_offset x < image_offset y" using Cons.prems(2) s(2) nodes by auto
  from Cons.IH [OF t1(2) this s(1)] Cons.prems(4) nodes t1(1) show ?case by (simp add: read_point_bytes)
qed simp

lemma map_points_eq: "map_points m = concat (map point_bytes (trp_nodes (tree m)))"
proof -
  have "iter_recurse (trp_root (tree m)) binary_map_iterate_cb [] = (fold (\<lambda>x s. fst (binary_map_iterate_cb x s)) (trp_nodes (tree m)) [], None)"
    unfolding trp_nodes_def by (rule iter_recurse_fold) (simp add: binary_map_iterate_cb_def)
  moreover have "fold (\<lambda>x s. fst (binary_map_iterate_cb x s)) ns out = out @ concat (map point_bytes ns)" for ns out
    by (induction ns arbitrary: out) (simp_all add: binary_map_iterate_cb_def)
  ultimately show ?thesis by (simp add: map_points_def)
qed

lemma points_length: "length (concat (map point_bytes ns)) = length ns * MAP_POINT_SIZE"
  by (induction ns) simp_all

text \<open>A name that an index can hold.\<close>

definition index_name :: "buf \<Rightarrow> bool" where
  "index_name k \<longleftrightarrow> urn_name k \<and> k \<noteq> [] \<and> NUL \<notin> set k"

lemma index_loop_spec:
  assumes "\<forall>k \<in> set ks. index_name k" "number_of_urns m = int (length (targets m))" "length (targets m) + length ks < 2 ^ 31"
  shows "\<exists>us. index_loop (pre @ concat (map (\<lambda>k. k @ [NUL]) ks) @ r) (length pre + length (concat (map (\<lambda>k. k @ [NUL]) ks))) (length pre) m
     = Some (m\<lparr>targets := targets m @ us, number_of_urns := int (length (targets m @ us))\<rparr>, True) \<and> map urn_value us = ks"
  using assms
proof (induction ks arbitrary: pre m)
  case Nil
  then show ?case by (subst index_loop.simps) auto
next
  case (Cons k ks)
  obtain u where u: "RDFURN_set RDFURN_Con (Some k) = Some u" "urn_value u = k" and k: "k \<noteq> []" "NUL \<notin> set k"
    using Cons.prems(1) by (auto simp: index_name_def urn_name_def)
  define m1 where "m1 = m\<lparr>targets := targets m @ [u], number_of_urns := int (length (targets m @ [u]))\<rparr>"
  have s: "s32 (number_of_urns m + 1) = int (length (targets m @ [u]))"
    using Cons.prems(2,3) by (intro trans [OF s32_id]) auto
  have tw: "takeWhile (\<lambda>c. c \<noteq> NUL) (k @ NUL # rest) = k" for rest 
    using k(2) by (subst takeWhile_append2) auto
  have "index_loop (pre @ concat (map (\<lambda>k. k @ [NUL]) (k # ks)) @ r) (length pre + length (concat (map (\<lambda>k. k @ [NUL]) (k # ks)))) (length pre) m
      = index_loop ((pre @ k @ [NUL]) @ concat (map (\<lambda>k. k @ [NUL]) ks) @ r) (length (pre @ k @ [NUL]) + length (concat (map (\<lambda>k. k @ [NUL]) ks))) (length (pre @ k @ [NUL])) m1"
    using u(1) k(1) s by (subst index_loop.simps) (simp add: tw Let_def m1_def add.assoc)
  moreover have "number_of_urns m1 = int (length (targets m1))" "length (targets m1) + length ks < 2 ^ 31"
    using Cons.prems(3) by (simp_all add: m1_def)
  moreover have "\<forall>k \<in> set ks. index_name k" using Cons.prems(1) by simp
  ultimately obtain us where us: "map urn_value us = ks"
      "index_loop (pre @ concat (map (\<lambda>k. k @ [NUL]) (k # ks)) @ r) (length pre + length (concat (map (\<lambda>k. k @ [NUL]) (k # ks)))) (length pre) m
        = Some (m1\<lparr>targets := targets m1 @ us, number_of_urns := int (length (targets m1 @ us))\<rparr>, True)"
    using Cons.IH [of m1 "pre @ k @ [NUL]"] by auto
  have "m1\<lparr>targets := targets m1 @ us, number_of_urns := int (length (targets m1 @ us))\<rparr>
      = m\<lparr>targets := targets m @ u # us, number_of_urns := int (length (targets m @ u # us))\<rparr>" by (simp add: m1_def)
  note r = us(2) [unfolded this]
  show ?case by (rule exI [of _ "u # us"], rule conjI [OF r]) (use us(1) u(2) in simp)
qed

section \<open>Reading the points\<close>

text \<open>What decoding relies on of an open segment.\<close>

locale segment_reader =
  fixes rd :: "'f \<Rightarrow> nat \<Rightarrow> 'f \<times> int \<times> buf"
    and content :: "'f \<Rightarrow> buf"
    and pos :: "'f \<Rightarrow> nat"
    and ok :: "'f \<Rightarrow> bool"
  assumes read_spec: "ok f \<Longrightarrow> pos f \<le> length (content f) \<Longrightarrow>
      \<exists>f'. rd f n = (f', int (length (take n (drop (pos f) (content f)))), take n (drop (pos f) (content f))) \<and>
        ok f' \<and> content f' = content f \<and> pos f' = pos f + length (take n (drop (pos f) (content f)))"
begin

text \<open>One read: as many points as the buffer holds or as are left.\<close>

lemma points_round:
  assumes f: "ok f" "drop (pos f) (content f) = concat (map point_bytes ns)" "pos f \<le> length (content f)" and i: "0 < i"
    and t: "trp_ok image_offset t" "\<forall>x \<in> set (trp_nodes t). \<forall>y \<in> set ns. image_offset x < image_offset y" "by_key image_offset ns"
      "\<forall>n \<in> set ns. node_stored n"
  shows "\<exists>f' t'. points_loop rd f i t = points_loop rd f' (i - int (min BUFF_SIZE (length ns)) - 1) t' \<and> ok f' \<and>
     drop (pos f') (content f') = concat (map point_bytes (drop BUFF_SIZE ns)) \<and> pos f' \<le> length (content f') \<and>
     trp_ok image_offset t' \<and> trp_nodes t' = trp_nodes t @ take BUFF_SIZE ns"
proof -
  let ?n = "BUFF_SIZE * MAP_POINT_SIZE" and ?a = "take BUFF_SIZE ns"
  have sz: "0 < MAP_POINT_SIZE" by (simp add: MAP_POINT_SIZE_def)
  have split: "concat (map point_bytes ns) = concat (map point_bytes ?a) @ concat (map point_bytes (drop BUFF_SIZE ns))"
    by (simp only: map_append [symmetric] concat_append [symmetric] append_take_drop_id)
  have tk: "take ?n (drop (pos f) (content f)) = concat (map point_bytes ?a)"
  proof (cases "BUFF_SIZE \<le> length ns")
    case True
    then have "length (concat (map point_bytes ?a)) = ?n" by (simp only: points_length length_take min.absorb2)
    then show ?thesis unfolding f(2) split by simp
  next
    case False
    then have "length (concat (map point_bytes ns)) \<le> ?n" "?a = ns" by (simp_all add: points_length)
    then show ?thesis unfolding f(2) by simp
  qed
  obtain f' where f': "rd f ?n = (f', int (length (concat (map point_bytes ?a))), concat (map point_bytes ?a))" "ok f'" "content f' = content f"
      "pos f' = pos f + length (concat (map point_bytes ?a))"
    using read_spec [OF f(1,3), of ?n] unfolding tk by blast
  have d: "drop (pos f') (content f') = concat (map point_bytes (drop BUFF_SIZE ns))"
    unfolding f'(3,4) using f(2) split by (metis add.commute append_eq_conv_conj drop_drop)
  have le: "pos f' \<le> length (content f')"
  proof -
    have "length (content f) - pos f = length (concat (map point_bytes ns))" using arg_cong [OF f(2), of length] by simp
    then show ?thesis unfolding f'(3,4) using f(3) split by simp
  qed
  have k: "nat (int (length (concat (map point_bytes ?a)))) div MAP_POINT_SIZE = length ?a" unfolding points_length nat_int using sz by simp
  have b: "by_key image_offset ?a" "\<forall>x \<in> set (trp_nodes t). \<forall>y \<in> set ?a. image_offset x < image_offset y" "\<forall>n \<in> set ?a. node_stored n"
    using t by (auto simp: by_key_def sorted_wrt_take dest: in_set_takeD) (metis take_map sorted_wrt_take)
  obtain t' where "insert_points (length ?a) (concat (map point_bytes ?a)) t = Some t'" "trp_ok image_offset t'" "trp_nodes t' = trp_nodes t @ ?a"
    using insert_points_spec [OF t(1) b(2,1,3), of "[]"] by auto
  moreover have "points_loop rd f i t = points_loop rd f' (i - int (min BUFF_SIZE (length ns)) - 1) t'"
    using i f'(1) k calculation(1) by (subst points_loop.simps) (simp add: min.commute)
  ultimately show ?thesis using f'(2) d le by blast
qed

text \<open>All points are read when they fit the buffer; of one more, the last is not.\<close>

lemma points_read:
  assumes f: "ok f" "pos f = 0" "content f = concat (map point_bytes ns)" and n: "ns \<noteq> []" "length ns \<le> Suc BUFF_SIZE"
    and ns: "by_key image_offset ns" "\<forall>n \<in> set ns. node_stored n" and t: "trp_ok image_offset t" "trp_nodes t = []"
  shows "\<exists>t'. points_loop rd f (int (length ns)) t = Some t' \<and> trp_ok image_offset t' \<and> trp_nodes t' = take BUFF_SIZE ns"
proof -
  have d: "drop (pos f) (content f) = concat (map point_bytes ns)" "pos f \<le> length (content f)" "0 < int (length ns)" "\<forall>x \<in> set (trp_nodes t). \<forall>y \<in> set ns. image_offset x < image_offset y"
    using f n t by simp_all
  obtain f' t' where r: "points_loop rd f (int (length ns)) t = points_loop rd f' (int (length ns) - int (min BUFF_SIZE (length ns)) - 1) t'"
      "trp_ok image_offset t'" "trp_nodes t' = take BUFF_SIZE ns"
    using points_round [OF f(1) d(1-3) t(1) d(4) ns] t(2) by auto
  moreover have "int (length ns) - int (min BUFF_SIZE (length ns)) - 1 \<le> 0" using n(2) by (simp add: min_def)
  then have "points_loop rd f' (int (length ns) - int (min BUFF_SIZE (length ns)) - 1) t' = Some t'" by (subst points_loop.simps) simp
  ultimately show ?thesis by auto
qed

end

text \<open>The file backed object as such a segment.\<close>

definition fbo_read :: "file_backed \<Rightarrow> nat \<Rightarrow> file_backed \<times> int \<times> buf" where
  "fbo_read f n = (case FileBackedObject_read f (full_read f n) of (f', k, d, _) \<Rightarrow> (f', k, d))"

interpretation fseg: segment_reader fbo_read disk fbo_pos fbo_ok
proof
  fix f n
  assume f: "fbo_ok f" "fbo_pos f \<le> length (disk f)"
  have k: "full_read f n = int (length (take n (drop (fbo_pos f) (disk f))))" by (simp add: full_read_def fbo_pos_def min.commute)
  obtain f' where r: "FileBackedObject_read f (full_read f n) = (f', full_read f n, take n (drop (fbo_pos f) (disk f)), None)"
    by (auto simp: FileBackedObject_read_def full_read_def fbo_pos_def min_def)
  then have "fbo_rd f n = Some (f', take n (drop (fbo_pos f) (disk f)))" by (simp add: fbo_rd_def)
  then have e: "f' = f\<lparr>readptr := int (min (fbo_pos f + n) (length (disk f)))\<rparr>" using fbo_rd_eq [OF f, of n] by simp
  have "fbo_ok f'" using f(1) by (simp add: e fbo_ok_def)
  moreover have "fbo_pos f' = fbo_pos f + length (take n (drop (fbo_pos f) (disk f)))" using f(2) by (simp add: e fbo_pos_upd)
  ultimately show "\<exists>f'. fbo_read f n = (f', int (length (take n (drop (fbo_pos f) (disk f)))), take n (drop (fbo_pos f) (disk f))) \<and>
      fbo_ok f' \<and> disk f' = disk f \<and> fbo_pos f' = fbo_pos f + length (take n (drop (fbo_pos f) (disk f)))"
    using r k e by (auto simp: fbo_read_def)
qed

section \<open>Decoding what was stored\<close>

text \<open>A resolver that opens the two segments of a map as files, and knows the size of the map but no periods.\<close>

definition opens_binary :: "file_backed map_env \<Rightarrow> rdf_urn \<Rightarrow> map_value \<Rightarrow> bool" where
  "opens_binary env u m \<longleftrightarrow>
     (\<exists>fi fp. env_segment env (urn_value u @ ''/idx'') = Some fi \<and> fbo_ok fi \<and> fbo_pos fi = 0 \<and> disk fi = map_index m \<and>
        env_segment env (urn_value u @ ''/map'') = Some fp \<and> fbo_ok fp \<and> fbo_pos fp = 0 \<and> disk fp = map_points m) \<and>
     env_read env = fbo_read \<and> env_size env = FileBackedObject_size \<and>
     env_value env (urn_value u) = [AFF4_SIZE \<mapsto> map_size m]"

lemma segment_urn_spec:
  assumes "urn_plain u" "length (urn_value u) < BUFF_SIZE" "plain_part part"
  shows "\<exists>a. segment_urn u part = Some a \<and> urn_value a = urn_value u @ ''/'' @ part"
proof -
  obtain w where w: "RDFURN_copy u = Some w" "urn_plain w" "urn_value w = urn_value u"
    using RDFURN_copy_plain [of u] assms(1,2) by (auto simp: urn_plain_def)
  obtain a where "RDFURN_add w part = Some a" "urn_value a = urn_value u @ ''/'' @ part"
    using RDFURN_add_plain [OF w(2) assms(3)] w(3) by auto
  then show ?thesis using w(1) by (auto simp: segment_urn_def RDFURN_copy_def)
qed

lemma map_parts: "plain_part ''map''" "plain_part ''idx''"
  by (simp_all add: plain_part_def plain_element_def BUFF_SIZE_def)

lemma index_targets: "length ks \<le> length (concat (map (\<lambda>k. k @ [NUL]) ks))"
  by (induction ks) auto

lemma map_index_eq: "map_inv m \<Longrightarrow> map_index m = concat (map (\<lambda>k. k @ [NUL]) (map urn_value (targets m)))"
  by (simp add: map_index_def map_inv_def o_def)

lemma attribute_names: "AFF4_IMAGE_PERIOD \<noteq> AFF4_SIZE" "AFF4_TARGET_PERIOD \<noteq> AFF4_SIZE"
  by (simp_all add: AFF4_IMAGE_PERIOD_def AFF4_TARGET_PERIOD_def AFF4_SIZE_def)

lemma binary_decode:
  assumes m: "map_inv m" and names: "\<forall>t \<in> set (targets m). index_name (urn_value t)"
    and pts: "\<forall>n \<in> set (trp_nodes (tree m)). image_offset n < 2 ^ 62" "trp_nodes (tree m) \<noteq> []" "length (trp_nodes (tree m)) \<le> Suc BUFF_SIZE"
    and len: "length (map_index m) < 2 ^ 31 - 1" and env: "urn_plain u" "length (urn_value u) < BUFF_SIZE" "opens_binary env u m" and slack: "slack \<noteq> []"
  shows "\<exists>m'. MapValueBinary_decode env junk slack u MapValue_Con = Some (m', 1, None) \<and> map_inv m' \<and> map_size m' = map_size m \<and>
     map urn_value (targets m') = map urn_value (targets m) \<and> trp_nodes (tree m') = take BUFF_SIZE (trp_nodes (tree m)) \<and>
     number_of_points m' = int (length (trp_nodes (tree m)))"
proof -
  let ?ns = "trp_nodes (tree m)" and ?ks = "map urn_value (targets m)"
  obtain a b where ab: "segment_urn u ''idx'' = Some a" "urn_value a = urn_value u @ ''/idx''" "segment_urn u ''map'' = Some b" "urn_value b = urn_value u @ ''/map''"
    using segment_urn_spec [OF env(1,2) map_parts(1)] segment_urn_spec [OF env(1,2) map_parts(2)] by auto
  obtain fi fp where e: "env_segment env (urn_value a) = Some fi" "env_segment env (urn_value b) = Some fp"
    and fi: "fbo_ok fi" "fbo_pos fi = 0" "disk fi = map_index m" and fp: "fbo_ok fp" "fbo_pos fp = 0" "disk fp = map_points m"
    and rd: "env_read env = fbo_read" "env_size env = FileBackedObject_size" "env_value env (urn_value u) = [AFF4_SIZE \<mapsto> map_size m]"
    using env(3) unfolding opens_binary_def ab by blast
  define s1 where "s1 = load_params env u MapValue_Con"
  have s1: "s1 = MapValue_Con\<lparr>map_size := map_size m\<rparr>" using attribute_names by (simp add: s1_def load_params_def rd(3))
  note idx = map_index_eq [OF m]
  have lt: "length (targets m) < 2 ^ 31 - 1" using index_targets [of ?ks] len unfolding idx by simp
  have n: "nat (s32 (env_size env fi)) = length (map_index m)" "\<not> s32 (env_size env fi) < 0"
    using len by (simp_all add: rd(2) FileBackedObject_size_def fi(3) s32_id)
  obtain fi' where ri: "fbo_read fi (length (map_index m)) = (fi', int (length (map_index m)), map_index m)"
    using fseg.read_spec [OF fi(1), of "length (map_index m)"] fi(2,3) by auto
  obtain us where us: "map urn_value us = ?ks"
      "index_loop (map_index m @ map junk [length (map_index m) ..< length (map_index m) + 1] @ NUL # tl slack) (length (map_index m)) 0 s1
        = Some (s1\<lparr>targets := us, number_of_urns := int (length us)\<rparr>, True)"
    using index_loop_spec [of ?ks s1 "[]"] names lt unfolding idx by (auto simp: s1 MapValue_Con_def)
  have ok: "node_ok m x" if "x \<in> set ?ns" for x using m that by (auto simp: map_inv_def)
  have ns: "by_key image_offset ?ns" "\<forall>x \<in> set ?ns. node_stored x"
    using m ok pts(1) lt by (auto simp: map_inv_def trp_ok_def trp_nodes_def node_stored_def node_ok_def)
  have t0: "trp_ok image_offset (tree s1)" "trp_nodes (tree s1) = []" by (simp_all add: s1 MapValue_Con_def trp_new_ok)
  obtain t where t: "points_loop fbo_read fp (int (length ?ns)) (tree s1) = Some t" "trp_ok image_offset t" "trp_nodes t = take BUFF_SIZE ?ns"
    using fseg.points_read [OF fp(1,2) fp(3) [unfolded map_points_eq] pts(2,3) ns t0] by blast
  have k: "s32 (u64 (env_size env fp) div int MAP_POINT_SIZE) = int (length ?ns)"
    using pts(3) by (simp add: rd(2) FileBackedObject_size_def fp(3) map_points_eq points_length u64_id s32_id MAP_POINT_SIZE_def BUFF_SIZE_def)
  define m' where "m' = s1\<lparr>targets := us, number_of_urns := int (length us), number_of_points := int (length ?ns), tree := t\<rparr>"
  have "MapValueBinary_decode env junk slack u MapValue_Con = Some (m', 1, None)"
    unfolding MapValueBinary_decode_def using ab(1,3) e n slack ri us(2) t(1) k
    by (simp add: s1_def [symmetric] rd(1) Let_def m'_def)
  moreover have l: "length us = length (targets m)" using arg_cong [OF us(1), of length] by simp
  have "map_inv m'" unfolding map_inv_def
  proof (intro conjI)
    show "\<forall>x \<in> set (trp_nodes (tree m')). node_ok m' x" using ok l t(3) by (auto simp: m'_def node_ok_def dest: in_set_takeD)
    have "map_inv MapValue_Con" by (rule MapValue_Con_inv)
    then show "\<forall>k i. Cache_borrow (target_cache m') (k @ [NUL]) = Some i \<longrightarrow> 0 \<le> i \<and> nat i < length (targets m') \<and> urn_value (targets m' ! nat i) = k"
      by (fastforce simp: map_inv_def m'_def s1 MapValue_Con_def)
    show "cache_live (target_cache m')" using \<open>map_inv MapValue_Con\<close> by (simp add: map_inv_def m'_def s1)
  qed (use t(2) in \<open>simp_all add: m'_def s1 MapValue_Con_def\<close>)
  moreover have "map_size m' = map_size m" "map urn_value (targets m') = ?ks" "trp_nodes (tree m') = take BUFF_SIZE ?ns" "number_of_points m' = int (length ?ns)"
    using us(1) t(3) by (simp_all add: m'_def s1)
  ultimately show ?thesis by blast
qed

lemma map_loc_same:
  assumes "map_inv m" "trp_nodes (tree m') = trp_nodes (tree m)" "map urn_value (targets m') = map urn_value (targets m)"
  shows "map_loc m' p = map_loc m p"
proof -
  have "point_before m' p = point_before m p" using assms(2) by (simp add: point_before_def)
  moreover have "urn_value (targets m' ! target_idx n) = urn_value (targets m ! target_idx n)" if "point_before m p = Some n" for n
  proof -
    have "target_idx n < length (targets m)" using point_before_in [OF that] assms(1) by (auto simp: map_inv_def node_ok_def)
    moreover have "length (targets m') = length (targets m)" using arg_cong [OF assms(3), of length] by simp
    ultimately show ?thesis using arg_cong [OF assms(3), of "\<lambda>xs. xs ! target_idx n"] by simp
  qed
  ultimately show ?thesis by (cases "point_before m p") (simp_all add: map_loc_def)
qed

section \<open>Properties\<close>

text \<open>Maps with one target and any number of points, and a resolver that holds their segments.\<close>

definition demo_points :: "nat \<Rightarrow> map_point_node list" where
  "demo_points n = map (\<lambda>i. \<lparr>image_offset = int i, target_offset = 2 * int i, target_idx = 0\<rparr>) [0 ..< n]"

definition demo_map_env :: "buf \<Rightarrow> map_value \<Rightarrow> file_backed map_env" where
  "demo_map_env k m =
     \<lparr>env_segment = [k @ ''/idx'' \<mapsto> \<lparr>disk = map_index m, readptr = 0\<rparr>, k @ ''/map'' \<mapsto> \<lparr>disk = map_points m, readptr = 0\<rparr>],
      env_size = FileBackedObject_size, env_read = fbo_read, env_value = (\<lambda>_. [AFF4_SIZE \<mapsto> map_size m]), env_stored = Some ''aff4://v'',
      env_volume = Some True, env_member = (\<lambda>_. True)\<rparr>"

lemma demo_urn_plain: "\<exists>u. urn_plain u \<and> urn_value u = ''aff4://a''"
proof -
  have p: "URLParse_parse (Some ''aff4://a'') = Some \<lparr>scheme = ''aff4'', netloc = ''a'', query = [], fragment = []\<rparr>"
    using parse_url_text [of "''aff4''" "''a''" "[]" "[]"] by (simp add: url_text_def BUFF_SIZE_def)
  then obtain u where u: "RDFURN_set RDFURN_Con (Some ''aff4://a'') = Some u" "parser u = Some \<lparr>scheme = ''aff4'', netloc = ''a'', query = [], fragment = []\<rparr>"
    by (simp add: RDFURN_set_def)
  have i: "urn_inv u" by (rule RDFURN_set_inv [OF u(1)])
  then have "urn_value u = ''aff4://a''" using u(2) by (simp add: urn_inv_def URLParse_string_def url_text_def)
  then show ?thesis using i u(2) by (auto simp: urn_plain_def)
qed

lemma demo_map:
  assumes "0 < n" "n < 2 ^ 31"
  shows "\<exists>m. map_inv m \<and> number_of_points m = int n \<and> (\<forall>t \<in> set (targets m). index_name (urn_value t)) \<and> trp_nodes (tree m) = demo_points n \<and>
     (\<forall>x \<in> set (trp_nodes (tree m)). image_offset x < 2 ^ 62) \<and> length (map_index m) = 9"
proof -
  let ?t0 = "trp_new 42 :: map_point_node trp"
  have srt: "by_key image_offset (demo_points n)" by (simp add: by_key_def demo_points_def sorted_wrt_map o_def)
  have st: "\<forall>x \<in> set (demo_points n). node_stored x" using assms by (auto simp: demo_points_def node_stored_def)
  obtain t where t: "trp_ok image_offset t" "trp_nodes t = demo_points n"
    using insert_points_spec [OF trp_new_ok(1) _ srt st, of 42 "[]"] by (auto simp: trp_new_ok)
  define m where "m = MapValue_Con\<lparr>tree := t, targets := [\<lparr>urn_value = ''aff4://b'', parser = None\<rparr>], number_of_urns := 1, number_of_points := int n\<rparr>"
  have c: "map_inv MapValue_Con" by (rule MapValue_Con_inv)
  have "map_inv m" unfolding map_inv_def
  proof (intro conjI)
    show "\<forall>x \<in> set (trp_nodes (tree m)). node_ok m x" using st by (auto simp: m_def t(2) node_ok_def node_stored_def demo_points_def)
    show "\<forall>k i. Cache_borrow (target_cache m) (k @ [NUL]) = Some i \<longrightarrow> 0 \<le> i \<and> nat i < length (targets m) \<and> urn_value (targets m ! nat i) = k"
      using c by (fastforce simp: map_inv_def m_def MapValue_Con_def)
    show "cache_live (target_cache m)" using c by (simp add: map_inv_def m_def)
  qed (use t(1) in \<open>simp_all add: m_def MapValue_Con_def\<close>)
  moreover have "index_name ''aff4://b''" using demo_target_names(2) by (simp add: index_name_def)
  ultimately show ?thesis using assms by (intro exI [of _ m]) (auto simp: m_def t(2) map_index_def demo_points_def)
qed

lemma demo_map_env_opens:
  assumes "urn_value u = k" "map_inv m" "length (map_index m) < 2 ^ 31" "length (trp_nodes (tree m)) < 2 ^ 31"
  shows "opens_binary (demo_map_env k m) u m"
proof -
  have "length (map_points m) < 2 ^ 62" using assms(4) by (simp add: map_points_eq points_length MAP_POINT_SIZE_def)
  then show ?thesis using assms(1,3) by (simp add: opens_binary_def demo_map_env_def fbo_ok_def fbo_pos_def)
qed

text \<open>C17. The binary form of a map: storing a map writes the names of its targets and its points, in network byte order, as two members of the volume
  of the map, and a resolver that opens these two decodes a map of the same size in which every position stands for
  the same place in the same target, as long as all points are read at once. The decoder needs the byte behind its buffer.\<close>

theorem map_binary_roundtrip:
  assumes m: "map_inv m" "number_of_points m \<noteq> 0" and names: "\<forall>t \<in> set (targets m). index_name (urn_value t)"
    and pts: "\<forall>n \<in> set (trp_nodes (tree m)). image_offset n < 2 ^ 62" "trp_nodes (tree m) \<noteq> []" "length (trp_nodes (tree m)) \<le> BUFF_SIZE"
    and len: "length (map_index m) < 2 ^ 31 - 1" and u: "urn_plain u" "length (urn_value u) < BUFF_SIZE"
    and w: "env_segment w (urn_value u @ ''/map'') = None" "env_stored w \<noteq> None" "env_volume w = Some True" "\<forall>n. env_member w n"
    and env: "opens_binary env u m" and slack: "slack \<noteq> []"
  shows "\<exists>m'. MapValueBinary_serialise w u m
       = Some (Member (urn_value u @ ''/idx'') (map_index m) # Member (urn_value u @ ''/map'') (map_points m) # map_params u m, Some ''/map'', None) \<and>
     MapValueBinary_decode env junk slack u MapValue_Con = Some (m', 1, None) \<and> map_inv m' \<and> map_size m' = map_size m \<and> (\<forall>p. map_loc m' p = map_loc m p)"
proof -
  obtain a b where ab: "segment_urn u ''idx'' = Some a" "urn_value a = urn_value u @ ''/idx''" "segment_urn u ''map'' = Some b" "urn_value b = urn_value u @ ''/map''"
    using segment_urn_spec [OF u map_parts(1)] segment_urn_spec [OF u map_parts(2)] by auto
  have ser: "MapValueBinary_serialise w u m
       = Some (Member (urn_value u @ ''/idx'') (map_index m) # Member (urn_value u @ ''/map'') (map_points m) # map_params u m, Some ''/map'', None)"
    using ab m(2) w by (simp add: MapValueBinary_serialise_def)
  have "length (trp_nodes (tree m)) \<le> Suc BUFF_SIZE" using pts(3) by simp
  from binary_decode [OF m(1) names pts(1,2) this len u env slack, of junk] obtain m' where
    m': "MapValueBinary_decode env junk slack u MapValue_Con = Some (m', 1, None)" "map_inv m'" "map_size m' = map_size m"
      "map urn_value (targets m') = map urn_value (targets m)" "trp_nodes (tree m') = take BUFF_SIZE (trp_nodes (tree m))" by blast
  have "\<forall>p. map_loc m' p = map_loc m p" using map_loc_same [OF m(1) _ m'(4)] m'(5) pts(3) by simp
  then show ?thesis using ser m'(1-3) by blast
qed

theorem map_binary_roundtrip_witness:
  "\<exists>m u (w :: file_backed map_env) (env :: file_backed map_env) m'. trp_nodes (tree m) = demo_points 2 \<and>
     MapValueBinary_serialise w u m
       = Some (Member ''aff4://a/idx'' (map_index m) # Member ''aff4://a/map'' (map_points m) # map_params u m, Some ''/map'', None) \<and>
     MapValueBinary_decode env (\<lambda>_. NUL) ''x'' u MapValue_Con = Some (m', 1, None) \<and> map_loc m' 5 = map_loc m 5"
proof -
  obtain u where u: "urn_plain u" "urn_value u = ''aff4://a''" using demo_urn_plain by blast
  obtain m where m: "map_inv m" "number_of_points m = 2" "\<forall>t \<in> set (targets m). index_name (urn_value t)" "trp_nodes (tree m) = demo_points 2"
      "\<forall>x \<in> set (trp_nodes (tree m)). image_offset x < 2 ^ 62" "length (map_index m) = 9"
    using demo_map [of 2] by auto
  have p: "trp_nodes (tree m) \<noteq> []" "length (trp_nodes (tree m)) \<le> BUFF_SIZE" "length (map_index m) < 2 ^ 31 - 1" "length (urn_value u) < BUFF_SIZE" "''x'' \<noteq> ([] :: buf)"
    using m u by (simp_all add: demo_points_def BUFF_SIZE_def)
  have o: "opens_binary (demo_map_env ''aff4://a'' m) u m" using demo_map_env_opens [OF u(2) m(1)] m by (simp add: demo_points_def)
  define w where "w = (demo_map_env ''aff4://a'' m)\<lparr>env_segment := (\<lambda>_. None)\<rparr>"
  have w: "env_segment w (urn_value u @ ''/map'') = None" "env_stored w \<noteq> None" "env_volume w = Some True" "\<forall>n. env_member w n"
    by (simp_all add: w_def demo_map_env_def)
  have nz: "number_of_points m \<noteq> 0" using m(2) by simp
  from map_binary_roundtrip [OF m(1) nz m(3,5) p(1-3) u(1) p(4) w o p(5), of "\<lambda>_. NUL"] obtain m' where
    "MapValueBinary_serialise w u m
       = Some (Member ''aff4://a/idx'' (map_index m) # Member ''aff4://a/map'' (map_points m) # map_params u m, Some ''/map'', None)"
    "MapValueBinary_decode (demo_map_env ''aff4://a'' m) (\<lambda>_. NUL) ''x'' u MapValue_Con = Some (m', 1, None)" "map_loc m' 5 = map_loc m 5"
    unfolding u(2) by auto
  then show ?thesis using m(4) by blast
qed

text \<open>C34. A binary map with one point more than the read buffer holds loses its last point: the counter of the loop is decremented once more for every
  read, so the loop ends before the second read, and the decoded map counts a point that it does not have.\<close>

theorem map_binary_loses_point:
  assumes m: "map_inv m" and names: "\<forall>t \<in> set (targets m). index_name (urn_value t)"
    and pts: "\<forall>n \<in> set (trp_nodes (tree m)). image_offset n < 2 ^ 62" "length (trp_nodes (tree m)) = Suc BUFF_SIZE"
    and len: "length (map_index m) < 2 ^ 31 - 1" and u: "urn_plain u" "length (urn_value u) < BUFF_SIZE"
    and env: "opens_binary env u m" and slack: "slack \<noteq> []"
  shows "\<exists>m'. MapValueBinary_decode env junk slack u MapValue_Con = Some (m', 1, None) \<and> trp_nodes (tree m') = butlast (trp_nodes (tree m)) \<and>
     number_of_points m' = int (Suc (length (trp_nodes (tree m'))))"
proof -
  have l: "trp_nodes (tree m) \<noteq> []" "length (trp_nodes (tree m)) \<le> Suc BUFF_SIZE" using pts(2) by auto
  from binary_decode [OF m names pts(1) l len u env slack, of junk] show ?thesis
    using pts(2) by (auto simp: butlast_conv_take min_def)
qed

theorem map_binary_loses_point_witness:
  "\<exists>m u env m'. trp_nodes (tree m) = demo_points (Suc BUFF_SIZE) \<and> opens_binary env u m \<and>
     MapValueBinary_decode env (\<lambda>_. NUL) ''x'' u MapValue_Con = Some (m', 1, None) \<and> trp_nodes (tree m') = butlast (demo_points (Suc BUFF_SIZE))"
proof -
  obtain u where u: "urn_plain u" "urn_value u = ''aff4://a''" using demo_urn_plain by blast
  have b: "0 < Suc BUFF_SIZE" "Suc BUFF_SIZE < 2 ^ 31" by (simp_all add: BUFF_SIZE_def)
  obtain m where m: "map_inv m" "\<forall>t \<in> set (targets m). index_name (urn_value t)" "trp_nodes (tree m) = demo_points (Suc BUFF_SIZE)"
      "\<forall>x \<in> set (trp_nodes (tree m)). image_offset x < 2 ^ 62" "length (map_index m) = 9"
    using demo_map [OF b] by auto
  have p: "length (trp_nodes (tree m)) = Suc BUFF_SIZE" unfolding m(3) by (simp add: demo_points_def)
  have q: "length (map_index m) < 2 ^ 31 - 1" "length (urn_value u) < BUFF_SIZE" "''x'' \<noteq> ([] :: buf)" using m(5) u(2) by (simp_all add: BUFF_SIZE_def)
  have o: "opens_binary (demo_map_env ''aff4://a'' m) u m" using demo_map_env_opens [OF u(2) m(1)] m(5) p b(2) by simp
  from map_binary_loses_point [OF m(1,2,4) p q(1) u(1) q(2) o q(3), of "\<lambda>_. NUL"] show ?thesis using m(3) o by metis
qed

end
