(* ===== verification/Encode.thy ===== *)
theory Encode
  imports Misc
begin

unbundle bit_operations_syntax

text \<open>
  The block encodings of \<^verbatim>\<open>lib/encode.c\<close>: the lookup tables, base 64, base 32 and hexadecimal. Base 64 and
  base 32 share a shape, blocks of \<open>a\<close> bytes that become blocks of \<open>b\<close> characters, with a padding
  character that replaces one character of the last block for each byte that the data is short of a
  block. The locale \<open>block_codec\<close> states what makes such an encoding invertible and proves the round
  trip once; both encodings are interpretations of it.
\<close>

section \<open>Lookup tables\<close>

record encode_luts =
  encode_lut :: "nat list"
  decode_lut :: "nat list"
  encode64_lut :: "nat list"
  decode64_lut :: "nat list"
  urlsafe_encode64_lut :: "nat list"
  urlsafe_decode64_lut :: "nat list"

definition LUT_SIZE :: nat where "LUT_SIZE = 256"

definition STUFF_CHAR :: char where "STUFF_CHAR = CHR ''a''"

text \<open>A loop \<^verbatim>\<open>for(i=...;...;...,j++) lut[j]=i\<close> stores a run of characters from index 0.\<close>

definition fill_lut :: "nat list \<Rightarrow> nat list \<Rightarrow> nat list" where
  "fill_lut vs lut = fold (\<lambda>(j, v) l. l[j := v]) (zip [0 ..< length vs] vs) lut"

definition reverse_lut :: "nat list \<Rightarrow> nat list \<Rightarrow> nat list" where
  "reverse_lut enc dec = fold (\<lambda>k l. l[enc ! k := k]) [0 ..< 64] dec"

definition encode_init :: encode_luts where
  "encode_init =
     (let blank = replicate LUT_SIZE 32;
          e32 = (fill_lut (rev [98 ..< 123] @ rev [48 ..< 58] @ [65 ..< 91]) blank)[61 := 47, 62 := 45, 63 := 43];
          e64 = fill_lut ([65 ..< 91] @ [97 ..< 123] @ [48 ..< 58]) blank;
          e = e64[62 := 43, 63 := 47];
          u = e64[62 := 45, 63 := 95]
      in \<lparr>encode_lut = e32, decode_lut = reverse_lut e32 blank,
          encode64_lut = e, decode64_lut = reverse_lut e blank,
          urlsafe_encode64_lut = u, urlsafe_decode64_lut = reverse_lut u blank\<rparr>)"

section \<open>Blocks\<close>

definition encodeblock :: "nat list \<Rightarrow> buf \<Rightarrow> buf" where
  "encodeblock lut x =
     (let i0 = of_char (x ! 0); i1 = of_char (x ! 1); i2 = of_char (x ! 2)
      in map char_of
           [lut ! drop_bit 2 i0,
            lut ! (push_bit 4 (i0 AND 3) OR drop_bit 4 (i1 AND 0xf0)),
            lut ! (push_bit 2 (i1 AND 0x0f) OR drop_bit 6 (i2 AND 0xc0)),
            lut ! (i2 AND 0x3f)])"

text \<open>The bytes a call of \<^verbatim>\<open>decodeblock\<close> writes from the start of \<^verbatim>\<open>out\<close>; \<open>left\<close> selects the entry into the switch.\<close>

definition decodeblock :: "nat list \<Rightarrow> int \<Rightarrow> buf \<Rightarrow> buf" where
  "decodeblock lut left y =
     (let v = (\<lambda>k. lut ! of_char (y ! k));
          o2 = (push_bit 6 (v 2) AND 0xc0) OR v 3;
          o1 = push_bit 4 (v 1) OR drop_bit 2 (v 2);
          o0 = push_bit 2 (v 0) OR drop_bit 4 (v 1);
          outs = (if left = 0 then [] else if left = 1 then [o0] else if left = 2 then [o0, o1] else [o0, o1, o2])
      in map (\<lambda>n. char_of (take_bit 8 n)) outs)"

text \<open>
  The loops of the four routines: while the input index is below \<open>len\<close> (and \<open>cont\<close> holds of the output index), read a
  block at the input index, write the block's image at the output index, advance both.
\<close>

function block_loop :: "int \<Rightarrow> (nat \<Rightarrow> bool) \<Rightarrow> nat \<Rightarrow> nat \<Rightarrow> (nat \<Rightarrow> buf option) \<Rightarrow> (nat \<Rightarrow> buf \<Rightarrow> buf) \<Rightarrow>
    nat \<Rightarrow> nat \<Rightarrow> buf \<Rightarrow> (nat \<times> nat \<times> buf) option" where
  "block_loop len cont a b rd blk i o' outbuf =
     (if int i < len \<and> cont o' \<and> 0 < a
      then (case rd i of
              None \<Rightarrow> None
            | Some x \<Rightarrow>
                (case mem_write o' (blk o' x) outbuf of
                   None \<Rightarrow> None
                 | Some out2 \<Rightarrow> block_loop len cont a b rd blk (i + a) (o' + b) out2))
      else Some (i, o', outbuf))"
  by pat_completeness auto
termination by (relation "measure (\<lambda>(len, cont, a, b, rd, blk, i, o', out2). nat (len - int i))") auto

declare block_loop.simps [simp del]

text \<open>Storing a character at an index that may be out of range.\<close>

definition store :: "int \<Rightarrow> byte \<Rightarrow> buf \<Rightarrow> buf option" where
  "store k c m = (if 0 \<le> k then mem_write (nat k) [c] m else None)"

fun store_all :: "int list \<Rightarrow> byte \<Rightarrow> buf \<Rightarrow> buf option" where
  "store_all [] c m = Some m"
| "store_all (k # ks) c m = (case store k c m of None \<Rightarrow> None | Some m' \<Rightarrow> store_all ks c m')"

definition load :: "int \<Rightarrow> buf \<Rightarrow> byte option" where
  "load k m = (if 0 \<le> k \<and> k < int (length m) then Some (m ! nat k) else None)"

section \<open>Base 64\<close>

text \<open>
  The length is doubled for \<^verbatim>\<open>memset\<close>, and the indexes are advanced, in \<^verbatim>\<open>int\<close>: from \<open>2 ^ 31\<close> on that is undefined. (When doubling the length
  does not overflow, neither do the indexes of the encoder.)
\<close>

definition encode64 :: "encode_luts \<Rightarrow> buf \<Rightarrow> int \<Rightarrow> buf \<Rightarrow> int \<Rightarrow> (buf \<times> int) option" where
  "encode64 luts inbuf len outbuf outlen =
     (if len < 0 \<or> 2 ^ 31 \<le> len * 2 then None
      else case mem_write 0 (replicate (nat (len * 2)) NUL) outbuf of
             None \<Rightarrow> None
           | Some out1 \<Rightarrow>
               (case block_loop len (\<lambda>o'. int o' < outlen) 3 4 (\<lambda>i. mem_read i 3 inbuf)
                       (\<lambda>_. encodeblock (encode64_lut luts)) 0 0 out1 of
                  None \<Rightarrow> None
                | Some (i, o', out2) \<Rightarrow>
                    (let pads = (if int i - len = 2 then [int o' - 2, int o' - 1]
                                 else if int i - len = 1 then [int o' - 1] else [])
                     in case store_all pads (CHR ''='') out2 of
                          None \<Rightarrow> None
                        | Some out3 \<Rightarrow> map_option (\<lambda>m. (m, int o')) (store (int o') NUL out3))))"

definition decode64 :: "encode_luts \<Rightarrow> buf \<Rightarrow> int \<Rightarrow> buf \<Rightarrow> int \<Rightarrow> (buf \<times> int) option" where
  "decode64 luts inbuf len outbuf outlen =
     (case block_loop len (\<lambda>o'. int o' < outlen) 4 3 (\<lambda>i. mem_read i 4 inbuf)
             (\<lambda>o'. decodeblock (decode64_lut luts) (outlen - int o')) 0 0 outbuf of
        None \<Rightarrow> None
      | Some (i, o', out1) \<Rightarrow>
          if 2 ^ 31 \<le> int i then None
          else (case (load (int i - 1) inbuf, load (int i - 2) inbuf) of
             (Some c1, Some c2) \<Rightarrow>
               Some (out1, int o' - (if c1 = CHR ''='' then 1 else 0) - (if c2 = CHR ''='' then 1 else 0))
           | _ \<Rightarrow> None))"

section \<open>Base 32\<close>

text \<open>
  The loop \<^verbatim>\<open>temp |= v(j) << (j*s)\<close> over \<open>m\<close> fields. (With five bytes, or with eight table entries below 64, the
  result stays below bit 45, so the 64-bit variable never truncates.)
\<close>

definition or_fields :: "nat \<Rightarrow> nat \<Rightarrow> (nat \<Rightarrow> nat) \<Rightarrow> nat" where
  "or_fields s m v = fold (\<lambda>j t. t OR push_bit (j * s) (v j)) [0 ..< m] 0"

definition encode32_block :: "nat list \<Rightarrow> buf \<Rightarrow> buf" where
  "encode32_block lut workspace =
     (let temp = or_fields 8 5 (\<lambda>j. of_char (workspace ! j))
      in map (\<lambda>j. char_of (lut ! (drop_bit (j * 5) temp AND 0x1f))) [0 ..< 8])"

definition decode32_block :: "nat list \<Rightarrow> buf \<Rightarrow> buf" where
  "decode32_block lut y =
     (let temp = or_fields 5 8 (\<lambda>j. lut ! of_char (y ! j))
      in map (\<lambda>j. char_of (drop_bit (j * 8) temp AND 0xff)) [0 ..< 5])"

text \<open>The workspace of a block: at most five bytes of the input, the rest zero.\<close>

definition workspace32 :: "buf \<Rightarrow> int \<Rightarrow> nat \<Rightarrow> buf option" where
  "workspace32 inbuf len i =
     (let k = nat (min (len - int i) 5)
      in map_option (\<lambda>d. d @ replicate (5 - k) NUL) (mem_read i k inbuf))"

definition encode32 :: "encode_luts \<Rightarrow> buf \<Rightarrow> int \<Rightarrow> buf \<Rightarrow> int \<Rightarrow> (buf \<times> int) option" where
  "encode32 luts inbuf len outbuf outlen =
     (case block_loop len (\<lambda>_. True) 5 8 (workspace32 inbuf len) (\<lambda>_. encode32_block (encode_lut luts)) 0 0 outbuf of
        None \<Rightarrow> None
      | Some (i, o', out1) \<Rightarrow>
          (let r = int i - len;
               pads = (if 1 \<le> r \<and> r \<le> 4 then map (\<lambda>k. int o' - k) (rev [1 .. r]) else [])
           in case store_all pads STUFF_CHAR out1 of
                None \<Rightarrow> None
              | Some out2 \<Rightarrow> map_option (\<lambda>m. (m, int o')) (store (int o') NUL out2)))"

definition decode32 :: "encode_luts \<Rightarrow> buf \<Rightarrow> int \<Rightarrow> buf \<Rightarrow> int \<Rightarrow> (buf \<times> int) option" where
  "decode32 luts inbuf len outbuf outlen =
     (case block_loop len (\<lambda>_. True) 8 5 (\<lambda>i. mem_read i 8 inbuf) (\<lambda>_. decode32_block (decode_lut luts)) 0 0 outbuf of
        None \<Rightarrow> None
      | Some (i, o', out1) \<Rightarrow>
          (let cs = map (\<lambda>j. load (int i - int j) inbuf) [1 ..< 5]
           in if None \<in> set cs then None
              else Some (out1, int o' - int (length (filter (\<lambda>c. c = Some STUFF_CHAR) cs)))))"

section \<open>Hexadecimal\<close>

fun encodehex_loop :: "buf \<Rightarrow> nat \<Rightarrow> buf \<Rightarrow> buf option" where
  "encodehex_loop [] i outbuf = Some outbuf"
| "encodehex_loop (c # cs) i outbuf =
     (case mem_write (i * 2) (zero_pad 2 (digits 16 hexl (of_char c)) @ [NUL]) outbuf of
        None \<Rightarrow> None | Some m \<Rightarrow> encodehex_loop cs (i + 1) m)"

definition encodehex :: "buf \<Rightarrow> int \<Rightarrow> buf \<Rightarrow> (buf \<times> int) option" where
  "encodehex inbuf len outbuf =
     (case mem_read 0 (nat len) inbuf of
        None \<Rightarrow> None
      | Some d \<Rightarrow> map_option (\<lambda>m. (m, int (length d) * 2)) (encodehex_loop d 0 outbuf))"

section \<open>Invertible block encodings\<close>

text \<open>Element \<open>k\<close> of a concatenation of blocks of equal length.\<close>

lemma length_concat_blocks:
  "(\<And>k. k < K \<Longrightarrow> length (y k) = b) \<Longrightarrow> length (concat (map y [0 ..< K])) = K * b"
  by (induction K) auto

lemma concat_block:
  assumes "\<And>k. k < K \<Longrightarrow> length (y k) = b" "k < K"
  shows "take b (drop (k * b) (concat (map y [0 ..< K]) @ r)) = y k"
  using assms
proof (induction K arbitrary: r)
  case (Suc K)
  have l: "length (concat (map y [0 ..< K])) = K * b" using Suc.prems(1) by (intro length_concat_blocks) auto
  show ?case
  proof (cases "k = K")
    case True
    then show ?thesis using l Suc.prems(1) [of K] by simp
  next
    case False
    then show ?thesis using Suc.IH [of "y K @ r"] Suc.prems by simp
  qed
qed simp

lemma concat_of_blocks:
  "K * a \<le> length d \<Longrightarrow> concat (map (\<lambda>k. take a (drop (k * a) d)) [0 ..< K]) = take (K * a) d"
proof (induction K)
  case (Suc K)
  then show ?case by (simp add: take_add [symmetric] add.commute)
qed simp

text \<open>What a loop over \<open>K\<close> blocks leaves in the output.\<close>

lemma block_loop_spec:
  assumes "\<And>k. k < K \<Longrightarrow> int (k * a) < len \<and> cont (k * b) \<and> rd (k * a) = Some (x k) \<and>
        blk (k * b) (x k) = y k \<and> length (y k) = b"
    and "len \<le> int (K * a)" "K * b \<le> length outbuf" "0 < a" "m \<le> K"
  shows "block_loop len cont a b rd blk (m * a) (m * b) (concat (map y [0 ..< m]) @ drop (m * b) outbuf)
     = Some (K * a, K * b, concat (map y [0 ..< K]) @ drop (K * b) outbuf)"
  using assms(5)
proof (induction "K - m" arbitrary: m)
  case 0
  then have "m = K" by simp
  then show ?case using assms(2) by (subst block_loop.simps) simp
next
  case (Suc j)
  then have m: "m < K" by simp
  note B = assms(1) [OF m]
  have lm: "length (concat (map y [0 ..< m])) = m * b" using assms(1) m by (intro length_concat_blocks) auto
  have "Suc m * b \<le> K * b" using m by (intro mult_le_mono1) simp
  then have le: "m * b + b \<le> length outbuf" using assms(3) by simp
  have "mem_write (m * b) (y m) (concat (map y [0 ..< m]) @ drop (m * b) outbuf)
      = Some (concat (map y [0 ..< Suc m]) @ drop (Suc m * b) outbuf)"
    using lm le B by (simp add: mem_write_def add.commute)
  then have "block_loop len cont a b rd blk (m * a) (m * b) (concat (map y [0 ..< m]) @ drop (m * b) outbuf)
      = block_loop len cont a b rd blk (Suc m * a) (Suc m * b) (concat (map y [0 ..< Suc m]) @ drop (Suc m * b) outbuf)"
    using B assms(4) by (subst block_loop.simps) (simp add: add.commute)
  then show ?case using Suc.hyps(1) [of "Suc m"] Suc.hyps(2) m by simp
qed

locale block_codec =
  fixes a b :: nat
    and E :: "buf \<Rightarrow> buf"
    and D :: "buf \<Rightarrow> buf"
    and P :: byte
  assumes a_pos: "0 < a" and a_le_b: "a \<le> b"
    and E_length: "length x = a \<Longrightarrow> length (E x) = b"
    and D_length: "length y = b \<Longrightarrow> length (D y) = a"
    and E_no_pad: "length x = a \<Longrightarrow> P \<notin> set (E x)"
    and D_E: "length x = a \<Longrightarrow> p < a \<Longrightarrow> take (a - p) (D (take (b - p) (E x) @ replicate p P)) = take (a - p) x"
begin

text \<open>
  Decoding the blocks of \<open>K\<close> input blocks, the last one with \<open>p\<close> padding characters, gives back all but the last
  \<open>p\<close> bytes, and the padding characters among the last \<open>a - 1\<close> are exactly those \<open>p\<close>.
\<close>

lemma decode_blocks:
  assumes x: "\<And>k. k < K \<Longrightarrow> length (x k) = a" and K: "0 < K" and p: "p < a"
    and y: "\<And>k. y k = (if k = K - 1 then take (b - p) (E (x k)) @ replicate p P else E (x k))"
  shows "take (K * a - p) (concat (map (\<lambda>k. D (y k)) [0 ..< K])) = take (K * a - p) (concat (map x [0 ..< K]))"
proof -
  obtain L where L: "K = Suc L" using K by (cases K) auto
  have ly: "length (y k) = b" if "k < K" for k
    using x [OF that] p a_le_b E_length [of "x k"] by (auto simp: y)
  have lD: "length (concat (map (\<lambda>k. D (y k)) [0 ..< L])) = L * a" "length (concat (map x [0 ..< L])) = L * a"
    using ly x L D_length by (auto intro!: length_concat_blocks)
  have "D (y k) = x k" if "k < L" for k
    using D_E [of "x k" 0] that x [of k] L a_pos E_length [of "x k"] D_length [of "E (x k)"] by (simp add: y)
  then have "concat (map (\<lambda>k. D (y k)) [0 ..< L]) = concat (map x [0 ..< L])" by (intro arg_cong [of _ _ concat]) simp
  moreover have "take (a - p) (D (y L)) = take (a - p) (x L)"
    using D_E [of "x L" p] x [of L] p L by (simp add: y)
  moreover have "K * a - p = L * a + (a - p)" using L p by simp
  ultimately show ?thesis using lD L by simp
qed

lemma count_pads:
  assumes "length x = a" "p < a"
  shows "length (filter (\<lambda>c. c = P) (drop (b - (a - 1)) (take (b - p) (E x) @ replicate p P))) = p"
proof -
  have l: "length (E x) = b" using E_length assms(1) .
  have "filter (\<lambda>c. c = P) (drop n (take m (E x))) = []" for n m
    using E_no_pad [OF assms(1)] by (auto simp: filter_empty_conv dest: in_set_dropD in_set_takeD)
  moreover have "b - (a - 1) - (b - p) = 0" using assms(2) a_le_b by simp
  ultimately show ?thesis using l assms(2) a_le_b by (simp add: min_def)
qed

end

section \<open>Tables and bits\<close>

lemma length_fill_lut: "length (fill_lut vs lut) = length lut"
proof -
  have "length (fold (\<lambda>(j, v) l. l[j := v]) ps lut) = length lut" for ps :: "(nat \<times> nat) list"
    by (induction ps arbitrary: lut) auto
  then show ?thesis by (simp add: fill_lut_def)
qed

lemma reverse_lut_nth:
  assumes "distinct (take 64 enc)" "64 \<le> length enc" "\<forall>x \<in> set (take 64 enc). x < length dec" "k < 64"
  shows "reverse_lut enc dec ! (enc ! k) = k"
proof -
  have e: "enc ! i < length dec" if "i < 64" for i
    using assms(2,3) that nth_mem [of i "take 64 enc"] by simp
  have inj: "enc ! i = enc ! j \<Longrightarrow> i = j" if "i < 64" "j < 64" for i j
    using assms(1,2) that by (simp add: distinct_conv_nth) (metis nth_take)
  have "fold (\<lambda>k l. l[enc ! k := k]) [0 ..< n] dec ! (enc ! k) = k" if "k < n" "n \<le> 64" for n k
    using that
  proof (induction n)
    case (Suc n)
    have len: "length (fold (\<lambda>k l. l[enc ! k := k]) xs dec) = length dec" for xs
      by (induction xs arbitrary: dec) auto
    show ?case
    proof (cases "k = n")
      case True
      then show ?thesis using Suc.prems e by (simp add: len)
    next
      case False
      then have "enc ! n \<noteq> enc ! k" using inj [of n k] Suc.prems by auto
      then show ?thesis using Suc False by simp
    qed
  qed simp
  from this [of k 64] show ?thesis using assms(4) by (simp add: reverse_lut_def)
qed

lemma encode64_lut_take: "take 64 (encode64_lut encode_init) =
    [65, 66, 67, 68, 69, 70, 71, 72, 73, 74, 75, 76, 77, 78, 79, 80, 81, 82, 83, 84, 85, 86, 87, 88, 89,
      90, 97, 98, 99, 100, 101, 102, 103, 104, 105, 106, 107, 108, 109, 110, 111, 112, 113, 114, 115,
      116, 117, 118, 119, 120, 121, 122, 48, 49, 50, 51, 52, 53, 54, 55, 56, 57, 43, 47]"
  by code_simp

lemma encode_lut_take: "take 64 (encode_lut encode_init) =
    [122, 121, 120, 119, 118, 117, 116, 115, 114, 113, 112, 111, 110, 109, 108, 107, 106, 105, 104, 103,
      102, 101, 100, 99, 98, 57, 56, 55, 54, 53, 52, 51, 50, 49, 48, 65, 66, 67, 68, 69, 70, 71, 72, 73,
      74, 75, 76, 77, 78, 79, 80, 81, 82, 83, 84, 85, 86, 87, 88, 89, 90, 47, 45, 43]"
  by code_simp

lemma lut64: "i < 64 \<Longrightarrow> decode64_lut encode_init ! (encode64_lut encode_init ! i) = i \<and>
    encode64_lut encode_init ! i < 256 \<and> encode64_lut encode_init ! i \<noteq> 61"
proof -
  assume i: "i < 64"
  let ?e = "encode64_lut encode_init"
  have len: "length ?e = 256" by (simp add: encode_init_def Let_def LUT_SIZE_def length_fill_lut)
  have in64: "?e ! i \<in> set (take 64 ?e)" using i len by (auto simp: in_set_conv_nth)
  have all: "\<forall>x \<in> set (take 64 ?e). x < 256 \<and> x \<noteq> 61" "distinct (take 64 ?e)"
    unfolding encode64_lut_take by simp_all
  have "decode64_lut encode_init = reverse_lut ?e (replicate 256 32)"
    by (simp add: encode_init_def Let_def LUT_SIZE_def)
  then have "decode64_lut encode_init ! (?e ! i) = i"
    using reverse_lut_nth [of ?e "replicate 256 32" i] all len i by simp
  then show ?thesis using all(1) in64 by blast
qed

lemma lut32: "i < 64 \<Longrightarrow> decode_lut encode_init ! (encode_lut encode_init ! i) = i \<and>
    encode_lut encode_init ! i < 256 \<and> encode_lut encode_init ! i \<noteq> 97"
proof -
  assume i: "i < 64"
  let ?e = "encode_lut encode_init"
  have len: "length ?e = 256" by (simp add: encode_init_def Let_def LUT_SIZE_def length_fill_lut)
  have in64: "?e ! i \<in> set (take 64 ?e)" using i len by (auto simp: in_set_conv_nth)
  have all: "\<forall>x \<in> set (take 64 ?e). x < 256 \<and> x \<noteq> 97" "distinct (take 64 ?e)"
    unfolding encode_lut_take by simp_all
  have "decode_lut encode_init = reverse_lut ?e (replicate 256 32)"
    by (simp add: encode_init_def Let_def LUT_SIZE_def)
  then have "decode_lut encode_init ! (?e ! i) = i"
    using reverse_lut_nth [of ?e "replicate 256 32" i] all len i by simp
  then show ?thesis using all(1) in64 by blast
qed

lemma stuff_lut: "decode_lut encode_init ! 97 = 32" by code_simp

lemma bit_bounded: "(x :: nat) < 2 ^ k \<Longrightarrow> k \<le> n \<Longrightarrow> \<not> bit x n"
  by (metis bit_take_bit_iff not_less take_bit_nat_eq_self)
lemma bound_of_bits: "(\<And>n. bit x n \<Longrightarrow> n < k) \<Longrightarrow> (x :: nat) < 2 ^ k"
  by (metis bit_take_bit_iff bit_eqI take_bit_nat_less_exp)
lemma bit_lit:
  "bit (3 :: nat) n \<longleftrightarrow> n < 2" "bit (0x0f :: nat) n \<longleftrightarrow> n < 4" "bit (0x3f :: nat) n \<longleftrightarrow> n < 6"
  "bit (0x1f :: nat) n \<longleftrightarrow> n < 5" "bit (0xff :: nat) n \<longleftrightarrow> n < 8"
  "bit (0xf0 :: nat) n \<longleftrightarrow> 4 \<le> n \<and> n < 8" "bit (0xc0 :: nat) n \<longleftrightarrow> 6 \<le> n \<and> n < 8"
proof -
  have m: "(3 :: nat) = mask 2" "(0x0f :: nat) = mask 4" "(0x3f :: nat) = mask 6" "(0x1f :: nat) = mask 5"
      "(0xff :: nat) = mask 8" "(0xf0 :: nat) = push_bit 4 (mask 4)" "(0xc0 :: nat) = push_bit 6 (mask 2)"
    by (simp_all add: mask_eq_exp_minus_1 push_bit_eq_mult)
  show "bit (3 :: nat) n \<longleftrightarrow> n < 2" "bit (0x0f :: nat) n \<longleftrightarrow> n < 4" "bit (0x3f :: nat) n \<longleftrightarrow> n < 6"
    "bit (0x1f :: nat) n \<longleftrightarrow> n < 5" "bit (0xff :: nat) n \<longleftrightarrow> n < 8"
    "bit (0xf0 :: nat) n \<longleftrightarrow> 4 \<le> n \<and> n < 8" "bit (0xc0 :: nat) n \<longleftrightarrow> 6 \<le> n \<and> n < 8"
    unfolding m by (auto simp: bit_simps)
qed

lemmas bit_ops = bit_take_bit_iff bit_or_iff bit_and_iff bit_push_bit_iff_nat bit_drop_bit_eq o_apply bit_lit

lemma bits_of_byte: "(i :: nat) < 256 \<Longrightarrow> 8 \<le> n \<Longrightarrow> \<not> bit i n"
  using bit_bounded [of i 8 n] by simp

text \<open>The four 6-bit indexes that \<open>encodeblock\<close> computes are in the table, and \<open>decodeblock\<close> recombines them.\<close>

lemma sextets_bounded:
  fixes i0 i1 i2 :: nat
  assumes "i0 < 256"
  shows "drop_bit 2 i0 < 64" "push_bit 4 (i0 AND 3) OR drop_bit 4 (i1 AND 0xf0) < 64"
    "push_bit 2 (i1 AND 0x0f) OR drop_bit 6 (i2 AND 0xc0) < 64" "i2 AND 0x3f < 64"
proof -
  have "n < 6" if "bit (drop_bit 2 i0) n" for n
    using that bits_of_byte [OF assms, of "2 + n"] by (simp add: bit_drop_bit_eq) (meson not_le)
  then have "drop_bit 2 i0 < 2 ^ 6" by (rule bound_of_bits)
  moreover have "push_bit 4 (i0 AND 3) OR drop_bit 4 (i1 AND 0xf0) < 2 ^ 6"
    by (rule bound_of_bits, unfold bit_ops) auto
  moreover have "push_bit 2 (i1 AND 0x0f) OR drop_bit 6 (i2 AND 0xc0) < 2 ^ 6"
    by (rule bound_of_bits, unfold bit_ops) auto
  moreover have "i2 AND 0x3f < 2 ^ 6"
    by (rule bound_of_bits, unfold bit_ops) auto
  ultimately show "drop_bit 2 i0 < 64" "push_bit 4 (i0 AND 3) OR drop_bit 4 (i1 AND 0xf0) < 64"
    "push_bit 2 (i1 AND 0x0f) OR drop_bit 6 (i2 AND 0xc0) < 64" "i2 AND 0x3f < 64"
    by simp_all
qed

lemma sextets_inverse:
  fixes i0 i1 i2 :: nat
  defines "v1 \<equiv> push_bit 4 (i0 AND 3) OR drop_bit 4 (i1 AND 0xf0)"
    and "v2 \<equiv> push_bit 2 (i1 AND 0x0f) OR drop_bit 6 (i2 AND 0xc0)"
  shows "i0 < 256 \<Longrightarrow> take_bit 8 (push_bit 2 (drop_bit 2 i0) OR drop_bit 4 v1) = i0"
    "i1 < 256 \<Longrightarrow> take_bit 8 (push_bit 4 v1 OR drop_bit 2 v2) = i1"
    "i2 < 256 \<Longrightarrow> take_bit 8 ((push_bit 6 v2 AND 0xc0) OR (i2 AND 0x3f)) = i2"
proof -
  have SS: "2 \<le> n \<Longrightarrow> Suc (Suc (n - 2)) = n" for n :: nat by simp
  have "bit (take_bit 8 (push_bit 2 (drop_bit 2 i0) OR drop_bit 4 v1)) n = bit i0 n" if "i0 < 256" for n
  proof -
    consider "n < 2" | "2 \<le> n" "n < 8" | "8 \<le> n" by linarith
    then show ?thesis unfolding bit_ops v1_def by cases (auto simp: bits_of_byte [OF that] SS)
  qed
  moreover have "bit (take_bit 8 (push_bit 4 v1 OR drop_bit 2 v2)) n = bit i1 n" if "i1 < 256" for n
  proof -
    consider "n < 4" | "4 \<le> n" "n < 8" | "8 \<le> n" by linarith
    then show ?thesis unfolding bit_ops v1_def v2_def by cases (auto simp: bits_of_byte [OF that])
  qed
  moreover have "bit (take_bit 8 ((push_bit 6 v2 AND 0xc0) OR (i2 AND 0x3f))) n = bit i2 n" if "i2 < 256" for n
  proof -
    consider "n < 6" | "6 \<le> n" "n < 8" | "8 \<le> n" by linarith
    then show ?thesis unfolding bit_ops v2_def by cases (auto simp: bits_of_byte [OF that])
  qed
  ultimately show "i0 < 256 \<Longrightarrow> take_bit 8 (push_bit 2 (drop_bit 2 i0) OR drop_bit 4 v1) = i0"
    "i1 < 256 \<Longrightarrow> take_bit 8 (push_bit 4 v1 OR drop_bit 2 v2) = i1"
    "i2 < 256 \<Longrightarrow> take_bit 8 ((push_bit 6 v2 AND 0xc0) OR (i2 AND 0x3f)) = i2"
    by (auto intro!: bit_eqI)
qed

lemma bit_or_fields: "bit (or_fields s m v) n \<longleftrightarrow> (\<exists>j<m. j * s \<le> n \<and> bit (v j) (n - j * s))"
proof (induction m)
  case 0
  then show ?case by (simp add: or_fields_def)
next
  case (Suc m)
  have "or_fields s (Suc m) v = or_fields s m v OR push_bit (m * s) (v m)" by (simp add: or_fields_def)
  then show ?case using Suc by (auto simp: bit_or_iff bit_push_bit_iff_nat less_Suc_eq)
qed

text \<open>A field of a value assembled from fields of \<open>s\<close> bits is that field, whatever wider fields come later.\<close>

lemma field_div:
  fixes n s :: nat
  assumes "j * s \<le> n" "n < j * s + s"
  shows "j = n div s"
proof -
  have "0 < s" using assms by linarith
  then show ?thesis using assms by (metis add.commute div_nat_eqI mult.commute mult_Suc)
qed

lemma bit_or_fields_low:
  assumes "\<And>j. j < k \<Longrightarrow> v j < 2 ^ s" "n < k * s" "k \<le> m"
    and "\<And>j i. k \<le> j \<Longrightarrow> j < m \<Longrightarrow> bit (v j) i \<Longrightarrow> n < j * s + i"
  shows "bit (or_fields s m v) n \<longleftrightarrow> bit (v (n div s)) (n mod s)"
proof -
  have s: "0 < s" using assms(2) by (cases s) auto
  have q: "n div s < k" using assms(2) by (simp add: div_less_iff_less_mult [OF s])
  have "j = n div s" if j: "j < m" "j * s \<le> n" "bit (v j) (n - j * s)" for j
  proof (cases "j < k")
    case True
    then have "n - j * s < s" using bit_bounded [OF assms(1) [OF True]] j(3) by (meson not_le)
    then show ?thesis using j(2) by (intro field_div) auto
  next
    case False
    then show ?thesis using assms(4) [of j "n - j * s"] j by auto
  qed
  moreover have "n div s * s \<le> n" "n - n div s * s = n mod s" by (simp_all add: minus_div_mult_eq_mod)
  moreover have "n div s < m" using q assms(3) by simp
  ultimately show ?thesis unfolding bit_or_fields by metis
qed

section \<open>Base 64 is an invertible block encoding\<close>

abbreviation "e64 \<equiv> encode64_lut encode_init"
abbreviation "d64 \<equiv> decode64_lut encode_init"

lemma length_encodeblock [simp]: "length (encodeblock lut x) = 4"
  by (simp add: encodeblock_def Let_def)

lemma length_decodeblock [simp]: "length (decodeblock lut 3 y) = 3"
  by (simp add: decodeblock_def Let_def)

lemma decodeblock_left: "3 \<le> left \<Longrightarrow> decodeblock lut left = decodeblock lut 3"
  by (rule ext) (auto simp: decodeblock_def Let_def)

text \<open>The four table indexes of a block.\<close>

definition sextets :: "buf \<Rightarrow> nat \<times> nat \<times> nat \<times> nat" where
  "sextets x =
     (let i0 = of_char (x ! 0); i1 = of_char (x ! 1); i2 = of_char (x ! 2)
      in (drop_bit 2 i0, push_bit 4 (i0 AND 3) OR drop_bit 4 (i1 AND 0xf0),
          push_bit 2 (i1 AND 0x0f) OR drop_bit 6 (i2 AND 0xc0), i2 AND 0x3f))"

lemma sextets_spec:
  assumes "sextets x = (s0, s1, s2, s3)"
  shows "s0 < 64" "s1 < 64" "s2 < 64" "s3 < 64"
    "encodeblock e64 x = map (\<lambda>s. char_of (e64 ! s)) [s0, s1, s2, s3]"
    "char_of (take_bit 8 (push_bit 2 s0 OR drop_bit 4 s1)) = x ! 0"
    "char_of (take_bit 8 (push_bit 4 s1 OR drop_bit 2 s2)) = x ! 1"
    "char_of (take_bit 8 ((push_bit 6 s2 AND 0xc0) OR s3)) = x ! 2"
proof -
  define i0 i1 i2 :: nat where i: "i0 = of_char (x ! 0)" "i1 = of_char (x ! 1)" "i2 = of_char (x ! 2)"
  have b: "i0 < 256" "i1 < 256" "i2 < 256" unfolding i by simp_all
  have s: "s0 = drop_bit 2 i0" "s1 = push_bit 4 (i0 AND 3) OR drop_bit 4 (i1 AND 0xf0)"
      "s2 = push_bit 2 (i1 AND 0x0f) OR drop_bit 6 (i2 AND 0xc0)" "s3 = i2 AND 0x3f"
    using assms unfolding sextets_def Let_def i by blast+
  show "s0 < 64" "s1 < 64" "s2 < 64" "s3 < 64" unfolding s by (rule sextets_bounded [OF b(1)])+
  show "encodeblock e64 x = map (\<lambda>s. char_of (e64 ! s)) [s0, s1, s2, s3]"
    unfolding encodeblock_def Let_def s i by simp
  show "char_of (take_bit 8 (push_bit 2 s0 OR drop_bit 4 s1)) = x ! 0"
    unfolding s sextets_inverse(1) [OF b(1)] by (simp add: i)
  show "char_of (take_bit 8 (push_bit 4 s1 OR drop_bit 2 s2)) = x ! 1"
    unfolding s sextets_inverse(2) [OF b(2)] by (simp add: i)
  show "char_of (take_bit 8 ((push_bit 6 s2 AND 0xc0) OR s3)) = x ! 2"
    unfolding s sextets_inverse(3) [OF b(3)] by (simp add: i)
qed

lemma e64_char: "s < 64 \<Longrightarrow> d64 ! of_char (char_of (e64 ! s) :: char) = s \<and> char_of (e64 ! s) \<noteq> CHR ''=''"
proof -
  assume "s < 64"
  note L = lut64 [OF this]
  have o': "of_char (char_of (e64 ! s) :: char) = e64 ! s" using L by simp
  have "(of_char (CHR ''='') :: nat) = 61" by simp
  then show ?thesis using L o' by metis
qed

interpretation b64: block_codec 3 4 "encodeblock e64" "decodeblock d64 3" "CHR ''=''"
proof
  fix x :: buf and p :: nat
  assume x: "length x = 3"
  obtain s0 s1 s2 s3 where s: "sextets x = (s0, s1, s2, s3)" by (metis prod_cases4)
  note S = sextets_spec [OF s]
  note C = e64_char [OF S(1)] e64_char [OF S(2)] e64_char [OF S(3)] e64_char [OF S(4)]
  show "CHR ''='' \<notin> set (encodeblock e64 x)" using C by (auto simp: S(5))
  define c where "c = (\<lambda>s. char_of (e64 ! s) :: char)"
  have d: "d64 ! of_char (c s0) = s0" "d64 ! of_char (c s1) = s1" "d64 ! of_char (c s2) = s2" "d64 ! of_char (c s3) = s3"
    using C by (simp_all add: c_def)
  have E: "encodeblock e64 x = [c s0, c s1, c s2, c s3]" by (simp add: S(5) c_def)
  have X: "x = [x ! 0, x ! 1, x ! 2]" using x by (auto simp: list_eq_iff_nth_eq less_Suc_eq numeral_3_eq_3 numeral_2_eq_2)
  have D: "decodeblock d64 3 [y0, y1, y2, y3] = map (\<lambda>n. char_of (take_bit 8 n))
      [push_bit 2 (d64 ! of_char y0) OR drop_bit 4 (d64 ! of_char y1),
       push_bit 4 (d64 ! of_char y1) OR drop_bit 2 (d64 ! of_char y2),
       (push_bit 6 (d64 ! of_char y2) AND 0xc0) OR d64 ! of_char y3]" for y0 y1 y2 y3
    by (simp add: decodeblock_def)
  have full: "decodeblock d64 3 [c s0, c s1, c s2, c s3] = x"
    unfolding D d list.map S(6-8) using X by simp
  have two: "take 2 (decodeblock d64 3 [c s0, c s1, c s2, y3]) = take 2 x" for y3
    unfolding D d list.map S(6-8) by (subst X) simp
  have one: "take 1 (decodeblock d64 3 [c s0, c s1, y2, y3]) = take 1 x" for y2 y3
    unfolding D d list.map S(6-8) by (subst X) simp
  assume "p < 3"
  then consider "p = 0" | "p = 1" | "p = 2" by linarith
  then show "take (3 - p) (decodeblock d64 3 (take (4 - p) (encodeblock e64 x) @ replicate p (CHR ''=''))) = take (3 - p) x"
    unfolding E using full two one by cases (simp_all add: numeral_2_eq_2)
qed simp_all

section \<open>Base 32 is an invertible block encoding\<close>

abbreviation "e32 \<equiv> encode_lut encode_init"
abbreviation "d32 \<equiv> decode_lut encode_init"

definition temp32 :: "buf \<Rightarrow> nat" where
  "temp32 x = or_fields 8 5 (\<lambda>j. of_char (x ! j))"

lemma bit_temp32: "n < 40 \<Longrightarrow> bit (temp32 x) n \<longleftrightarrow> bit (of_char (x ! (n div 8)) :: nat) (n mod 8)"
  unfolding temp32_def by (rule bit_or_fields_low [where k = 5]) auto

definition quintet :: "buf \<Rightarrow> nat \<Rightarrow> nat" where
  "quintet x j = drop_bit (j * 5) (temp32 x) AND 0x1f"

lemma quintet_less: "quintet x j < 32"
proof -
  have "quintet x j < 2 ^ 5" unfolding quintet_def by (rule bound_of_bits, unfold bit_ops) auto
  then show ?thesis by simp
qed

lemma e32_char: "d32 ! of_char (char_of (e32 ! quintet x j) :: char) = quintet x j \<and>
    char_of (e32 ! quintet x j) \<noteq> STUFF_CHAR"
proof -
  have L: "d32 ! (e32 ! quintet x j) = quintet x j" "e32 ! quintet x j < 256" "e32 ! quintet x j \<noteq> 97"
    using lut32 [of "quintet x j"] quintet_less [of x j] by auto
  have o': "of_char (char_of (e32 ! quintet x j) :: char) = e32 ! quintet x j" using L by simp
  have "(of_char STUFF_CHAR :: nat) = 97" by (simp add: STUFF_CHAR_def)
  then show ?thesis using L o' by metis
qed

lemma encode32_block_eq: "encode32_block e32 x = map (\<lambda>j. char_of (e32 ! quintet x j)) [0 ..< 8]"
  by (simp add: encode32_block_def quintet_def temp32_def Let_def)

lemma stuff_char_lut: "d32 ! of_char STUFF_CHAR = 32"
  using stuff_lut by (simp add: STUFF_CHAR_def)

lemma bit_32: "bit (32 :: nat) i \<longleftrightarrow> i = 5"
  using bit_exp_iff [of 5 i, where 'a = nat] by simp

interpretation b32: block_codec 5 8 "encode32_block e32" "decode32_block d32" STUFF_CHAR
proof
  fix x :: buf and p :: nat
  have "STUFF_CHAR \<noteq> char_of (e32 ! quintet x j)" for j using e32_char by metis
  then show "STUFF_CHAR \<notin> set (encode32_block e32 x)" by (auto simp: encode32_block_eq)
  assume x: "length x = 5" and p: "p < 5"
  let ?y = "take (8 - p) (encode32_block e32 x) @ replicate p STUFF_CHAR"
  define v where "v j = d32 ! of_char (?y ! j)" for j
  have v1: "v j = quintet x j" if "j < 8 - p" for j
  proof -
    have "j < 8" using that by simp
    then show ?thesis using that e32_char by (simp add: v_def nth_append encode32_block_eq)
  qed
  have v2: "v j = 32" if "8 - p \<le> j" "j < 8" for j
    using that p by (simp add: v_def nth_append encode32_block_eq stuff_char_lut)
  have bt: "bit (or_fields 5 8 v) n \<longleftrightarrow> bit (temp32 x) n" if n: "n < (5 - p) * 8" for n
  proof -
    have le: "n < (8 - p) * 5" using n p by (simp add: diff_mult_distrib)
    have "bit (or_fields 5 8 v) n \<longleftrightarrow> bit (v (n div 5)) (n mod 5)"
    proof (rule bit_or_fields_low [where k = "8 - p"])
      show "v j < 2 ^ 5" if "j < 8 - p" for j using v1 [OF that] quintet_less [of x j] by simp
      show "n < j * 5 + i" if "8 - p \<le> j" "j < 8" "bit (v j) i" for i j
      proof -
        have "i = 5" using v2 [OF that(1,2)] that(3) bit_32 by simp
        moreover have "(8 - p) * 5 \<le> j * 5" using that(1) by (rule mult_le_mono1)
        ultimately show ?thesis using le by linarith
      qed
    qed (use le in auto)
    moreover have "n div 5 < 8 - p" using le by (simp add: div_less_iff_less_mult)
    ultimately show ?thesis using v1 [of "n div 5"] by (simp add: quintet_def bit_ops div_mult_mod_eq)
  qed
  have "decode32_block d32 ?y ! i = x ! i" if i: "i < 5 - p" for i
  proof -
    have "drop_bit (i * 8) (or_fields 5 8 v) AND 0xff = (of_char (x ! i) :: nat)"
    proof (rule bit_eqI)
      fix n :: nat
      show "bit (drop_bit (i * 8) (or_fields 5 8 v) AND 0xff) n = bit (of_char (x ! i) :: nat) n"
      proof (cases "n < 8")
        case True
        have "i * 8 + n < (5 - p) * 8" using i True by (simp add: less_diff_conv diff_mult_distrib)
        then show ?thesis using bt [of "i * 8 + n"] bit_temp32 [of "i * 8 + n" x] True by (simp add: bit_ops)
      next
        case False
        then show ?thesis using bits_of_byte [of "of_char (x ! i)" n] by (simp add: bit_ops)
      qed
    qed
    moreover have "decode32_block d32 ?y ! i = char_of (drop_bit (i * 8) (or_fields 5 8 v) AND 0xff)"
    proof -
      have "i < 5" using i by simp
      then show ?thesis by (simp add: decode32_block_def Let_def v_def [abs_def])
    qed
    ultimately show ?thesis by simp
  qed
  then show "take (5 - p) (decode32_block d32 ?y) = take (5 - p) x"
    using x by (intro nth_equalityI) (auto simp: decode32_block_def Let_def)
qed (simp_all add: encode32_block_def decode32_block_def Let_def)

section \<open>Properties\<close>

text \<open>Storing the padding characters at the end of the last block.\<close>

lemma store_all_tail:
  assumes "p \<le> o'" "o' \<le> length m"
  shows "store_all (map (\<lambda>k. int o' - k) (rev [1 .. int p])) c m = Some (take (o' - p) m @ replicate p c @ drop o' m)"
  using assms
proof (induction p arbitrary: m)
  case (Suc p)
  have r: "rev [1 .. int (Suc p)] = int (Suc p) # rev [1 .. int p]"
    by (simp add: upto_rec2)
  have "nat (int o' - int (Suc p)) = o' - Suc p" "0 \<le> int o' - int (Suc p)" using Suc.prems by linarith+
  then have "store (int o' - int (Suc p)) c m = Some (m[o' - Suc p := c])"
    using Suc.prems unfolding store_def by (simp add: mem_write_def upd_conv_take_nth_drop)
  moreover have "take (o' - p) (m[o' - Suc p := c]) = take (o' - Suc p) m @ [c]"
    using Suc.prems by (subst Suc_diff_Suc [symmetric]) (auto simp: take_Suc_conv_app_nth)
  ultimately show ?case using Suc.IH [of "m[o' - Suc p := c]"] Suc.prems unfolding r by simp
qed simp

lemma store_terminator:
  "o' < length m \<Longrightarrow> store (int o') NUL m = Some (take o' m @ NUL # drop (Suc o') m)"
  by (simp add: store_def mem_write_def)

text \<open>Padding the last of \<open>K\<close> blocks.\<close>

lemma pad_last_block:
  assumes y: "\<And>k. k < K \<Longrightarrow> length (y k) = b" and K: "0 < K" and p: "p \<le> b"
  shows "take (K * b - p) (concat (map y [0 ..< K]) @ r) @ replicate p c @ drop (K * b) (concat (map y [0 ..< K]) @ r)
    = concat (map (\<lambda>k. if k = K - 1 then take (b - p) (y k) @ replicate p c else y k) [0 ..< K]) @ r"
proof -
  obtain L where L: "K = Suc L" using K by (cases K) auto
  have l: "length (concat (map y [0 ..< L])) = L * b" using y L by (intro length_concat_blocks) auto
  have "concat (map (\<lambda>k. if k = L then take (b - p) (y k) @ replicate p c else y k) [0 ..< L]) = concat (map y [0 ..< L])"
    by (intro arg_cong [of _ _ concat]) simp
  moreover have "L * b + b - p = L * b + (b - p)" using p by simp
  ultimately show ?thesis using l L y [of L] by (simp add: add.commute)
qed

lemma block_read:
  assumes y: "\<And>k. k < K \<Longrightarrow> length (y k) = b" and k: "k < K"
  shows "mem_read (k * b) b (concat (map y [0 ..< K]) @ r) = Some (y k)"
proof -
  have "Suc k * b \<le> K * b" using k by (intro mult_le_mono1) simp
  then show ?thesis using concat_block [OF y k, where r = r] length_concat_blocks [OF y] by (simp add: mem_read_def add.commute)
qed

lemma load_last_block:
  assumes y: "\<And>k. k < K \<Longrightarrow> length (y k) = b" and K: "0 < K" and j: "0 < j" "j \<le> b"
  shows "load (int (K * b) - int j) (concat (map y [0 ..< K]) @ r) = Some (y (K - 1) ! (b - j))"
proof -
  obtain L where L: "K = Suc L" using K by (cases K) auto
  have l: "length (concat (map y [0 ..< L])) = L * b" using y L by (intro length_concat_blocks) auto
  define i where "i = b - j"
  have i: "i < b" using j by (simp add: i_def)
  have n: "int (K * b) - int j = int (L * b + i)" using j L by (simp add: of_nat_diff i_def)
  have "(concat (map y [0 ..< K]) @ r) ! (L * b + i) = y L ! i"
    using l y [of L] L i by (simp add: nth_append)
  moreover have "L * b + i < length (concat (map y [0 ..< K]) @ r)"
    using y [of L] L i l by simp
  ultimately show ?thesis unfolding n load_def using L by (simp add: i_def del: length_append of_nat_add of_nat_mult)
qed

text \<open>The blocks of \<open>n\<close> bytes of data, the number of blocks and the number of bytes missing from the last.\<close>

lemma block_count:
  fixes n a :: nat
  assumes "0 < n" "0 < a"
  defines "K \<equiv> (n + (a - 1)) div a"
  shows "0 < K" "n \<le> K * a" "K * a - n < a" "\<And>k. k < K \<Longrightarrow> k * a < n"
proof -
  have q: "K * a + (n + (a - 1)) mod a = n + (a - 1)" unfolding K_def by simp
  have m: "(n + (a - 1)) mod a < a" using assms(2) by simp
  show K: "n \<le> K * a" using q m by linarith
  show "0 < K" using K assms(1) by (cases K) auto
  show "K * a - n < a" using q m assms(2) by linarith
  fix k assume "k < K"
  then have "Suc k * a \<le> K * a" by (intro mult_le_mono1) simp
  then show "k * a < n" using q m assms(2) by simp
qed

context block_codec
begin

definition padded :: "nat \<Rightarrow> nat \<Rightarrow> (nat \<Rightarrow> buf) \<Rightarrow> nat \<Rightarrow> buf" where
  "padded K p x k = (if k = K - 1 then take (b - p) (E (x k)) @ replicate p P else E (x k))"

lemma padded_length:
  "length (x k) = a \<Longrightarrow> p < a \<Longrightarrow> length (padded K p x k) = b"
  using E_length [of "x k"] a_le_b by (auto simp: padded_def)

text \<open>The encoding loop followed by the stores of the padding characters.\<close>

lemma encode_loop:
  assumes x: "\<And>k. k < K \<Longrightarrow> length (x k) = a \<and> rd (k * a) = Some (x k) \<and> cont (k * b)"
    and n: "0 < n" "K = (n + (a - 1)) div a" and out: "K * b \<le> length outbuf"
  shows "\<exists>m. block_loop (int n) cont a b rd (\<lambda>_. E) 0 0 outbuf = Some (K * a, K * b, m) \<and> length m = length outbuf \<and>
     store_all (map (\<lambda>k. int (K * b) - k) (rev [1 .. int (K * a - n)])) P m
       = Some (concat (map (padded K (K * a - n) x) [0 ..< K]) @ drop (K * b) outbuf)"
proof -
  note B = block_count [OF n(1) a_pos, folded n(2)]
  let ?m = "concat (map (\<lambda>k. E (x k)) [0 ..< K]) @ drop (K * b) outbuf"
  have lE: "length (E (x k)) = b" if "k < K" for k using x [OF that] E_length by blast
  have len: "length (concat (map (\<lambda>k. E (x k)) [0 ..< K])) = K * b" using lE by (rule length_concat_blocks)
  have p: "K * a - n \<le> b" "K * a - n \<le> K * b" using B(1,3) a_le_b by (auto intro: order_trans [of _ b])
  have "block_loop (int n) cont a b rd (\<lambda>_. E) 0 0 outbuf = Some (K * a, K * b, ?m)"
    using block_loop_spec [where m = 0 and K = K and len = "int n" and x = x and y = "\<lambda>k. E (x k)" and a = a and b = b
        and cont = cont and rd = rd and blk = "\<lambda>_. E" and outbuf = outbuf] x lE B(2,4) out a_pos by (simp del: of_nat_mult)
  moreover have "store_all (map (\<lambda>k. int (K * b) - k) (rev [1 .. int (K * a - n)])) P ?m
       = Some (concat (map (padded K (K * a - n) x) [0 ..< K]) @ drop (K * b) outbuf)"
    using store_all_tail [OF p(2), of ?m P] 
      pad_last_block [where y = "\<lambda>k. E (x k)" and K = K and b = b and p = "K * a - n" and r = "drop (K * b) outbuf"
        and c = P, OF lE B(1) p(1)] len
    by (simp add: padded_def [abs_def])
  ultimately show ?thesis using len out by simp
qed

text \<open>The decoding loop over the padded blocks, and the count of the padding characters.\<close>

lemma decode_loop:
  assumes x: "\<And>k. k < K \<Longrightarrow> length (x k) = a" and n: "0 < n" "K = (n + (a - 1)) div a"
    and c: "\<And>k. k < K \<Longrightarrow> cont (k * a) \<and> blk (k * a) = D" and dst: "K * a \<le> length dst"
  defines "e \<equiv> concat (map (padded K (K * a - n) x) [0 ..< K])"
  shows "length e = K * b"
    "\<exists>m. block_loop (int (K * b)) cont b a (\<lambda>i. mem_read i b (e @ r)) blk 0 0 dst = Some (K * b, K * a, m) \<and>
       take n m = take n (concat (map x [0 ..< K]))"
    "map (\<lambda>j. load (int (K * b) - int j) (e @ r)) [1 ..< a] =
       map Some (rev (drop (b - (a - 1)) (padded K (K * a - n) x (K - 1))))"
    "length (filter (\<lambda>c. c = P) (rev (drop (b - (a - 1)) (padded K (K * a - n) x (K - 1))))) = K * a - n"
proof -
  note B = block_count [OF n(1) a_pos, folded n(2)]
  let ?y = "padded K (K * a - n) x"
  have y: "length (?y k) = b" if "k < K" for k using padded_length [of x k] x [OF that] B(3) by blast
  have lD: "length (D (?y k)) = a" if "k < K" for k using y [OF that] by (rule D_length)
  have b: "0 < b" using a_pos a_le_b by simp
  show "length e = K * b" unfolding e_def using y by (rule length_concat_blocks)
  have pre: "int (k * b) < int (K * b) \<and> cont (k * a) \<and> mem_read (k * b) b (e @ r) = Some (?y k) \<and>
      blk (k * a) (?y k) = D (?y k) \<and> length (D (?y k)) = a" if "k < K" for k
    using block_read [where y = ?y and K = K and b = b and r = r, OF y that] c [OF that] lD [OF that] b that
    unfolding e_def by simp
  have loop: "block_loop (int (K * b)) cont b a (\<lambda>i. mem_read i b (e @ r)) blk 0 0 dst
      = Some (K * b, K * a, concat (map (\<lambda>k. D (?y k)) [0 ..< K]) @ drop (K * a) dst)"
    using block_loop_spec [where m = 0 and K = K and len = "int (K * b)" and x = ?y and y = "\<lambda>k. D (?y k)" and a = b and b = a
        and cont = cont and rd = "\<lambda>i. mem_read i b (e @ r)" and blk = blk and outbuf = dst]
      pre dst b by simp
  have "take n (concat (map (\<lambda>k. D (?y k)) [0 ..< K])) = take n (concat (map x [0 ..< K]))"
    using decode_blocks [where K = K and p = "K * a - n" and y = ?y and x = x] x B(1,2,3) by (simp add: padded_def)
  moreover have "n \<le> length (concat (map (\<lambda>k. D (?y k)) [0 ..< K]))"
    using length_concat_blocks [where y = "\<lambda>k. D (?y k)" and K = K and b = a, OF lD] B(2) by simp
  ultimately show "\<exists>m. block_loop (int (K * b)) cont b a (\<lambda>i. mem_read i b (e @ r)) blk 0 0 dst = Some (K * b, K * a, m) \<and>
       take n m = take n (concat (map x [0 ..< K]))"
    using loop by simp
  have ld: "load (int (K * b) - int j) (e @ r) = Some (?y (K - 1) ! (b - j))" if "0 < j" "j < a" for j
    unfolding e_def using that a_le_b
    by (intro load_last_block [where y = ?y and K = K and b = b, OF y B(1)]) auto
  have yl: "length (?y (K - 1)) = b" using y [of "K - 1"] B(1) by simp
  show "map (\<lambda>j. load (int (K * b) - int j) (e @ r)) [1 ..< a] = map Some (rev (drop (b - (a - 1)) (?y (K - 1))))"
  proof (rule nth_equalityI)
    fix i assume "i < length (map (\<lambda>j. load (int (K * b) - int j) (e @ r)) [1 ..< a])"
    then show "map (\<lambda>j. load (int (K * b) - int j) (e @ r)) [1 ..< a] ! i
        = map Some (rev (drop (b - (a - 1)) (?y (K - 1)))) ! i"
      using ld [of "Suc i"] yl a_le_b by (simp add: rev_nth del: of_nat_Suc of_nat_mult)
  qed (use yl a_le_b in simp)
  have "length (filter (\<lambda>c. c = P) (drop (b - (a - 1)) (?y (K - 1)))) = K * a - n"
    unfolding padded_def if_True simp_thms using x [of "K - 1"] B(1,3) by (intro count_pads) auto
  then show "length (filter (\<lambda>c. c = P) (rev (drop (b - (a - 1)) (?y (K - 1))))) = K * a - n"
    unfolding rev_filter [symmetric] length_rev .
qed

text \<open>Both directions together, as the routines compose them.\<close>

lemma roundtrip:
  assumes x: "\<And>k. k < K \<Longrightarrow> length (x k) = a \<and> rd (k * a) = Some (x k) \<and> cont (k * b)"
    and n: "0 < n" "K = (n + (a - 1)) div a" and out: "K * b < length outbuf"
    and c: "\<And>k. k < K \<Longrightarrow> cont' (k * a) \<and> blk (k * a) = D" and dst: "K * a \<le> length dst"
  shows "\<exists>m m' e r q cs. block_loop (int n) cont a b rd (\<lambda>_. E) 0 0 outbuf = Some (K * a, K * b, m) \<and>
     store_all (map (\<lambda>k. int (K * b) - k) (rev [1 .. int (K * a - n)])) P m = Some m' \<and>
     store (int (K * b)) NUL m' = Some (e @ NUL # r) \<and> length e = K * b \<and>
     block_loop (int (K * b)) cont' b a (\<lambda>i. mem_read i b (e @ NUL # r)) blk 0 0 dst = Some (K * b, K * a, q) \<and>
     take n q = take n (concat (map x [0 ..< K])) \<and>
     map (\<lambda>j. load (int (K * b) - int j) (e @ NUL # r)) [1 ..< a] = map Some cs \<and>
     length (filter (\<lambda>c. c = P) cs) = K * a - n \<and>
     set e \<subseteq> insert P (\<Union>k < K. set (E (x k)))"
proof -
  define e where "e = concat (map (padded K (K * a - n) x) [0 ..< K])"
  define r where "r = drop (Suc (K * b)) outbuf"
  have xl: "length (x k) = a" if "k < K" for k using x [OF that] by blast
  note dec = decode_loop [where K = K and n = n and x = x and blk = blk and dst = dst, OF xl n c dst, folded e_def]
  obtain m where "block_loop (int n) cont a b rd (\<lambda>_. E) 0 0 outbuf = Some (K * a, K * b, m)"
      "store_all (map (\<lambda>k. int (K * b) - k) (rev [1 .. int (K * a - n)])) P m = Some (e @ drop (K * b) outbuf)"
    using encode_loop [where K = K and n = n and x = x and rd = rd and cont = cont and outbuf = outbuf, OF x n] out
    unfolding e_def by auto
  moreover have "store (int (K * b)) NUL (e @ drop (K * b) outbuf) = Some (e @ NUL # r)"
    using store_terminator [of "K * b" "e @ drop (K * b) outbuf"] dec(1) out by (simp add: r_def)
  moreover have "set e \<subseteq> insert P (\<Union>k < K. set (E (x k)))"
    by (auto simp: e_def padded_def dest: in_set_takeD split: if_splits)
  ultimately show ?thesis using dec(1) dec(2,3) [of "NUL # r"] dec(4) by blast
qed

end

text \<open>The input blocks that cover the data, and what they contain.\<close>

lemma blocks_of_data:
  assumes "n = length data" "K * a \<le> length (data @ slack)" "n \<le> K * a"
  shows "k < K \<Longrightarrow> length (take a (drop (k * a) (data @ slack))) = a \<and>
      mem_read (k * a) a (data @ slack) = Some (take a (drop (k * a) (data @ slack)))"
    "take n (concat (map (\<lambda>k. take a (drop (k * a) (data @ slack))) [0 ..< K])) = data"
proof -
  assume "k < K"
  then have "Suc k * a \<le> K * a" by (intro mult_le_mono1) simp
  then have "k * a + a \<le> length (data @ slack)" using assms(2) by simp
  then show "length (take a (drop (k * a) (data @ slack))) = a \<and>
      mem_read (k * a) a (data @ slack) = Some (take a (drop (k * a) (data @ slack)))"
    by (simp add: mem_read_def)
next
  show "take n (concat (map (\<lambda>k. take a (drop (k * a) (data @ slack))) [0 ..< K])) = data"
    unfolding concat_of_blocks [OF assms(2)] using assms(1,3) by (simp add: min_def)
qed

lemma e64_positive: "s < 64 \<Longrightarrow> 0 < e64 ! s"
proof -
  have "\<forall>v \<in> set (take 64 e64). 0 < v" unfolding encode64_lut_take by simp
  moreover assume "s < 64"
  moreover have "length (take 64 e64) = 64" unfolding encode64_lut_take by simp
  ultimately show ?thesis by (metis nth_mem nth_take)
qed

lemma encodeblock_no_NUL: "NUL \<notin> set (encodeblock e64 x)"
proof -
  obtain s0 s1 s2 s3 where s: "sextets x = (s0, s1, s2, s3)" by (metis prod_cases4)
  note S = sextets_spec [OF s]
  have "char_of (e64 ! k) \<noteq> NUL" if "k < 64" for k
  proof
    assume "char_of (e64 ! k) = NUL"
    then have "(of_char (char_of (e64 ! k) :: char) :: nat) = 0" by simp
    then show False using lut64 [OF that] e64_positive [OF that] by simp
  qed
  then show ?thesis using S(1-4) by (auto simp: S(5) dest: sym)
qed

lemma base64_roundtrip:
  fixes data slack outbuf dst :: buf
  assumes n: "n = length data" "0 < n" and big: "2 * n < 2 ^ 31" and K: "K = (n + 2) div 3" and slack: "2 \<le> length slack"
    and out: "2 * n \<le> length outbuf" "K * 4 < length outbuf" "int (K * 4) \<le> outlen"
    and dst: "K * 3 \<le> length dst" "int (K * 3) \<le> dlen"
  shows "\<exists>e r m. encode64 encode_init (data @ slack) (int n) outbuf outlen = Some (e @ NUL # r, int (K * 4)) \<and>
     length e = K * 4 \<and> decode64 encode_init (e @ NUL # r) (int (K * 4)) dst dlen = Some (m, int n) \<and> take n m = data \<and> NUL \<notin> set e"
proof -
  have K3: "K = (n + (3 - 1)) div 3" using K by simp
  note B = block_count [OF n(2), of 3, folded K3, simplified]
  define x where "x k = take 3 (drop (k * 3) (data @ slack))" for k
  define out1 where "out1 = replicate (2 * n) NUL @ drop (2 * n) outbuf"
  have o1: "mem_write 0 (replicate (nat (int n * 2)) NUL) outbuf = Some out1" "length out1 = length outbuf"
    using out(1) by (auto simp: mem_write_def out1_def nat_mult_distrib mult.commute)
  have ov: "\<not> (int n < 0 \<or> 2 ^ 31 \<le> int n * 2)" "\<not> 2 ^ 31 \<le> int (K * 4)" using big B(3) by auto
  have inl: "K * 3 \<le> length (data @ slack)" using slack B(3) n(1) by simp
  have X: "length (x k) = 3 \<and> mem_read (k * 3) 3 (data @ slack) = Some (x k) \<and> int (k * 4) < outlen" if "k < K" for k
    unfolding x_def using blocks_of_data(1) [OF n(1) inl B(2) that] that out(3) by auto
  have xd: "take n (concat (map x [0 ..< K])) = data"
    using blocks_of_data(2) [OF n(1) inl B(2)] unfolding x_def [abs_def] .
  have dpre: "int (k * 3) < dlen \<and> decodeblock d64 (dlen - int (k * 3)) = decodeblock d64 3" if "k < K" for k
    using decodeblock_left [of "dlen - int (k * 3)" d64] that dst(2) by auto
  obtain m m' e r q cs where R: "block_loop (int n) (\<lambda>o'. int o' < outlen) 3 4 (\<lambda>i. mem_read i 3 (data @ slack)) (\<lambda>_. encodeblock e64) 0 0 out1
        = Some (K * 3, K * 4, m)"
      "store_all (map (\<lambda>k. int (K * 4) - k) (rev [1 .. int (K * 3 - n)])) (CHR ''='') m = Some m'"
      "store (int (K * 4)) NUL m' = Some (e @ NUL # r)" "length e = K * 4"
      "block_loop (int (K * 4)) (\<lambda>o'. int o' < dlen) 4 3 (\<lambda>i. mem_read i 4 (e @ NUL # r))
      (\<lambda>o'. decodeblock d64 (dlen - int o')) 0 0 dst = Some (K * 4, K * 3, q)" "take n q = data"
      "map (\<lambda>j. load (int (K * 4) - int j) (e @ NUL # r)) [1 ..< 3] = map Some cs" "length (filter (\<lambda>c. c = CHR ''='') cs) = K * 3 - n"
      "set e \<subseteq> insert (CHR ''='') (\<Union>k < K. set (encodeblock e64 (x k)))"
    using b64.roundtrip [where K = K and x = x and rd = "\<lambda>i. mem_read i 3 (data @ slack)" and cont = "\<lambda>o'. int o' < outlen"
        and n = n and outbuf = out1 and cont' = "\<lambda>o'. int o' < dlen" and blk = "\<lambda>o'. decodeblock d64 (dlen - int o')"
        and dst = dst, OF X n(2) K3 out(2) [folded o1(2)] dpre dst(1), unfolded xd] by blast
  have i: "int (K * 3) - int n = int (K * 3 - n)" using B(2) by simp
  consider "K * 3 - n = 0" | "K * 3 - n = 1" | "K * 3 - n = 2" using B(3) by linarith
  then have "(if int (K * 3) - int n = 2 then [int (K * 4) - 2, int (K * 4) - 1]
        else if int (K * 3) - int n = 1 then [int (K * 4) - 1] else [])
      = map (\<lambda>k. int (K * 4) - k) (rev [1 .. int (K * 3 - n)])" unfolding i by cases (simp_all add: upto_rec1)
  then have "encode64 encode_init (data @ slack) (int n) outbuf outlen = Some (e @ NUL # r, int (K * 4))"
    unfolding encode64_def using ov(1) o1(1) R(1-3) by (simp add: Let_def del: of_nat_mult)
  moreover obtain c1 c2 where "cs = [c1, c2]" "load (int (K * 4) - 1) (e @ NUL # r) = Some c1" "load (int (K * 4) - 2) (e @ NUL # r) = Some c2"
    using R(7) by (auto simp: upt_rec numeral_2_eq_2 numeral_3_eq_3)
  then have "decode64 encode_init (e @ NUL # r) (int (K * 4)) dst dlen = Some (q, int n)"
    unfolding decode64_def using ov(2) R(5,8) i by (auto simp del: of_nat_mult split: if_splits)
  moreover have "NUL \<notin> set e" using R(9) encodeblock_no_NUL by auto
  ultimately show ?thesis using R(4,6) by blast
qed

text \<open>Decoding into a destination that has room for exactly the data: the last block is cut to what is left.\<close>

lemma decodeblock_take: "0 \<le> left \<Longrightarrow> decodeblock lut left y = take (nat left) (decodeblock lut 3 y)"
proof -
  assume "0 \<le> left"
  then consider "left = 0" | "left = 1" | "left = 2" | "3 \<le> left" by linarith
  then show ?thesis
  proof cases
    case 4
    then have "length (decodeblock lut 3 y) \<le> nat left" by simp
    then show ?thesis unfolding decodeblock_left [OF 4, of lut] by simp
  qed (simp_all add: decodeblock_def Let_def)
qed

lemma mem_write_cut:
  assumes "mem_write k b d = Some d'" "k \<le> n" "n \<le> length d"
  shows "mem_write k (take (n - k) b) (take n d) = Some (take n d')"
  using assms by (auto simp: mem_write_def min_def drop_take split: if_splits)

lemma block_loop_take:
  assumes "block_loop len cont a b rd blk (k * a) (k * b) d = Some (i', o', d')"
    and "\<And>j. int (j * a) < len \<Longrightarrow> j * b < n \<and> cont (j * b) = cont' (j * b)"
    and "\<And>j x. int (j * a) < len \<Longrightarrow> blk' (j * b) x = take (n - j * b) (blk (j * b) x)"
    and "n \<le> length d" "0 < a"
  shows "block_loop len cont' a b rd blk' (k * a) (k * b) (take n d) = Some (i', o', take n d')"
  using assms(1,4)
proof (induction "nat (len - int (k * a))" arbitrary: k d rule: less_induct)
  case less
  show ?case
  proof (cases "int (k * a) < len \<and> cont (k * b)")
    case False
    then show ?thesis
      using less.prems assms(2) [of k] by (auto simp: block_loop.simps [of len _ a] split: if_splits)
  next
    case True
    then obtain x d1 where x: "rd (k * a) = Some x" "mem_write (k * b) (blk (k * b) x) d = Some d1"
        "block_loop len cont a b rd blk (Suc k * a) (Suc k * b) d1 = Some (i', o', d')"
      using less.prems(1) assms(5) by (subst (asm) block_loop.simps) (auto simp: add.commute split: option.splits)
    have k: "k * b < n" "cont' (k * b)" using assms(2) [of k] True by auto
    have l: "length d1 = length d" using mem_write_length [OF x(2)] .
    have lt: "nat (len - int (Suc k * a)) < nat (len - int (k * a))" using True assms(5) by simp
    have w: "mem_write (k * b) (blk' (k * b) x) (take n d) = Some (take n d1)"
      using mem_write_cut [OF x(2)] k(1) less.prems(2) assms(3) [of k x] True by simp
    have "block_loop len cont' a b rd blk' (Suc k * a) (Suc k * b) (take n d1) = Some (i', o', take n d')"
      using less.hyps [OF lt x(3)] l less.prems(2) by simp
    then show ?thesis
      using True k x(1) w assms(5) by (subst block_loop.simps) (simp add: add.commute)
  qed
qed

lemma decode64_exact:
  assumes "decode64 encode_init e (int (K * 4)) dst (int (K * 3)) = Some (m, r)"
    and "K * 3 \<le> n + 2" "n \<le> K * 3" "length dst = K * 3"
  shows "decode64 encode_init e (int (K * 4)) (take n dst) (int n) = Some (take n m, r)"
proof -
  obtain i o' m1 where L: "block_loop (int (K * 4)) (\<lambda>o'. int o' < int (K * 3)) 4 3 (\<lambda>i. mem_read i 4 e)
      (\<lambda>o'. decodeblock d64 (int (K * 3) - int o')) (0 * 4) (0 * 3) dst = Some (i, o', m1)" "m1 = m"
    using assms(1) by (auto simp: decode64_def split: option.splits if_splits)
  have "block_loop (int (K * 4)) (\<lambda>o'. int o' < int n) 4 3 (\<lambda>i. mem_read i 4 e)
      (\<lambda>o'. decodeblock d64 (int n - int o')) (0 * 4) (0 * 3) (take n dst) = Some (i, o', take n m1)"
  proof (rule block_loop_take [OF L(1)])
    fix j x assume "int (j * 4) < int (K * 4)"
    then have j: "j * 3 < n" "3 \<le> int (K * 3) - int (j * 3)" using assms(2) by auto
    then show "j * 3 < n \<and> (int (j * 3) < int (K * 3)) = (int (j * 3) < int n)" using assms(3) by simp
    show "decodeblock d64 (int n - int (j * 3)) x = take (n - j * 3) (decodeblock d64 (int (K * 3) - int (j * 3)) x)"
      using decodeblock_take [of "int n - int (j * 3)" d64 x] decodeblock_left [OF j(2), of d64] j(1)
      by (simp add: nat_diff_distrib nat_mult_distrib)
  qed (use assms(3,4) in auto)
  then show ?thesis using assms(1) L by (auto simp: decode64_def split: option.splits if_splits)
qed

text \<open>Nothing encodes to nothing, and decoding that looks at the two characters before the buffer.\<close>

lemma base64_empty:
  assumes "0 < length outbuf"
  shows "encode64 luts inbuf 0 outbuf outlen = Some (NUL # tl outbuf, 0)" "decode64 luts txt 0 dst dlen = None"
proof -
  have "mem_write 0 [NUL] outbuf = Some (NUL # tl outbuf)" using assms by (cases outbuf) (simp_all add: mem_write_def)
  then show "encode64 luts inbuf 0 outbuf outlen = Some (NUL # tl outbuf, 0)"
    by (simp add: encode64_def block_loop.simps store_def mem_write_def)
  show "decode64 luts txt 0 dst dlen = None" by (simp add: decode64_def block_loop.simps load_def)
qed

text \<open>C25. Base 64 round trip, for data of less than \<open>2 ^ 30\<close> bytes in buffers with the room the code writes to: encoding writes four characters for each
  started group of three bytes and terminates them, whatever the bytes after the data in the input buffer were (up to two of them are read),
  and decoding that text gives back exactly the data, unless the data is empty: decoding the empty text reads in front of its
  buffer, which is undefined.\<close>

theorem encode64_decode64:
  fixes data slack outbuf dst :: buf
  assumes n: "n = length data" "2 * n < 2 ^ 31" and K: "K = (n + 2) div 3" and slack: "2 \<le> length slack"
    and out: "2 * n \<le> length outbuf" "K * 4 < length outbuf" "int (K * 4) \<le> outlen"
    and dst: "K * 3 \<le> length dst" "int (K * 3) \<le> dlen"
  shows "\<exists>e r. encode64 encode_init (data @ slack) (int n) outbuf outlen = Some (e @ NUL # r, int (K * 4)) \<and> length e = K * 4 \<and>
     (if n = 0 then decode64 encode_init (e @ NUL # r) (int (K * 4)) dst dlen = None
      else \<exists>m. decode64 encode_init (e @ NUL # r) (int (K * 4)) dst dlen = Some (m, int n) \<and> take n m = data)"
proof (cases "n = 0")
  case True
  then have "int n = 0" "int (K * 4) = 0" "0 < length outbuf" using K out(2) by simp_all
  then show ?thesis using True base64_empty [of outbuf] by (intro exI [of _ "[]"] exI [of _ "tl outbuf"]) simp
next
  case False
  then show ?thesis using base64_roundtrip [OF n(1) _ n(2) K slack out dst] by auto
qed

theorem encode64_decode64_witness:
  "\<exists>e r m. encode64 encode_init (''abcd'' @ ''xy'') 4 (replicate 12 NUL) 12 = Some (e @ NUL # r, 8) \<and>
     length e = 8 \<and> decode64 encode_init (e @ NUL # r) 8 (replicate 6 NUL) 6 = Some (m, 4) \<and> take 4 m = ''abcd''"
  using encode64_decode64 [of 4 "''abcd''" 2 "''xy''" "replicate 12 NUL" 12 "replicate 6 NUL" 6] by simp

text \<open>Base 32 round trip, for data of every length but zero: encoding never reads past the data, writes eight characters
  for each started group of five bytes and terminates them, and decoding that text gives back exactly
  the data.\<close>

lemma encode32_decode32:
  fixes data slack outbuf dst :: buf
  assumes n: "n = length data" "0 < n" and K: "K = (n + 4) div 5"
    and out: "K * 8 < length outbuf" and dst: "K * 5 \<le> length dst"
  shows "\<exists>e r m. encode32 encode_init (data @ slack) (int n) outbuf outlen = Some (e @ NUL # r, int (K * 8)) \<and>
     length e = K * 8 \<and> decode32 encode_init (e @ NUL # r) (int (K * 8)) dst dlen = Some (m, int n) \<and> take n m = data"
proof -
  have K5: "K = (n + (5 - 1)) div 5" using K by simp
  note B = block_count [OF n(2), of 5, folded K5, simplified]
  define x where "x k = take 5 (drop (k * 5) (data @ replicate 4 NUL))" for k
  have inl: "K * 5 \<le> length (data @ replicate 4 NUL)" using B(3) n(1) by simp
  have X: "length (x k) = 5 \<and> workspace32 (data @ slack) (int n) (k * 5) = Some (x k) \<and> True" if "k < K" for k
  proof -
    define w where "w = min (n - k * 5) 5"
    have w: "nat (min (int n - int (k * 5)) 5) = w" "w \<le> n - k * 5" "w \<le> 5" using B(4) [OF that] by (auto simp: w_def)
    have l: "length (x k) = 5" unfolding x_def using blocks_of_data(1) [OF n(1) inl B(2) that] by simp
    have "x k = take w (drop (k * 5) data) @ replicate (5 - w) NUL"
      using l n(1) B(4) [OF that] by (auto simp: x_def w_def min_def)
    moreover have "mem_read (k * 5) w (data @ slack) = Some (take w (drop (k * 5) data))"
      using w(2) n(1) B(4) [OF that] by (simp add: mem_read_def)
    ultimately show ?thesis using l by (simp add: workspace32_def w(1) Let_def del: of_nat_mult)
  qed
  have xd: "take n (concat (map x [0 ..< K])) = data"
    using blocks_of_data(2) [OF n(1) inl B(2)] unfolding x_def [abs_def] .
  obtain m m' e r q cs where R: "block_loop (int n) (\<lambda>_. True) 5 8 (workspace32 (data @ slack) (int n)) (\<lambda>_. encode32_block e32) 0 0 outbuf
        = Some (K * 5, K * 8, m)"
      "store_all (map (\<lambda>k. int (K * 8) - k) (rev [1 .. int (K * 5 - n)])) STUFF_CHAR m = Some m'"
      "store (int (K * 8)) NUL m' = Some (e @ NUL # r)" "length e = K * 8"
      "block_loop (int (K * 8)) (\<lambda>_. True) 8 5 (\<lambda>i. mem_read i 8 (e @ NUL # r)) (\<lambda>_. decode32_block d32) 0 0 dst = Some (K * 8, K * 5, q)"
      "take n q = data" "map (\<lambda>j. load (int (K * 8) - int j) (e @ NUL # r)) [1 ..< 5] = map Some cs"
      "length (filter (\<lambda>c. c = STUFF_CHAR) cs) = K * 5 - n"
    using b32.roundtrip [where K = K and x = x and rd = "workspace32 (data @ slack) (int n)" and cont = "\<lambda>_. True"
        and n = n and outbuf = outbuf and cont' = "\<lambda>_. True" and blk = "\<lambda>_. decode32_block d32"
        and dst = dst, OF X n(2) K5 out _ dst, unfolded xd] by blast
  have i: "int (K * 5) - int n = int (K * 5 - n)" using B(2) by simp
  have pads: "(if 1 \<le> int (K * 5 - n) \<and> int (K * 5 - n) \<le> 4 then map (\<lambda>k. int (K * 8) - k) (rev [1 .. int (K * 5 - n)]) else [])
      = map (\<lambda>k. int (K * 8) - k) (rev [1 .. int (K * 5 - n)])" using B(3) by auto
  have "encode32 encode_init (data @ slack) (int n) outbuf outlen = Some (e @ NUL # r, int (K * 8))"
    by (simp only: encode32_def R(1-3) option.case prod.case Let_def i pads option.map)
  moreover have cnt: "int (K * 5) - int (length (filter (\<lambda>c. c = Some STUFF_CHAR) (map Some cs))) = int n"
  proof -
    have "filter (\<lambda>c. c = Some STUFF_CHAR) (map Some cs) = map Some (filter (\<lambda>c. c = STUFF_CHAR) cs)"
      by (simp add: filter_map o_def)
    then have "length (filter (\<lambda>c. c = Some STUFF_CHAR) (map Some cs)) = K * 5 - n"
      by (simp only: length_map R(8))
    then show ?thesis using i by linarith
  qed
  have nn: "None \<notin> set (map Some cs)" by simp
  have "decode32 encode_init (e @ NUL # r) (int (K * 8)) dst dlen = Some (q, int n)"
    by (simp only: decode32_def R(5,7) option.case prod.case Let_def nn cnt if_False)
  ultimately show ?thesis using R(4,6) by blast
qed

end
