(* ===== verification/Cipher.thy ===== *)
theory Cipher
  imports Cache Encode "HOL-Library.Monad_Syntax"
begin

unbundle bit_operations_syntax

text \<open>
  Keys and ciphers of \<^verbatim>\<open>lib/encrypt.c\<close>: the process-wide key cache, the master key of an encrypted stream, and the cipher that
  protects it with a pass phrase (\<^verbatim>\<open>AES256Password\<close>). A key is an object that the cache and the ciphers share, so keys live in a
  store under addresses; the constructor of a key either finds a cached one or makes a new one and caches it. Serialising
  a cipher writes the initialisation vector, a block of zeros and the master key, the last two encrypted under a key that is
  derived from the pass phrase, as base 64; decoding reverses this and refuses a pass phrase that does not decrypt the zeros.
  What the code calls in OpenSSL is the record \<open>openssl\<close>; its documented behaviour is the predicate \<open>openssl_ok\<close>.
\<close>

section \<open>OpenSSL\<close>

text \<open>
  The type \<open>'k\<close> stands for \<^verbatim>\<open>AES_KEY\<close>. \<open>AES_cbc_encrypt key iv encrypting data\<close> returns the output and the vector that the call leaves behind. The two
  sources of random bytes take the number of the call and the number of bytes; \<open>None\<close> is a result other than 1.
\<close>

record 'k openssl =
  AES_set_encrypt_key :: "buf \<Rightarrow> 'k"
  AES_set_decrypt_key :: "buf \<Rightarrow> 'k"
  AES_cbc_encrypt :: "'k \<Rightarrow> buf \<Rightarrow> bool \<Rightarrow> buf \<Rightarrow> buf \<times> buf"
  PKCS5_PBKDF2_HMAC_SHA1 :: "buf \<Rightarrow> buf \<Rightarrow> int \<Rightarrow> nat \<Rightarrow> buf"
  RAND_bytes :: "nat \<Rightarrow> nat \<Rightarrow> buf option"
  RAND_pseudo_bytes :: "nat \<Rightarrow> nat \<Rightarrow> buf option"
  EVP_MAX_KEY_LENGTH :: nat

definition AES_BLOCK_SIZE :: nat where "AES_BLOCK_SIZE = 16"

definition AES256_KEY_SIZE :: nat where "AES256_KEY_SIZE = 32"

definition openssl_ok :: "'k openssl \<Rightarrow> bool" where
  "openssl_ok ssl \<longleftrightarrow>
     (\<forall>k iv d. length k = AES256_KEY_SIZE \<and> length iv = AES_BLOCK_SIZE \<and> AES_BLOCK_SIZE dvd length d \<longrightarrow>
        length (fst (AES_cbc_encrypt ssl (AES_set_encrypt_key ssl k) iv True d)) = length d \<and>
        fst (AES_cbc_encrypt ssl (AES_set_decrypt_key ssl k) iv False
               (fst (AES_cbc_encrypt ssl (AES_set_encrypt_key ssl k) iv True d))) = d) \<and>
     (\<forall>p s i n. length (PKCS5_PBKDF2_HMAC_SHA1 ssl p s i n) = n) \<and>
     (\<forall>i n b. RAND_bytes ssl i n = Some b \<or> RAND_pseudo_bytes ssl i n = Some b \<longrightarrow> length b = n)"

section \<open>Keys\<close>

record key =
  key_type :: buf
  key_data :: buf
  key_iv :: buf

text \<open>The global state: the cache of key addresses, the keys, the next free address and the number of random requests so far.\<close>

record key_store =
  KeyCache :: "nat cache"
  key_heap :: "nat \<Rightarrow> key option"
  next_key :: nat
  rand_calls :: nat

definition key_store_init :: key_store where
  "key_store_init = \<lparr>KeyCache = Cache_Con HASH_TABLE_SIZE 0, key_heap = (\<lambda>_. None), next_key = 0, rand_calls = 0\<rparr>"

text \<open>The loop over the keys that are cached for a subject.\<close>

partial_function (option) key_search ::
    "buf \<Rightarrow> (nat \<Rightarrow> key option) \<Rightarrow> nat cache \<Rightarrow> nat cache_item option \<Rightarrow> (nat cache \<times> nat option) option" where
  "key_search type heap c it =
     (if it = None then Some (c, None)
      else case Cache_next c it of
             (c1, it1, None) \<Rightarrow> key_search type heap c1 it1
           | (c1, it1, Some r) \<Rightarrow>
               (case heap r of
                  None \<Rightarrow> None
                | Some k \<Rightarrow> if type = key_type k then Some (c1, Some r) else key_search type heap c1 it1))"

definition fill_random :: "'k openssl \<Rightarrow> nat \<Rightarrow> nat \<Rightarrow> buf option \<times> nat" where
  "fill_random ssl i n =
     (case RAND_bytes ssl i n of
        Some b \<Rightarrow> (Some b, Suc i)
      | None \<Rightarrow> (RAND_pseudo_bytes ssl (Suc i) n, Suc (Suc i)))"

text \<open>No request for random bytes fails in both sources.\<close>

definition random_ok :: "'k openssl \<Rightarrow> bool" where
  "random_ok ssl \<longleftrightarrow> (\<forall>i n. fst (fill_random ssl i n) \<noteq> None)"

definition Key_Con ::
    "'k openssl \<Rightarrow> key_store \<Rightarrow> buf \<Rightarrow> buf \<Rightarrow> bool \<Rightarrow> (key_store \<times> nat option \<times> aff4_err option) option" where
  "Key_Con ssl ks type subject create = do {
     let name = subject @ [NUL];
     (c1, found) \<leftarrow> key_search type (key_heap ks) (KeyCache ks) (Cache_iter (KeyCache ks) name);
     let ks1 = ks\<lparr>KeyCache := c1\<rparr>;
     if found \<noteq> None then Some (ks1, found, None)
     else if \<not> create then Some (ks1, None, None)
     else (case fill_random ssl (rand_calls ks) (EVP_MAX_KEY_LENGTH ssl) of
             (None, i) \<Rightarrow> Some (ks1\<lparr>rand_calls := i\<rparr>, None, Some ERuntimeError)
           | (Some d, i) \<Rightarrow>
               (case fill_random ssl i (EVP_MAX_KEY_LENGTH ssl) of
                  (None, j) \<Rightarrow> Some (ks1\<lparr>rand_calls := j\<rparr>, None, Some ERuntimeError)
                | (Some v, j) \<Rightarrow> do {
                    let r = next_key ks;
                    (c2, item) \<leftarrow> Cache_put c1 name (Some r);
                    Some (\<lparr>KeyCache = c2,
                           key_heap = (key_heap ks)(r \<mapsto> \<lparr>key_type = type, key_data = d, key_iv = v\<rparr>),
                           next_key = Suc r, rand_calls = j\<rparr>, Some r, None) }))
   }"

section \<open>The pass phrase cipher\<close>

text \<open>\<open>None\<close> in \<open>ekey\<close> or \<open>dkey\<close> is a key schedule that was never set.\<close>

record 'k aes_cipher =
  cipher_dataType :: buf
  cipher_type :: buf
  master_key :: "nat option"
  ekey :: "'k option"
  dkey :: "'k option"

definition AFF4_AES256_PASSWORD :: buf where "AFF4_AES256_PASSWORD = ''http://afflib.org/2009/aff4#aes256-password''"

definition AES256Password :: "'k aes_cipher" where
  "AES256Password = \<lparr>cipher_dataType = AFF4_AES256_PASSWORD, cipher_type = ''aes256'', master_key = None, ekey = None, dkey = None\<rparr>"

text \<open>The default provider of pass phrases reads the environment.\<close>

definition SecurityProvider_passphrase :: "(buf \<Rightarrow> buf option) \<Rightarrow> buf \<Rightarrow> buf \<Rightarrow> buf option \<times> aff4_err option" where
  "SecurityProvider_passphrase getenv ctype subject =
     (case getenv ''AFF4_PASSPHRASE'' of
        Some p \<Rightarrow> (Some p, None)
      | None \<Rightarrow> (None, Some ERuntimeError))"

text \<open>Both schedules of the master key; each call reads 32 bytes of it.\<close>

definition set_keys :: "'k openssl \<Rightarrow> key_store \<Rightarrow> nat \<Rightarrow> 'k aes_cipher \<Rightarrow> 'k aes_cipher option" where
  "set_keys ssl ks r self = do {
     key \<leftarrow> key_heap ks r;
     d \<leftarrow> mem_read 0 AES256_KEY_SIZE (key_data key);
     Some (self\<lparr>master_key := Some r, ekey := Some (AES_set_encrypt_key ssl d), dkey := Some (AES_set_decrypt_key ssl d)\<rparr>)
   }"

definition password_key :: "'k openssl \<Rightarrow> buf \<Rightarrow> buf \<Rightarrow> buf" where
  "password_key ssl passphrase iv =
     PKCS5_PBKDF2_HMAC_SHA1 ssl passphrase iv (of_char (iv ! 0) * 2 ^ 8) AES256_KEY_SIZE"

text \<open>
  \<open>stack\<close> is what follows the local struct \<^verbatim>\<open>encoding\<close> in memory: the encoder reads blocks of three bytes and the struct has 64.
  A key that could not be made is dereferenced.
\<close>

definition AES256Password_serialise ::
    "'k openssl \<Rightarrow> (buf \<Rightarrow> buf \<Rightarrow> buf option) \<Rightarrow> buf \<Rightarrow> key_store \<Rightarrow> 'k aes_cipher \<Rightarrow> buf \<Rightarrow>
     (key_store \<times> 'k aes_cipher \<times> buf option \<times> aff4_err option) option" where
  "AES256Password_serialise ssl passphrase stack ks self subject = do {
     (ks1, mk) \<leftarrow> (case master_key self of
        Some r \<Rightarrow> Some (ks, Some r)
      | None \<Rightarrow> map_option (\<lambda>(k, m, e). (k, m)) (Key_Con ssl ks (cipher_type self) subject True));
     r \<leftarrow> mk;
     key \<leftarrow> key_heap ks1 r;
     self1 \<leftarrow> set_keys ssl ks1 r self;
     iv \<leftarrow> mem_read 0 AES_BLOCK_SIZE (key_iv key);
     (case passphrase (cipher_dataType self) subject of
        None \<Rightarrow> Some (ks1, self1, None, Some ERuntimeError)
      | Some p \<Rightarrow> do {
          let pk = AES_set_encrypt_key ssl (password_key ssl p iv);
          m \<leftarrow> mem_read 0 AES256_KEY_SIZE (key_data key);
          ckey \<leftarrow> mem_write 0 (fst (AES_cbc_encrypt ssl pk iv True m)) (replicate AES256_KEY_SIZE NUL);
          nonce \<leftarrow> mem_write 0 (fst (AES_cbc_encrypt ssl pk iv True (replicate AES_BLOCK_SIZE NUL))) (replicate AES_BLOCK_SIZE NUL);
          (result, n) \<leftarrow> encode64 encode_init ((iv @ nonce @ ckey) @ stack) 64 (replicate 128 NUL) 128;
          Some (ks1, self1, Some result, None) })
   }"

text \<open>
  \<open>junk\<close> and \<open>iv_junk\<close> are the local struct and the local vector of 32 bytes before they are set. Copying the vector into the key copies as many
  bytes as the key's vector has.
\<close>

definition AES256Password_decode ::
    "'k openssl \<Rightarrow> (buf \<Rightarrow> buf \<Rightarrow> buf option) \<Rightarrow> buf \<Rightarrow> buf \<Rightarrow> key_store \<Rightarrow> 'k aes_cipher \<Rightarrow> buf \<Rightarrow> int \<Rightarrow> buf \<Rightarrow>
     (key_store \<times> 'k aes_cipher \<times> int \<times> aff4_err option) option" where
  "AES256Password_decode ssl passphrase junk iv_junk ks self data len subject = do {
     (ks1, mk) \<leftarrow> (case master_key self of
        Some r \<Rightarrow> Some (ks, Some r)
      | None \<Rightarrow> map_option (\<lambda>(k, m, e). (k, m)) (Key_Con ssl ks (cipher_type self) subject False));
     (case mk of
        Some r \<Rightarrow> map_option (\<lambda>self1. (ks1, self1, int AES256_KEY_SIZE, None)) (set_keys ssl ks1 r self)
      | None \<Rightarrow> do {
          (enc, n) \<leftarrow> decode64 encode_init data len junk 64;
          if n \<noteq> 64 then Some (ks1, self, 0, Some ERuntimeError)
          else (case passphrase (cipher_dataType self) subject of
             None \<Rightarrow> Some (ks1, self, 0, Some ERuntimeError)
           | Some p \<Rightarrow>
               (let eiv = take AES_BLOCK_SIZE enc;
                    nonce = take AES_BLOCK_SIZE (drop AES_BLOCK_SIZE enc);
                    ckey = drop (2 * AES_BLOCK_SIZE) enc;
                    iv = eiv @ drop AES_BLOCK_SIZE iv_junk;
                    pk = AES_set_decrypt_key ssl (password_key ssl p eiv)
                in if fst (AES_cbc_encrypt ssl pk eiv False nonce) \<noteq> replicate AES_BLOCK_SIZE NUL
                   then Some (ks1, self, 0, Some ERuntimeError)
                   else do {
                     (ks2, mk2, e) \<leftarrow> Key_Con ssl ks1 (cipher_type self) subject True;
                     r \<leftarrow> mk2;
                     key \<leftarrow> key_heap ks2 r;
                     v \<leftarrow> mem_read 0 (length (key_iv key)) iv;
                     d \<leftarrow> mem_write 0 (fst (AES_cbc_encrypt ssl pk (take AES_BLOCK_SIZE iv) False ckey)) (key_data key);
                     let ks3 = ks2\<lparr>key_heap := (key_heap ks2)(r \<mapsto> key\<lparr>key_iv := v, key_data := d\<rparr>)\<rparr>;
                     self1 \<leftarrow> set_keys ssl ks3 r self;
                     Some (ks3, self1, int AES256_KEY_SIZE, None) })) })
   }"

text \<open>The vector of a chunk: the number of the chunk is xored into the first four bytes of the key's vector.\<close>

definition chunk_iv :: "buf \<Rightarrow> int \<Rightarrow> buf" where
  "chunk_iv iv chunk = le_bytes 4 (le_val (take 4 iv) XOR nat (u32 chunk)) @ drop 4 iv"

definition aes_crypt ::
    "'k openssl \<Rightarrow> key_store \<Rightarrow> 'k aes_cipher \<Rightarrow> bool \<Rightarrow> 'k option \<Rightarrow> int \<Rightarrow> buf \<Rightarrow> buf \<Rightarrow> nat \<Rightarrow> (buf \<times> int) option" where
  "aes_crypt ssl ks self encrypting schedule chunk inbuff outbuff len = do {
     r \<leftarrow> master_key self;
     key \<leftarrow> key_heap ks r;
     iv \<leftarrow> mem_read 0 AES_BLOCK_SIZE (key_iv key);
     k \<leftarrow> schedule;
     d \<leftarrow> mem_read 0 len inbuff;
     result \<leftarrow> mem_write 0 (fst (AES_cbc_encrypt ssl k (chunk_iv iv chunk) encrypting d)) outbuff;
     Some (result, s32 (int len))
   }"

definition AES256Password_encrypt ::
    "'k openssl \<Rightarrow> key_store \<Rightarrow> 'k aes_cipher \<Rightarrow> int \<Rightarrow> buf \<Rightarrow> buf \<Rightarrow> nat \<Rightarrow> (buf \<times> int) option" where
  "AES256Password_encrypt ssl ks self chunk inbuff outbuff len = aes_crypt ssl ks self True (ekey self) chunk inbuff outbuff len"

definition AES256Password_decrypt ::
    "'k openssl \<Rightarrow> key_store \<Rightarrow> 'k aes_cipher \<Rightarrow> int \<Rightarrow> buf \<Rightarrow> buf \<Rightarrow> nat \<Rightarrow> (buf \<times> int) option" where
  "AES256Password_decrypt ssl ks self chunk inbuff outbuff len = aes_crypt ssl ks self False (dkey self) chunk inbuff outbuff len"

section \<open>The key cache\<close>

text \<open>The keys that are cached for a subject, and the one a constructor call finds.\<close>

definition subject_keys :: "key_store \<Rightarrow> buf \<Rightarrow> nat list" where
  "subject_keys ks subject = cache_values (KeyCache ks) (subject @ [NUL])"

definition has_type :: "(nat \<Rightarrow> key option) \<Rightarrow> buf \<Rightarrow> nat \<Rightarrow> bool" where
  "has_type heap type r = (case heap r of None \<Rightarrow> False | Some k \<Rightarrow> type = key_type k)"

definition cached_key :: "key_store \<Rightarrow> buf \<Rightarrow> buf \<Rightarrow> nat option" where
  "cached_key ks type subject = List.find (has_type (key_heap ks) type) (subject_keys ks subject)"

definition key_ok :: "'k openssl \<Rightarrow> key \<Rightarrow> bool" where
  "key_ok ssl k \<longleftrightarrow> length (key_data k) = EVP_MAX_KEY_LENGTH ssl \<and> length (key_iv k) = EVP_MAX_KEY_LENGTH ssl"

definition keys_ok :: "'k openssl \<Rightarrow> key_store \<Rightarrow> bool" where
  "keys_ok ssl ks \<longleftrightarrow> cache_live (KeyCache ks) \<and> (\<forall>r k. key_heap ks r = Some k \<longrightarrow> r < next_key ks \<and> key_ok ssl k) \<and>
     (\<forall>s. \<forall>r \<in> set (cache_values (KeyCache ks) s). key_heap ks r \<noteq> None)"

lemma key_store_init_ok: "keys_ok ssl key_store_init" "cached_key key_store_init type s = None"
  using Cache_Con_live [of HASH_TABLE_SIZE, where 'a = nat]
  by (simp_all add: keys_ok_def key_store_init_def cached_key_def subject_keys_def HASH_TABLE_SIZE_def)

lemma key_search_spec:
  assumes "cache_live c" "cache_entries c n = pre @ post"
    "\<forall>r \<in> set (map (\<lambda>x. the (item_data x)) post). heap r \<noteq> None"
  shows "\<exists>c'. key_search type heap c (case post of [] \<Rightarrow> None | i # _ \<Rightarrow> Some i)
       = Some (c', List.find (has_type heap type) (map (\<lambda>x. the (item_data x)) post)) \<and>
     cache_live c' \<and> cache_values c' = cache_values c"
  using assms
proof (induction post arbitrary: c pre)
  case Nil
  then show ?case by (simp add: key_search.simps)
next
  case (Cons i post)
  have inv: "cache_inv c" using Cons.prems(1) by (simp add: cache_live_def)
  obtain c1 where c1: "Cache_next c (Some i) = (c1, (case post of [] \<Rightarrow> None | j # _ \<Rightarrow> Some j), item_data i)"
      "cache_inv c1" "max_cache_size c1 = max_cache_size c" "set (cache_list c1) = set (cache_list c)"
      "cache_entries c1 = cache_entries c"
    using Cache_next_spec [OF inv Cons.prems(2)] by blast
  have live: "cache_live c1" "cache_values c1 = cache_values c"
    using Cons.prems(1) c1(2-5) by (auto simp: cache_live_def cache_values_def fun_eq_iff)
  obtain r where r: "item_data i = Some r"
    using cache_live_entry [OF Cons.prems(1), of i n] Cons.prems(2) by auto
  then obtain k where k: "heap r = Some k" using Cons.prems(3) by auto
  show ?case
  proof (cases "type = key_type k")
    case True
    then show ?thesis using c1(1) r k live by (simp add: key_search.simps has_type_def)
  next
    case False
    have "cache_entries c1 n = (pre @ [i]) @ post" using c1(5) Cons.prems(2) by simp
    from Cons.IH [OF live(1) this] show ?thesis
      using Cons.prems(3) c1(1) r k live(2) False by (simp add: key_search.simps [of type heap c] has_type_def)
  qed
qed

lemma fill_random_length: "openssl_ok ssl \<Longrightarrow> fill_random ssl i n = (Some b, j) \<Longrightarrow> length b = n"
  unfolding openssl_ok_def fill_random_def by (auto split: option.splits)

lemma random_okD: "random_ok ssl \<Longrightarrow> fill_random ssl i n \<noteq> (None, j)"
  unfolding random_ok_def by (metis fst_conv)

lemma cached_key_exists:
  assumes "keys_ok ssl ks" "cached_key ks type subject = Some r"
  shows "\<exists>k. key_heap ks r = Some k \<and> key_type k = type \<and> key_ok ssl k"
  using assms by (auto simp: cached_key_def keys_ok_def find_Some_iff has_type_def split: option.splits)

text \<open>A new key that is put into the cache is the one that is found for its subject and type from then on.\<close>

lemma new_key_cached:
  fixes ks :: key_store and k :: key
  defines "ks2 \<equiv> \<lambda>c j. \<lparr>KeyCache = c, key_heap = (key_heap ks)(next_key ks \<mapsto> k), next_key = Suc (next_key ks), rand_calls = j\<rparr>"
  assumes ok: "keys_ok ssl ks" and none: "cached_key ks (key_type k) subject = None" and k: "key_ok ssl k"
  shows "\<exists>c item. Cache_put (KeyCache ks) (subject @ [NUL]) (Some (next_key ks)) = Some (c, item) \<and> keys_ok ssl (ks2 c j) \<and>
     cached_key (ks2 c j) (key_type k) subject = Some (next_key ks)"
proof -
  let ?r = "next_key ks" and ?n = "subject @ [NUL]" and ?t = "key_type k"
  have live: "cache_live (KeyCache ks)" and heap: "\<And>r k. key_heap ks r = Some k \<Longrightarrow> r < next_key ks \<and> key_ok ssl k"
    and vals: "\<And>s r. r \<in> set (cache_values (KeyCache ks) s) \<Longrightarrow> key_heap ks r \<noteq> None"
    using ok by (auto simp: keys_ok_def)
  obtain c where c: "cache_add (KeyCache ks) ?n ?r = Some c" "cache_live c"
      "cache_values c = (cache_values (KeyCache ks))(?n := cache_values (KeyCache ks) ?n @ [?r])"
    using cmap.put_spec [OF live] by blast
  then obtain item where put: "Cache_put (KeyCache ks) ?n (Some ?r) = Some (c, item)" by (auto simp: cache_add_def)
  have fresh: "key_heap ks ?r = None" using heap [of ?r] by (cases "key_heap ks ?r") auto
  have nf: "\<not> has_type (key_heap ks) ?t r" if "r \<in> set (cache_values (KeyCache ks) ?n)" for r
    using that none by (auto simp: cached_key_def subject_keys_def find_None_iff)
  have new: "?r \<notin> set (cache_values (KeyCache ks) ?n)" using vals [of ?r ?n] fresh by auto
  have "List.find (has_type ((key_heap ks)(?r \<mapsto> k)) ?t) (cache_values (KeyCache ks) ?n) = None"
    unfolding find_None_iff using nf new by (metis fun_upd_other has_type_def)
  moreover have "List.find (has_type h ?t) (xs @ [?r]) = Some ?r" if "List.find (has_type h ?t) xs = None" "has_type h ?t ?r" for h xs
    using that by (induction xs) (auto split: if_splits)
  ultimately have "cached_key (ks2 c j) ?t subject = Some ?r"
    unfolding cached_key_def subject_keys_def ks2_def using c(3) by (simp add: has_type_def)
  moreover have "keys_ok ssl (ks2 c j)"
    unfolding keys_ok_def ks2_def using c(2,3) heap vals k by (auto simp: less_Suc_eq)
  ultimately show ?thesis using put by blast
qed

text \<open>
  The constructor: the cached key of that type if there is one, otherwise a new one that is cached from then on; without random bytes there is an
  error, no key and nothing in the cache.
\<close>

lemma Key_Con_spec:
  assumes ok: "keys_ok ssl ks" and ssl: "openssl_ok ssl"
  shows "\<exists>ks'. keys_ok ssl ks' \<and>
     (case cached_key ks type subject of
        Some r \<Rightarrow> Key_Con ssl ks type subject create = Some (ks', Some r, None) \<and> key_heap ks' = key_heap ks \<and>
          cached_key ks' type subject = Some r
      | None \<Rightarrow>
          if create
          then (\<exists>k. Key_Con ssl ks type subject create = Some (ks', Some (next_key ks), None) \<and> key_type k = type \<and> key_ok ssl k \<and>
              key_heap ks' = (key_heap ks)(next_key ks \<mapsto> k) \<and> cached_key ks' type subject = Some (next_key ks)) \<or>
            \<not> random_ok ssl \<and> Key_Con ssl ks type subject create = Some (ks', None, Some ERuntimeError) \<and> key_heap ks' = key_heap ks \<and>
              cached_key ks' type subject = None
          else Key_Con ssl ks type subject create = Some (ks', None, None) \<and> key_heap ks' = key_heap ks \<and>
            cached_key ks' type subject = None)"
proof -
  define n where "n = subject @ [NUL]"
  have live: "cache_live (KeyCache ks)" and inv: "cache_inv (KeyCache ks)"
    and heap: "\<And>r k. key_heap ks r = Some k \<Longrightarrow> r < next_key ks \<and> key_ok ssl k"
    and vals: "\<And>s r. r \<in> set (cache_values (KeyCache ks) s) \<Longrightarrow> key_heap ks r \<noteq> None"
    using ok by (auto simp: keys_ok_def cache_live_def)
  have "\<forall>r \<in> set (map (\<lambda>x. the (item_data x)) (cache_entries (KeyCache ks) n)). key_heap ks r \<noteq> None"
    using vals [of _ n] by (simp add: cache_values_def)
  from key_search_spec [OF live append_Nil [symmetric] this, of type]
  obtain c1 where c1: "key_search type (key_heap ks) (KeyCache ks) (Cache_iter (KeyCache ks) n) = Some (c1, cached_key ks type subject)"
      "cache_live c1" "cache_values c1 = cache_values (KeyCache ks)"
    using Cache_iter_entries [OF inv, of n] by (auto simp: cached_key_def subject_keys_def cache_values_def n_def)
  define ks1 where "ks1 = ks\<lparr>KeyCache := c1\<rparr>"
  have ks1: "keys_ok ssl ks1" "key_heap ks1 = key_heap ks" "cached_key ks1 t s = cached_key ks t s" for t s
    using ok c1(2,3) by (auto simp: keys_ok_def ks1_def cached_key_def subject_keys_def)
  show ?thesis
  proof (cases "cached_key ks type subject = None \<and> create")
    case False
    then have "Key_Con ssl ks type subject create = Some (ks1, cached_key ks type subject, None)"
      using c1(1) by (auto simp: Key_Con_def n_def ks1_def Let_def)
    then show ?thesis using False ks1 by (intro exI [of _ ks1]) (auto split: option.splits)
  next
    case True
    let ?m = "EVP_MAX_KEY_LENGTH ssl" and ?r = "next_key ks"
    have fail: "keys_ok ssl (ks1\<lparr>rand_calls := i\<rparr>)" "key_heap (ks1\<lparr>rand_calls := i\<rparr>) = key_heap ks" "cached_key (ks1\<lparr>rand_calls := i\<rparr>) type subject = None" for i
      using ks1 True by (simp_all add: keys_ok_def cached_key_def subject_keys_def)
    obtain d i where d: "fill_random ssl (rand_calls ks) ?m = (d, i)" by fastforce
    obtain v j where v: "fill_random ssl i ?m = (v, j)" by fastforce
    show ?thesis
    proof (cases "d = None \<or> v = None")
      case none: True
      obtain l where "Key_Con ssl ks type subject create = Some (ks1\<lparr>rand_calls := l\<rparr>, None, Some ERuntimeError)"
        using True c1(1) none d v that by (cases d) (auto simp: Key_Con_def n_def [symmetric] ks1_def Let_def)
      moreover have "\<not> random_ok ssl" using none d v random_okD by metis
      ultimately show ?thesis using True fail [of l] by (intro exI [of _ "ks1\<lparr>rand_calls := l\<rparr>"]) simp
    next
      case False
      then obtain d' v' where dv: "d = Some d'" "v = Some v'" by auto
      define k where "k = \<lparr>key_type = type, key_data = d', key_iv = v'\<rparr>"
      have k: "key_type k = type" "key_ok ssl k" using fill_random_length [OF ssl] d v dv by (auto simp: k_def key_ok_def)
      have "cached_key ks1 (key_type k) subject = None" using True ks1(3) k(1) by simp
      from new_key_cached [OF ks1(1) this k(2), of j] obtain c2 item where
        put: "Cache_put c1 n (Some ?r) = Some (c2, item)" and N:
          "keys_ok ssl \<lparr>KeyCache = c2, key_heap = (key_heap ks)(?r \<mapsto> k), next_key = Suc ?r, rand_calls = j\<rparr>"
          "cached_key \<lparr>KeyCache = c2, key_heap = (key_heap ks)(?r \<mapsto> k), next_key = Suc ?r, rand_calls = j\<rparr> type subject = Some ?r"
        by (auto simp: ks1_def n_def k(1))
      have "Key_Con ssl ks type subject create
          = Some (\<lparr>KeyCache = c2, key_heap = (key_heap ks)(?r \<mapsto> k), next_key = Suc ?r, rand_calls = j\<rparr>, Some ?r, None)"
        using True c1(1) d v dv put by (simp add: Key_Con_def n_def [symmetric] k_def Let_def)
      then show ?thesis using True k N by (intro exI) auto
    qed
  qed
qed

section \<open>Serialising and decoding\<close>

lemma base64_of_64:
  assumes "length data = 64" "2 \<le> length slack"
  shows "\<exists>e r. encode64 encode_init (data @ slack) 64 (replicate 128 NUL) 128 = Some (e @ NUL # r, 88) \<and>
     strlen (e @ NUL # r) = 88 \<and>
     (\<forall>junk. length junk = 64 \<longrightarrow> decode64 encode_init (e @ NUL # r) 88 junk 64 = Some (data, 64))"
proof -
  have R: "\<exists>e r m. encode64 encode_init (data @ slack) 64 (replicate 128 NUL) 128 = Some (e @ NUL # r, 88) \<and> length e = 88 \<and>
      decode64 encode_init (e @ NUL # r) 88 dst 66 = Some (m, 64) \<and> take 64 m = data \<and> NUL \<notin> set e" if "length dst = 66" for dst
    using base64_roundtrip [of 64 data 22 slack "replicate 128 NUL" 128 dst 66] assms that by simp
  obtain e r where e: "encode64 encode_init (data @ slack) 64 (replicate 128 NUL) 128 = Some (e @ NUL # r, 88)" "length e = 88" "NUL \<notin> set e"
    using R [of "replicate 66 NUL"] by auto
  have "decode64 encode_init (e @ NUL # r) 88 junk 64 = Some (data, 64)" if "length junk = 64" for junk
  proof -
    have "length (junk @ [NUL, NUL]) = 66" using that by simp
    from R [OF this] obtain m where "decode64 encode_init (e @ NUL # r) 88 (junk @ [NUL, NUL]) 66 = Some (m, 64)" "take 64 m = data"
      unfolding e(1) option.inject prod.inject by metis
    then show ?thesis using decode64_exact [of "e @ NUL # r" 22 "junk @ [NUL, NUL]" m 64 64] that by simp
  qed
  moreover have "\<forall>c \<in> set e. c \<noteq> NUL" using e(3) by auto
  then have "strlen (e @ NUL # r) = 88" using e(2) by (simp add: strlen_def takeWhile_append2)
  ultimately show ?thesis using e(1) by blast
qed

lemma openssl_cbc:
  assumes "openssl_ok ssl" "length k = AES256_KEY_SIZE" "length iv = AES_BLOCK_SIZE" "AES_BLOCK_SIZE dvd length d"
  shows "length (fst (AES_cbc_encrypt ssl (AES_set_encrypt_key ssl k) iv True d)) = length d"
    "fst (AES_cbc_encrypt ssl (AES_set_decrypt_key ssl k) iv False
       (fst (AES_cbc_encrypt ssl (AES_set_encrypt_key ssl k) iv True d))) = d"
  using assms by (auto simp: openssl_ok_def)

lemma password_key_length: "openssl_ok ssl \<Longrightarrow> length (password_key ssl p iv) = AES256_KEY_SIZE"
  by (simp add: openssl_ok_def password_key_def)

text \<open>A cipher whose schedules are those of the key at \<open>r\<close>.\<close>

definition with_key :: "'k openssl \<Rightarrow> nat \<Rightarrow> key \<Rightarrow> 'k aes_cipher \<Rightarrow> 'k aes_cipher" where
  "with_key ssl r key self =
     self\<lparr>master_key := Some r, ekey := Some (AES_set_encrypt_key ssl (take AES256_KEY_SIZE (key_data key))),
          dkey := Some (AES_set_decrypt_key ssl (take AES256_KEY_SIZE (key_data key)))\<rparr>"

lemma mem_read_prefix: "n \<le> length d \<Longrightarrow> mem_read 0 n d = Some (take n d)"
  by (simp add: mem_read_def)

lemma mem_write_all: "length b = length d \<Longrightarrow> mem_write 0 b d = Some b"
  by (simp add: mem_write_def)

lemma set_keys_eq:
  "key_heap ks r = Some key \<Longrightarrow> AES256_KEY_SIZE \<le> length (key_data key) \<Longrightarrow> set_keys ssl ks r self = Some (with_key ssl r key self)"
  by (simp add: set_keys_def with_key_def mem_read_prefix)

text \<open>The 64 bytes that a pass phrase makes of a vector and a master key.\<close>

definition password_envelope :: "'k openssl \<Rightarrow> buf \<Rightarrow> buf \<Rightarrow> buf \<Rightarrow> buf" where
  "password_envelope ssl p iv m =
     (let pk = AES_set_encrypt_key ssl (password_key ssl p iv)
      in iv @ fst (AES_cbc_encrypt ssl pk iv True (replicate AES_BLOCK_SIZE NUL)) @ fst (AES_cbc_encrypt ssl pk iv True m))"

lemma password_envelope_parts:
  fixes p :: buf
  assumes "openssl_ok ssl" "length iv = AES_BLOCK_SIZE" "length m = AES256_KEY_SIZE"
  defines "enc \<equiv> password_envelope ssl p iv m" and "pk \<equiv> AES_set_decrypt_key ssl (password_key ssl p iv)"
  shows "length enc = 64" "take AES_BLOCK_SIZE enc = iv"
    "fst (AES_cbc_encrypt ssl pk iv False (take AES_BLOCK_SIZE (drop AES_BLOCK_SIZE enc))) = replicate AES_BLOCK_SIZE NUL"
    "fst (AES_cbc_encrypt ssl pk iv False (drop (2 * AES_BLOCK_SIZE) enc)) = m"
proof -
  note C = openssl_cbc [OF assms(1) password_key_length [OF assms(1)] assms(2)]
  have d: "AES_BLOCK_SIZE dvd length m" "AES_BLOCK_SIZE dvd length (replicate AES_BLOCK_SIZE NUL)"
    unfolding assms(3) by (simp_all add: AES_BLOCK_SIZE_def AES256_KEY_SIZE_def)
  note L = C(1) [OF d(1)] C(1) [OF d(2)]
  show "length enc = 64" "take AES_BLOCK_SIZE enc = iv"
    using L assms(2,3) by (simp_all add: enc_def password_envelope_def Let_def AES_BLOCK_SIZE_def AES256_KEY_SIZE_def)
  show "fst (AES_cbc_encrypt ssl pk iv False (take AES_BLOCK_SIZE (drop AES_BLOCK_SIZE enc))) = replicate AES_BLOCK_SIZE NUL"
    using C(2) [OF d(2)] L assms(2) by (simp add: enc_def password_envelope_def Let_def pk_def)
  show "fst (AES_cbc_encrypt ssl pk iv False (drop (2 * AES_BLOCK_SIZE) enc)) = m"
    using C(2) [OF d(1)] L assms(2) by (simp add: enc_def password_envelope_def Let_def pk_def)
qed

lemma serialise_spec:
  assumes ssl: "openssl_ok ssl" and rnd: "random_ok ssl" and ok: "keys_ok ssl ks" and big: "AES256_KEY_SIZE \<le> EVP_MAX_KEY_LENGTH ssl"
    and new: "master_key self = None" and p: "passphrase (cipher_dataType self) subject = Some p" and st: "2 \<le> length stack"
  shows "\<exists>ks1 r key t. AES256Password_serialise ssl passphrase stack ks self subject = Some (ks1, with_key ssl r key self, Some t, None) \<and>
     keys_ok ssl ks1 \<and> key_heap ks1 r = Some key \<and> key_ok ssl key \<and> cached_key ks1 (cipher_type self) subject = Some r \<and> strlen t = 88 \<and>
     (\<forall>junk. length junk = 64 \<longrightarrow> decode64 encode_init t 88 junk 64 =
        Some (password_envelope ssl p (take AES_BLOCK_SIZE (key_iv key)) (take AES256_KEY_SIZE (key_data key)), 64))"
proof -
  obtain ks1 r where K: "Key_Con ssl ks (cipher_type self) subject True = Some (ks1, Some r, None)" "keys_ok ssl ks1"
      "cached_key ks1 (cipher_type self) subject = Some r"
    using Key_Con_spec [OF ok ssl, where type = "cipher_type self" and subject = subject and create = True] rnd by (auto split: option.splits)
  obtain key where key: "key_heap ks1 r = Some key" "key_ok ssl key" using cached_key_exists [OF K(2,3)] by blast
  define iv m where "iv = take AES_BLOCK_SIZE (key_iv key)" and "m = take AES256_KEY_SIZE (key_data key)"
  have len: "length iv = AES_BLOCK_SIZE" "length m = AES256_KEY_SIZE" "AES256_KEY_SIZE \<le> length (key_data key)" "AES_BLOCK_SIZE \<le> length (key_iv key)"
    using key(2) big by (simp_all add: iv_def m_def key_ok_def AES_BLOCK_SIZE_def AES256_KEY_SIZE_def)
  have L: "length (fst (AES_cbc_encrypt ssl (AES_set_encrypt_key ssl (password_key ssl p iv)) iv True m)) = AES256_KEY_SIZE"
      "length (fst (AES_cbc_encrypt ssl (AES_set_encrypt_key ssl (password_key ssl p iv)) iv True (replicate AES_BLOCK_SIZE NUL))) = AES_BLOCK_SIZE"
    using openssl_cbc(1) [OF ssl password_key_length [OF ssl] len(1)] len(2) by (simp_all add: AES_BLOCK_SIZE_def AES256_KEY_SIZE_def)
  obtain e z where e: "encode64 encode_init (password_envelope ssl p iv m @ stack) 64 (replicate 128 NUL) 128 = Some (e @ NUL # z, 88)"
      "strlen (e @ NUL # z) = 88"
      "\<And>junk. length junk = 64 \<Longrightarrow> decode64 encode_init (e @ NUL # z) 88 junk 64 = Some (password_envelope ssl p iv m, 64)"
    using base64_of_64 [OF password_envelope_parts(1) [OF ssl len(1,2)] st, of p] by blast
  have "AES256Password_serialise ssl passphrase stack ks self subject = Some (ks1, with_key ssl r key self, Some (e @ NUL # z), None)"
    using K(1) key(1) new p L e(1) len(3,4)
    by (simp add: AES256Password_serialise_def set_keys_eq mem_read_prefix mem_write_all Let_def
        iv_def [symmetric] m_def [symmetric] password_envelope_def)
  then show ?thesis using K(2,3) key e(2,3) unfolding iv_def m_def by blast
qed

lemma decode_spec:
  assumes ssl: "openssl_ok ssl" and rnd: "random_ok ssl" and ok: "keys_ok ssl ks" and evp: "EVP_MAX_KEY_LENGTH ssl = AES256_KEY_SIZE"
    and new: "master_key self = None" "cached_key ks (cipher_type self) subject = None"
    and p: "passphrase (cipher_dataType self) subject = Some p" and j: "length iv_junk = 32"
    and iv: "length iv = AES_BLOCK_SIZE" and m: "length m = AES256_KEY_SIZE"
    and d: "decode64 encode_init data len junk 64 = Some (password_envelope ssl p iv m, 64)"
  shows "\<exists>ks1 r key. AES256Password_decode ssl passphrase junk iv_junk ks self data len subject =
       Some (ks1, with_key ssl r key self, int AES256_KEY_SIZE, None) \<and>
     key_heap ks1 r = Some key \<and> key_data key = m \<and> take AES_BLOCK_SIZE (key_iv key) = iv"
proof -
  obtain ks1 where K1: "Key_Con ssl ks (cipher_type self) subject False = Some (ks1, None, None)" "keys_ok ssl ks1"
      "cached_key ks1 (cipher_type self) subject = None"
    using Key_Con_spec [OF ok ssl, where type = "cipher_type self" and subject = subject and create = False] new by auto
  obtain ks2 r k where K2: "Key_Con ssl ks1 (cipher_type self) subject True = Some (ks2, Some r, None)" "key_heap ks2 r = Some k" "key_ok ssl k"
    using Key_Con_spec [OF K1(2) ssl, where type = "cipher_type self" and subject = subject and create = True] K1(3) rnd by auto
  define iv' where "iv' = iv @ drop AES_BLOCK_SIZE iv_junk"
  define key where "key = k\<lparr>key_iv := iv', key_data := m\<rparr>"
  define ks3 where "ks3 = ks2\<lparr>key_heap := (key_heap ks2)(r \<mapsto> key)\<rparr>"
  have l: "length iv' = AES256_KEY_SIZE" "length (key_iv k) = AES256_KEY_SIZE" "length (key_data k) = AES256_KEY_SIZE"
    using iv j K2(3) evp by (auto simp: iv'_def key_ok_def AES_BLOCK_SIZE_def AES256_KEY_SIZE_def)
  note E = password_envelope_parts [OF ssl iv m, of p]
  have t: "take AES_BLOCK_SIZE iv' = iv" "mem_read 0 AES256_KEY_SIZE iv' = Some iv'" "mem_write 0 m (key_data k) = Some m"
    using iv l m by (simp_all add: iv'_def mem_read_def mem_write_def)
  have "set_keys ssl ks3 r self = Some (with_key ssl r key self)"
    by (rule set_keys_eq) (use m in \<open>simp_all add: ks3_def key_def\<close>)
  then have "AES256Password_decode ssl passphrase junk iv_junk ks self data len subject =
       Some (ks3, with_key ssl r key self, int AES256_KEY_SIZE, None)"
    using K1(1) K2 new p d E t l
    by (simp add: AES256Password_decode_def Let_def iv'_def [symmetric] ks3_def key_def)
  moreover have "take AES_BLOCK_SIZE (key_iv key) = iv" by (simp add: key_def t(1))
  ultimately show ?thesis by (auto simp: ks3_def key_def)
qed

section \<open>Chunks\<close>

lemma length_chunk_iv: "4 \<le> length iv \<Longrightarrow> length (chunk_iv iv n) = length iv"
  by (simp add: chunk_iv_def)

text \<open>What a key makes of the bytes of a chunk.\<close>

definition crypt_chunk :: "'k openssl \<Rightarrow> key \<Rightarrow> int \<Rightarrow> buf \<Rightarrow> buf" where
  "crypt_chunk ssl key chunk d =
     fst (AES_cbc_encrypt ssl (AES_set_encrypt_key ssl (take AES256_KEY_SIZE (key_data key)))
            (chunk_iv (take AES_BLOCK_SIZE (key_iv key)) chunk) True d)"

definition key_full :: "key \<Rightarrow> bool" where
  "key_full k \<longleftrightarrow> AES256_KEY_SIZE \<le> length (key_data k) \<and> AES_BLOCK_SIZE \<le> length (key_iv k)"

definition same_key :: "key \<Rightarrow> key \<Rightarrow> bool" where
  "same_key k1 k2 \<longleftrightarrow> take AES256_KEY_SIZE (key_data k1) = take AES256_KEY_SIZE (key_data k2) \<and>
     take AES_BLOCK_SIZE (key_iv k1) = take AES_BLOCK_SIZE (key_iv k2)"

lemma crypt_chunk_cbc:
  assumes "openssl_ok ssl" "key_full key" "AES_BLOCK_SIZE dvd length d"
  shows "length (crypt_chunk ssl key chunk d) = length d"
    "fst (AES_cbc_encrypt ssl (AES_set_decrypt_key ssl (take AES256_KEY_SIZE (key_data key)))
       (chunk_iv (take AES_BLOCK_SIZE (key_iv key)) chunk) False (crypt_chunk ssl key chunk d)) = d"
proof -
  have "length (take AES256_KEY_SIZE (key_data key)) = AES256_KEY_SIZE"
      "length (chunk_iv (take AES_BLOCK_SIZE (key_iv key)) chunk) = AES_BLOCK_SIZE"
    using assms(2) by (simp_all add: key_full_def length_chunk_iv AES_BLOCK_SIZE_def)
  from openssl_cbc [OF assms(1) this assms(3), folded crypt_chunk_def]
  show "length (crypt_chunk ssl key chunk d) = length d"
    "fst (AES_cbc_encrypt ssl (AES_set_decrypt_key ssl (take AES256_KEY_SIZE (key_data key)))
       (chunk_iv (take AES_BLOCK_SIZE (key_iv key)) chunk) False (crypt_chunk ssl key chunk d)) = d" .
qed

lemma encrypt_spec:
  assumes "openssl_ok ssl" "key_heap ks r = Some key" "key_full key" "AES_BLOCK_SIZE dvd n" "n \<le> length data" "length outb = n"
  shows "AES256Password_encrypt ssl ks (with_key ssl r key self) chunk data outb n = Some (crypt_chunk ssl key chunk (take n data), s32 (int n))"
proof -
  have "length (crypt_chunk ssl key chunk (take n data)) = n" using crypt_chunk_cbc(1) [OF assms(1,3), of "take n data"] assms(4,5) by simp
  then show ?thesis
    using assms(2,3,5,6)
    by (simp add: AES256Password_encrypt_def aes_crypt_def with_key_def mem_read_prefix key_full_def
        crypt_chunk_def [symmetric] mem_write_all)
qed

lemma decrypt_spec:
  assumes "openssl_ok ssl" "key_heap ks r = Some k2" "same_key k2 key" "key_full k2" "key_full key" "AES_BLOCK_SIZE dvd length d"
    "length outb = length d"
  shows "AES256Password_decrypt ssl ks (with_key ssl r k2 self) chunk (crypt_chunk ssl key chunk d) outb (length d) = Some (d, s32 (int (length d)))"
  using assms(2-4,7) crypt_chunk_cbc [OF assms(1,5,6), of chunk]
  by (simp add: AES256Password_decrypt_def aes_crypt_def with_key_def mem_read_prefix key_full_def same_key_def mem_write_all)

section \<open>Properties\<close>

lemma password_same_key:
  assumes ssl: "openssl_ok ssl" and rnd: "random_ok ssl" and evp: "EVP_MAX_KEY_LENGTH ssl = AES256_KEY_SIZE"
    and ok: "keys_ok ssl ks" "keys_ok ssl ks'" and new: "cached_key ks' ''aes256'' subject = None"
    and p: "passphrase AFF4_AES256_PASSWORD subject = Some p" and j: "2 \<le> length stack" "length junk = 64" "length iv_junk = 32"
  shows "\<exists>ks1 r key t ks2 r2 key2.
     AES256Password_serialise ssl passphrase stack ks AES256Password subject = Some (ks1, with_key ssl r key AES256Password, Some t, None) \<and>
     AES256Password_decode ssl passphrase junk iv_junk ks' AES256Password t (int (strlen t)) subject
       = Some (ks2, with_key ssl r2 key2 AES256Password, int AES256_KEY_SIZE, None) \<and>
     key_heap ks1 r = Some key \<and> key_heap ks2 r2 = Some key2 \<and> key_full key \<and> key_full key2 \<and> same_key key2 key"
proof -
  let ?c = "AES256Password :: 'a aes_cipher"
  have c: "master_key ?c = None" "cipher_type ?c = ''aes256''" "cipher_dataType ?c = AFF4_AES256_PASSWORD"
    by (simp_all add: AES256Password_def)
  have p': "passphrase (cipher_dataType ?c) subject = Some p" using p c(3) by simp
  obtain ks1 r key t where S: "AES256Password_serialise ssl passphrase stack ks ?c subject = Some (ks1, with_key ssl r key ?c, Some t, None)"
      "key_heap ks1 r = Some key" "key_ok ssl key" "strlen t = 88"
      "decode64 encode_init t 88 junk 64 = Some (password_envelope ssl p (take AES_BLOCK_SIZE (key_iv key)) (take AES256_KEY_SIZE (key_data key)), 64)"
    using serialise_spec [where passphrase = passphrase and self = ?c and subject = subject, OF ssl rnd ok(1) _ c(1) p' j(1)] evp j(2) by auto
  have l: "length (key_data key) = AES256_KEY_SIZE" "AES_BLOCK_SIZE \<le> length (key_iv key)"
    using S(3) evp by (simp_all add: key_ok_def AES_BLOCK_SIZE_def AES256_KEY_SIZE_def)
  obtain ks2 r2 key2 where D: "AES256Password_decode ssl passphrase junk iv_junk ks' ?c t 88 subject = Some (ks2, with_key ssl r2 key2 ?c, int AES256_KEY_SIZE, None)"
      "key_heap ks2 r2 = Some key2" "key_data key2 = take AES256_KEY_SIZE (key_data key)" "take AES_BLOCK_SIZE (key_iv key2) = take AES_BLOCK_SIZE (key_iv key)"
    using decode_spec [where passphrase = passphrase and self = ?c and subject = subject, OF ssl rnd ok(2) evp c(1) _ p' j(3) _ _ S(5)] new c(2) l by auto
  have "length (take AES_BLOCK_SIZE (key_iv key2)) = AES_BLOCK_SIZE" unfolding D(4) using l(2) by simp
  then have "AES_BLOCK_SIZE \<le> length (key_iv key2)" by simp
  then have "key_full key2" "key_full key" "same_key key2 key" using l D(3,4) by (simp_all add: key_full_def same_key_def)
  then show ?thesis using S(1,2,4) D(1,2) by auto
qed

text \<open>C22. The pass phrase cipher: for every behaviour of OpenSSL in which decryption inverts encryption and random bytes can be had, the text that serialising a
  cipher yields, decoded in another process with the same pass phrase, gives a cipher that decrypts every chunk the first one
  encrypts. (\<^verbatim>\<open>EVP_MAX_KEY_LENGTH\<close> is 32, as in the releases of OpenSSL the code was written for; whatever the uninitialised bytes are.)\<close>

theorem password_cipher_roundtrip:
  assumes ssl: "openssl_ok ssl" and rnd: "random_ok ssl" and evp: "EVP_MAX_KEY_LENGTH ssl = AES256_KEY_SIZE"
    and ok: "keys_ok ssl ks" "keys_ok ssl ks'" and new: "cached_key ks' ''aes256'' subject = None"
    and p: "passphrase AFF4_AES256_PASSWORD subject = Some p" and j: "2 \<le> length stack" "length junk = 64" "length iv_junk = 32"
    and data: "AES_BLOCK_SIZE dvd length data" "length outa = length data" "length outb = length data"
  shows "\<exists>ks1 c1 t ks2 c2 crypted. AES256Password_serialise ssl passphrase stack ks AES256Password subject = Some (ks1, c1, Some t, None) \<and>
     AES256Password_decode ssl passphrase junk iv_junk ks' AES256Password t (int (strlen t)) subject = Some (ks2, c2, int AES256_KEY_SIZE, None) \<and>
     AES256Password_encrypt ssl ks1 c1 chunk data outa (length data) = Some (crypted, s32 (int (length data))) \<and>
     AES256Password_decrypt ssl ks2 c2 chunk crypted outb (length data) = Some (data, s32 (int (length data)))"
proof -
  obtain ks1 r key t ks2 r2 key2 where K: "AES256Password_serialise ssl passphrase stack ks AES256Password subject = Some (ks1, with_key ssl r key AES256Password, Some t, None)"
      "AES256Password_decode ssl passphrase junk iv_junk ks' AES256Password t (int (strlen t)) subject = Some (ks2, with_key ssl r2 key2 AES256Password, int AES256_KEY_SIZE, None)"
      "key_heap ks1 r = Some key" "key_heap ks2 r2 = Some key2" "key_full key" "key_full key2" "same_key key2 key"
    using password_same_key [where passphrase = passphrase and p = p and subject = subject, OF ssl rnd evp ok new p j] by blast
  show ?thesis
    using K(1,2) encrypt_spec [OF ssl K(3,5) data(1) order_refl data(2), of AES256Password chunk]
      decrypt_spec [OF ssl K(4,7,6,5) data(1,3), of AES256Password chunk] by auto
qed

text \<open>An instance of the library for witnesses: every byte is complemented.\<close>

definition demo_ssl :: "buf openssl" where
  "demo_ssl = \<lparr>AES_set_encrypt_key = id, AES_set_decrypt_key = id,
     AES_cbc_encrypt = (\<lambda>k iv e d. (map (\<lambda>c. char_of (255 - of_char c :: nat)) d, iv)),
     PKCS5_PBKDF2_HMAC_SHA1 = (\<lambda>p s i n. take n (p @ replicate n NUL)),
     RAND_bytes = (\<lambda>i n. Some (replicate n (char_of i))), RAND_pseudo_bytes = (\<lambda>i n. None), EVP_MAX_KEY_LENGTH = 32\<rparr>"

lemma demo_random_ok: "random_ok demo_ssl"
  by (simp add: random_ok_def fill_random_def demo_ssl_def)

lemma demo_ssl_ok: "openssl_ok demo_ssl"
proof -
  have "char_of (255 - of_char (char_of (255 - of_char c :: nat) :: char) :: nat) = c" for c :: char
  proof -
    have "(of_char c :: nat) < 256" by simp
    then have "255 - (255 - of_char c) = (of_char c :: nat)" by linarith
    then show ?thesis by simp
  qed
  then show ?thesis by (auto simp: openssl_ok_def demo_ssl_def o_def)
qed

theorem password_cipher_roundtrip_witness:
  "\<exists>ks1 c1 t ks2 c2 crypted.
     AES256Password_serialise demo_ssl (\<lambda>_ _. Some ''secret'') ''xy'' key_store_init AES256Password ''aff4://s'' = Some (ks1, c1, Some t, None) \<and>
     AES256Password_decode demo_ssl (\<lambda>_ _. Some ''secret'') (replicate 64 NUL) (replicate 32 NUL) key_store_init AES256Password t (int (strlen t)) ''aff4://s''
       = Some (ks2, c2, int AES256_KEY_SIZE, None) \<and>
     AES256Password_encrypt demo_ssl ks1 c1 5 ''0123456789abcdef'' (replicate 16 NUL) 16 = Some (crypted, 16) \<and>
     AES256Password_decrypt demo_ssl ks2 c2 5 crypted (replicate 16 NUL) 16 = Some (''0123456789abcdef'', 16)"
proof -
  have l: "length ''0123456789abcdef'' = 16" "s32 (int 16) = 16" by (simp_all add: s32_def)
  have e: "EVP_MAX_KEY_LENGTH demo_ssl = AES256_KEY_SIZE" "AES_BLOCK_SIZE dvd length ''0123456789abcdef''"
    unfolding l by (simp_all add: demo_ssl_def AES256_KEY_SIZE_def AES_BLOCK_SIZE_def)
  show ?thesis
    using password_cipher_roundtrip [where passphrase = "\<lambda>_ _. Some ''secret''" and p = "''secret''" and subject = "''aff4://s''" and chunk = 5
        and stack = "''xy''" and junk = "replicate 64 NUL" and iv_junk = "replicate 32 NUL" and outa = "replicate 16 NUL" and outb = "replicate 16 NUL",
        OF demo_ssl_ok demo_random_ok e(1) key_store_init_ok(1) key_store_init_ok(1) key_store_init_ok(2) refl _ _ _ e(2)]
    unfolding l by simp
qed

text \<open>C24. A wrong pass phrase is refused: when the block of zeros in the envelope does not decrypt to zeros, decoding returns 0 with an error, the
  cipher gets no key, and no key for the stream is in the key cache.\<close>

theorem password_decode_refuses:
  assumes ssl: "openssl_ok ssl" and ok: "keys_ok ssl ks" and new: "cached_key ks ''aes256'' subject = None"
    and d: "decode64 encode_init data len junk 64 = Some (enc, 64)" and p: "passphrase AFF4_AES256_PASSWORD subject = Some p"
    and bad: "fst (AES_cbc_encrypt ssl (AES_set_decrypt_key ssl (password_key ssl p (take AES_BLOCK_SIZE enc))) (take AES_BLOCK_SIZE enc) False
      (take AES_BLOCK_SIZE (drop AES_BLOCK_SIZE enc))) \<noteq> replicate AES_BLOCK_SIZE NUL"
  shows "\<exists>ks1. AES256Password_decode ssl passphrase junk iv_junk ks AES256Password data len subject = Some (ks1, AES256Password, 0, Some ERuntimeError) \<and>
     keys_ok ssl ks1 \<and> key_heap ks1 = key_heap ks \<and> cached_key ks1 ''aes256'' subject = None"
proof -
  obtain ks1 where "Key_Con ssl ks ''aes256'' subject False = Some (ks1, None, None)" "keys_ok ssl ks1" "key_heap ks1 = key_heap ks"
      "cached_key ks1 ''aes256'' subject = None"
    using Key_Con_spec [OF ok ssl, where type = "''aes256''" and subject = subject and create = False] new by auto
  then show ?thesis using d p bad by (simp add: AES256Password_decode_def AES256Password_def Let_def)
qed

theorem password_decode_refuses_witness:
  "\<exists>t ks1. AES256Password_decode demo_ssl (\<lambda>_ _. Some ''secret'') (replicate 64 NUL) [] key_store_init AES256Password t 88 ''aff4://s''
     = Some (ks1, AES256Password, 0, Some ERuntimeError) \<and> cached_key ks1 ''aes256'' ''aff4://s'' = None"
proof -
  obtain t where t: "decode64 encode_init t 88 (replicate 64 NUL) 64 = Some (replicate 64 NUL, 64)"
    using base64_of_64 [of "replicate 64 NUL" "''xy''"] by (metis length_replicate length_Cons list.size(3) numeral_2_eq_2 order_refl)
  have "take AES_BLOCK_SIZE (drop AES_BLOCK_SIZE (replicate 64 NUL)) = replicate 16 NUL" by (simp add: AES_BLOCK_SIZE_def)
  moreover have "(of_char (char_of (255 :: nat) :: char) :: nat) \<noteq> of_char NUL" by simp
  then have "(char_of (255 :: nat) :: char) \<noteq> NUL" by metis
  ultimately have "fst (AES_cbc_encrypt demo_ssl k iv False (take AES_BLOCK_SIZE (drop AES_BLOCK_SIZE (replicate 64 NUL)))) \<noteq> replicate AES_BLOCK_SIZE NUL" for k iv
    by (simp add: demo_ssl_def AES_BLOCK_SIZE_def)
  from password_decode_refuses [where passphrase = "\<lambda>_ _. Some ''secret''" and p = "''secret''" and subject = "''aff4://s''" and iv_junk = "[]",
      OF demo_ssl_ok key_store_init_ok(1) key_store_init_ok(2) t refl this]
  show ?thesis by blast
qed

text \<open>
  With a release of OpenSSL whose \<^verbatim>\<open>EVP_MAX_KEY_LENGTH\<close> is 64, decoding copies 64 bytes out of the local vector of 32.
\<close>

lemma password_decode_overreads:
  assumes ssl: "openssl_ok ssl" and rnd: "random_ok ssl" and ok: "keys_ok ssl ks" and evp: "32 < EVP_MAX_KEY_LENGTH ssl" and new: "cached_key ks ''aes256'' subject = None"
    and p: "passphrase AFF4_AES256_PASSWORD subject = Some p" and j: "length iv_junk = 32"
    and iv: "length iv = AES_BLOCK_SIZE" and m: "length m = AES256_KEY_SIZE"
    and d: "decode64 encode_init data len junk 64 = Some (password_envelope ssl p iv m, 64)"
  shows "AES256Password_decode ssl passphrase junk iv_junk ks AES256Password data len subject = None"
proof -
  obtain ks1 where K1: "Key_Con ssl ks ''aes256'' subject False = Some (ks1, None, None)" "keys_ok ssl ks1"
      "cached_key ks1 ''aes256'' subject = None"
    using Key_Con_spec [OF ok ssl, where type = "''aes256''" and subject = subject and create = False] new by auto
  obtain ks2 r k where K2: "Key_Con ssl ks1 ''aes256'' subject True = Some (ks2, Some r, None)" "key_heap ks2 r = Some k" "key_ok ssl k"
    using Key_Con_spec [OF K1(2) ssl, where type = "''aes256''" and subject = subject and create = True] K1(3) rnd by auto
  have "mem_read 0 (length (key_iv k)) (iv @ drop AES_BLOCK_SIZE iv_junk) = None"
    using K2(3) evp iv j by (simp add: mem_read_def key_ok_def AES_BLOCK_SIZE_def)
  then show ?thesis
    using K1(1) K2 p d password_envelope_parts [OF ssl iv m, of p]
    by (simp add: AES256Password_decode_def AES256Password_def Let_def)
qed

section \<open>Well-typed key stores\<close>

text \<open>What changes the global state: the constructor of a key, and a cipher that is written out or read in.\<close>

inductive key_step :: "'k openssl \<Rightarrow> key_store \<Rightarrow> key_store \<Rightarrow> bool" for ssl :: "'k openssl" where
  step_Con: "Key_Con ssl ks type subject create = Some (ks', m, e) \<Longrightarrow> key_step ssl ks ks'"
| step_serialise: "AES256Password_serialise ssl passphrase stack ks self subject = Some (ks', self', t, e) \<Longrightarrow> key_step ssl ks ks'"
| step_decode: "AES256Password_decode ssl passphrase junk iv_junk ks self data len subject = Some (ks', self', n, e) \<Longrightarrow> key_step ssl ks ks'"

lemma Key_Con_keys_ok:
  assumes "openssl_ok ssl" "keys_ok ssl ks" "Key_Con ssl ks type subject create = Some (ks', m, e)"
  shows "keys_ok ssl ks'"
  using Key_Con_spec [OF assms(2,1), where type = type and subject = subject and create = create] assms(3)
  by (auto split: option.splits if_splits)

lemma key_change_ok:
  assumes "keys_ok ssl ks" "key_heap ks r = Some k" "mem_read 0 (length (key_iv k)) a = Some v" "mem_write 0 b (key_data k) = Some d"
  shows "keys_ok ssl (ks\<lparr>key_heap := (key_heap ks)(r \<mapsto> k\<lparr>key_iv := v, key_data := d\<rparr>)\<rparr>)"
  using assms mem_read_length [OF assms(3)] mem_write_length [OF assms(4)] by (auto simp: keys_ok_def key_ok_def)

lemma serialise_keys_ok:
  assumes "openssl_ok ssl" "keys_ok ssl ks" "AES256Password_serialise ssl passphrase stack ks self subject = Some (ks', self', t, e)"
  shows "keys_ok ssl ks'"
  using assms Key_Con_keys_ok [OF assms(1,2)]
  by (auto simp: AES256Password_serialise_def Let_def split: option.splits Option.bind_splits)

lemma decode_keys_ok:
  assumes ssl: "openssl_ok ssl" and ok: "keys_ok ssl ks"
    and e: "AES256Password_decode ssl passphrase junk iv_junk ks self data len subject = Some (ks', self', n, e)"
  shows "keys_ok ssl ks'"
proof -
  show ?thesis using e ok
    by (auto simp: AES256Password_decode_def Let_def split: option.splits Option.bind_splits if_splits dest: Key_Con_keys_ok [OF ssl ok]) (blast intro: key_change_ok Key_Con_keys_ok [OF ssl])+
qed

lemma key_steps_keys_ok:
  assumes "openssl_ok ssl" "(key_step ssl)\<^sup>*\<^sup>* ks ks'" "keys_ok ssl ks"
  shows "keys_ok ssl ks'"
  using assms(2,3)
proof (induction rule: rtranclp_induct)
  case (step y z)
  from step.hyps(2) show ?case
    using step.IH [OF step.prems] Key_Con_keys_ok serialise_keys_ok decode_keys_ok assms(1) by (cases rule: key_step.cases) blast+
qed

text \<open>C20. Keys are well typed: in every state that constructors, serialised and decoded ciphers lead to from the empty key store, whether they
  succeed or report an error, every key has the sizes of its arrays and every cached address is a key. There the constructor returns in a
  state with the same property. With an error, which it reports only when it may create a key and a request for random bytes failed in both sources, it
  returns no key, changes none and caches none; otherwise what it returns is what is cached under the subject, a key of the type
  that was asked for, and there is one whenever it may create one.\<close>

theorem key_store_well_typed:
  assumes "openssl_ok ssl" "(key_step ssl)\<^sup>*\<^sup>* key_store_init ks"
  shows "keys_ok ssl ks \<and>
    (\<exists>ks' m e. Key_Con ssl ks type subject create = Some (ks', m, e) \<and> keys_ok ssl ks' \<and> cached_key ks' type subject = m \<and>
       (case e of
          None \<Rightarrow> (create \<longrightarrow> m \<noteq> None) \<and> (\<forall>r. m = Some r \<longrightarrow> (\<exists>k. key_heap ks' r = Some k \<and> key_type k = type \<and> key_ok ssl k))
        | Some err \<Rightarrow> err = ERuntimeError \<and> create \<and> \<not> random_ok ssl \<and> m = None \<and> key_heap ks' = key_heap ks))"
proof -
  have ok: "keys_ok ssl ks" by (rule key_steps_keys_ok [OF assms key_store_init_ok(1)])
  obtain ks' m e where K: "Key_Con ssl ks type subject create = Some (ks', m, e)" "keys_ok ssl ks'" "cached_key ks' type subject = m"
      "e = None \<and> (create \<longrightarrow> m \<noteq> None) \<or> e = Some ERuntimeError \<and> create \<and> \<not> random_ok ssl \<and> m = None \<and> key_heap ks' = key_heap ks"
    using Key_Con_spec [OF ok assms(1), where type = type and subject = subject and create = create] by (auto split: option.splits if_splits)
  then show ?thesis using ok cached_key_exists [OF K(2)] by (intro conjI exI [of _ ks'] exI [of _ m] exI [of _ e]) auto
qed

text \<open>A library whose source of random bytes fails on its third request.\<close>

definition demo_ssl_short :: "buf openssl" where
  "demo_ssl_short = demo_ssl\<lparr>RAND_bytes := (\<lambda>i n. if i = 2 then None else Some (replicate n NUL))\<rparr>"

lemma demo_ssl_short_ok: "openssl_ok demo_ssl_short"
  using demo_ssl_ok by (auto simp: openssl_ok_def demo_ssl_short_def demo_ssl_def)

theorem key_store_well_typed_witness:
  "\<exists>ks ks' m e. key_step demo_ssl_short key_store_init ks \<and> keys_ok demo_ssl_short ks \<and>
     Key_Con demo_ssl_short ks ''aes256'' ''aff4://s'' True = Some (ks', m, e) \<and> cached_key ks' ''aes256'' ''aff4://s'' = m \<and> (e = None \<longrightarrow> m \<noteq> None)"
proof -
  obtain ks m e where K: "Key_Con demo_ssl_short key_store_init ''aes256'' ''aff4://t'' True = Some (ks, m, e)"
    using key_store_well_typed [OF demo_ssl_short_ok rtranclp.rtrancl_refl, where type = "''aes256''" and subject = "''aff4://t''" and create = True] by blast
  then have "key_step demo_ssl_short key_store_init ks" by (rule step_Con)
  then show ?thesis
    using key_store_well_typed [OF demo_ssl_short_ok r_into_rtranclp, where type = "''aes256''" and subject = "''aff4://s''" and create = True]
    by (fastforce split: option.splits)
qed

end
