(* ===== verification/Chunks.thy ===== *)
theory Chunks
  imports Aff4_Prelude
begin

text \<open>
  Cutting a byte sequence into chunks of a fixed size, as the encrypted stream and the message digest do: the chunk with a
  number, what is left after the last complete chunk, and how both change when data is appended.
\<close>

definition nth_chunk :: "nat \<Rightarrow> 'a list \<Rightarrow> nat \<Rightarrow> 'a list" where
  "nth_chunk cs data i = take cs (drop (i * cs) data)"

text \<open>What is left after the complete chunks.\<close>

definition last_part :: "nat \<Rightarrow> 'a list \<Rightarrow> 'a list" where
  "last_part cs data = drop (length data div cs * cs) data"

lemma div_times_bounds:
  fixes cs i n :: nat
  assumes "i < n div cs"
  shows "i * cs + cs \<le> n"
proof -
  have "Suc i * cs \<le> n div cs * cs" using assms by (intro mult_le_mono1) simp
  also have "\<dots> \<le> n" by (rule div_times_less_eq_dividend)
  finally show ?thesis by simp
qed

lemma nth_chunk_length: "i < length data div cs \<Longrightarrow> length (nth_chunk cs data i) = cs"
  using div_times_bounds [of i "length data" cs] by (simp add: nth_chunk_def)

lemma nth_chunk_append: "i < length data div cs \<Longrightarrow> nth_chunk cs (data @ extra) i = nth_chunk cs data i"
  using div_times_bounds [of i "length data" cs] by (simp add: nth_chunk_def)

lemma nth_chunk_take: "i * cs + cs \<le> n \<Longrightarrow> nth_chunk cs (take n d) i = nth_chunk cs d i"
  by (simp add: nth_chunk_def drop_take min_def)

lemma length_last_part: "0 < cs \<Longrightarrow> length (last_part cs data) < cs"
  by (simp add: last_part_def minus_div_mult_eq_mod)

text \<open>Appending to the data adds the chunks that become complete; they are cut from what was left and what is new.\<close>

lemma parts_append:
  fixes data extra :: "'a list"
  assumes "0 < cs"
  defines "q \<equiv> length data div cs" and "rest \<equiv> last_part cs data @ extra"
  shows "length (data @ extra) div cs = q + length rest div cs"
    "last_part cs (data @ extra) = drop (length rest div cs * cs) rest"
    "nth_chunk cs (data @ extra) (q + i) = nth_chunk cs rest i"
proof -
  have q: "q * cs \<le> length data" by (simp add: q_def)
  have d: "drop (q * cs) (data @ extra) = rest" using q by (simp add: rest_def last_part_def q_def)
  have D: "drop ((q + k) * cs) (data @ extra) = drop (k * cs) rest" for k
    unfolding d [symmetric] drop_drop add_mult_distrib by (simp only: add.commute)
  have l: "length (data @ extra) = q * cs + length rest" unfolding d [symmetric] using q by simp
  then show L: "length (data @ extra) div cs = q + length rest div cs" using assms(1) by simp
  show "last_part cs (data @ extra) = drop (length rest div cs * cs) rest"
    unfolding last_part_def L D ..
  show "nth_chunk cs (data @ extra) (q + i) = nth_chunk cs rest i"
    unfolding nth_chunk_def D ..
qed

text \<open>Folding over the complete chunks continues with the chunks that become complete.\<close>

definition fold_chunks :: "('s \<Rightarrow> 'a list \<Rightarrow> 's) \<Rightarrow> nat \<Rightarrow> 's \<Rightarrow> 'a list \<Rightarrow> 's" where
  "fold_chunks f cs st data = foldl f st (map (nth_chunk cs data) [0 ..< length data div cs])"

lemma fold_chunks_append:
  assumes "0 < cs"
  shows "fold_chunks f cs st (data @ extra) = fold_chunks f cs (fold_chunks f cs st data) (last_part cs data @ extra)"
proof -
  define q rest where "q = length data div cs" and "rest = last_part cs data @ extra"
  note P = parts_append [OF assms, of data extra, folded q_def rest_def]
  have "map (nth_chunk cs (data @ extra)) [0 ..< q] = map (nth_chunk cs data) [0 ..< q]"
    by (intro map_cong refl) (simp add: nth_chunk_append q_def)
  moreover have "map (nth_chunk cs (data @ extra)) [q ..< q + m] = map (nth_chunk cs rest) [0 ..< m]" for m
  proof -
    have u: "[q ..< q + m] = map (\<lambda>i. q + i) [0 ..< m]" using map_add_upt [of q m] by (simp add: add.commute)
    show ?thesis unfolding u map_map o_def P(3) ..
  qed
  ultimately show ?thesis
    unfolding fold_chunks_def P(1) q_def [symmetric] rest_def [symmetric]
    by (simp only: upt_add_eq_append [OF le0] map_append foldl_append)
qed

lemma last_part_append: "0 < cs \<Longrightarrow> last_part cs (data @ extra) = last_part cs (last_part cs data @ extra)"
  unfolding last_part_def [of cs "last_part cs data @ extra"] by (rule parts_append(2))

lemma last_part_mod: "length (last_part cs data) = length data mod cs"
  by (simp add: last_part_def minus_div_mult_eq_mod)

text \<open>Data without a complete chunk, and data that starts with one.\<close>

lemma short_chunks:
  assumes "length data < cs"
  shows "last_part cs data = data" "fold_chunks f cs st data = st"
  using assms by (simp_all add: last_part_def fold_chunks_def)

lemma first_chunk:
  assumes "0 < cs" "length b = cs"
  shows "last_part cs (b @ data) = last_part cs data" "fold_chunks f cs st (b @ data) = fold_chunks f cs (f st b) data"
proof -
  have l: "last_part cs b = []" using assms by (simp add: last_part_def)
  have f: "fold_chunks f cs st b = f st b" using assms by (simp add: fold_chunks_def nth_chunk_def)
  show "last_part cs (b @ data) = last_part cs data" using last_part_append [OF assms(1), of b data] l by simp
  show "fold_chunks f cs st (b @ data) = fold_chunks f cs (f st b) data"
    using fold_chunks_append [OF assms(1), of f st b data] l f by simp
qed

end
