(* ===== verification/Encrypted.thy ===== *)
theory Encrypted
  imports Cipher Chunks File_Object "HOL-Library.Signed_Division"
begin

text \<open>
  The encrypted stream of \<^verbatim>\<open>lib/encrypt.c\<close>: data is cut into chunks, each chunk is encrypted with the cipher of the stream under its
  number, and the encrypted chunks are written one after the other to a backing stream. The backing stream is reached through the
  virtual methods of a file like object, here the record \<open>backing_ops\<close>; what the stream relies on is the locale \<open>backing_stream\<close>, which
  is interpreted on the file backed object. The theory shows that writing keeps the backing stream equal to the encrypted chunks of
  what was written, that a read inside a chunk returns what was written, and that a read across chunks does not.
\<close>

section \<open>State\<close>

record 'b backing_ops =
  b_open :: "'b \<Rightarrow> char \<Rightarrow> 'b option"
  b_write :: "'b \<Rightarrow> buf \<Rightarrow> 'b \<times> int"
  b_seek :: "'b \<Rightarrow> int \<Rightarrow> 'b"
  b_read :: "'b \<Rightarrow> nat \<Rightarrow> 'b \<times> int \<times> buf"
  b_return :: "'b \<Rightarrow> 'b"

record 'k encrypted =
  enc_readptr :: int
  enc_size :: int
  enc_chunk_size :: int
  block_buffer :: stringio
  enc_cipher :: "'k aes_cipher"

section \<open>Operations\<close>

text \<open>
  The constructor, with what the resolver found for the stream: whether the target is known and can be opened, whether the volume is
  known, the cipher, the size of a chunk and the size of the stream.
\<close>

definition Encrypted_Con ::
    "(nat \<Rightarrow> byte) \<Rightarrow> buf option \<Rightarrow> bool \<Rightarrow> buf option \<Rightarrow> 'k aes_cipher option \<Rightarrow> int option \<Rightarrow> int option \<Rightarrow> 'k encrypted option \<times> aff4_err option" where
  "Encrypted_Con junk target target_opens stored_in cipher csize fsize =
     (if target = None then (None, Some ERuntimeError)
      else if \<not> target_opens then (None, None)
      else if stored_in = None then (None, Some ERuntimeError)
      else case cipher of
             None \<Rightarrow> (None, Some ERuntimeError)
           | Some c \<Rightarrow>
               (Some \<lparr>enc_readptr = 0, enc_size = (case fsize of None \<Rightarrow> 0 | Some n \<Rightarrow> n),
                      enc_chunk_size = (case csize of None \<Rightarrow> 4 * 1024 | Some n \<Rightarrow> n),
                      block_buffer = StringIO_constructor junk, enc_cipher = c\<rparr>, None))"

text \<open>
  The loop that takes chunks off the buffer: \<open>data\<close> and \<open>size\<close> are those of the buffer, \<open>buff\<close> the array for an encrypted chunk.
  It returns the backing stream and the offset it reached.
\<close>

function write_chunks ::
    "'k openssl \<Rightarrow> 'b backing_ops \<Rightarrow> key_store \<Rightarrow> 'k aes_cipher \<Rightarrow> nat \<Rightarrow> buf \<Rightarrow> int \<Rightarrow> 'b \<Rightarrow> int \<Rightarrow> buf \<Rightarrow> nat \<Rightarrow> ('b \<times> nat) option" where
  "write_chunks ssl ops ks cipher csize data sz b chunk_id buff offset =
     (if int csize \<le> sz - int offset \<and> 0 < csize
      then (case AES256Password_encrypt ssl ks cipher chunk_id (drop offset data) buff csize of
              None \<Rightarrow> None
            | Some (buff1, _) \<Rightarrow>
                write_chunks ssl ops ks cipher csize data sz (fst (b_write ops b (take csize buff1))) (s32 (chunk_id + 1)) buff1 (offset + csize))
      else Some (b, offset))"
  by pat_completeness auto
termination
  by (relation "measure (\<lambda>(ssl, ops, ks, cipher, csize, data, sz, b, chunk_id, buff, offset). nat (sz - int offset))") auto

declare write_chunks.simps [simp del]

text \<open>\<open>junk\<close> is the array \<^verbatim>\<open>buff\<close> before it is written. A chunk size that is not positive traps in the division or in the declaration of the array.\<close>

definition Encrypted_write ::
    "'k openssl \<Rightarrow> 'b backing_ops \<Rightarrow> (nat \<Rightarrow> byte) \<Rightarrow> key_store \<Rightarrow> 'b \<Rightarrow> 'k encrypted \<Rightarrow> buf \<Rightarrow> ('b \<times> 'k encrypted \<times> int \<times> aff4_err option) option" where
  "Encrypted_write ssl ops junk ks b self buffer =
     (let csize = s32 (enc_chunk_size self)
      in if csize \<le> 0 then None
         else
           (let chunk_id = s32 (enc_readptr self sdiv csize);
                bb1 = fst (StringIO_seek (block_buffer self) 0 SEEK_END)
            in case StringIO_write bb1 buffer of
                 None \<Rightarrow> None
               | Some (bb2, _) \<Rightarrow>
                   (let self1 = self\<lparr>block_buffer := bb2, enc_readptr := s64 (enc_readptr self + int (length buffer))\<rparr>;
                        finish = (\<lambda>b offset. map_option (\<lambda>bb. (b, self1\<lparr>block_buffer := bb\<rparr>, s32 (int (length buffer)), None))
                                               (StringIO_skip bb2 (int offset)))
                    in if csize \<le> sio_size bb2
                       then (case b_open ops b (CHR ''w'') of
                               None \<Rightarrow> Some (b, self1, 0, Some ERuntimeError)
                             | Some b1 \<Rightarrow>
                                 (case write_chunks ssl ops ks (enc_cipher self) (nat csize) (sio_data bb2) (sio_size bb2) b1 chunk_id
                                         (map junk [0 ..< nat csize]) 0 of
                                    None \<Rightarrow> None
                                  | Some (b2, offset) \<Rightarrow> finish (b_return ops b2) offset))
                       else finish b 0)))"

text \<open>
  One partial read: the bytes for the caller are the last component. \<open>cjunk\<close> and \<open>djunk\<close> are the two arrays of a chunk before they are
  written; a short read of the chunk is an error.
\<close>

definition Encrypted_partialread ::
    "'k openssl \<Rightarrow> 'b backing_ops \<Rightarrow> (nat \<Rightarrow> byte) \<Rightarrow> key_store \<Rightarrow> 'b \<Rightarrow> 'k encrypted \<Rightarrow> int \<Rightarrow> ('b \<times> 'k encrypted \<times> int \<times> buf) option" where
  "Encrypted_partialread ssl ops junk ks b self len =
     (let csize = u64 (enc_chunk_size self); p = u64 (enc_readptr self)
      in if csize = 0 then None
         else
           (let chunk_id = u32 (p div csize); chunk_offset = s32 (p mod csize);
                available_to_read = s32 (min (u64 len) (u64 (csize - chunk_offset)))
            in case b_open ops b (CHR ''r'') of
                 None \<Rightarrow> Some (b, self, - 1, [])
               | Some t \<Rightarrow>
                   (case b_read ops (b_seek ops t (s64 (chunk_id * csize))) (nat csize) of
                      (t1, res, cbuff) \<Rightarrow>
                        if res < 0 \<or> u64 res < csize then Some (b_return ops t1, self, - 1, [])
                        else (case AES256Password_decrypt ssl ks (enc_cipher self) (s32 chunk_id) cbuff (map junk [0 ..< nat csize]) (nat csize) of
                                None \<Rightarrow> None
                              | Some (dbuff, n) \<Rightarrow>
                                  if n = 0 then Some (b_return ops t1, self, - 1, [])
                                  else if chunk_offset < 0 \<or> available_to_read < 0 then None
                                  else (case mem_read (nat chunk_offset) (nat available_to_read) dbuff of
                                          None \<Rightarrow> None
                                        | Some d \<Rightarrow>
                                            Some (b_return ops t1, self\<lparr>enc_readptr := s64 (enc_readptr self + available_to_read)\<rparr>,
                                                  available_to_read, d))))))"

text \<open>
  The loop of \<^verbatim>\<open>read\<close>: \<open>buff\<close> is the caller's buffer. Each round asks for as much as the whole call asked for, and adds the
  number of bytes to the read pointer after the partial read has already done so.
\<close>

function enc_read_loop ::
    "'k openssl \<Rightarrow> 'b backing_ops \<Rightarrow> (nat \<Rightarrow> byte) \<Rightarrow> key_store \<Rightarrow> nat \<Rightarrow> 'b \<Rightarrow> 'k encrypted \<Rightarrow> nat \<Rightarrow> buf \<Rightarrow> ('b \<times> 'k encrypted \<times> int \<times> buf) option" where
  "enc_read_loop ssl ops junk ks len b self offset buff =
     (if offset < len
      then
        (let available_to_read = s32 (min (int len) (u64 (enc_size self - enc_readptr self)))
         in if available_to_read = 0 then Some (b, self, int offset, buff)
            else (case Encrypted_partialread ssl ops junk ks b self available_to_read of
                    None \<Rightarrow> None
                  | Some (b1, self1, n, d) \<Rightarrow>
                      if n < 0 then Some (b1, self1, - 1, buff)
                      else if n = 0 then Some (b1, self1, int offset, buff)
                      else (case mem_write offset d buff of
                              None \<Rightarrow> None
                            | Some buff1 \<Rightarrow>
                                enc_read_loop ssl ops junk ks len b1 (self1\<lparr>enc_readptr := s64 (enc_readptr self1 + n)\<rparr>) (offset + nat n) buff1)))
      else Some (b, self, int offset, buff))"
  by pat_completeness auto
termination
  by (relation "measure (\<lambda>(ssl, ops, junk, ks, len, b, self, offset, buff). len - offset)") auto

declare enc_read_loop.simps [simp del]

definition Encrypted_read ::
    "'k openssl \<Rightarrow> 'b backing_ops \<Rightarrow> (nat \<Rightarrow> byte) \<Rightarrow> key_store \<Rightarrow> 'b \<Rightarrow> 'k encrypted \<Rightarrow> buf \<Rightarrow> nat \<Rightarrow> ('b \<times> 'k encrypted \<times> int \<times> buf) option" where
  "Encrypted_read ssl ops junk ks b self buff len = enc_read_loop ssl ops junk ks len b self 0 buff"

text \<open>
  Closing pads the last chunk, records the size, and takes the key of the stream out of the key cache. The result carries the size
  that is stored as an attribute.
\<close>

definition Encrypted_close ::
    "'k openssl \<Rightarrow> 'b backing_ops \<Rightarrow> (nat \<Rightarrow> byte) \<Rightarrow> key_store \<Rightarrow> 'b \<Rightarrow> 'k encrypted \<Rightarrow> buf \<Rightarrow> ('b \<times> 'k encrypted \<times> key_store \<times> int) option" where
  "Encrypted_close ssl ops junk ks b self urn =
     (let csize = s32 (enc_chunk_size self)
      in if csize \<le> 0 then None
         else
           (let to_pad = s32 (csize - enc_readptr self mod csize);
                self1 = self\<lparr>enc_size := enc_readptr self\<rparr>;
                padded = (if 0 < to_pad
                          then map_option (\<lambda>(b1, self2, _). (b1, self2))
                                 (Encrypted_write ssl ops junk ks b self1 (replicate (nat to_pad) NUL))
                          else Some (b, self1))
            in map_option (\<lambda>(b1, self2). (b1, self2, ks\<lparr>KeyCache := fst (Cache_get (KeyCache ks) (urn @ [NUL]))\<rparr>, enc_size self2)) padded))"

text \<open>A client that writes blocks one after the other.\<close>

fun enc_writes ::
    "'k openssl \<Rightarrow> 'b backing_ops \<Rightarrow> (nat \<Rightarrow> byte) \<Rightarrow> key_store \<Rightarrow> 'b \<Rightarrow> 'k encrypted \<Rightarrow> buf list \<Rightarrow> ('b \<times> 'k encrypted) option" where
  "enc_writes ssl ops junk ks b self [] = Some (b, self)"
| "enc_writes ssl ops junk ks b self (x # xs) =
     (case Encrypted_write ssl ops junk ks b self x of
        None \<Rightarrow> None
      | Some (b1, self1, _) \<Rightarrow> enc_writes ssl ops junk ks b1 self1 xs)"

section \<open>Encrypted content\<close>

text \<open>The chunks of \<open>data\<close>, the last one only if it is complete, encrypted under their numbers.\<close>

definition crypt_stream :: "'k openssl \<Rightarrow> key \<Rightarrow> nat \<Rightarrow> buf \<Rightarrow> buf" where
  "crypt_stream ssl key cs data = concat (map (\<lambda>i. crypt_chunk ssl key (int i) (nth_chunk cs data i)) [0 ..< length data div cs])"

lemma crypt_stream_append:
  fixes data extra :: buf
  assumes "0 < cs"
  defines "q \<equiv> length data div cs" and "rest \<equiv> last_part cs data @ extra"
  shows "crypt_stream ssl key cs (data @ extra) = crypt_stream ssl key cs data @
     concat (map (\<lambda>i. crypt_chunk ssl key (int (q + i)) (nth_chunk cs rest i)) [0 ..< length rest div cs])"
proof -
  note P = parts_append [OF assms(1), of data extra, folded q_def rest_def]
  have "map (\<lambda>i. crypt_chunk ssl key (int i) (nth_chunk cs (data @ extra) i)) [0 ..< q]
      = map (\<lambda>i. crypt_chunk ssl key (int i) (nth_chunk cs data i)) [0 ..< q]"
    by (intro map_cong refl) (simp add: nth_chunk_append q_def)
  moreover have "map (\<lambda>i. crypt_chunk ssl key (int i) (nth_chunk cs (data @ extra) i)) [q ..< q + m]
      = map (\<lambda>i. crypt_chunk ssl key (int (q + i)) (nth_chunk cs rest i)) [0 ..< m]" for m
  proof -
    have u: "[q ..< q + m] = map (\<lambda>i. q + i) [0 ..< m]" using map_add_upt [of q m] by (simp add: add.commute)
    show ?thesis unfolding u map_map o_def P(3) ..
  qed
  ultimately show ?thesis
    unfolding crypt_stream_def P(1) q_def [symmetric] by (simp only: upt_add_eq_append [OF le0] map_append concat_append)
qed

lemma seek_end:
  assumes "sio_ok s"
  shows "\<exists>s'. fst (StringIO_seek s 0 SEEK_END) = s' \<and> sio_ok s' \<and> sio_content s' = sio_content s \<and> sio_pos s' = length (sio_content s) \<and>
     sio_readptr s' = sio_size s"
proof -
  have b: "0 \<le> sio_size s" "sio_size s < 268435456" using assms by (auto simp: sio_defs)
  then have "u64 (sio_size s) = sio_size s" by (auto intro!: c_int)
  with b have "fst (StringIO_seek s 0 SEEK_END) = s\<lparr>sio_readptr := sio_size s\<rparr>" by (simp add: StringIO_seek_def Let_def)
  with assms b show ?thesis by (auto simp: sio_defs min_def)
qed

text \<open>Appending a block to the buffer.\<close>

lemma buffer_append:
  assumes "sio_ok s" "2 * (length (sio_content s) + length b) < 268435456"
  shows "\<exists>s'. StringIO_write (fst (StringIO_seek s 0 SEEK_END)) b = Some (s', int (length b)) \<and> sio_ok s' \<and> sio_content s' = sio_content s @ b"
proof -
  obtain s1 where s1: "fst (StringIO_seek s 0 SEEK_END) = s1" "sio_ok s1" "sio_content s1 = sio_content s" "sio_pos s1 = length (sio_content s)"
      "sio_readptr s1 = sio_size s"
    using seek_end [OF assms(1)] by blast
  have "sio_room s1 (length b)" using assms s1(5) by (auto simp: sio_defs)
  from StringIO_write_spec [OF s1(2) this] show ?thesis using s1 by auto
qed

section \<open>What the encrypted stream relies on\<close>

locale backing_stream =
  fixes ops :: "'b backing_ops"
    and content :: "'b \<Rightarrow> buf"
    and pos :: "'b \<Rightarrow> nat"
    and ok :: "'b \<Rightarrow> bool"
    and room :: "'b \<Rightarrow> nat \<Rightarrow> bool"
  assumes open_spec: "ok b \<Longrightarrow> b_open ops b mode = Some b"
    and write_spec: "ok b \<Longrightarrow> room b (length d) \<Longrightarrow>
      ok (fst (b_write ops b d)) \<and> content (fst (b_write ops b d)) = overwrite (pos b) d (content b) \<and>
      pos (fst (b_write ops b d)) = pos b + length d"
    and room_write: "ok b \<Longrightarrow> room b (length d + n) \<Longrightarrow> room (fst (b_write ops b d)) n"
    and room_mono: "room b n \<Longrightarrow> m \<le> n \<Longrightarrow> room b m"
    and seek_spec: "ok b \<Longrightarrow> p \<le> length (content b) \<Longrightarrow>
      ok (b_seek ops b (int p)) \<and> content (b_seek ops b (int p)) = content b \<and> pos (b_seek ops b (int p)) = p"
    and read_spec: "ok b \<Longrightarrow> pos b \<le> length (content b) \<Longrightarrow>
      \<exists>b'. b_read ops b n = (b', int (length (take n (drop (pos b) (content b)))), take n (drop (pos b) (content b))) \<and>
        ok b' \<and> content b' = content b"
    and return_spec: "ok b \<Longrightarrow> ok (b_return ops b) \<and> content (b_return ops b) = content b \<and> pos (b_return ops b) = pos b"
    and room_return: "ok b \<Longrightarrow> room b n \<Longrightarrow> room (b_return ops b) n"
begin

lemma append_spec:
  assumes "ok b" "pos b = length (content b)" "room b (length d + n)"
  shows "ok (fst (b_write ops b d))" "content (fst (b_write ops b d)) = content b @ d"
    "pos (fst (b_write ops b d)) = length (content (fst (b_write ops b d)))" "room (fst (b_write ops b d)) n"
proof -
  have "room b (length d)" using room_mono [OF assms(3)] by simp
  from write_spec [OF assms(1) this] show "ok (fst (b_write ops b d))" and c: "content (fst (b_write ops b d)) = content b @ d"
    using assms(2) by simp_all
  show "pos (fst (b_write ops b d)) = length (content (fst (b_write ops b d)))"
    unfolding c using write_spec [OF assms(1) \<open>room b (length d)\<close>] assms(2) by simp
  show "room (fst (b_write ops b d)) n" by (rule room_write [OF assms(1,3)])
qed

text \<open>The loop appends the encrypted form of every complete chunk from the offset on.\<close>

lemma write_chunks_spec:
  assumes ssl: "openssl_ok ssl" and key: "key_heap ks r = Some key" "key_full key" and cs: "AES_BLOCK_SIZE dvd cs" "0 < cs"
    and z: "z \<le> length data"
  shows "q = (z - off) div cs \<Longrightarrow> off \<le> z \<Longrightarrow> int i + int q < 2 ^ 31 \<Longrightarrow> length buff = cs \<Longrightarrow> ok b \<Longrightarrow> pos b = length (content b) \<Longrightarrow>
     room b (q * cs + n) \<Longrightarrow>
     \<exists>b'. write_chunks ssl ops ks (with_key ssl r key c) cs data (int z) b (int i) buff off = Some (b', off + q * cs) \<and>
       ok b' \<and> pos b' = length (content b') \<and> room b' n \<and>
       content b' = content b @ concat (map (\<lambda>t. crypt_chunk ssl key (int (i + t)) (nth_chunk cs (drop off data) t)) [0 ..< q])"
proof (induction q arbitrary: off i buff b)
  case 0
  then have "z - off < cs" using cs(2) div_eq_0_iff [of "z - off" cs] by simp
  then have "\<not> int cs \<le> int z - int off" using 0(2) by linarith
  then show ?case using 0 by (subst write_chunks.simps) simp
next
  case (Suc q)
  have "0 < (z - off) div cs" using Suc.prems(1) by simp
  then have le: "cs \<le> z - off" by (simp add: div_greater_zero_iff)
  then have go: "int cs \<le> int z - int off" using Suc.prems(2) by linarith
  define d where "d = crypt_chunk ssl key (int i) (take cs (drop off data))"
  have dn: "cs \<le> length (drop off data)" using le z by simp
  have e: "AES256Password_encrypt ssl ks (with_key ssl r key c) (int i) (drop off data) buff cs = Some (d, s32 (int cs))"
    unfolding d_def by (rule encrypt_spec [OF ssl key cs(1) dn Suc.prems(4)])
  have ld: "length d = cs" unfolding d_def using crypt_chunk_cbc(1) [OF ssl key(2), of "take cs (drop off data)"] dn cs(1) by simp
  have rm: "room b (length d + (q * cs + n))" using Suc.prems(7) ld by (simp add: add.assoc)
  note A = append_spec [OF Suc.prems(5,6) rm]
  have i1: "s32 (int i + 1) = int (Suc i)" using Suc.prems(3) by (simp add: s32_id)
  have q: "q = (z - (off + cs)) div cs"
  proof -
    have "z - off = (z - (off + cs)) + cs" using le by simp
    then have "(z - off) div cs = (z - (off + cs)) div cs + 1" using cs(2) by (metis div_add_self2 less_irrefl)
    then show ?thesis using Suc.prems(1) by simp
  qed
  have le2: "off + cs \<le> z" and lt: "int (Suc i) + int q < 2 ^ 31" using le Suc.prems(2,3) by auto
  obtain b' where b': "write_chunks ssl ops ks (with_key ssl r key c) cs data (int z) (fst (b_write ops b d)) (int (Suc i)) d (off + cs) = Some (b', off + cs + q * cs)"
      "ok b'" "pos b' = length (content b')" "room b' n"
      "content b' = content (fst (b_write ops b d)) @ concat (map (\<lambda>t. crypt_chunk ssl key (int (Suc i + t)) (nth_chunk cs (drop (off + cs) data) t)) [0 ..< q])"
    using Suc.IH [OF q le2 lt ld A(1,3,4)] by blast
  have m: "map (\<lambda>t. crypt_chunk ssl key (int (i + t)) (nth_chunk cs (drop off data) t)) [0 ..< Suc q]
      = d # map (\<lambda>t. crypt_chunk ssl key (int (Suc i + t)) (nth_chunk cs (drop (off + cs) data) t)) [0 ..< q]"
    unfolding upt_conv_Cons [OF zero_less_Suc] map_Suc_upt [symmetric]
    by (simp add: d_def nth_chunk_def o_def add.commute add.left_commute add.assoc)
  have "write_chunks ssl ops ks (with_key ssl r key c) cs data (int z) b (int i) buff off = Some (b', off + Suc q * cs)"
    using go cs(2) e b'(1) ld by (subst write_chunks.simps) (simp add: i1 [simplified] add.assoc)
  then show ?case using b' A(2) unfolding m by auto
qed

text \<open>
  The state of a stream to which \<open>data\<close> was written, with room for \<open>m\<close> chunks on the backing stream: the complete chunks are there,
  the rest is in the buffer.
\<close>

definition writer :: "'k openssl \<Rightarrow> key \<Rightarrow> nat \<Rightarrow> 'k aes_cipher \<Rightarrow> nat \<Rightarrow> buf \<Rightarrow> 'b \<Rightarrow> 'k encrypted \<Rightarrow> bool" where
  "writer ssl key cs c m data b self \<longleftrightarrow> ok b \<and> pos b = length (content b) \<and> room b ((m - length data div cs) * cs) \<and>
     content b = crypt_stream ssl key cs data \<and> sio_ok (block_buffer self) \<and> sio_content (block_buffer self) = last_part cs data \<and>
     enc_readptr self = int (length data) \<and> enc_chunk_size self = int cs \<and> enc_cipher self = c"

lemma Encrypted_write_spec:
  assumes ssl: "openssl_ok ssl" and key: "key_heap ks r = Some key" "key_full key" and cs: "AES_BLOCK_SIZE dvd cs" "0 < cs"
    and w: "writer ssl key cs (with_key ssl r key c) m data b self"
    and m: "length (data @ extra) div cs \<le> m" "m < 2 ^ 31" and small: "cs + length extra < 2 ^ 27"
  shows "\<exists>b' self'. Encrypted_write ssl ops junk ks b self extra = Some (b', self', int (length extra), None) \<and>
     writer ssl key cs (with_key ssl r key c) m (data @ extra) b' self' \<and> enc_size self' = enc_size self"
proof -
  define q rest where "q = length data div cs" and "rest = last_part cs data @ extra"
  define k where "k = length rest div cs"
  note P = parts_append [OF cs(2), of data extra, folded q_def rest_def, folded k_def]
  note C = crypt_stream_append [OF cs(2), of ssl key data extra, folded q_def rest_def, folded k_def]
  have W: "ok b" "pos b = length (content b)" "room b ((m - q) * cs)" "content b = crypt_stream ssl key cs data" "sio_ok (block_buffer self)"
      "sio_content (block_buffer self) = last_part cs data" "enc_readptr self = int (length data)" "enc_chunk_size self = int cs"
      "enc_cipher self = with_key ssl r key c"
    using w by (auto simp: writer_def q_def)
  have lp: "length (last_part cs data) < cs" by (rule length_last_part [OF cs(2)])
  have i32: "s32 (int cs) = int cs" "s32 (int (length extra)) = int (length extra)" using small by (simp_all add: s32_id)
  have qm: "q + k \<le> m" using m(1) P(1) by simp
  have "int (length data) sdiv int cs = int q" by (simp add: q_def signed_divide_int_def sgn_if zdiv_int)
  then have cid: "s32 (int (length data) sdiv int cs) = int q" using qm m(2) by (simp add: s32_id)
  have "length (data @ extra) < 2 ^ 31 * 2 ^ 27"
  proof -
    have "length (data @ extra) < cs * Suc m"
      using m(1) cs(2) by (metis div_less_iff_less_mult le_imp_less_Suc mult.commute)
    also have "cs * Suc m \<le> 2 ^ 27 * 2 ^ 31" using small m(2) by (intro mult_le_mono) auto
    finally show ?thesis by (simp add: mult.commute)
  qed
  then have rp: "s64 (int (length data) + int (length extra)) = int (length (data @ extra))" by (simp add: s64_id)
  obtain bb where bb: "StringIO_write (fst (StringIO_seek (block_buffer self) 0 SEEK_END)) extra = Some (bb, int (length extra))" "sio_ok bb" "sio_content bb = rest"
    using buffer_append [OF W(5), of extra] W(6) lp small by (auto simp: rest_def)
  have sz: "sio_size bb = int (length rest)" using bb(2,3) length_sio_content [OF bb(2)] by (auto simp: sio_ok_def)
  have dat: "length rest \<le> length (sio_data bb)" "take (length rest) (sio_data bb) = rest"
    using bb(2,3) sz by (auto simp: sio_ok_def sio_content_def)
  have nc: "nth_chunk cs (sio_data bb) t = nth_chunk cs rest t" if "t < k" for t
    using nth_chunk_take [OF div_times_bounds [OF that [unfolded k_def]], of "sio_data bb"] dat(2) by simp
  obtain bb' where bb': "StringIO_skip bb (int (k * cs)) = Some bb'" "sio_ok bb'" "sio_content bb' = last_part cs (data @ extra)"
    using StringIO_skip_spec [OF bb(2), of "k * cs"] bb(3) P(2) by auto
  define self' where "self' = self\<lparr>block_buffer := bb', enc_readptr := int (length (data @ extra))\<rparr>"
  have rm: "(m - q) * cs = k * cs + (m - length (data @ extra) div cs) * cs" unfolding P(1) using qm by (simp add: add_mult_distrib [symmetric])
  have goal: "writer ssl key cs (with_key ssl r key c) m (data @ extra) b' self'"
    if "ok b'" "pos b' = length (content b')" "room b' ((m - length (data @ extra) div cs) * cs)" "content b' = crypt_stream ssl key cs (data @ extra)" for b'
    using that bb' W(8,9) by (simp add: writer_def self'_def)
  show ?thesis
  proof (cases "cs \<le> length rest")
    case True
    have z: "k = (length rest - 0) div cs" "0 \<le> length rest" "int q + int k < 2 ^ 31" "length (map junk [0 ..< cs]) = cs"
      using qm m(2) by (auto simp: k_def)
    obtain b1 where b1: "write_chunks ssl ops ks (with_key ssl r key c) cs (sio_data bb) (int (length rest)) b (int q) (map junk [0 ..< cs]) 0 = Some (b1, k * cs)"
        "ok b1" "pos b1 = length (content b1)" "room b1 ((m - length (data @ extra) div cs) * cs)"
        "content b1 = content b @ concat (map (\<lambda>t. crypt_chunk ssl key (int (q + t)) (nth_chunk cs (sio_data bb) t)) [0 ..< k])"
      using write_chunks_spec [OF ssl key cs dat(1) z W(1,2), of "(m - length (data @ extra) div cs) * cs" c] W(3) rm by auto
    have mc: "map (\<lambda>t. crypt_chunk ssl key (int (q + t)) (nth_chunk cs (sio_data bb) t)) [0 ..< k]
        = map (\<lambda>t. crypt_chunk ssl key (int (q + t)) (nth_chunk cs rest t)) [0 ..< k]"
      by (intro map_cong refl) (simp add: nc)
    have c1: "content b1 = crypt_stream ssl key cs (data @ extra)" unfolding b1(5) W(4) C mc ..
    have "Encrypted_write ssl ops junk ks b self extra = Some (b_return ops b1, self', int (length extra), None)"
      using True bb(1) sz cs(2) b1(1) bb'(1) open_spec [OF W(1)]
      by (simp add: Encrypted_write_def Let_def W(7-9) i32 cid rp self'_def del: of_nat_mult)
    moreover have "writer ssl key cs (with_key ssl r key c) m (data @ extra) (b_return ops b1) self'"
      using goal [of "b_return ops b1"] return_spec [OF b1(2)] room_return [OF b1(2,4)] b1(3) c1 by simp
    ultimately show ?thesis by (auto simp: self'_def)
  next
    case False
    then have k0: "k = 0" by (simp add: k_def)
    have "Encrypted_write ssl ops junk ks b self extra = Some (b, self', int (length extra), None)"
      using False bb(1) sz cs(2) bb'(1) k0
      by (simp add: Encrypted_write_def Let_def W(7-9) i32 cid rp self'_def)
    moreover have "writer ssl key cs (with_key ssl r key c) m (data @ extra) b self'"
      using goal [of b] W(1-4) C rm k0 by simp
    ultimately show ?thesis by (auto simp: self'_def)
  qed
qed

lemma enc_writes_spec:
  assumes ssl: "openssl_ok ssl" and key: "key_heap ks r = Some key" "key_full key" and cs: "AES_BLOCK_SIZE dvd cs" "0 < cs" and m: "m < 2 ^ 31"
  shows "writer ssl key cs (with_key ssl r key c) m data b self \<Longrightarrow> length (data @ concat xs) div cs \<le> m \<Longrightarrow>
     \<forall>x \<in> set xs. cs + length x < 2 ^ 27 \<Longrightarrow>
     \<exists>b' self'. enc_writes ssl ops junk ks b self xs = Some (b', self') \<and>
       writer ssl key cs (with_key ssl r key c) m (data @ concat xs) b' self'"
proof (induction xs arbitrary: data b self)
  case Nil
  then show ?case by simp
next
  case (Cons x xs)
  have "length (data @ x) div cs \<le> length (data @ concat (x # xs)) div cs" by (intro div_le_mono) simp
  then have le: "length (data @ x) div cs \<le> m" using Cons.prems(2) by simp
  obtain b1 self1 where w: "Encrypted_write ssl ops junk ks b self x = Some (b1, self1, int (length x), None)"
      "writer ssl key cs (with_key ssl r key c) m (data @ x) b1 self1"
    using Encrypted_write_spec [OF ssl key cs Cons.prems(1) le m, of junk] Cons.prems(3) by auto
  from Cons.IH [OF w(2)] Cons.prems(2,3) w(1) show ?case by auto
qed

text \<open>Closing: the chunks are those of the data with the last one filled up with zeros, and the size is the one of the data.\<close>

lemma Encrypted_close_spec:
  assumes ssl: "openssl_ok ssl" and key: "key_heap ks r = Some key" "key_full key" and cs: "AES_BLOCK_SIZE dvd cs" "0 < cs"
    and w: "writer ssl key cs (with_key ssl r key c) m data b self" and m: "length data div cs < m" "m < 2 ^ 31" and small: "cs < 2 ^ 26"
  shows "\<exists>b' self' ks'. Encrypted_close ssl ops junk ks b self urn = Some (b', self', ks', int (length data)) \<and> ok b' \<and>
     content b' = crypt_stream ssl key cs (data @ replicate (cs - length data mod cs) NUL) \<and>
     KeyCache ks' = fst (cache_pop (KeyCache ks) (urn @ [NUL])) \<and> key_heap ks' = key_heap ks"
proof -
  define t where "t = cs - length data mod cs"
  have t: "0 < t" "t \<le> cs" using cs(2) by (simp_all add: t_def)
  have W: "enc_readptr self = int (length data)" "enc_chunk_size self = int cs" using w by (auto simp: writer_def)
  have i: "s32 (int cs) = int cs" "int cs - int (length data) mod int cs = int t" "s32 (int t) = int t"
  proof -
    show "int cs - int (length data) mod int cs = int t"
      using cs(2) by (simp add: t_def of_nat_mod of_nat_diff less_imp_le)
    show "s32 (int cs) = int cs" "s32 (int t) = int t" using small t(2) by (simp_all add: s32_id)
  qed
  define self1 where "self1 = self\<lparr>enc_size := int (length data)\<rparr>"
  have w1: "writer ssl key cs (with_key ssl r key c) m data b self1" using w by (simp add: writer_def self1_def)
  have "length (data @ replicate t NUL) = Suc (length data div cs) * cs"
  proof -
    have "length data = length data div cs * cs + length data mod cs" by simp
    moreover have "length data mod cs < cs" using cs(2) by simp
    ultimately show ?thesis unfolding t_def length_append length_replicate mult_Suc by linarith
  qed
  then have "length (data @ replicate t NUL) div cs \<le> m" using m(1) cs(2) by (simp del: mult_Suc)
  moreover have "cs + length (replicate t NUL) < 2 ^ 27" using small t(2) by simp
  ultimately obtain b' self' where wr: "Encrypted_write ssl ops junk ks b self1 (replicate t NUL) = Some (b', self', int t, None)"
      "writer ssl key cs (with_key ssl r key c) m (data @ replicate t NUL) b' self'" "enc_size self' = int (length data)"
    using Encrypted_write_spec [OF ssl key cs w1 _ m(2), of "replicate t NUL" junk] by (auto simp: self1_def)
  have "Encrypted_close ssl ops junk ks b self urn =
      Some (b', self', ks\<lparr>KeyCache := fst (Cache_get (KeyCache ks) (urn @ [NUL]))\<rparr>, int (length data))"
    using cs(2) t(1) wr(1,3) by (simp add: Encrypted_close_def Let_def W i self1_def)
  moreover have "fst (cache_pop (KeyCache ks) (urn @ [NUL])) = fst (Cache_get (KeyCache ks) (urn @ [NUL]))"
    by (simp add: cache_pop_def split: prod.split)
  ultimately show ?thesis using wr(2) unfolding t_def by (auto simp: writer_def)
qed

text \<open>A partial read at position \<open>p\<close> of a stream of complete chunks: the rest of the chunk, or as much as was asked for.\<close>

lemma partialread_spec:
  assumes ssl: "openssl_ok ssl" and key: "key_heap ks r = Some k2" "same_key k2 key" "key_full k2" "key_full key"
    and cs: "AES_BLOCK_SIZE dvd cs" "0 < cs" "cs < 2 ^ 27"
    and b: "ok b" "content b = crypt_stream ssl key cs full" "length full = n * cs" "n < 2 ^ 31"
    and self: "enc_readptr self = int p" "enc_chunk_size self = int cs" "enc_cipher self = with_key ssl r k2 c"
    and p: "p < n * cs" and len: "0 < len" "len < 2 ^ 31"
  defines "a \<equiv> min len (cs - p mod cs)"
  shows "\<exists>b'. Encrypted_partialread ssl ops junk ks b self (int len) = Some (b', self\<lparr>enc_readptr := int (p + a)\<rparr>, int a, take a (drop p full)) \<and>
     ok b' \<and> content b' = content b"
proof -
  define i off where "i = p div cs" and "off = p mod cs"
  have pi: "p = i * cs + off" "off < cs" using cs(2) by (simp_all add: i_def off_def)
  have i: "i < n" using p cs(2) by (simp add: i_def div_less_iff_less_mult)
  have nd: "length full div cs = n" using b(3) cs(2) by simp
  have lc: "length (crypt_chunk ssl key (int t) (nth_chunk cs full t)) = cs" if "t < n" for t
    using crypt_chunk_cbc(1) [OF ssl key(4), of "nth_chunk cs full t"] nth_chunk_length [of t full cs] that nd cs(1) by simp
  have chunk: "take cs (drop (i * cs) (content b)) = crypt_chunk ssl key (int i) (nth_chunk cs full i)"
    unfolding b(2) crypt_stream_def nd using concat_block [where y = "\<lambda>t. crypt_chunk ssl key (int t) (nth_chunk cs full t)" and r = "[]", OF lc i] by simp
  have lcont: "length (content b) = n * cs"
    unfolding b(2) crypt_stream_def nd by (rule length_concat_blocks) (rule lc)
  have ics: "i * cs + cs \<le> n * cs" using i by (metis add.commute mult_Suc Suc_leI mult_le_mono1)
  have sk: "i * cs \<le> length (content b)" unfolding lcont using ics by linarith
  define t where "t = b_seek ops b (int (i * cs))"
  have t: "ok t" "content t = content b" "pos t = i * cs" using seek_spec [OF b(1) sk] by (auto simp: t_def)
  have sk': "pos t \<le> length (content t)" unfolding t(2,3) by (rule sk)
  obtain t1 where t1: "b_read ops t cs = (t1, int cs, crypt_chunk ssl key (int i) (nth_chunk cs full i))" "ok t1" "content t1 = content b"
    using read_spec [OF t(1) sk', of cs] unfolding t(2,3) chunk lc [OF i] by blast
  have big: "n * cs < 2 ^ 31 * 2 ^ 27" using b(4) cs(2,3) by (intro mult_strict_mono) auto
  have u: "u64 (int cs) = int cs" "u64 (int p) = int p" "u32 (int i) = int i" "s32 (int off) = int off" "s32 (int i) = int i" "u64 (int len) = int len"
      "u64 (int cs - int off) = int (cs - off)" "s32 (int a) = int a" "s32 (int cs) = int cs"
    using cs(3) big p i b(4) pi(2) len(2) ics by (auto simp: u64_id u32_id s32_id s64_id a_def of_nat_diff)
  have "i * cs < 2 ^ 31 * 2 ^ 27" using big ics by linarith
  then have "int (i * cs) < int (2 ^ 31 * 2 ^ 27)" by (simp only: of_nat_less_iff)
  moreover have "- (2 ^ 63) \<le> int (i * cs)" by (rule order_trans [OF _ of_nat_0_le_iff]) simp
  ultimately have "s64 (int (i * cs)) = int (i * cs)" by (intro s64_id) simp_all
  then have u2: "s64 (int i * int cs) = int (i * cs)" by simp
  have dm: "int p div int cs = int i" "int p mod int cs = int off" by (simp_all add: i_def off_def of_nat_div of_nat_mod)
  have av: "min (int len) (int (cs - off)) = int a" by (simp add: a_def off_def)
  have sp: "s64 (int p + int a) = int (p + a)" using big p len(2) by (simp add: s64_id a_def)
  have ln: "length (nth_chunk cs full i) = cs" using nth_chunk_length [of i full cs] nd i by simp
  have dec: "AES256Password_decrypt ssl ks (with_key ssl r k2 c) (int i) (crypt_chunk ssl key (int i) (nth_chunk cs full i)) (map junk [0 ..< cs]) cs
      = Some (nth_chunk cs full i, int cs)"
    using decrypt_spec [OF ssl key _ _, of "nth_chunk cs full i" "map junk [0 ..< cs]" c "int i"] ln cs(1) u(9) by simp
  have ao: "off + a \<le> cs" using pi(2) by (simp add: a_def off_def)
  have "take a (drop off (nth_chunk cs full i)) = take a (drop p full)"
    using ao by (simp add: nth_chunk_def drop_take pi(1) add.commute)
  then have mr: "mem_read off a (nth_chunk cs full i) = Some (take a (drop p full))" using ln ao by (simp add: mem_read_def)
  have "Encrypted_partialread ssl ops junk ks b self (int len) = Some (b_return ops t1, self\<lparr>enc_readptr := int (p + a)\<rparr>, int a, take a (drop p full))"
    using cs(2) open_spec [OF b(1)] t1(1) dec mr
    by (simp add: Encrypted_partialread_def Let_def self u u2 dm av sp t_def del: of_nat_mult of_nat_add)
  then show ?thesis using return_spec [OF t1(2)] t1(3) by auto
qed

text \<open>The state of a stream of size \<open>sz\<close> that is read, over a backing stream that holds the chunks of \<open>full\<close>.\<close>

definition reader :: "'k openssl \<Rightarrow> key \<Rightarrow> nat \<Rightarrow> nat \<Rightarrow> buf \<Rightarrow> key_store \<Rightarrow> nat \<Rightarrow> 'b \<Rightarrow> 'k encrypted \<Rightarrow> bool" where
  "reader ssl key cs n full ks sz b self \<longleftrightarrow> openssl_ok ssl \<and> key_full key \<and> AES_BLOCK_SIZE dvd cs \<and> 0 < cs \<and> cs < 2 ^ 27 \<and>
     ok b \<and> content b = crypt_stream ssl key cs full \<and> length full = n * cs \<and> n < 2 ^ 31 \<and> sz \<le> n * cs \<and>
     enc_size self = int sz \<and> enc_chunk_size self = int cs \<and>
     (\<exists>r k2 c. key_heap ks r = Some k2 \<and> same_key k2 key \<and> key_full k2 \<and> enc_cipher self = with_key ssl r k2 c)"

text \<open>One round of the loop: it advances the read pointer twice.\<close>

lemma read_loop_step:
  assumes rd: "reader ssl key cs n full ks sz b self" and p: "enc_readptr self = int p" "p < sz"
    and len: "off < len" "len < 2 ^ 31" and room: "off + min len (min (sz - p) (cs - p mod cs)) \<le> length buff"
  defines "a \<equiv> min len (min (sz - p) (cs - p mod cs))"
  shows "\<exists>b'. enc_read_loop ssl ops junk ks len b self off buff =
       enc_read_loop ssl ops junk ks len b' (self\<lparr>enc_readptr := int (p + 2 * a)\<rparr>) (off + a)
         (take off buff @ take a (drop p full) @ drop (off + a) buff) \<and>
     reader ssl key cs n full ks sz b' (self\<lparr>enc_readptr := int (p + 2 * a)\<rparr>) \<and> 0 < a"
proof -
  obtain r k2 c where R: "openssl_ok ssl" "key_heap ks r = Some k2" "same_key k2 key" "key_full k2" "key_full key" "AES_BLOCK_SIZE dvd cs" "0 < cs" "cs < 2 ^ 27"
      "ok b" "content b = crypt_stream ssl key cs full" "length full = n * cs" "n < 2 ^ 31"
      "enc_chunk_size self = int cs" "enc_cipher self = with_key ssl r k2 c" "sz \<le> n * cs" "enc_size self = int sz"
    using rd by (auto simp: reader_def)
  define l where "l = min len (sz - p)"
  have big: "n * cs < 2 ^ 31 * 2 ^ 27" using R(7,8,12) by (intro mult_strict_mono) auto
  have l: "0 < l" "l < 2 ^ 31" "l \<le> len" using p(2) len by (auto simp: l_def)
  have a: "a = min l (cs - p mod cs)" by (simp add: a_def l_def min.assoc)
  have a0: "0 < a" "a < 2 ^ 31" using l R(7) by (auto simp: a)
  have av: "s32 (min (int len) (u64 (enc_size self - enc_readptr self))) = int l"
  proof -
    have "u64 (int sz - int p) = int (sz - p)" using p(2) big R(15) by (simp add: u64_id of_nat_diff)
    then show ?thesis using l(2) by (simp add: R(16) p(1) l_def of_nat_min [symmetric] s32_id del: of_nat_min)
  qed
  have pn: "p < n * cs" using p(2) R(15) by simp
  obtain b' where b': "Encrypted_partialread ssl ops junk ks b self (int l) = Some (b', self\<lparr>enc_readptr := int (p + a)\<rparr>, int a, take a (drop p full))"
      "ok b'" "content b' = content b"
    using partialread_spec [OF R(1-12) p(1) R(13,14) pn l(1,2), of junk] unfolding a by blast
  have la: "length (take a (drop p full)) = a"
  proof -
    have "a \<le> n * cs - p" using p(2) R(15) by (simp add: a l_def)
    then show ?thesis using R(11) by simp
  qed
  have mw: "mem_write off (take a (drop p full)) buff = Some (take off buff @ take a (drop p full) @ drop (off + a) buff)"
    unfolding mem_write_def la using room by (simp add: a_def)
  have sp: "s64 (int (p + a) + int a) = int (p + 2 * a)" using big pn a0(2) by (simp add: s64_id)
  have "enc_read_loop ssl ops junk ks len b self off buff =
       enc_read_loop ssl ops junk ks len b' (self\<lparr>enc_readptr := int (p + 2 * a)\<rparr>) (off + a)
         (take off buff @ take a (drop p full) @ drop (off + a) buff)"
    by (subst enc_read_loop.simps) (use len(1) l(1) av a0 mw sp b'(1) in \<open>simp add: Let_def del: of_nat_add\<close>)
  moreover have "reader ssl key cs n full ks sz b' (self\<lparr>enc_readptr := int (p + 2 * a)\<rparr>)"
    using rd b'(2,3) by (simp add: reader_def)
  ultimately show ?thesis using a0(1) by blast
qed

text \<open>A read that stays inside a chunk.\<close>

lemma read_inside_chunk:
  assumes rd: "reader ssl key cs n full ks sz b self" and p: "enc_readptr self = int p" "p + len \<le> sz" "p mod cs + len \<le> cs"
    and len: "0 < len" "len < 2 ^ 31" "len \<le> length buff"
  shows "\<exists>b'. Encrypted_read ssl ops junk ks b self buff len =
     Some (b', self\<lparr>enc_readptr := int (p + 2 * len)\<rparr>, int len, take len (drop p full) @ drop len buff)"
proof -
  have a: "min len (min (sz - p) (cs - p mod cs)) = len" using p(2,3) by simp
  have "p < sz" using p(2) len(1) by simp
  from read_loop_step [OF rd p(1) this len(1,2), of buff junk, unfolded a] len(3)
  obtain b' where "enc_read_loop ssl ops junk ks len b self 0 buff =
       enc_read_loop ssl ops junk ks len b' (self\<lparr>enc_readptr := int (p + 2 * len)\<rparr>) len (take len (drop p full) @ drop len buff)" by auto
  then show ?thesis unfolding Encrypted_read_def by (subst (asm) (2) enc_read_loop.simps) auto
qed

text \<open>A read of two chunks from the start of a chunk skips the second one.\<close>

lemma read_skips_chunk:
  assumes rd: "reader ssl key cs n full ks sz b self" and p: "enc_readptr self = int (i * cs)" "i * cs + 3 * cs \<le> sz" "2 * cs \<le> length buff"
  shows "\<exists>b'. Encrypted_read ssl ops junk ks b self buff (2 * cs) =
     Some (b', self\<lparr>enc_readptr := int (i * cs + 4 * cs)\<rparr>, int (2 * cs), nth_chunk cs full i @ nth_chunk cs full (i + 2) @ drop (2 * cs) buff)"
proof -
  have cs: "0 < cs" "cs < 2 ^ 27" "sz \<le> n * cs" "length full = n * cs" using rd by (auto simp: reader_def)
  have a1: "min (2 * cs) (min (sz - i * cs) (cs - i * cs mod cs)) = cs" using p(2) by simp
  have lt: "i * cs < sz" "0 < 2 * cs" "2 * cs < 2 ^ 31" using p(2) cs by auto
  have le1: "0 + min (2 * cs) (min (sz - i * cs) (cs - i * cs mod cs)) \<le> length buff" unfolding a1 using p(3) by simp
  obtain b1 where b1: "enc_read_loop ssl ops junk ks (2 * cs) b self 0 buff =
       enc_read_loop ssl ops junk ks (2 * cs) b1 (self\<lparr>enc_readptr := int (i * cs + 2 * cs)\<rparr>) cs (nth_chunk cs full i @ drop cs buff)"
      "reader ssl key cs n full ks sz b1 (self\<lparr>enc_readptr := int (i * cs + 2 * cs)\<rparr>)"
    using read_loop_step [OF rd p(1) lt le1, of junk, unfolded a1] by (auto simp: nth_chunk_def)
  define q self1 where "q = i * cs + 2 * cs" and "self1 = self\<lparr>enc_readptr := int q\<rparr>"
  define buff1 where "buff1 = nth_chunk cs full i @ drop cs buff"
  have qi: "q = (i + 2) * cs" by (simp add: q_def add_mult_distrib)
  have lc: "length (nth_chunk cs full i) = cs" using p(2) cs(3,4) by (simp add: nth_chunk_def)
  have a2: "min (2 * cs) (min (sz - q) (cs - q mod cs)) = cs" using p(2) by (simp add: qi add_mult_distrib)
  have lt2: "q < sz" "cs < 2 * cs" using p(2) cs by (auto simp: q_def)
  have le2: "cs + min (2 * cs) (min (sz - q) (cs - q mod cs)) \<le> length buff1" unfolding a2 buff1_def using p(3) lc by simp
  obtain b2 where "enc_read_loop ssl ops junk ks (2 * cs) b1 self1 cs buff1 =
       enc_read_loop ssl ops junk ks (2 * cs) b2 (self1\<lparr>enc_readptr := int (q + 2 * cs)\<rparr>) (cs + cs) (take cs buff1 @ take cs (drop q full) @ drop (cs + cs) buff1)"
    using read_loop_step [OF b1(2) [folded q_def, folded self1_def] _ lt2(1) lt2(2) lt(3) le2, of junk, unfolded a2]
    unfolding self1_def by auto
  moreover have "enc_read_loop ssl ops junk ks (2 * cs) b2 s (cs + cs) d = Some (b2, s, int (2 * cs), d)" for s d
    by (subst enc_read_loop.simps) simp
  moreover have "take cs buff1 @ take cs (drop q full) @ drop (cs + cs) buff1 = nth_chunk cs full i @ nth_chunk cs full (i + 2) @ drop (2 * cs) buff"
    using lc by (simp add: buff1_def nth_chunk_def qi mult_2)
  ultimately show ?thesis
    unfolding Encrypted_read_def b1(1) [folded q_def, folded self1_def buff1_def] by (simp add: self1_def q_def add.assoc)
qed

end

text \<open>The methods of a file backed object whose system calls transfer all they can.\<close>

definition file_ops :: "file_backed backing_ops" where
  "file_ops = \<lparr>b_open = (\<lambda>f m. Some f),
     b_write = (\<lambda>f d. case FileBackedObject_write f d (int (length d)) of (f', n, _) \<Rightarrow> (f', n)),
     b_seek = (\<lambda>f p. fst (FileBackedObject_seek f p)),
     b_read = (\<lambda>f n. case FileBackedObject_read f (full_read f n) of (f', k, d, _) \<Rightarrow> (f', k, d)),
     b_return = id\<rparr>"

interpretation fstore: backing_stream file_ops disk fbo_pos fbo_ok fbo_room
proof
  fix f and d :: buf and m n :: nat and c
  have w: "Some (fst (b_write file_ops f d)) = fbo_wr f d" by (simp add: file_ops_def fbo_wr_def split: prod.split)
  show "fbo_ok f \<Longrightarrow> b_open file_ops f c = Some f" by (simp add: file_ops_def)
  show "fbo_ok f \<Longrightarrow> fbo_room f (length d) \<Longrightarrow> fbo_ok (fst (b_write file_ops f d)) \<and>
      disk (fst (b_write file_ops f d)) = overwrite (fbo_pos f) d (disk f) \<and> fbo_pos (fst (b_write file_ops f d)) = fbo_pos f + length d"
    using fbo.wr_spec [of f d] w by auto
  show "fbo_ok f \<Longrightarrow> fbo_room f (length d + n) \<Longrightarrow> fbo_room (fst (b_write file_ops f d)) n"
    using fbo.room_wr [of f "length d" n d] w by auto
  show "fbo_room f n \<Longrightarrow> m \<le> n \<Longrightarrow> fbo_room f m" by (rule fbo.room_mono)
  show "fbo_ok f \<Longrightarrow> m \<le> length (disk f) \<Longrightarrow>
      fbo_ok (b_seek file_ops f (int m)) \<and> disk (b_seek file_ops f (int m)) = disk f \<and> fbo_pos (b_seek file_ops f (int m)) = m"
    using fbo.sk_spec [of f m] by (auto simp: file_ops_def fbo_sk_def)
  show "fbo_ok f \<Longrightarrow> fbo_ok (b_return file_ops f) \<and> disk (b_return file_ops f) = disk f \<and> fbo_pos (b_return file_ops f) = fbo_pos f"
    by (simp add: file_ops_def)
  show "fbo_ok f \<Longrightarrow> fbo_room f n \<Longrightarrow> fbo_room (b_return file_ops f) n" by (simp add: file_ops_def)
  assume f: "fbo_ok f" "fbo_pos f \<le> length (disk f)"
  have k: "full_read f n = int (length (take n (drop (fbo_pos f) (disk f))))" by (simp add: full_read_def fbo_pos_def min.commute)
  obtain f' where r: "FileBackedObject_read f (full_read f n) = (f', full_read f n, take n (drop (fbo_pos f) (disk f)), None)"
    by (auto simp: FileBackedObject_read_def full_read_def fbo_pos_def min_def)
  then have "b_read file_ops f n = (f', full_read f n, take n (drop (fbo_pos f) (disk f)))" by (simp add: file_ops_def)
  moreover have "fbo_rd f n = Some (f', take n (drop (fbo_pos f) (disk f)))" using r by (simp add: fbo_rd_def)
  then have "fbo_ok f' \<and> disk f' = disk f" using f by (auto simp: fbo_rd_eq fbo_ok_def)
  ultimately show "\<exists>b'. b_read file_ops f n = (b', int (length (take n (drop (fbo_pos f) (disk f)))), take n (drop (fbo_pos f) (disk f))) \<and>
      fbo_ok b' \<and> disk b' = disk f"
    unfolding k by blast
qed

section \<open>Properties\<close>

lemma crypt_stream_length:
  assumes "openssl_ok ssl" "key_full key" "AES_BLOCK_SIZE dvd cs"
  shows "length (crypt_stream ssl key cs d) = length d div cs * cs"
  unfolding crypt_stream_def
proof (rule length_concat_blocks)
  fix k assume "k < length d div cs"
  then show "length (crypt_chunk ssl key (int k) (nth_chunk cs d k)) = cs"
    using crypt_chunk_cbc(1) [OF assms(1,2), of "nth_chunk cs d k"] nth_chunk_length [of k d cs] assms(3) by simp
qed

lemma new_writer:
  assumes "0 < cs" "m * cs < 2 ^ 62"
  shows "\<exists>s. Encrypted_Con junk (Some tgt) True (Some vol) (Some c) (Some (int cs)) None = (Some s, None) \<and>
     fstore.writer ssl key cs c m [] \<lparr>disk = [], readptr = 0\<rparr> s"
proof -
  have "int (m * cs) < int (2 ^ 62)" using assms(2) by (simp only: of_nat_less_iff)
  then have "fbo_room \<lparr>disk = [], readptr = 0\<rparr> (m * cs)" by (simp add: fbo_room_def)
  then show ?thesis
    using assms sio_Con_ok [of junk]
    by (simp add: Encrypted_Con_def fstore.writer_def crypt_stream_def last_part_def fbo_ok_def fbo_pos_def)
qed

text \<open>C6. What is written to an encrypted stream is what a later process reads, when random bytes can be had and the chunk size is a multiple of the block size below
  \<open>2 ^ 26\<close>: a cipher is made and serialised, blocks (each with a chunk less than \<open>2 ^ 27\<close> bytes) are written, the
  stream is closed; another process decodes the cipher with the same pass phrase, opens the stream with the recorded size, and every read that
  stays inside a chunk returns exactly the bytes that were written at that position. The backing stream is a file backed object.\<close>

theorem encrypted_stream_roundtrip:
  assumes ssl: "openssl_ok ssl" and rnd: "random_ok ssl" and evp: "EVP_MAX_KEY_LENGTH ssl = AES256_KEY_SIZE"
    and ok: "keys_ok ssl ks" "keys_ok ssl ks'" and new: "cached_key ks' ''aes256'' urn = None"
    and pw: "passphrase AFF4_AES256_PASSWORD urn = Some pass" and j: "2 \<le> length stack" "length cjunk = 64" "length iv_junk = 32"
    and cs: "AES_BLOCK_SIZE dvd cs" "0 < cs" "cs < 2 ^ 26"
    and xs: "\<forall>x \<in> set xs. cs + length x < 2 ^ 27" "length (concat xs) div cs + 1 < 2 ^ 31"
    and p: "p + len \<le> length (concat xs)" "p mod cs + len \<le> cs" "0 < len" "len < 2 ^ 31" "len \<le> length buff"
  shows "\<exists>ks1 c1 t w0 f1 w1 f2 w2 ks2 ks3 c2 r0 f3 r1.
     AES256Password_serialise ssl passphrase stack ks AES256Password urn = Some (ks1, c1, Some t, None) \<and>
     Encrypted_Con junk (Some tgt) True (Some vol) (Some c1) (Some (int cs)) None = (Some w0, None) \<and>
     enc_writes ssl file_ops junk ks1 \<lparr>disk = [], readptr = 0\<rparr> w0 xs = Some (f1, w1) \<and>
     Encrypted_close ssl file_ops junk ks1 f1 w1 urn = Some (f2, w2, ks2, int (length (concat xs))) \<and>
     AES256Password_decode ssl passphrase cjunk iv_junk ks' AES256Password t (int (strlen t)) urn = Some (ks3, c2, int AES256_KEY_SIZE, None) \<and>
     Encrypted_Con junk (Some tgt) True (Some vol) (Some c2) (Some (int cs)) (Some (int (length (concat xs)))) = (Some r0, None) \<and>
     Encrypted_read ssl file_ops junk ks3 (f2\<lparr>readptr := 0\<rparr>) (r0\<lparr>enc_readptr := int p\<rparr>) buff len
       = Some (f3, r1, int len, take len (drop p (concat xs)) @ drop len buff)"
proof -
  define data where "data = concat xs"
  define m where "m = length data div cs + 1"
  define full where "full = data @ replicate (cs - length data mod cs) NUL"
  obtain ks1 r key t ks3 r2 key2 where K: "AES256Password_serialise ssl passphrase stack ks AES256Password urn = Some (ks1, with_key ssl r key AES256Password, Some t, None)"
      "AES256Password_decode ssl passphrase cjunk iv_junk ks' AES256Password t (int (strlen t)) urn = Some (ks3, with_key ssl r2 key2 AES256Password, int AES256_KEY_SIZE, None)"
      "key_heap ks1 r = Some key" "key_heap ks3 r2 = Some key2" "key_full key" "key_full key2" "same_key key2 key"
    using password_same_key [where passphrase = passphrase and p = pass and subject = urn, OF ssl rnd evp ok new pw j] by blast
  let ?c = "with_key ssl r key AES256Password" and ?f = "\<lparr>disk = [], readptr = 0\<rparr>"
  have m: "m < 2 ^ 31" "length data div cs \<le> m" "length data div cs < m" using xs(2) by (auto simp: m_def data_def)
  have "m * cs < 2 ^ 31 * 2 ^ 26" using m(1) cs(2,3) by (intro mult_strict_mono) auto
  then have "m * cs < 2 ^ 62" by simp
  then obtain w0 where w0: "Encrypted_Con junk (Some tgt) True (Some vol) (Some ?c) (Some (int cs)) None = (Some w0, None)" "fstore.writer ssl key cs ?c m [] ?f w0"
    using new_writer [OF cs(2)] by blast
  obtain f1 w1 where w1: "enc_writes ssl file_ops junk ks1 ?f w0 xs = Some (f1, w1)" "fstore.writer ssl key cs ?c m data f1 w1"
    using fstore.enc_writes_spec [OF ssl K(3,5) cs(1,2) m(1) w0(2) _ xs(1), of junk] m(2) by (auto simp: data_def)
  obtain f2 w2 ks2 where w2: "Encrypted_close ssl file_ops junk ks1 f1 w1 urn = Some (f2, w2, ks2, int (length data))" "fbo_ok f2" "disk f2 = crypt_stream ssl key cs full"
    using fstore.Encrypted_close_spec [OF ssl K(3,5) cs(1,2) w1(2) m(3,1) cs(3), of junk urn] unfolding full_def by blast
  have lf: "length full = m * cs"
  proof -
    have "length data = length data div cs * cs + length data mod cs" by simp
    moreover have "length data mod cs < cs" using cs(2) by simp
    ultimately show ?thesis unfolding full_def m_def length_append length_replicate add_mult_distrib by linarith
  qed
  obtain r0 where r0: "Encrypted_Con junk (Some tgt) True (Some vol) (Some (with_key ssl r2 key2 AES256Password)) (Some (int cs)) (Some (int (length data))) = (Some r0, None)"
      "enc_size r0 = int (length data)" "enc_chunk_size r0 = int cs" "enc_cipher r0 = with_key ssl r2 key2 AES256Password"
    by (simp add: Encrypted_Con_def)
  have "length data \<le> m * cs" unfolding lf [symmetric] full_def by simp
  then have rd: "fstore.reader ssl key cs m full ks3 (length data) (f2\<lparr>readptr := 0\<rparr>) (r0\<lparr>enc_readptr := int p\<rparr>)"
    unfolding fstore.reader_def using ssl K(4-7) cs m(1) w2(2,3) lf r0(2-4) by (auto simp: fbo_ok_def)
  have pd: "p + len \<le> length data" using p(1) by (simp add: data_def)
  have ep: "enc_readptr (r0\<lparr>enc_readptr := int p\<rparr>) = int p" by simp
  have tk: "take len (drop p full) = take len (drop p data)" using pd by (simp add: full_def)
  show ?thesis
    using K(1,2) w0(1) w1(1) w2(1) r0(1) fstore.read_inside_chunk [OF rd ep pd p(2-5), of junk] unfolding tk data_def by blast
qed

theorem encrypted_stream_roundtrip_witness:
  "\<exists>ks1 c1 t w0 f1 w1 f2 w2 ks2 ks3 c2 r0 f3 r1.
     AES256Password_serialise demo_ssl (\<lambda>_ _. Some ''secret'') ''xy'' key_store_init AES256Password ''u'' = Some (ks1, c1, Some t, None) \<and>
     Encrypted_Con (\<lambda>_. NUL) (Some ''t'') True (Some ''v'') (Some c1) (Some (int 16)) None = (Some w0, None) \<and>
     enc_writes demo_ssl file_ops (\<lambda>_. NUL) ks1 \<lparr>disk = [], readptr = 0\<rparr> w0 [''0123456789'', ''abcdefghij''] = Some (f1, w1) \<and>
     Encrypted_close demo_ssl file_ops (\<lambda>_. NUL) ks1 f1 w1 ''u'' = Some (f2, w2, ks2, 20) \<and>
     AES256Password_decode demo_ssl (\<lambda>_ _. Some ''secret'') (replicate 64 NUL) (replicate 32 NUL) key_store_init AES256Password t (int (strlen t)) ''u''
       = Some (ks3, c2, int AES256_KEY_SIZE, None) \<and>
     Encrypted_Con (\<lambda>_. NUL) (Some ''t'') True (Some ''v'') (Some c2) (Some (int 16)) (Some 20) = (Some r0, None) \<and>
     Encrypted_read demo_ssl file_ops (\<lambda>_. NUL) ks3 (f2\<lparr>readptr := 0\<rparr>) (r0\<lparr>enc_readptr := int 8\<rparr>) ''xxxx'' 4 = Some (f3, r1, int 4, ''89ab'')"
proof -
  have e: "EVP_MAX_KEY_LENGTH demo_ssl = AES256_KEY_SIZE" "AES_BLOCK_SIZE dvd 16"
    by (simp_all add: demo_ssl_def AES256_KEY_SIZE_def AES_BLOCK_SIZE_def)
  have l: "int (length (concat [''0123456789'', ''abcdefghij''])) = 20"
      "take 4 (drop 8 (concat [''0123456789'', ''abcdefghij''])) @ drop 4 ''xxxx'' = ''89ab''" by simp_all
  show ?thesis
    using encrypted_stream_roundtrip [where passphrase = "\<lambda>_ _. Some ''secret''" and pass = "''secret''" and urn = "''u''" and stack = "''xy''"
        and cjunk = "replicate 64 NUL" and iv_junk = "replicate 32 NUL" and cs = 16 and xs = "[''0123456789'', ''abcdefghij'']" and p = 8 and len = 4
        and buff = "''xxxx''" and junk = "\<lambda>_. NUL" and tgt = "''t''" and vol = "''v''",
        OF demo_ssl_ok demo_random_ok e(1) key_store_init_ok(1) key_store_init_ok(1) key_store_init_ok(2) refl _ _ _ e(2), unfolded l]
    by simp
qed

text \<open>C31. Reading across chunks returns the wrong bytes: every partial read advances the read pointer and the loop around it does so again, so a read of
  two chunks from the start of a stream of at least three returns the first and the third chunk as if they followed each other.\<close>

theorem encrypted_read_skips_chunk:
  assumes ssl: "openssl_ok ssl" and key: "key_heap ks r = Some key" "key_full key"
    and cs: "AES_BLOCK_SIZE dvd cs" "0 < cs" "cs < 2 ^ 27" and n: "3 \<le> n" "n < 2 ^ 31" "length full = n * cs"
    and f: "fbo_ok f" "disk f = crypt_stream ssl key cs full" and b: "2 * cs \<le> length buff"
  shows "\<exists>f' s'. Encrypted_read ssl file_ops junk ks f
       \<lparr>enc_readptr = 0, enc_size = int (n * cs), enc_chunk_size = int cs, block_buffer = bb, enc_cipher = with_key ssl r key c\<rparr> buff (2 * cs)
     = Some (f', s', int (2 * cs), take cs full @ take cs (drop (2 * cs) full) @ drop (2 * cs) buff)"
proof -
  let ?s = "\<lparr>enc_readptr = 0, enc_size = int (n * cs), enc_chunk_size = int cs, block_buffer = bb, enc_cipher = with_key ssl r key c\<rparr>"
  have rd: "fstore.reader ssl key cs n full ks (n * cs) f ?s"
    unfolding fstore.reader_def using ssl key cs n f by (auto simp: same_key_def)
  have "0 * cs + 3 * cs \<le> n * cs" using mult_le_mono1 [OF n(1), of cs] by simp
  moreover have "enc_readptr ?s = int (0 * cs)" by simp
  moreover have "nth_chunk cs full 0 = take cs full" "nth_chunk cs full (0 + 2) = take cs (drop (2 * cs) full)"
    by (simp_all only: nth_chunk_def mult_0 drop_0 add_0)
  ultimately show ?thesis using fstore.read_skips_chunk [OF rd _ _ b, of 0 junk] by metis
qed

theorem encrypted_read_skips_chunk_witness:
  "\<exists>f' s'. Encrypted_read demo_ssl file_ops (\<lambda>_. NUL) (key_store_init\<lparr>key_heap := (\<lambda>_. Some \<lparr>key_type = ''aes256'', key_data = replicate 32 NUL, key_iv = replicate 32 NUL\<rparr>)\<rparr>)
       \<lparr>disk = crypt_stream demo_ssl \<lparr>key_type = ''aes256'', key_data = replicate 32 NUL, key_iv = replicate 32 NUL\<rparr> 16
                 (replicate 16 (CHR ''a'') @ replicate 16 (CHR ''b'') @ replicate 16 (CHR ''c'')), readptr = 0\<rparr>
       \<lparr>enc_readptr = 0, enc_size = 48, enc_chunk_size = 16, block_buffer = StringIO_constructor (\<lambda>_. NUL),
        enc_cipher = with_key demo_ssl 0 \<lparr>key_type = ''aes256'', key_data = replicate 32 NUL, key_iv = replicate 32 NUL\<rparr> AES256Password\<rparr> (replicate 32 NUL) 32
     = Some (f', s', 32, replicate 16 (CHR ''a'') @ replicate 16 (CHR ''c''))"
proof -
  let ?k = "\<lparr>key_type = ''aes256'', key_data = replicate 32 NUL, key_iv = replicate 32 NUL\<rparr>"
  let ?full = "replicate 16 (CHR ''a'') @ replicate 16 (CHR ''b'') @ replicate 16 (CHR ''c'')"
  let ?f = "\<lparr>disk = crypt_stream demo_ssl ?k 16 ?full, readptr = 0\<rparr>"
  have k: "key_full ?k" "AES_BLOCK_SIZE dvd 16" by (simp_all add: key_full_def AES256_KEY_SIZE_def AES_BLOCK_SIZE_def)
  have f: "fbo_ok ?f" by (simp add: fbo_ok_def crypt_stream_length [OF demo_ssl_ok k])
  have c: "int (3 * 16) = 48" "int 16 = 16" "int (2 * 16) = 32" "2 * 16 = (32 :: nat)" by simp_all
  have t: "take 16 ?full = replicate 16 (CHR ''a'')" "take 16 (drop 32 ?full) = replicate 16 (CHR ''c'')" "drop 32 (replicate 32 NUL) = []" by simp_all
  have s: "key_heap (key_store_init\<lparr>key_heap := (\<lambda>_. Some ?k)\<rparr>) 0 = Some ?k" by simp
  show ?thesis
    using encrypted_read_skips_chunk [where n = 3 and full = ?full and f = ?f and buff = "replicate 32 NUL" and junk = "\<lambda>_. NUL"
        and bb = "StringIO_constructor (\<lambda>_. NUL)" and c = AES256Password, OF demo_ssl_ok s k(1,2) _ _ _ _ _ f, unfolded c t] by simp
qed

end
