(* ===== verification/X509.thy ===== *)
theory X509
  imports Cipher Url
begin

text \<open>
  The cipher of \<^verbatim>\<open>lib/encrypt.c\<close> whose key is sealed with the public key of a certificate. The stored text is the URL of the certificate with the
  envelope in base 64 as its fragment. The calls of the envelope interface of OpenSSL are the record \<open>evp\<close>, and \<open>evp_ok\<close> states what is
  documented of them; the room that the documentation requires behind an output pointer is checked where the code passes the pointer. The theory shows that the key survives
  its envelope, and that the cipher still cannot be used: the envelope is opened into the array of the key, which is smaller than the room that
  opening needs, and unlike the pass phrase cipher it never computes the key schedules, so the first chunk is encrypted with one that was never set.
\<close>

section \<open>The envelope interface\<close>

text \<open>
  Sealing takes the number of random requests so far. An operation on a cipher context returns the next context and the bytes it put
  out; opening is given the memory and the length that the code computed. \<open>None\<close> is a failure.
\<close>

record ('x, 'p, 'c) evp =
  X509_get_pubkey :: "'x \<Rightarrow> 'p option"
  EVP_SealInit :: "nat \<Rightarrow> 'p \<Rightarrow> (buf \<times> buf \<times> 'c) option"
  EVP_SealUpdate :: "'c \<Rightarrow> buf \<Rightarrow> ('c \<times> buf) option"
  EVP_SealFinal :: "'c \<Rightarrow> buf option"
  EVP_PKEY_size :: "'p \<Rightarrow> nat"
  EVP_OpenInit :: "buf \<Rightarrow> buf \<Rightarrow> 'p \<Rightarrow> 'c option"
  EVP_OpenUpdate :: "'c \<Rightarrow> buf \<Rightarrow> int \<Rightarrow> ('c \<times> buf) option"
  EVP_OpenFinal :: "'c \<Rightarrow> buf option"
  PEM_read_bio_X509 :: "buf \<Rightarrow> 'x option"
  PEM_read_bio_PrivateKey :: "buf \<Rightarrow> 'p option"

definition EVP_MAX_IV_LENGTH :: nat where "EVP_MAX_IV_LENGTH = 16"

record ('k, 'x) x509_cipher =
  base_cipher :: "'k aes_cipher"
  authority :: "'x option"
  location :: "rdf_urn option"

definition AES256X509 :: "('k, 'x) x509_cipher" where
  "AES256X509 = \<lparr>base_cipher = AES256Password\<lparr>cipher_dataType := ''http://afflib.org/2009/aff4#aes256-x509''\<rparr>, authority = None, location = None\<rparr>"

section \<open>Sealing and opening\<close>

text \<open>
  Memory that a library function requires behind a pointer. The documented requirements: the size of the public key for the sealed key, the input and a block less one
  byte for sealing data, the input and a block for opening it, a block for finishing either.
\<close>

definition mem_room :: "nat \<Rightarrow> nat \<Rightarrow> buf \<Rightarrow> unit option" where
  "mem_room k n m = (if k + n \<le> length m then Some () else None)"

text \<open>Both return the memory they wrote; sealing the size of the envelope, opening whether it succeeded.\<close>

definition seal_buffer :: "('x, 'p, 'c) evp \<Rightarrow> nat \<Rightarrow> 'p \<Rightarrow> buf \<Rightarrow> buf \<Rightarrow> (buf \<times> nat option) option" where
  "seal_buffer evp i pubkey inbuff outbuff = do {
     _ \<leftarrow> mem_room EVP_MAX_IV_LENGTH (EVP_PKEY_size evp pubkey) outbuff;
     (case EVP_SealInit evp i pubkey of
        None \<Rightarrow> Some (outbuff, None)
      | Some (iv, ek, c) \<Rightarrow> do {
          b1 \<leftarrow> mem_write 0 iv outbuff;
          b2 \<leftarrow> mem_write EVP_MAX_IV_LENGTH ek b1;
          let w = EVP_MAX_IV_LENGTH + length ek;
          _ \<leftarrow> mem_room w (length inbuff + AES_BLOCK_SIZE - 1) b2;
          (case EVP_SealUpdate evp c inbuff of
             None \<Rightarrow> Some (b2, None)
           | Some (c1, d1) \<Rightarrow> do {
               b3 \<leftarrow> mem_write w d1 b2;
               _ \<leftarrow> mem_room (w + length d1) AES_BLOCK_SIZE b3;
               (case EVP_SealFinal evp c1 of
                  None \<Rightarrow> Some (b3, None)
                | Some d2 \<Rightarrow> do {
                    b4 \<leftarrow> mem_write (w + length d1) d2 b3;
                    Some (b4, Some (w + length d1 + length d2)) }) }) }) }"

definition open_buffer ::
    "('x, 'p, 'c) evp \<Rightarrow> ('x \<Rightarrow> buf option \<Rightarrow> buf option) \<Rightarrow> 'x \<Rightarrow> buf \<Rightarrow> int \<Rightarrow> buf \<Rightarrow> (buf \<times> bool \<times> aff4_err option) option" where
  "open_buffer evp private_key cert b in_size key =
     (case Option.bind (private_key cert None) (PEM_read_bio_PrivateKey evp) of
        None \<Rightarrow> Some (key, False, Some ERuntimeError)
      | Some privkey \<Rightarrow> do {
          iv \<leftarrow> mem_read 0 EVP_MAX_IV_LENGTH b;
          ek \<leftarrow> mem_read EVP_MAX_IV_LENGTH (EVP_PKEY_size evp privkey) b;
          let i = EVP_MAX_IV_LENGTH + EVP_PKEY_size evp privkey;
          (case EVP_OpenInit evp ek iv privkey of
             None \<Rightarrow> Some (key, False, Some ERuntimeError)
           | Some c \<Rightarrow> do {
               _ \<leftarrow> mem_room 0 (nat (in_size - int i) + AES_BLOCK_SIZE) key;
               (case EVP_OpenUpdate evp c (drop i b) (in_size - int i) of
                  None \<Rightarrow> Some (key, False, Some ERuntimeError)
                | Some (c1, d1) \<Rightarrow> do {
                    key1 \<leftarrow> mem_write 0 d1 key;
                    _ \<leftarrow> mem_room (i + length d1) AES_BLOCK_SIZE b;
                    (case EVP_OpenFinal evp c1 of
                       None \<Rightarrow> Some (key1, False, Some ERuntimeError)
                     | Some d2 \<Rightarrow> do { _ \<leftarrow> mem_write (i + length d1) d2 b; Some (key1, True, None) }) }) }) })"

text \<open>The default provider has no private keys and answers with the empty string.\<close>

definition SecurityProvider_x509_private_key :: "'x \<Rightarrow> buf option \<Rightarrow> buf option" where
  "SecurityProvider_x509_private_key cert subject = Some []"

section \<open>The cipher\<close>

text \<open>\<open>files\<close> opens a URL: the size of the file and its content, if it can be read.\<close>

definition AES256X509_set_authority ::
    "('x, 'p, 'c) evp \<Rightarrow> (buf \<Rightarrow> (int \<times> buf option) option) \<Rightarrow> ('k, 'x) x509_cipher \<Rightarrow> rdf_urn \<Rightarrow>
     (('k, 'x) x509_cipher \<times> int \<times> aff4_err option) option" where
  "AES256X509_set_authority evp files self loc =
     (case files (urn_value loc) of
        None \<Rightarrow> Some (self, 0, None)
      | Some (n, content) \<Rightarrow>
          if n > 1024 * 1024 then Some (self, 0, Some ERuntimeError)
          else (case content of
                  None \<Rightarrow> Some (self, 0, None)
                | Some d \<Rightarrow>
                    (case PEM_read_bio_X509 evp d of
                       None \<Rightarrow> Some (self\<lparr>authority := None\<rparr>, 0, Some ERuntimeError)
                     | Some x \<Rightarrow> map_option (\<lambda>l. (self\<lparr>authority := Some x, location := Some l\<rparr>, 1, None)) (RDFURN_copy loc))))"

definition x509_master_key :: "nat \<Rightarrow> ('k, 'x) x509_cipher \<Rightarrow> ('k, 'x) x509_cipher" where
  "x509_master_key r self = self\<lparr>base_cipher := (base_cipher self)\<lparr>master_key := Some r\<rparr>\<rparr>"

text \<open>\<open>out_junk\<close> is the local array \<^verbatim>\<open>out_buff\<close> before it is written. The fragment of the location is replaced.\<close>

definition AES256X509_serialise ::
    "'k openssl \<Rightarrow> ('x, 'p, 'c) evp \<Rightarrow> buf \<Rightarrow> key_store \<Rightarrow> ('k, 'x) x509_cipher \<Rightarrow> buf \<Rightarrow>
     (key_store \<times> ('k, 'x) x509_cipher \<times> buf option \<times> aff4_err option) option" where
  "AES256X509_serialise ssl evp out_junk ks self subject =
     (case authority self of
        None \<Rightarrow> Some (ks, self, None, Some ERuntimeError)
      | Some cert \<Rightarrow> do {
          (ks1, mk) \<leftarrow> (case master_key (base_cipher self) of
             Some r \<Rightarrow> Some (ks, Some r)
           | None \<Rightarrow> map_option (\<lambda>(k, m, e). (k, m)) (Key_Con ssl ks (cipher_type (base_cipher self)) subject True));
          r \<leftarrow> mk;
          key \<leftarrow> key_heap ks1 r;
          let self1 = x509_master_key r self;
          buff \<leftarrow> mem_write 0 (key_iv key) (replicate BUFF_SIZE NUL);
          (case X509_get_pubkey evp cert of
             None \<Rightarrow> Some (ks1, self1, None, Some ERuntimeError)
           | Some pubkey \<Rightarrow> do {
               (b, sealed) \<leftarrow> seal_buffer evp (rand_calls ks1) pubkey (key_data key) (drop EVP_MAX_IV_LENGTH buff);
               let ks2 = ks1\<lparr>rand_calls := Suc (rand_calls ks1)\<rparr>;
               (case sealed of
                  None \<Rightarrow> Some (ks2, self1, None, Some ERuntimeError)
                | Some n \<Rightarrow> do {
                    (text, _) \<leftarrow> encode64 encode_init (take EVP_MAX_IV_LENGTH buff @ b) (int (EVP_MAX_IV_LENGTH + n)) out_junk (int BUFF_SIZE);
                    loc \<leftarrow> location self;
                    u \<leftarrow> parser loc;
                    let u1 = u\<lparr>fragment := takeWhile (\<lambda>c. c \<noteq> NUL) text\<rparr>;
                    Some (ks2, self1\<lparr>location := Some (loc\<lparr>parser := Some u1\<rparr>)\<rparr>, Some (URLParse_string u1), None) }) }) })"

text \<open>\<open>private_key\<close> is the method of the security provider; it is asked with the subject here and without one when the envelope is opened.\<close>

definition AES256X509_decode ::
    "'k openssl \<Rightarrow> ('x, 'p, 'c) evp \<Rightarrow> (buf \<Rightarrow> (int \<times> buf option) option) \<Rightarrow> ('x \<Rightarrow> buf option \<Rightarrow> buf option) \<Rightarrow> key_store \<Rightarrow> ('k, 'x) x509_cipher \<Rightarrow>
     buf \<Rightarrow> int \<Rightarrow> buf \<Rightarrow> (key_store \<times> ('k, 'x) x509_cipher \<times> int \<times> aff4_err option) option" where
  "AES256X509_decode ssl evp files private_key ks self data len subject = do {
     cert_URN \<leftarrow> RDFURN_set RDFURN_Con (Some data);
     u \<leftarrow> parser cert_URN;
     (buff, n) \<leftarrow> decode64 encode_init (fragment u @ [NUL]) (int (length (fragment u))) (replicate BUFF_SIZE NUL) (int BUFF_SIZE - 1);
     new_urn \<leftarrow> RDFURN_set RDFURN_Con (Some (URLParse_string (u\<lparr>fragment := []\<rparr>)));
     (self1, res, err) \<leftarrow> AES256X509_set_authority evp files self new_urn;
     if res = 0 then Some (ks, self1, 0, err)
     else do {
       cert \<leftarrow> authority self1;
       (ks1, mk) \<leftarrow> (case master_key (base_cipher self1) of
          Some r \<Rightarrow> Some (ks, Some r)
        | None \<Rightarrow> map_option (\<lambda>(k, m, e). (k, m)) (Key_Con ssl ks (cipher_type (base_cipher self1)) subject False));
       (case mk of
          Some r \<Rightarrow> Some (ks1, x509_master_key r self1, len, None)
        | None \<Rightarrow>
            (case Option.bind (private_key cert (Some subject)) (PEM_read_bio_PrivateKey evp) of
               None \<Rightarrow> Some (ks1, self1, 0, Some ERuntimeError)
             | Some _ \<Rightarrow> do {
                 (ks2, mk2, _) \<leftarrow> Key_Con ssl ks1 (cipher_type (base_cipher self1)) subject True;
                 r \<leftarrow> mk2;
                 key \<leftarrow> key_heap ks2 r;
                 v \<leftarrow> mem_read 0 (length (key_iv key)) buff;
                 (d, opened, e) \<leftarrow> open_buffer evp private_key cert (drop EVP_MAX_IV_LENGTH buff) (n - int EVP_MAX_IV_LENGTH) (key_data key);
                 let ks3 = ks2\<lparr>key_heap := (key_heap ks2)(r \<mapsto> key\<lparr>key_iv := v, key_data := d\<rparr>)\<rparr>;
                 Some (ks3, x509_master_key r self1, (if opened then len else 0), e) })) } }"

text \<open>The methods that the class inherits.\<close>

definition AES256X509_encrypt ::
    "'k openssl \<Rightarrow> key_store \<Rightarrow> ('k, 'x) x509_cipher \<Rightarrow> int \<Rightarrow> buf \<Rightarrow> buf \<Rightarrow> nat \<Rightarrow> (buf \<times> int) option" where
  "AES256X509_encrypt ssl ks self = AES256Password_encrypt ssl ks (base_cipher self)"

section \<open>Base 64 of a string\<close>

text \<open>What follows the text in memory does not matter.\<close>

lemma block_loop_prefix:
  assumes "\<And>j. int j < len \<Longrightarrow> a dvd j \<Longrightarrow> rd j = rd' j" "a dvd i" "int a dvd len" "int i \<le> len"
  shows "block_loop len cont a b rd blk i k out = block_loop len cont a b rd' blk i k out \<and>
     (\<forall>i' k' out'. block_loop len cont a b rd blk i k out = Some (i', k', out') \<longrightarrow> int i' \<le> len)"
  using assms(2,4)
proof (induction "nat (len - int i)" arbitrary: i k out rule: less_induct)
  case less
  show ?case
  proof (cases "int i < len \<and> cont k \<and> 0 < a")
    case False
    then show ?thesis using less.prems by (subst (1 2 3) block_loop.simps) auto
  next
    case True
    have "int a dvd len - int i" using assms(3) less.prems(1) by (simp add: of_nat_dvd_iff)
    then have "int a \<le> len - int i" using True by (intro zdvd_imp_le) auto
    then have i: "int (i + a) \<le> len" "a dvd i + a" "nat (len - int (i + a)) < nat (len - int i)" using less.prems True by auto
    have r: "rd i = rd' i" using assms(1) True less.prems(1) by blast
    show ?thesis using less.hyps [OF i(3,2,1)] True r by (subst (1 2 3) block_loop.simps) (auto split: option.splits)
  qed
qed

lemma decode64_prefix:
  assumes "4 dvd length e"
  shows "decode64 luts (e @ x) (int (length e)) dst dlen = decode64 luts (e @ y) (int (length e)) dst dlen"
proof -
  have m: "mem_read j 4 (e @ x) = mem_read j 4 (e @ y)" if lt: "int j < int (length e)" and dv: "4 dvd j" for j
  proof -
    obtain p q where "length e = 4 * p" "j = 4 * q" using assms dv by (auto elim!: dvdE)
    then have "j + 4 \<le> length e" using lt by simp
    then show ?thesis by (simp add: mem_read_def)
  qed
  have l: "load j (e @ x) = load j (e @ y)" if "j < int (length e)" for j using that by (auto simp: load_def nth_append nat_less_iff)
  have i4: "int 4 dvd int (length e)" using assms by (simp only: of_nat_dvd_iff)
  note B = block_loop_prefix [where len = "int (length e)" and a = 4 and i = 0 and b = 3 and k = 0 and out = dst
    and cont = "\<lambda>o'. int o' < dlen" and blk = "\<lambda>o'. decodeblock (decode64_lut luts) (dlen - int o')"
    and rd = "\<lambda>i. mem_read i 4 (e @ x)" and rd' = "\<lambda>i. mem_read i 4 (e @ y)", OF m dvd_0_right i4]
  show ?thesis
  proof (cases "block_loop (int (length e)) (\<lambda>o'. int o' < dlen) 4 3 (\<lambda>i. mem_read i 4 (e @ x)) (\<lambda>o'. decodeblock (decode64_lut luts) (dlen - int o')) 0 0 dst")
    case None
    then show ?thesis using B by (simp add: decode64_def)
  next
    case (Some r)
    obtain i' k' out' where r: "r = (i', k', out')" by (cases r)
    have "int i' \<le> int (length e)" using B Some r by simp
    then have ld: "load (int i' - 1) (e @ x) = load (int i' - 1) (e @ y)" "load (int i' - 2) (e @ x) = load (int i' - 2) (e @ y)" using l by simp_all
    have S: "block_loop (int (length e)) (\<lambda>o'. int o' < dlen) 4 3 (\<lambda>i. mem_read i 4 (e @ y)) (\<lambda>o'. decodeblock (decode64_lut luts) (dlen - int o')) 0 0 dst = Some (i', k', out')"
      using B Some r by simp
    show ?thesis unfolding decode64_def Some r S option.case prod.case ld ..
  qed
qed

lemma block_loop_length: "block_loop len cont a b rd blk i k out = Some (i', k', out') \<Longrightarrow> length out' = length out"
proof (induction "nat (len - int i)" arbitrary: i k out rule: less_induct)
  case less
  from less.prems show ?case
    by (subst (asm) block_loop.simps) (auto split: if_splits option.splits dest!: less.hyps [rotated] mem_write_length)
qed

lemma decode64_length: "decode64 luts b len dst dlen = Some (m, n) \<Longrightarrow> length m = length dst"
  by (auto simp: decode64_def split: option.splits if_splits dest: block_loop_length)

section \<open>The envelope\<close>

text \<open>
  What is documented of a certificate and its private key: sealing puts out a vector and a sealed key of the size of the key pair; two blocks of data
  become three, and opening these, with the room that is documented for it, gives the two blocks at once, whatever memory is behind them.
\<close>

definition evp_ok :: "('x, 'p, 'c) evp \<Rightarrow> 'x \<Rightarrow> 'p \<Rightarrow> bool" where
  "evp_ok evp cert priv \<longleftrightarrow>
     (\<exists>pub. X509_get_pubkey evp cert = Some pub \<and> EVP_PKEY_size evp pub = EVP_PKEY_size evp priv \<and> EVP_PKEY_size evp priv \<le> 1024 \<and>
       (\<forall>i. \<exists>iv ek c x. EVP_SealInit evp i pub = Some (iv, ek, c) \<and> length iv = EVP_MAX_IV_LENGTH \<and> length ek = EVP_PKEY_size evp priv \<and>
          EVP_OpenInit evp ek iv priv = Some x \<and>
          (\<forall>d. length d = AES256_KEY_SIZE \<longrightarrow>
             (\<exists>c1 d1 d2. EVP_SealUpdate evp c d = Some (c1, d1) \<and> EVP_SealFinal evp c1 = Some d2 \<and> length (d1 @ d2) = 48 \<and>
                (\<forall>r. \<exists>x1 t. EVP_OpenUpdate evp x ((d1 @ d2) @ r) 48 = Some (x1, d) \<and> EVP_OpenFinal evp x1 = Some t \<and> length t \<le> 16)))))"

lemma mem_write_next: "length b = k \<Longrightarrow> length a \<le> length r \<Longrightarrow> mem_write k a (b @ r) = Some (b @ a @ drop (length a) r)"
  by (simp add: mem_write_def)

lemma seal_open:
  assumes ok: "evp_ok evp cert priv" and d: "length d = AES256_KEY_SIZE" and b: "2000 \<le> length outbuff"
    and pk: "private_key cert None = Some pem" "PEM_read_bio_PrivateKey evp pem = Some priv"
  shows "\<exists>pub e. X509_get_pubkey evp cert = Some pub \<and> seal_buffer evp i pub d outbuff = Some (e @ drop (length e) outbuff, Some (length e)) \<and>
     length e \<le> 1100 \<and>
     (\<forall>r key. open_buffer evp private_key cert (e @ r) (int (length e)) key = (if 64 \<le> length key then Some (d @ drop 32 key, True, None) else None))"
proof -
  obtain pub iv ek c x where pub: "X509_get_pubkey evp cert = Some pub" "EVP_PKEY_size evp pub = EVP_PKEY_size evp priv" and i: "EVP_SealInit evp i pub = Some (iv, ek, c)"
      "length iv = EVP_MAX_IV_LENGTH" "length ek = EVP_PKEY_size evp priv" "EVP_PKEY_size evp priv \<le> 1024" "EVP_OpenInit evp ek iv priv = Some x"
    and u: "\<forall>d. length d = AES256_KEY_SIZE \<longrightarrow>
             (\<exists>c1 d1 d2. EVP_SealUpdate evp c d = Some (c1, d1) \<and> EVP_SealFinal evp c1 = Some d2 \<and> length (d1 @ d2) = 48 \<and>
                (\<forall>r. \<exists>x1 t. EVP_OpenUpdate evp x ((d1 @ d2) @ r) 48 = Some (x1, d) \<and> EVP_OpenFinal evp x1 = Some t \<and> length t \<le> 16))"
    using ok unfolding evp_ok_def by metis
  obtain c1 d1 d2 where f: "EVP_SealUpdate evp c d = Some (c1, d1)" "EVP_SealFinal evp c1 = Some d2" "length (d1 @ d2) = 48"
      "\<And>r. \<exists>x1 t. EVP_OpenUpdate evp x ((d1 @ d2) @ r) 48 = Some (x1, d) \<and> EVP_OpenFinal evp x1 = Some t \<and> length t \<le> 16"
    using u d by blast
  define e where "e = iv @ ek @ d1 @ d2"
  have len: "length iv = 16" "length ek \<le> 1024" "length d1 + length d2 = 48" using i f(3) by (simp_all add: EVP_MAX_IV_LENGTH_def)
  define r1 where "r1 = drop (length iv) outbuff"
  define r2 where "r2 = drop (length ek) r1"
  define r3 where "r3 = drop (length d1) r2"
  have l: "length r1 = length outbuff - 16" "length r2 = length r1 - length ek" "length r3 = length r2 - length d1"
    using len by (simp_all add: r1_def r2_def r3_def)
  have w1: "mem_write 0 iv outbuff = Some (iv @ r1)" using b len by (simp add: mem_write_def r1_def)
  have w2: "mem_write EVP_MAX_IV_LENGTH ek (iv @ r1) = Some ((iv @ ek) @ r2)"
    using mem_write_next [OF i(2), of ek r1] b len l by (simp add: r2_def)
  have w3: "mem_write (EVP_MAX_IV_LENGTH + length ek) d1 ((iv @ ek) @ r2) = Some ((iv @ ek @ d1) @ r3)"
    using mem_write_next [of "iv @ ek" "EVP_MAX_IV_LENGTH + length ek" d1 r2] b len l i(2) by (simp add: r3_def)
  have w4: "mem_write (EVP_MAX_IV_LENGTH + length ek + length d1) d2 ((iv @ ek @ d1) @ r3) = Some ((iv @ ek @ d1) @ d2 @ drop (length d2) r3)"
    using b len l i(2) by (intro mem_write_next) (simp_all)
  have rm: "mem_room EVP_MAX_IV_LENGTH (EVP_PKEY_size evp pub) outbuff = Some ()"
      "mem_room (EVP_MAX_IV_LENGTH + EVP_PKEY_size evp priv) (length d + AES_BLOCK_SIZE - 1) ((iv @ ek) @ r2) = Some ()"
      "mem_room (EVP_MAX_IV_LENGTH + EVP_PKEY_size evp priv + length d1) AES_BLOCK_SIZE ((iv @ ek @ d1) @ r3) = Some ()"
    using b len l i(2-4) pub(2) d by (simp_all add: mem_room_def EVP_MAX_IV_LENGTH_def AES256_KEY_SIZE_def AES_BLOCK_SIZE_def)
  have "drop (length d2) r3 = drop (length e) outbuff" by (simp add: e_def r1_def r2_def r3_def add.commute add.left_commute)
  then have "seal_buffer evp i pub d outbuff = Some (e @ drop (length e) outbuff, Some (length e))"
    using i w1 w2 w3 w4 f(1,2) rm by (simp add: seal_buffer_def Let_def e_def)
  moreover have "open_buffer evp private_key cert (e @ r) (int (length e)) key = (if 64 \<le> length key then Some (d @ drop 32 key, True, None) else None)" for r key
  proof -
    obtain x1 t where t: "EVP_OpenUpdate evp x ((d1 @ d2) @ r) 48 = Some (x1, d)" "EVP_OpenFinal evp x1 = Some t" "length t \<le> 16" using f(4) by blast
    have m: "mem_read 0 EVP_MAX_IV_LENGTH (e @ r) = Some iv" "mem_read EVP_MAX_IV_LENGTH (EVP_PKEY_size evp priv) (e @ r) = Some ek"
      using i(2,3) by (simp_all add: mem_read_def e_def)
    have dr: "drop (EVP_MAX_IV_LENGTH + EVP_PKEY_size evp priv) (e @ r) = (d1 @ d2) @ r" using i(2,3) by (simp add: e_def)
    have sz: "int (length e) - int (EVP_MAX_IV_LENGTH + EVP_PKEY_size evp priv) = 48" using i(2,3) f(3) by (simp add: e_def)
    have w: "64 \<le> length key \<Longrightarrow> mem_write 0 d key = Some (d @ drop 32 key)" using d by (simp add: mem_write_def AES256_KEY_SIZE_def)
    have rk: "mem_room 0 (nat 48 + AES_BLOCK_SIZE) key = (if 64 \<le> length key then Some () else None)" by (simp add: mem_room_def AES_BLOCK_SIZE_def)
    have rb: "mem_room (EVP_MAX_IV_LENGTH + EVP_PKEY_size evp priv + length d) AES_BLOCK_SIZE (e @ r) = Some ()"
      using i(2,3) f(3) d by (simp add: mem_room_def e_def AES256_KEY_SIZE_def AES_BLOCK_SIZE_def)
    have "EVP_MAX_IV_LENGTH + EVP_PKEY_size evp priv + length d + length t \<le> length (e @ r)"
      using i(2,3) f(3) d t(3) by (simp add: e_def AES256_KEY_SIZE_def)
    then have fin: "\<exists>y. mem_write (EVP_MAX_IV_LENGTH + EVP_PKEY_size evp priv + length d) t (e @ r) = Some y" by (simp add: mem_write_def)
    show ?thesis unfolding open_buffer_def using pk m i(5) t(1,2) w fin dr sz rk rb by (auto simp: Let_def simp del: of_nat_add drop_append)
  qed
  moreover have "length e \<le> 1100" using len by (simp add: e_def)
  ultimately show ?thesis using pub(1) by blast
qed

text \<open>With the default provider no envelope can be opened.\<close>

lemma default_provider_refuses:
  "PEM_read_bio_PrivateKey evp [] = None \<Longrightarrow> open_buffer evp SecurityProvider_x509_private_key cert b n key = Some (key, False, Some ERuntimeError)"
  by (simp add: open_buffer_def SecurityProvider_x509_private_key_def)

section \<open>The location\<close>

text \<open>A URL that printing and parsing keep, with any fragment.\<close>

definition cert_url :: "url_parse \<Rightarrow> bool" where
  "cert_url u \<longleftrightarrow> scheme u \<noteq> [] \<and> CHR '':'' \<notin> set (scheme u) \<and> CHR ''/'' \<notin> set (scheme u) \<and> CHR ''#'' \<notin> set (scheme u) \<and>
     CHR ''/'' \<notin> set (netloc u) \<and> CHR ''#'' \<notin> set (netloc u) \<and> CHR ''#'' \<notin> set (query u) \<and> (query u = [] \<or> hd (query u) = CHR ''/'') \<and>
     collapse_path (query u) = query u \<and> length (scheme u) < BUFF_SIZE \<and> length (netloc u) < BUFF_SIZE \<and> length (query u) < BUFF_SIZE \<and> fragment u = []"

lemma cert_url_parse:
  assumes "cert_url u" "length f < BUFF_SIZE"
  shows "RDFURN_set RDFURN_Con (Some (URLParse_string (u\<lparr>fragment := f\<rparr>)))
     = Some \<lparr>urn_value = URLParse_string (u\<lparr>fragment := f\<rparr>), parser = Some (u\<lparr>fragment := f\<rparr>)\<rparr>"
proof -
  have "URLParse_string (u\<lparr>fragment := f\<rparr>) = url_text (scheme u) (netloc u) (query u) f"
    using assms(1) by (cases u) (simp add: URLParse_string_def url_text_def cert_url_def)
  moreover have "URLParse_parse (Some (url_text (scheme u) (netloc u) (query u) f)) = Some \<lparr>scheme = scheme u, netloc = netloc u, query = query u, fragment = f\<rparr>"
    using assms by (intro parse_url_text) (auto simp: cert_url_def)
  moreover have "\<lparr>scheme = scheme u, netloc = netloc u, query = query u, fragment = f\<rparr> = u\<lparr>fragment := f\<rparr>" by simp
  ultimately show ?thesis by (simp add: RDFURN_set_def RDFURN_Con_def)
qed

lemma cert_url_self: "cert_url u \<Longrightarrow> u\<lparr>fragment := []\<rparr> = u"
  by (simp add: cert_url_def)

lemma unset_schedule: "ekey (base_cipher c) = None \<Longrightarrow> AES256X509_encrypt ssl ks c chunk d out n = None"
  by (simp add: AES256X509_encrypt_def AES256Password_encrypt_def aes_crypt_def bind_eq_None_conv)

section \<open>Serialising and decoding\<close>

lemma x509_serialise:
  fixes c :: "('k, 'x) x509_cipher"
  assumes ssl: "openssl_ok ssl" and rnd: "random_ok ssl" and evp: "EVP_MAX_KEY_LENGTH ssl = AES256_KEY_SIZE" and ok: "keys_ok ssl ks" and cert: "evp_ok evp cert priv"
    and c: "master_key (base_cipher c) = None" "authority c = Some cert" "location c = Some loc" "parser loc = Some u"
    and pk: "private_key cert None = Some pem" "PEM_read_bio_PrivateKey evp pem = Some priv" and j: "length out_junk = BUFF_SIZE"
  shows "\<exists>ks1 c1 r key e f m. AES256X509_serialise ssl evp out_junk ks c subject = Some (ks1, c1, Some (URLParse_string (u\<lparr>fragment := f\<rparr>)), None) \<and>
     base_cipher c1 = (base_cipher c)\<lparr>master_key := Some r\<rparr> \<and> key_heap ks1 r = Some key \<and> key_ok ssl key \<and> length f < BUFF_SIZE \<and> f \<noteq> [] \<and>
     keys_ok ssl ks1 \<and> cached_key ks1 (cipher_type (base_cipher c)) subject = Some r \<and>
     decode64 encode_init (f @ [NUL]) (int (length f)) (replicate BUFF_SIZE NUL) (int BUFF_SIZE - 1) = Some (m, int (16 + length e)) \<and>
     take (16 + length e) m = take 16 (key_iv key) @ e \<and> length m = BUFF_SIZE \<and>
     (\<forall>rest k. open_buffer evp private_key cert (e @ rest) (int (length e)) k = (if 64 \<le> length k then Some (key_data key @ drop 32 k, True, None) else None))"
proof -
  obtain ks0 r where K: "Key_Con ssl ks (cipher_type (base_cipher c)) subject True = Some (ks0, Some r, None)" "keys_ok ssl ks0"
      "cached_key ks0 (cipher_type (base_cipher c)) subject = Some r"
    using Key_Con_spec [OF ok ssl, where type = "cipher_type (base_cipher c)" and subject = subject and create = True] rnd by (auto split: option.splits)
  obtain key where key: "key_heap ks0 r = Some key" "key_ok ssl key" using cached_key_exists [OF K(2,3)] by blast
  have l: "length (key_iv key) = 32" "length (key_data key) = AES256_KEY_SIZE" using key(2) evp by (simp_all add: key_ok_def AES256_KEY_SIZE_def)
  define rest where "rest = drop 16 (key_iv key) @ replicate (BUFF_SIZE - 32) NUL"
  have b: "mem_write 0 (key_iv key) (replicate BUFF_SIZE NUL) = Some (take 16 (key_iv key) @ rest)" "length rest = BUFF_SIZE - 16"
    using l by (simp_all add: mem_write_def rest_def BUFF_SIZE_def)
  have io: "take EVP_MAX_IV_LENGTH (take 16 (key_iv key) @ rest) = take 16 (key_iv key)" "drop EVP_MAX_IV_LENGTH (take 16 (key_iv key) @ rest) = rest"
    using l by (simp_all add: EVP_MAX_IV_LENGTH_def)
  have br: "2000 \<le> length rest" by (simp add: b(2) BUFF_SIZE_def)
  obtain pub e where e: "X509_get_pubkey evp cert = Some pub" "seal_buffer evp (rand_calls ks0) pub (key_data key) rest = Some (e @ drop (length e) rest, Some (length e))"
      "length e \<le> 1100" "\<forall>rest k. open_buffer evp private_key cert (e @ rest) (int (length e)) k = (if 64 \<le> length k then Some (key_data key @ drop 32 k, True, None) else None)"
    using seal_open [where private_key = private_key, OF cert l(2) br pk, of "rand_calls ks0"] by blast
  let ?d = "take 16 (key_iv key) @ e" and ?n = "16 + length e"
  define K where "K = (?n + 2) div 3"
  have big: "2 * ?n < 2 ^ 31" using e(3) by simp
  have n: "?n = length ?d" "0 < ?n" "2 \<le> length (drop (length e) rest)" "K \<le> 400" using l e(3) b(2) by (simp_all add: K_def BUFF_SIZE_def)
  have out: "2 * ?n \<le> length out_junk" "K * 4 < length out_junk" "int (K * 4) \<le> int BUFF_SIZE" "K * 3 \<le> length (replicate BUFF_SIZE NUL)" "int (K * 3) \<le> int BUFF_SIZE - 1"
    using n(4) e(3) j by (simp_all add: BUFF_SIZE_def)
  obtain f q m where f: "encode64 encode_init (?d @ drop (length e) rest) (int ?n) out_junk (int BUFF_SIZE) = Some (f @ NUL # q, int (K * 4))" "length f = K * 4"
      "decode64 encode_init (f @ NUL # q) (int (K * 4)) (replicate BUFF_SIZE NUL) (int BUFF_SIZE - 1) = Some (m, int ?n)" "take ?n m = ?d" "NUL \<notin> set f"
    using base64_roundtrip [OF n(1,2) big K_def n(3) out] by blast
  have dec: "decode64 encode_init (f @ [NUL]) (int (length f)) (replicate BUFF_SIZE NUL) (int BUFF_SIZE - 1) = Some (m, int ?n)"
    using f(2,3) decode64_prefix [of f encode_init "NUL # q" "replicate BUFF_SIZE NUL" "int BUFF_SIZE - 1" "[NUL]"] by simp
  have tw: "takeWhile (\<lambda>c. c \<noteq> NUL) (f @ NUL # q) = f" using f(5) by (subst takeWhile_append2) auto
  have "length f < BUFF_SIZE" "f \<noteq> []" using f(2) n(2,4) by (auto simp: BUFF_SIZE_def K_def)
  moreover define c1 where "c1 = (x509_master_key r c)\<lparr>location := Some (loc\<lparr>parser := Some (u\<lparr>fragment := f\<rparr>)\<rparr>)\<rparr>"
  have "AES256X509_serialise ssl evp out_junk ks c subject
      = Some (ks0\<lparr>rand_calls := Suc (rand_calls ks0)\<rparr>, c1, Some (URLParse_string (u\<lparr>fragment := f\<rparr>)), None)"
    unfolding AES256X509_serialise_def using c K(1) key(1) b(1) io e(1,2) f(1) tw l(1) by (simp add: Let_def c1_def EVP_MAX_IV_LENGTH_def)
  moreover have "base_cipher c1 = (base_cipher c)\<lparr>master_key := Some r\<rparr>" by (simp add: c1_def x509_master_key_def)
  moreover have "length m = BUFF_SIZE" using decode64_length [OF dec] by simp
  moreover have "keys_ok ssl (ks0\<lparr>rand_calls := Suc (rand_calls ks0)\<rparr>)" "cached_key (ks0\<lparr>rand_calls := Suc (rand_calls ks0)\<rparr>) (cipher_type (base_cipher c)) subject = Some r"
    using K(2,3) by (simp_all add: keys_ok_def cached_key_def subject_keys_def)
  ultimately show ?thesis using key dec f(4) e(4) by (intro exI [of _ "ks0\<lparr>rand_calls := Suc (rand_calls ks0)\<rparr>"] exI [of _ c1] exI [of _ r] exI [of _ key] exI [of _ e] exI [of _ f] exI [of _ m]) simp
qed

text \<open>Decoding up to the point where the key is looked up: the envelope is in the buffer and the certificate is set.\<close>

definition x509_text :: "('x, 'p, 'c) evp \<Rightarrow> (buf \<Rightarrow> (int \<times> buf option) option) \<Rightarrow> 'x \<Rightarrow> url_parse \<Rightarrow> buf \<Rightarrow> buf \<Rightarrow> nat \<Rightarrow> bool" where
  "x509_text evp files cert u f m n \<longleftrightarrow> cert_url u \<and> length f < BUFF_SIZE \<and>
     (\<exists>k pem. files (URLParse_string u) = Some (k, Some pem) \<and> k \<le> 1024 * 1024 \<and> PEM_read_bio_X509 evp pem = Some cert) \<and>
     decode64 encode_init (f @ [NUL]) (int (length f)) (replicate BUFF_SIZE NUL) (int BUFF_SIZE - 1) = Some (m, int n) \<and> length m = BUFF_SIZE"

lemma x509_authority:
  assumes "x509_text evp files cert u f m n"
  shows "\<exists>w w'. RDFURN_set RDFURN_Con (Some (URLParse_string (u\<lparr>fragment := f\<rparr>))) = Some w \<and> parser w = Some (u\<lparr>fragment := f\<rparr>) \<and>
     RDFURN_set RDFURN_Con (Some (URLParse_string u)) = Some w' \<and>
     AES256X509_set_authority evp files c w' = Some (c\<lparr>authority := Some cert, location := Some w'\<rparr>, 1, None)"
proof -
  have u: "cert_url u" "length f < BUFF_SIZE" using assms by (auto simp: x509_text_def)
  define w' where "w' = \<lparr>urn_value = URLParse_string u, parser = Some u\<rparr>"
  have z: "length ([] :: buf) < BUFF_SIZE" by (simp add: BUFF_SIZE_def)
  have w': "RDFURN_set RDFURN_Con (Some (URLParse_string u)) = Some w'"
    using cert_url_parse [OF u(1) z] unfolding cert_url_self [OF u(1)] w'_def .
  have "RDFURN_copy w' = Some w'" using w' by (simp add: RDFURN_copy_def w'_def)
  then have "AES256X509_set_authority evp files c w' = Some (c\<lparr>authority := Some cert, location := Some w'\<rparr>, 1, None)"
    using assms by (auto simp: AES256X509_set_authority_def w'_def x509_text_def)
  then show ?thesis using cert_url_parse [OF u] w' by (intro exI [of _ "\<lparr>urn_value = URLParse_string (u\<lparr>fragment := f\<rparr>), parser = Some (u\<lparr>fragment := f\<rparr>)\<rparr>"] exI [of _ w']) simp
qed

text \<open>In a process that has the key, it is taken from the cache.\<close>

lemma x509_decode_cached:
  fixes c :: "('k, 'x) x509_cipher"
  assumes ssl: "openssl_ok ssl" and ok: "keys_ok ssl ks" and x: "x509_text evp files cert u f m n"
    and c: "master_key (base_cipher c) = None" "cached_key ks (cipher_type (base_cipher c)) subject = Some r"
  shows "\<exists>ks1 c1. AES256X509_decode ssl evp files private_key ks c (URLParse_string (u\<lparr>fragment := f\<rparr>)) len subject = Some (ks1, c1, len, None) \<and>
     base_cipher c1 = (base_cipher c)\<lparr>master_key := Some r\<rparr> \<and> key_heap ks1 = key_heap ks"
proof -
  obtain w w' where w: "RDFURN_set RDFURN_Con (Some (URLParse_string (u\<lparr>fragment := f\<rparr>))) = Some w" "parser w = Some (u\<lparr>fragment := f\<rparr>)"
      "RDFURN_set RDFURN_Con (Some (URLParse_string u)) = Some w'"
      "AES256X509_set_authority evp files c w' = Some (c\<lparr>authority := Some cert, location := Some w'\<rparr>, 1, None)"
    using x509_authority [OF x] by blast
  obtain ks1 where "Key_Con ssl ks (cipher_type (base_cipher c)) subject False = Some (ks1, Some r, None)" "key_heap ks1 = key_heap ks"
    using Key_Con_spec [OF ok ssl, where type = "cipher_type (base_cipher c)" and subject = subject and create = False] c(2) by auto
  moreover have "decode64 encode_init (f @ [NUL]) (int (length f)) (replicate BUFF_SIZE NUL) (int BUFF_SIZE - 1) = Some (m, int n)" "cert_url u"
    using x by (simp_all add: x509_text_def)
  ultimately show ?thesis
    unfolding AES256X509_decode_def using w c(1) by (simp add: cert_url_self x509_master_key_def Let_def)
qed

text \<open>In any other process the envelope is opened into the array of a new key, which has less than the room that opening needs.\<close>

lemma x509_decode_overruns:
  fixes c :: "('k, 'x) x509_cipher"
  assumes ssl: "openssl_ok ssl" and rnd: "random_ok ssl" and evp: "EVP_MAX_KEY_LENGTH ssl = AES256_KEY_SIZE" and ok: "keys_ok ssl ks"
    and c: "master_key (base_cipher c) = None" "cached_key ks (cipher_type (base_cipher c)) subject = None"
    and x: "x509_text evp files cert u f m (16 + length e)" and m: "take (16 + length e) m = iv @ e" "length iv = 16"
    and pk: "private_key cert (Some subject) = Some pem" "PEM_read_bio_PrivateKey evp pem = Some priv"
    and op: "\<forall>rest k. length k < 64 \<longrightarrow> open_buffer evp private_key cert (e @ rest) (int (length e)) k = None"
  shows "AES256X509_decode ssl evp files private_key ks c (URLParse_string (u\<lparr>fragment := f\<rparr>)) len subject = None"
proof -
  let ?t = "cipher_type (base_cipher c)"
  obtain w w' where w: "RDFURN_set RDFURN_Con (Some (URLParse_string (u\<lparr>fragment := f\<rparr>))) = Some w" "parser w = Some (u\<lparr>fragment := f\<rparr>)"
      "RDFURN_set RDFURN_Con (Some (URLParse_string u)) = Some w'"
      "AES256X509_set_authority evp files c w' = Some (c\<lparr>authority := Some cert, location := Some w'\<rparr>, 1, None)"
    using x509_authority [OF x] by blast
  obtain ks1 where K1: "Key_Con ssl ks ?t subject False = Some (ks1, None, None)" "keys_ok ssl ks1" "cached_key ks1 ?t subject = None"
    using Key_Con_spec [OF ok ssl, where type = ?t and subject = subject and create = False] c(2) by auto
  obtain ks2 r k where K2: "Key_Con ssl ks1 ?t subject True = Some (ks2, Some r, None)" "key_heap ks2 r = Some k" "key_ok ssl k"
    using Key_Con_spec [OF K1(2) ssl, where type = ?t and subject = subject and create = True] K1(3) rnd by auto
  have "m = iv @ e @ drop (16 + length e) m" using m(1) by (metis append_take_drop_id append_assoc)
  then have dm: "drop EVP_MAX_IV_LENGTH m = e @ drop (16 + length e) m" using m(2) by (metis EVP_MAX_IV_LENGTH_def append_eq_conv_conj)
  have l: "length (key_data k) < 64" using K2(3) evp by (simp add: key_ok_def AES256_KEY_SIZE_def)
  have ob: "open_buffer evp private_key cert (drop EVP_MAX_IV_LENGTH m) (int (16 + length e) - int EVP_MAX_IV_LENGTH) (key_data k) = None"
    using op l unfolding dm by (simp add: EVP_MAX_IV_LENGTH_def)
  have d: "decode64 encode_init (f @ [NUL]) (int (length f)) (replicate BUFF_SIZE NUL) (int BUFF_SIZE - 1) = Some (m, int (16 + length e))" "cert_url u"
    using x by (simp_all add: x509_text_def)
  show ?thesis unfolding AES256X509_decode_def
    using d w c(1) K1(1) K2(1,2) pk ob by (simp add: cert_url_self Let_def bind_eq_None_conv del: of_nat_add)
qed

section \<open>Properties\<close>

text \<open>C23. The cipher that seals its key with a certificate cannot be used (with \<^verbatim>\<open>EVP_MAX_KEY_LENGTH\<close> 32, as in the releases of OpenSSL the code was written for, random
  bytes at hand, and a certificate URL that parsing and printing keep). Serialising succeeds: the text is the URL of the certificate with a fragment that
  decodes to the vector of the key and an envelope, and opening that envelope into memory with the documented room, 64 bytes, gives the
  key. But the holder of the private key, decoding the text in another process, opens it into the array of the new key, which has 32 bytes, so the call is undefined.
  In the process that has the key, decoding finds it in the cache; and neither cipher can encrypt a chunk there, because the class inherits the
  encryption of the pass phrase cipher and never sets the key schedules it uses.\<close>

theorem x509_cipher_unusable:
  fixes evp :: "('x, 'p, 'c) evp" and ssl :: "'k openssl"
  assumes ssl: "openssl_ok ssl" "random_ok ssl" "EVP_MAX_KEY_LENGTH ssl = AES256_KEY_SIZE" and ok: "keys_ok ssl ks" "keys_ok ssl ks'"
    and new: "cached_key ks' ''aes256'' subject = None" and cert: "evp_ok evp cert priv"
    and loc: "parser loc = Some u" "cert_url u" "files (URLParse_string u) = Some (n, Some pem_cert)" "n \<le> 1024 * 1024" "PEM_read_bio_X509 evp pem_cert = Some cert"
    and pk: "private_key cert None = Some pem" "private_key cert (Some subject) = Some pem" "PEM_read_bio_PrivateKey evp pem = Some priv"
    and j: "length out_junk = BUFF_SIZE"
  shows "\<exists>ks1 c1 r key f m e.
     AES256X509_serialise ssl evp out_junk ks (AES256X509\<lparr>authority := Some cert, location := Some loc\<rparr>) subject = Some (ks1, c1, Some (URLParse_string (u\<lparr>fragment := f\<rparr>)), None) \<and>
     master_key (base_cipher c1) = Some r \<and> key_heap ks1 r = Some key \<and>
     decode64 encode_init (f @ [NUL]) (int (length f)) (replicate BUFF_SIZE NUL) (int BUFF_SIZE - 1) = Some (m, int (16 + length e)) \<and>
     take (16 + length e) m = take 16 (key_iv key) @ e \<and>
     (\<forall>mem rest. 64 \<le> length mem \<longrightarrow> open_buffer evp private_key cert (e @ rest) (int (length e)) mem = Some (key_data key @ drop 32 mem, True, None)) \<and>
     AES256X509_decode ssl evp files private_key ks' AES256X509 (URLParse_string (u\<lparr>fragment := f\<rparr>)) len subject = None \<and>
     AES256X509_encrypt ssl ks1 c1 chunk data out inlen = None \<and>
     (\<exists>ks2 c2. AES256X509_decode ssl evp files private_key ks1 AES256X509 (URLParse_string (u\<lparr>fragment := f\<rparr>)) len subject = Some (ks2, c2, len, None) \<and>
        master_key (base_cipher c2) = Some r \<and> key_heap ks2 r = Some key \<and> AES256X509_encrypt ssl ks2 c2 chunk data out inlen = None)"
proof -
  let ?z = "AES256X509 :: ('k, 'x) x509_cipher"
  let ?c = "?z\<lparr>authority := Some cert, location := Some loc\<rparr>"
  have z: "master_key (base_cipher ?z) = None" "cipher_type (base_cipher ?z) = ''aes256''" "ekey (base_cipher ?z) = None"
    by (simp_all add: AES256X509_def AES256Password_def)
  have c: "master_key (base_cipher ?c) = None" "authority ?c = Some cert" "location ?c = Some loc" using z by simp_all
  obtain ks1 c1 r key e f m where S: "AES256X509_serialise ssl evp out_junk ks ?c subject = Some (ks1, c1, Some (URLParse_string (u\<lparr>fragment := f\<rparr>)), None)"
      "base_cipher c1 = (base_cipher ?c)\<lparr>master_key := Some r\<rparr>" "key_heap ks1 r = Some key" "key_ok ssl key" "length f < BUFF_SIZE"
      "decode64 encode_init (f @ [NUL]) (int (length f)) (replicate BUFF_SIZE NUL) (int BUFF_SIZE - 1) = Some (m, int (16 + length e))"
      "take (16 + length e) m = take 16 (key_iv key) @ e" "length m = BUFF_SIZE" "keys_ok ssl ks1" "cached_key ks1 (cipher_type (base_cipher ?c)) subject = Some r"
      "\<forall>rest k. open_buffer evp private_key cert (e @ rest) (int (length e)) k = (if 64 \<le> length k then Some (key_data key @ drop 32 k, True, None) else None)"
    using x509_serialise [where private_key = private_key and subject = subject, OF ssl ok(1) cert c loc(1) pk(1,3) j] by blast
  have iv: "length (take 16 (key_iv key)) = 16" using S(4) ssl(3) by (simp add: key_ok_def AES256_KEY_SIZE_def)
  have x: "x509_text evp files cert u f m (16 + length e)" using loc(2-5) S(5,6,8) by (simp add: x509_text_def)
  have n: "cached_key ks' (cipher_type (base_cipher ?z)) subject = None" "cached_key ks1 (cipher_type (base_cipher ?z)) subject = Some r"
    using new z(2) S(10) by simp_all
  have "AES256X509_decode ssl evp files private_key ks' ?z (URLParse_string (u\<lparr>fragment := f\<rparr>)) len subject = None"
    using S(11) by (intro x509_decode_overruns [where private_key = private_key and subject = subject, OF ssl ok(2) z(1) n(1) x S(7) iv pk(2,3)]) auto
  moreover obtain ks2 c2 where D: "AES256X509_decode ssl evp files private_key ks1 ?z (URLParse_string (u\<lparr>fragment := f\<rparr>)) len subject = Some (ks2, c2, len, None)"
      "base_cipher c2 = (base_cipher ?z)\<lparr>master_key := Some r\<rparr>" "key_heap ks2 = key_heap ks1"
    using x509_decode_cached [where private_key = private_key and len = len, OF ssl(1) S(9) x z(1) n(2)] by blast
  moreover have "AES256X509_encrypt ssl ks1 c1 chunk data out inlen = None" "AES256X509_encrypt ssl ks2 c2 chunk data out inlen = None"
    using S(2) D(2) z(3) by (simp_all add: unset_schedule)
  moreover have "master_key (base_cipher c1) = Some r" "master_key (base_cipher c2) = Some r" "key_heap ks2 r = Some key" using S(2,3) D(2,3) by simp_all
  moreover have "\<forall>mem rest. 64 \<le> length mem \<longrightarrow> open_buffer evp private_key cert (e @ rest) (int (length e)) mem = Some (key_data key @ drop 32 mem, True, None)"
    using S(11) by simp
  ultimately show ?thesis using S(1,3,6,7) by blast
qed

text \<open>An instance of the envelope interface, and a certificate.\<close>

definition demo_evp :: "(unit, unit, unit) evp" where
  "demo_evp = \<lparr>X509_get_pubkey = Some, EVP_SealInit = (\<lambda>i p. Some (replicate 16 (char_of i), ''ek'', ())), EVP_SealUpdate = (\<lambda>c d. Some (c, d)),
     EVP_SealFinal = (\<lambda>c. Some (replicate 16 NUL)), EVP_PKEY_size = (\<lambda>_. 2), EVP_OpenInit = (\<lambda>ek iv p. Some ()),
     EVP_OpenUpdate = (\<lambda>c b n. Some (c, take (nat n - 16) b)), EVP_OpenFinal = (\<lambda>c. Some []), PEM_read_bio_X509 = (\<lambda>_. Some ()),
     PEM_read_bio_PrivateKey = (\<lambda>_. Some ())\<rparr>"

definition demo_cert_url :: url_parse where
  "demo_cert_url = \<lparr>scheme = ''http'', netloc = ''c'', query = [], fragment = []\<rparr>"

lemma demo_evp_ok: "evp_ok demo_evp () ()"
  by (simp add: evp_ok_def demo_evp_def EVP_MAX_IV_LENGTH_def AES256_KEY_SIZE_def)

lemma demo_cert_url_ok: "cert_url demo_cert_url"
proof -
  have "collapse_path [] = []" by code_simp
  then show ?thesis by (simp add: cert_url_def demo_cert_url_def BUFF_SIZE_def)
qed

theorem x509_cipher_unusable_witness:
  "\<exists>ks1 c1 t ks2 c2.
     AES256X509_serialise demo_ssl demo_evp (replicate BUFF_SIZE NUL) key_store_init
       (AES256X509\<lparr>authority := Some (), location := Some \<lparr>urn_value = ''http://c'', parser = Some demo_cert_url\<rparr>\<rparr>) ''aff4://s'' = Some (ks1, c1, Some t, None) \<and>
     AES256X509_decode demo_ssl demo_evp (\<lambda>_. Some (3, Some ''pem'')) (\<lambda>_ _. Some ''key'') key_store_init AES256X509 t 9 ''aff4://s'' = None \<and>
     AES256X509_decode demo_ssl demo_evp (\<lambda>_. Some (3, Some ''pem'')) (\<lambda>_ _. Some ''key'') ks1 AES256X509 t 9 ''aff4://s'' = Some (ks2, c2, 9, None) \<and>
     AES256X509_encrypt demo_ssl ks2 c2 0 ''0123456789abcdef'' (replicate 16 NUL) 16 = None"
proof -
  have e: "EVP_MAX_KEY_LENGTH demo_ssl = AES256_KEY_SIZE" by (simp add: demo_ssl_def AES256_KEY_SIZE_def)
  have p: "parser \<lparr>urn_value = ''http://c'', parser = Some demo_cert_url\<rparr> = Some demo_cert_url" "(3 :: int) \<le> 1024 * 1024"
      "PEM_read_bio_X509 demo_evp ''pem'' = Some ()" "PEM_read_bio_PrivateKey demo_evp ''key'' = Some ()" "length (replicate BUFF_SIZE NUL) = BUFF_SIZE"
    by (simp_all add: demo_evp_def)
  show ?thesis
    using x509_cipher_unusable [where files = "\<lambda>_. Some (3, Some ''pem'')" and private_key = "\<lambda>_ _. Some ''key''" and subject = "''aff4://s''" and len = 9
        and chunk = 0 and data = "''0123456789abcdef''" and out = "replicate 16 NUL" and inlen = 16,
        OF demo_ssl_ok demo_random_ok e key_store_init_ok(1,1,2) demo_evp_ok p(1) demo_cert_url_ok refl p(2,3) refl refl p(4,5)] by blast
qed

end
