(* ===== verification/Errors.thy ===== *)
theory Errors
  imports Aff4_Prelude
begin

text \<open>
  The error state of \<^verbatim>\<open>lib/error.c\<close> and the macros of \<^verbatim>\<open>include/aff4_errors.h\<close> around it: one buffer for messages and the code of the first error. The other
  components return the code they raise; this theory says what the raising itself does. Messages accumulate, separated by
  line feeds; the bound that is passed to \<^verbatim>\<open>strncat\<close> limits each append and not the result, so the buffer can overflow.
\<close>

section \<open>State and operations\<close>

definition ERROR_BUFF_SIZE :: nat where "ERROR_BUFF_SIZE = 10240"

record error_state =
  error_buffer :: buf
  error_type :: aff4_err

definition error_init :: error_state where
  "error_init = \<lparr>error_buffer = replicate ERROR_BUFF_SIZE NUL, error_type = EZero\<rparr>"

text \<open>The string in a buffer, and \<^verbatim>\<open>strncat\<close>: at most \<open>n\<close> characters of the source and a terminator are written after the string in the destination.\<close>

definition buffer_string :: "buf \<Rightarrow> buf" where
  "buffer_string b = takeWhile (\<lambda>c. c \<noteq> NUL) b"

definition strncat :: "buf \<Rightarrow> buf \<Rightarrow> nat \<Rightarrow> buf option" where
  "strncat dst src n = mem_write (strlen dst) (take n (buffer_string src) @ [NUL]) dst"

text \<open>
  \<open>reason\<close> is the text that formatting gives, or \<open>None\<close> for a NULL format; then \<open>tmp\<close>, the uninitialised local array, is appended. The result of
  the C function is always NULL.
\<close>

definition format_reason :: "buf \<Rightarrow> buf option \<Rightarrow> buf" where
  "format_reason tmp reason =
     (case reason of
        None \<Rightarrow> tmp
      | Some s \<Rightarrow> (let t = take (ERROR_BUFF_SIZE - 2) s in t @ [NUL] @ drop (length t + 1) (butlast tmp) @ [NUL]))"

definition aff4_raise_errors :: "buf \<Rightarrow> error_state \<Rightarrow> aff4_err \<Rightarrow> buf option \<Rightarrow> error_state option" where
  "aff4_raise_errors tmp st t reason =
     (let msg = format_reason tmp reason;
          st1 = (if error_type st = EZero
                 then Some (st\<lparr>error_buffer := (error_buffer st)[0 := NUL], error_type := t\<rparr>)
                 else map_option (\<lambda>b. st\<lparr>error_buffer := b\<rparr>) (strncat (error_buffer st) [CHR 0x0A, NUL] (ERROR_BUFF_SIZE - 1)))
      in case st1 of
           None \<Rightarrow> None
         | Some st2 \<Rightarrow> map_option (\<lambda>b. st2\<lparr>error_buffer := b\<rparr>) (strncat (error_buffer st2) msg (ERROR_BUFF_SIZE - 1)))"

text \<open>The function returns the address of the code; its parameter, which shadows the buffer, is not assigned: the caller's pointer stays as it was.\<close>

definition aff4_get_current_error :: "error_state \<Rightarrow> 'p \<Rightarrow> aff4_err \<times> 'p" where
  "aff4_get_current_error st out = (error_type st, out)"

definition ClearError :: "error_state \<Rightarrow> error_state" where
  "ClearError st = st\<lparr>error_type := EZero\<rparr>"

definition CheckError :: "error_state \<Rightarrow> aff4_err \<Rightarrow> bool" where
  "CheckError st e \<longleftrightarrow> error_type st = e"

text \<open>The pointer that is printed is a local variable without an initial value (\<open>None\<close>); printing through it has no meaning. The result is what is printed.\<close>

definition PrintError :: "error_state \<Rightarrow> (error_state \<times> buf) option" where
  "PrintError st =
     (case aff4_get_current_error st (None :: buf option) of
        (e, p) \<Rightarrow> if e \<noteq> EZero then map_option (\<lambda>s. (ClearError st, s)) p else Some (ClearError st, []))"

definition LogWarnings :: "buf \<Rightarrow> error_state \<Rightarrow> buf \<Rightarrow> (error_state \<times> buf) option" where
  "LogWarnings tmp st s =
     (case aff4_raise_errors tmp st EWarning (Some s) of None \<Rightarrow> None | Some st1 \<Rightarrow> PrintError st1)"

text \<open>\<^verbatim>\<open>PUSH_ERROR_STATE\<close> and \<^verbatim>\<open>POP_ERROR_STATE\<close> around an action: the code is kept, the buffer is not.\<close>

definition with_error_state :: "error_state \<Rightarrow> (error_state \<Rightarrow> error_state option) \<Rightarrow> error_state option" where
  "with_error_state st act = map_option (\<lambda>st1. st1\<lparr>error_type := error_type st\<rparr>) (act st)"

section \<open>Lemmas\<close>

definition error_text :: "error_state \<Rightarrow> buf" where
  "error_text st = buffer_string (error_buffer st)"

lemma buffer_string_before_NUL: "NUL \<notin> set s \<Longrightarrow> buffer_string (s @ NUL # r) = s"
proof -
  assume "NUL \<notin> set s"
  then have "\<forall>c \<in> set s. c \<noteq> NUL" by auto
  then show ?thesis by (simp add: buffer_string_def takeWhile_append2)
qed

lemma strlen_buffer_string: "strlen b = length (buffer_string b)"
  by (simp add: strlen_def buffer_string_def)

lemma buffer_string_no_NUL: "NUL \<notin> set (buffer_string b)"
  by (auto simp: buffer_string_def dest: set_takeWhileD)

lemma strncat_spec:
  assumes s: "NUL \<notin> set s" "length s \<le> n"
  shows "if length (buffer_string dst) + length s < length dst
     then \<exists>d. strncat dst (s @ NUL # r) n = Some d \<and> length d = length dst \<and> buffer_string d = buffer_string dst @ s
     else strncat dst (s @ NUL # r) n = None"
proof -
  have t: "take (length (buffer_string dst)) dst = buffer_string dst" by (simp add: buffer_string_def takeWhile_eq_take [symmetric])
  have e: "take n (buffer_string (s @ NUL # r)) = s" using buffer_string_before_NUL [OF s(1)] s(2) by simp
  define d where "d = buffer_string dst @ s @ NUL # drop (length (buffer_string dst) + length s + 1) dst"
  have "buffer_string d = buffer_string dst @ s"
    using buffer_string_before_NUL [of "buffer_string dst @ s"] buffer_string_no_NUL [of dst] s(1) by (simp add: d_def)
  moreover have "strncat dst (s @ NUL # r) n = (if length (buffer_string dst) + length s < length dst then Some d else None)"
    by (simp add: strncat_def e mem_write_def strlen_buffer_string t d_def Suc_le_eq)
  ultimately show ?thesis by (auto simp: d_def)
qed

text \<open>Raising a message into a state with a full-sized buffer.\<close>

lemma format_reason_terminated:
  assumes "NUL \<notin> set m" "length m < ERROR_BUFF_SIZE - 1"
  shows "\<exists>r. format_reason tmp (Some m) = m @ NUL # r"
  using assms by (auto simp: format_reason_def Let_def)

lemma raise_spec:
  assumes m: "NUL \<notin> set m" "length m < ERROR_BUFF_SIZE - 1" and b: "length (error_buffer st) = ERROR_BUFF_SIZE"
  defines "new \<equiv> (if error_type st = EZero then m else error_text st @ CHR 0x0A # m)"
  shows "if length new < ERROR_BUFF_SIZE
     then \<exists>st'. aff4_raise_errors tmp st t (Some m) = Some st' \<and> length (error_buffer st') = ERROR_BUFF_SIZE \<and> error_text st' = new \<and>
       error_type st' = (if error_type st = EZero then t else error_type st)
     else aff4_raise_errors tmp st t (Some m) = None"
proof -
  obtain r where r: "format_reason tmp (Some m) = m @ NUL # r" using format_reason_terminated [OF m] by blast
  have le: "length m \<le> ERROR_BUFF_SIZE - 1" using m(2) by simp
  note C = strncat_spec [OF m(1) le, where r = r]
  show ?thesis
  proof (cases "error_type st = EZero")
    case True
    define d where "d = (error_buffer st)[0 := NUL]"
    have "error_buffer st \<noteq> []" using b by (auto simp: ERROR_BUFF_SIZE_def)
    then have d: "buffer_string d = []" "length d = ERROR_BUFF_SIZE" using b by (auto simp: d_def buffer_string_def neq_Nil_conv)
    have "length m < ERROR_BUFF_SIZE" using m(2) by simp
    with C [of d] d obtain d' where "strncat d (m @ NUL # r) (ERROR_BUFF_SIZE - 1) = Some d'" "length d' = ERROR_BUFF_SIZE" "buffer_string d' = m" by auto
    then show ?thesis
      using True r \<open>length m < ERROR_BUFF_SIZE\<close> by (simp add: aff4_raise_errors_def new_def d_def error_text_def Let_def)
  next
    case False
    have nl: "NUL \<notin> set [CHR 0x0A]" "length [CHR 0x0A] \<le> ERROR_BUFF_SIZE - 1" by (simp_all add: ERROR_BUFF_SIZE_def)
    note N = strncat_spec [OF nl, of "error_buffer st" "[]", unfolded b]
    show ?thesis
    proof (cases "length (error_text st) + 1 < ERROR_BUFF_SIZE")
      case True
      with N obtain d where d: "strncat (error_buffer st) [CHR 0x0A, NUL] (ERROR_BUFF_SIZE - 1) = Some d" "length d = ERROR_BUFF_SIZE"
          "buffer_string d = error_text st @ [CHR 0x0A]" by (auto simp: error_text_def)
      have r0: "aff4_raise_errors tmp st t (Some m) = map_option (\<lambda>b. st\<lparr>error_buffer := b\<rparr>) (strncat d (m @ NUL # r) (ERROR_BUFF_SIZE - 1))"
        using False d(1) r by (simp add: aff4_raise_errors_def Let_def)
      have ln: "length new = length (buffer_string d) + length m" using False d(3) by (simp add: new_def)
      show ?thesis
      proof (cases "length new < ERROR_BUFF_SIZE")
        case True
        with C [of d] d(2) ln obtain d' where "strncat d (m @ NUL # r) (ERROR_BUFF_SIZE - 1) = Some d'" "length d' = ERROR_BUFF_SIZE"
            "buffer_string d' = error_text st @ [CHR 0x0A] @ m" using d(3) by auto
        then show ?thesis using True False r0 by (simp add: new_def error_text_def)
      next
        case False
        then show ?thesis using C [of d] d(2) ln r0 by simp
      qed
    next
      case big: False
      then have "strncat (error_buffer st) [CHR 0x0A, NUL] (ERROR_BUFF_SIZE - 1) = None" using N by (simp add: error_text_def)
      moreover have "\<not> length new < ERROR_BUFF_SIZE" using big False by (simp add: new_def)
      ultimately show ?thesis using False by (simp add: aff4_raise_errors_def Let_def)
    qed
  qed
qed

fun raise_all :: "buf \<Rightarrow> error_state \<Rightarrow> (aff4_err \<times> buf) list \<Rightarrow> error_state option" where
  "raise_all tmp st [] = Some st"
| "raise_all tmp st ((t, m) # es) = (case aff4_raise_errors tmp st t (Some m) of None \<Rightarrow> None | Some st1 \<Rightarrow> raise_all tmp st1 es)"

definition joined :: "(aff4_err \<times> buf) list \<Rightarrow> buf" where
  "joined es = concat (map (\<lambda>(t, m). CHR 0x0A # m) es)"

lemma raise_more:
  assumes "length (error_buffer st) = ERROR_BUFF_SIZE" "error_type st \<noteq> EZero" "length (error_text st) < ERROR_BUFF_SIZE"
    "\<forall>(t, m) \<in> set es. NUL \<notin> set m \<and> length m < ERROR_BUFF_SIZE - 1"
  shows "case raise_all tmp st es of
      None \<Rightarrow> ERROR_BUFF_SIZE \<le> length (error_text st @ joined es)
    | Some st' \<Rightarrow> length (error_text st @ joined es) < ERROR_BUFF_SIZE \<and> error_text st' = error_text st @ joined es \<and> error_type st' = error_type st"
  using assms
proof (induction es arbitrary: st)
  case Nil
  then show ?case by (simp add: joined_def)
next
  case (Cons e es)
  obtain t m where e: "e = (t, m)" by (cases e)
  then have m: "NUL \<notin> set m" "length m < ERROR_BUFF_SIZE - 1" using Cons.prems(4) by auto
  define new where "new = error_text st @ CHR 0x0A # m"
  have j: "error_text st @ joined (e # es) = new @ joined es" by (simp add: joined_def e new_def)
  note R = raise_spec [OF m Cons.prems(1), of tmp t, unfolded if_not_P [OF Cons.prems(2)], folded new_def]
  show ?case
  proof (cases "length new < ERROR_BUFF_SIZE")
    case False
    then show ?thesis using R unfolding j by (simp add: e)
  next
    case True
    then obtain st' where st': "aff4_raise_errors tmp st t (Some m) = Some st'" "length (error_buffer st') = ERROR_BUFF_SIZE" "error_text st' = new"
        "error_type st' = error_type st"
      using R by auto
    have "raise_all tmp st (e # es) = raise_all tmp st' es" by (simp add: e st'(1))
    moreover have "\<forall>(t, m) \<in> set es. NUL \<notin> set m \<and> length m < ERROR_BUFF_SIZE - 1" using Cons.prems(4) by simp
    ultimately show ?thesis using Cons.IH [OF st'(2), unfolded st'(3,4), OF Cons.prems(2) True] unfolding j by (simp only:)
  qed
qed

section \<open>Properties\<close>

text \<open>C33. Raising errors: starting from a clear state, the messages accumulate in the order in which they are raised, separated by line
  feeds, under the code of the first one, as long as all of them with a terminator fit into the buffer; a sequence of messages that
  is longer writes behind the end of the buffer, although every append is bounded.\<close>

theorem error_messages_accumulate:
  assumes "length (error_buffer st) = ERROR_BUFF_SIZE" "error_type st = EZero" "t \<noteq> EZero"
    and "\<forall>(t', m') \<in> set ((t, m) # es). NUL \<notin> set m' \<and> length m' < ERROR_BUFF_SIZE - 1"
  shows "case raise_all tmp st ((t, m) # es) of
      None \<Rightarrow> ERROR_BUFF_SIZE \<le> length (m @ joined es)
    | Some st' \<Rightarrow> length (m @ joined es) < ERROR_BUFF_SIZE \<and> error_text st' = m @ joined es \<and> error_type st' = t"
proof -
  have m: "NUL \<notin> set m" "length m < ERROR_BUFF_SIZE - 1" using assms(4) by auto
  have lt: "length m < ERROR_BUFF_SIZE" using m(2) by simp
  obtain st1 where "aff4_raise_errors tmp st t (Some m) = Some st1" "length (error_buffer st1) = ERROR_BUFF_SIZE" "error_text st1 = m" "error_type st1 = t"
    using raise_spec [OF m assms(1), of tmp t, unfolded if_P [OF assms(2)] if_P [OF lt]] by blast
  note st1 = this
  have "raise_all tmp st ((t, m) # es) = raise_all tmp st1 es" by (simp add: st1(1))
  moreover have "\<forall>(t, m) \<in> set es. NUL \<notin> set m \<and> length m < ERROR_BUFF_SIZE - 1" using assms(4) by simp
  ultimately show ?thesis using raise_more [OF st1(2), unfolded st1(3,4), OF assms(3) lt] by (simp only:)
qed

theorem error_messages_accumulate_witness:
  "raise_all (replicate ERROR_BUFF_SIZE NUL) error_init (replicate 2 (EIOError, replicate 6000 (CHR ''x''))) = None"
proof -
  let ?m = "replicate 6000 (CHR ''x'')"
  have p: "length (error_buffer error_init) = ERROR_BUFF_SIZE" "error_type error_init = EZero" "EIOError \<noteq> EZero"
      "\<forall>(t', m') \<in> set ((EIOError, ?m) # [(EIOError, ?m)]). NUL \<notin> set m' \<and> length m' < ERROR_BUFF_SIZE - 1"
    by (simp_all add: error_init_def ERROR_BUFF_SIZE_def)
  have "\<not> length (?m @ joined [(EIOError, ?m)]) < ERROR_BUFF_SIZE" by (simp add: joined_def ERROR_BUFF_SIZE_def)
  with error_messages_accumulate [OF p, of "replicate ERROR_BUFF_SIZE NUL"] show ?thesis by (auto simp: numeral_2_eq_2 split: option.splits)
qed

text \<open>Printing the pending error reads a pointer that was never set, so logging a warning does too.\<close>

lemma print_error_undefined: "error_type st \<noteq> EZero \<Longrightarrow> PrintError st = None"
  by (simp add: PrintError_def aff4_get_current_error_def)

lemma log_warnings_undefined:
  assumes "length (error_buffer st) = ERROR_BUFF_SIZE" "NUL \<notin> set s" "length s < ERROR_BUFF_SIZE - 1"
  shows "LogWarnings tmp st s = None"
proof (cases "aff4_raise_errors tmp st EWarning (Some s)")
  case (Some st')
  then have "error_type st' \<noteq> EZero" using raise_spec [OF assms(2,3,1), of tmp EWarning] by (auto split: if_splits)
  then show ?thesis using Some by (simp add: LogWarnings_def print_error_undefined)
qed (simp add: LogWarnings_def)

end
