(* ===== verification/Md5.thy ===== *)
theory Md5
  imports Chunks "HOL-Library.Word"
begin

unbundle bit_operations_syntax

text \<open>
  The message digest of \<^verbatim>\<open>lib/md5c.c\<close>. The type \<^verbatim>\<open>UINT4\<close> is declared in \<^verbatim>\<open>crypto/md5.h\<close> as \<^verbatim>\<open>unsigned long\<close>, whose width differs between platforms, so every
  operation is polymorphic in the width of a word. The context buffers input until a block of 64 bytes is complete; the theory
  shows that for words of 32 bits the digest is the one of the padded message whatever the pieces in which it arrived, and that
  for words of 64 bits it is not the message digest.
\<close>

section \<open>Basic functions\<close>

definition md5_F :: "'w::len word \<Rightarrow> 'w word \<Rightarrow> 'w word \<Rightarrow> 'w word" where
  "md5_F x y z = (x AND y) OR (NOT x AND z)"

definition md5_G :: "'w::len word \<Rightarrow> 'w word \<Rightarrow> 'w word \<Rightarrow> 'w word" where
  "md5_G x y z = (x AND z) OR (y AND NOT z)"

definition md5_H :: "'w::len word \<Rightarrow> 'w word \<Rightarrow> 'w word \<Rightarrow> 'w word" where
  "md5_H x y z = x XOR y XOR z"

definition md5_I :: "'w::len word \<Rightarrow> 'w word \<Rightarrow> 'w word \<Rightarrow> 'w word" where
  "md5_I x y z = y XOR (x OR NOT z)"

definition ROTATE_LEFT :: "'w::len word \<Rightarrow> nat \<Rightarrow> 'w word" where
  "ROTATE_LEFT x n = push_bit n x OR drop_bit (32 - n) x"

type_synonym 'w md5_state = "'w word \<times> 'w word \<times> 'w word \<times> 'w word"

text \<open>
  One call of \<^verbatim>\<open>FF\<close>, \<^verbatim>\<open>GG\<close>, \<^verbatim>\<open>HH\<close> or \<^verbatim>\<open>II\<close>. The variables are listed in the order in which the call names them, and the next call names them
  rotated by one: \<^verbatim>\<open>(a, b, c, d)\<close>, \<^verbatim>\<open>(d, a, b, c)\<close>, \<^verbatim>\<open>(c, d, a, b)\<close>, \<^verbatim>\<open>(b, c, d, a)\<close>.
\<close>

definition md5_step :: "('w::len word \<Rightarrow> 'w word \<Rightarrow> 'w word \<Rightarrow> 'w word) \<Rightarrow> 'w word list \<Rightarrow> 'w md5_state \<Rightarrow> nat \<times> nat \<times> int \<Rightarrow> 'w md5_state" where
  "md5_step f x st e =
     (case st of (a, b, c, d) \<Rightarrow> case e of (k, s, ac) \<Rightarrow>
        (let a1 = a + (f b c d + x ! k + of_int ac); a2 = ROTATE_LEFT a1 s in (d, a2 + b, b, c)))"

text \<open>The calls of the four rounds: the index into the block, the rotation (\<^verbatim>\<open>S11\<close> to \<^verbatim>\<open>S44\<close>) and the constant.\<close>

definition steps_FF :: "(nat \<times> nat \<times> int) list" where
  "steps_FF = [
     (0, 7, 0xd76aa478), (1, 12, 0xe8c7b756), (2, 17, 0x242070db), (3, 22, 0xc1bdceee),
     (4, 7, 0xf57c0faf), (5, 12, 0x4787c62a), (6, 17, 0xa8304613), (7, 22, 0xfd469501),
     (8, 7, 0x698098d8), (9, 12, 0x8b44f7af), (10, 17, 0xffff5bb1), (11, 22, 0x895cd7be),
     (12, 7, 0x6b901122), (13, 12, 0xfd987193), (14, 17, 0xa679438e), (15, 22, 0x49b40821)]"

definition steps_GG :: "(nat \<times> nat \<times> int) list" where
  "steps_GG = [
     (1, 5, 0xf61e2562), (6, 9, 0xc040b340), (11, 14, 0x265e5a51), (0, 20, 0xe9b6c7aa),
     (5, 5, 0xd62f105d), (10, 9, 0x2441453), (15, 14, 0xd8a1e681), (4, 20, 0xe7d3fbc8),
     (9, 5, 0x21e1cde6), (14, 9, 0xc33707d6), (3, 14, 0xf4d50d87), (8, 20, 0x455a14ed),
     (13, 5, 0xa9e3e905), (2, 9, 0xfcefa3f8), (7, 14, 0x676f02d9), (12, 20, 0x8d2a4c8a)]"

definition steps_HH :: "(nat \<times> nat \<times> int) list" where
  "steps_HH = [
     (5, 4, 0xfffa3942), (8, 11, 0x8771f681), (11, 16, 0x6d9d6122), (14, 23, 0xfde5380c),
     (1, 4, 0xa4beea44), (4, 11, 0x4bdecfa9), (7, 16, 0xf6bb4b60), (10, 23, 0xbebfbc70),
     (13, 4, 0x289b7ec6), (0, 11, 0xeaa127fa), (3, 16, 0xd4ef3085), (6, 23, 0x4881d05),
     (9, 4, 0xd9d4d039), (12, 11, 0xe6db99e5), (15, 16, 0x1fa27cf8), (2, 23, 0xc4ac5665)]"

definition steps_II :: "(nat \<times> nat \<times> int) list" where
  "steps_II = [
     (0, 6, 0xf4292244), (7, 10, 0x432aff97), (14, 15, 0xab9423a7), (5, 21, 0xfc93a039),
     (12, 6, 0x655b59c3), (3, 10, 0x8f0ccc92), (10, 15, 0xffeff47d), (1, 21, 0x85845dd1),
     (8, 6, 0x6fa87e4f), (15, 10, 0xfe2ce6e0), (6, 15, 0xa3014314), (13, 21, 0x4e0811a1),
     (4, 6, 0xf7537e82), (11, 10, 0xbd3af235), (2, 15, 0x2ad7d2bb), (9, 21, 0xeb86d391)]"

section \<open>Blocks\<close>

definition Encode_word :: "'w::len word \<Rightarrow> buf" where
  "Encode_word w = map (\<lambda>k. char_of (unat (drop_bit (8 * k) w AND 0xff))) [0, 1, 2, 3]"

definition Encode_words :: "'w::len word list \<Rightarrow> buf" where
  "Encode_words ws = concat (map Encode_word ws)"

definition Decode_word :: "buf \<Rightarrow> 'w::len word" where
  "Decode_word b = of_char (b ! 0) OR push_bit 8 (of_char (b ! 1)) OR push_bit 16 (of_char (b ! 2)) OR push_bit 24 (of_char (b ! 3))"

definition Decode :: "buf \<Rightarrow> 'w::len word list" where
  "Decode b = map (\<lambda>i. Decode_word (drop (4 * i) b)) [0 ..< length b div 4]"

definition MD5Transform :: "'w::len md5_state \<Rightarrow> buf \<Rightarrow> 'w md5_state" where
  "MD5Transform st block =
     (let x = Decode block;
          r1 = foldl (md5_step md5_F x) st steps_FF;
          r2 = foldl (md5_step md5_G x) r1 steps_GG;
          r3 = foldl (md5_step md5_H x) r2 steps_HH;
          r4 = foldl (md5_step md5_I x) r3 steps_II
      in case st of (s0, s1, s2, s3) \<Rightarrow> case r4 of (a, b, c, d) \<Rightarrow> (s0 + a, s1 + b, s2 + c, s3 + d))"

section \<open>The context\<close>

record (overloaded) 'w md5_ctx =
  md5_state :: "'w::len md5_state"
  count0 :: "'w::len word"
  count1 :: "'w::len word"
  md5_buffer :: buf

definition MD5_magic :: "'w::len md5_state" where
  "MD5_magic = (0x67452301, 0xefcdab89, 0x98badcfe, 0x10325476)"

definition MD5_Init :: "('w::len) md5_ctx \<Rightarrow> 'w md5_ctx" where
  "MD5_Init ctx = ctx\<lparr>count0 := 0, count1 := 0, md5_state := MD5_magic\<rparr>"

definition PADDING :: buf where
  "PADDING = CHR 0x80 # replicate 63 NUL"

text \<open>The loop over whole blocks of the input; the index is an unsigned int, and so is its sum with 63.\<close>

function md5_loop :: "('w::len) md5_state \<Rightarrow> buf \<Rightarrow> nat \<Rightarrow> ('w md5_state \<times> nat) option" where
  "md5_loop st input i =
     (if u32 (int i + 63) < int (length input)
      then if i + 64 \<le> length input then md5_loop (MD5Transform st (take 64 (drop i input))) input (i + 64) else None
      else Some (st, i))"
  by pat_completeness auto
termination by (relation "measure (\<lambda>(st, input, i). length input - i)") auto

declare md5_loop.simps [simp del]

definition md5_index :: "'w::len word \<Rightarrow> nat" where
  "md5_index c = unat (drop_bit 3 c AND 0x3F)"

definition md5_count :: "('w::len) md5_ctx \<Rightarrow> nat \<Rightarrow> 'w md5_ctx" where
  "md5_count ctx len =
     (let bits = push_bit 3 (of_nat len); c0 = count0 ctx + bits;
          c1 = (if c0 < bits then count1 ctx + 1 else count1 ctx)
      in ctx\<lparr>count0 := c0, count1 := c1 + drop_bit 29 (of_nat len)\<rparr>)"

definition MD5_Update :: "('w::len) md5_ctx \<Rightarrow> buf \<Rightarrow> 'w md5_ctx option" where
  "MD5_Update ctx input =
     (let index = md5_index (count0 ctx);
          ctx1 = md5_count ctx (length input);
          partLen = 64 - index
      in if partLen \<le> length input
         then (case mem_write index (take partLen input) (md5_buffer ctx1) of
                 None \<Rightarrow> None
               | Some b1 \<Rightarrow>
                   (case md5_loop (MD5Transform (md5_state ctx1) b1) input partLen of
                      None \<Rightarrow> None
                    | Some (st, i) \<Rightarrow>
                        map_option (\<lambda>b. ctx1\<lparr>md5_state := st, md5_buffer := b\<rparr>) (mem_write 0 (drop i input) b1)))
         else map_option (\<lambda>b. ctx1\<lparr>md5_buffer := b\<rparr>) (mem_write index input (md5_buffer ctx1)))"

definition state_words :: "'w md5_state \<Rightarrow> 'w word list" where
  "state_words st = (case st of (a, b, c, d) \<Rightarrow> [a, b, c, d])"

text \<open>The digest and the zeroized context.\<close>

definition MD5_Final :: "('w::len) md5_ctx \<Rightarrow> (buf \<times> 'w md5_ctx) option" where
  "MD5_Final ctx =
     (let bits = Encode_words [count0 ctx, count1 ctx];
          index = md5_index (count0 ctx);
          padLen = (if index < 56 then 56 - index else 120 - index)
      in case MD5_Update ctx (take padLen PADDING) of
           None \<Rightarrow> None
         | Some ctx1 \<Rightarrow>
             (case MD5_Update ctx1 bits of
                None \<Rightarrow> None
              | Some ctx2 \<Rightarrow>
                  Some (Encode_words (state_words (md5_state ctx2)),
                        \<lparr>md5_state = (0, 0, 0, 0), count0 = 0, count1 = 0, md5_buffer = replicate 64 NUL\<rparr>)))"

section \<open>Buffering\<close>

text \<open>What holds of a context that was given \<open>data\<close>, whatever the width of a word.\<close>

definition md5_inv :: "('w::len) md5_ctx \<Rightarrow> buf \<Rightarrow> bool" where
  "md5_inv ctx data \<longleftrightarrow> md5_state ctx = fold_chunks MD5Transform 64 MD5_magic data \<and> length (md5_buffer ctx) = 64 \<and>
     take (length data mod 64) (md5_buffer ctx) = last_part 64 data \<and> count0 ctx = of_nat (8 * length data)"

lemma md5_index_of_nat:
  assumes "9 \<le> LENGTH('w::len)"
  shows "md5_index (of_nat (8 * n) :: 'w word) = n mod 64"
proof -
  have m: "(0x3F :: 'w word) = mask 6" by (simp add: mask_eq_exp_minus_1)
  have "unat (drop_bit 3 (of_nat (8 * n) :: 'w word) AND 0x3F) = take_bit 6 (drop_bit 3 (take_bit LENGTH('w) (8 * n)))"
    unfolding m take_bit_eq_mask [symmetric] by (simp add: unsigned_take_bit_eq unsigned_drop_bit_eq unsigned_of_nat del: of_nat_mult)
  also have "\<dots> = drop_bit 3 (take_bit 9 (8 * n))"
    using assms by (simp add: take_bit_drop_bit min_def)
  also have "\<dots> = take_bit 6 (drop_bit 3 (8 * n))" by (simp add: take_bit_drop_bit)
  also have "\<dots> = n mod 64" by (simp add: drop_bit_eq_div take_bit_eq_mod)
  finally show ?thesis by (simp add: md5_index_def)
qed

lemma md5_loop_spec:
  assumes "length input < 2 ^ 32 - 64" "i \<le> length input"
  shows "md5_loop st input i = Some (fold_chunks MD5Transform 64 st (drop i input), i + (length input - i) div 64 * 64)"
  using assms(2)
proof (induction "length input - i" arbitrary: i st rule: less_induct)
  case less
  have u: "u32 (int i + 63) = int i + 63" using assms(1) less.prems by (simp add: u32_id)
  show ?case
  proof (cases "i + 64 \<le> length input")
    case False
    then have "length (drop i input) < 64" using less.prems by simp
    then show ?thesis using u False less.prems short_chunks(2) [OF \<open>length (drop i input) < 64\<close>, of MD5Transform st]
      by (subst md5_loop.simps) (simp add: div_eq_0_iff)
  next
    case True
    have d: "drop i input = take 64 (drop i input) @ drop (i + 64) input" by (metis append_take_drop_id drop_drop add.commute)
    have f: "fold_chunks MD5Transform 64 st (drop i input) = fold_chunks MD5Transform 64 (MD5Transform st (take 64 (drop i input))) (drop (i + 64) input)"
    proof -
      have "length (take 64 (drop i input)) = 64" using True by simp
      from first_chunk(2) [OF _ this, of MD5Transform st "drop (i + 64) input"] show ?thesis unfolding d [symmetric] by simp
    qed
    have n: "(length input - i) div 64 = Suc ((length input - (i + 64)) div 64)"
    proof -
      obtain m where "length input = i + 64 + m" using True le_Suc_ex by blast
      then show ?thesis by simp
    qed
    have "md5_loop st input i = md5_loop (MD5Transform st (take 64 (drop i input))) input (i + 64)"
      using u True by (subst md5_loop.simps) simp
    then show ?thesis using less.hyps [of "i + 64"] True f n by simp
  qed
qed

lemma md5_count_fields:
  "md5_state (md5_count ctx n) = md5_state ctx" "md5_buffer (md5_count ctx n) = md5_buffer ctx"
  "count0 (md5_count ctx n) = count0 ctx + of_nat (8 * n)"
  by (simp_all add: md5_count_def Let_def push_bit_eq_mult mult.commute)

text \<open>An update continues with the data of the call.\<close>

lemma MD5_Update_spec:
  fixes ctx :: "('w::len) md5_ctx"
  assumes w: "9 \<le> LENGTH('w)" and inv: "md5_inv ctx data" and len: "length input < 2 ^ 32 - 64"
  shows "\<exists>ctx'. MD5_Update ctx input = Some ctx' \<and> md5_inv ctx' (data @ input) \<and> count1 ctx' = count1 (md5_count ctx (length input))"
proof -
  define idx where "idx = length data mod 64"
  define ctx1 where "ctx1 = md5_count ctx (length input)"
  have I: "md5_state ctx = fold_chunks MD5Transform 64 MD5_magic data" "length (md5_buffer ctx) = 64"
      "take idx (md5_buffer ctx) = last_part 64 data" "count0 ctx = of_nat (8 * length data)"
    using inv by (simp_all add: md5_inv_def idx_def)
  have C: "md5_state ctx1 = md5_state ctx" "md5_buffer ctx1 = md5_buffer ctx" "count0 ctx1 = of_nat (8 * length (data @ input))"
    unfolding ctx1_def md5_count_fields I(4) by (simp_all add: algebra_simps)
  have ix: "md5_index (count0 ctx) = idx" unfolding I(4) idx_def by (rule md5_index_of_nat [OF w])
  have il: "idx < 64" "length (last_part 64 data) = idx" by (simp_all add: idx_def last_part_mod)
  note F = fold_chunks_append [of 64 MD5Transform MD5_magic data input, simplified, folded I(1)]
  note L = last_part_append [of 64 data input, simplified]
  show ?thesis
  proof (cases "64 - idx \<le> length input")
    case True
    define part where "part = 64 - idx"
    define b where "b = last_part 64 data @ take part input"
    define rest where "rest = drop part input"
    have b: "length b = 64" "last_part 64 data @ input = b @ rest" using True il by (simp_all add: b_def rest_def part_def)
    have w1: "mem_write idx (take part input) (md5_buffer ctx1) = Some b"
      using True il I(2,3) unfolding C(2) by (simp add: mem_write_def b_def part_def)
    define st where "st = fold_chunks MD5Transform 64 (MD5Transform (md5_state ctx) b) rest"
    have st: "fold_chunks MD5Transform 64 MD5_magic (data @ input) = st" "last_part 64 (data @ input) = last_part 64 rest"
      unfolding F L b(2) using first_chunk [of 64 b, simplified, OF b(1)] by (simp_all add: st_def I(1))
    have loop: "md5_loop (MD5Transform (md5_state ctx1) b) input part = Some (st, part + length rest div 64 * 64)"
      using md5_loop_spec [OF len, of part] True unfolding C(1) st_def rest_def part_def by simp
    have dr: "drop (part + length rest div 64 * 64) input = last_part 64 rest" by (simp add: last_part_def rest_def add.commute)
    have lr: "length (last_part 64 rest) < 64" by (rule length_last_part) simp
    define b2 where "b2 = last_part 64 rest @ drop (length (last_part 64 rest)) b"
    have w2: "mem_write 0 (last_part 64 rest) b = Some b2" using lr b(1) by (simp add: mem_write_def b2_def)
    have "MD5_Update ctx input = Some (ctx1\<lparr>md5_state := st, md5_buffer := b2\<rparr>)"
      using True w1 loop w2 dr by (simp add: MD5_Update_def ix ctx1_def [symmetric] part_def [symmetric] Let_def)
    moreover have "md5_inv (ctx1\<lparr>md5_state := st, md5_buffer := b2\<rparr>) (data @ input)"
      unfolding md5_inv_def last_part_mod [symmetric] st using C(3) b(1) lr st(1) by (simp add: b2_def)
    ultimately show ?thesis by (simp add: ctx1_def)
  next
    case False
    define b where "b = last_part 64 data @ input @ drop (idx + length input) (md5_buffer ctx)"
    have sh: "length (last_part 64 data @ input) < 64" using False il by simp
    have w1: "mem_write idx input (md5_buffer ctx1) = Some b"
      using False I(2,3) unfolding C(2) by (simp add: mem_write_def b_def)
    have "MD5_Update ctx input = Some (ctx1\<lparr>md5_buffer := b\<rparr>)"
      using False w1 by (simp add: MD5_Update_def ix ctx1_def [symmetric] Let_def)
    moreover have "md5_inv (ctx1\<lparr>md5_buffer := b\<rparr>) (data @ input)"
      unfolding md5_inv_def last_part_mod [symmetric] L short_chunks(1) [OF sh] F short_chunks(2) [OF sh]
      using C sh I(1,2) il by (simp add: b_def)
    ultimately show ?thesis by (simp add: ctx1_def)
  qed
qed

section \<open>The message digest\<close>

text \<open>The padded message: a byte with the top bit set, zeros up to eight bytes before the end of a block, and the number of bits.\<close>

definition md5_padding :: "nat \<Rightarrow> buf" where
  "md5_padding n = CHR 0x80 # replicate ((119 - n mod 64) mod 64) NUL"

definition md5_digest :: "buf \<Rightarrow> buf" where
  "md5_digest data =
     Encode_words (state_words (fold_chunks MD5Transform 64 (MD5_magic :: 32 md5_state)
       (data @ md5_padding (length data) @ le_bytes 8 (8 * length data))))"

fun md5_updates :: "('w::len) md5_ctx \<Rightarrow> buf list \<Rightarrow> 'w md5_ctx option" where
  "md5_updates ctx [] = Some ctx"
| "md5_updates ctx (x # xs) = (case MD5_Update ctx x of None \<Rightarrow> None | Some ctx1 \<Rightarrow> md5_updates ctx1 xs)"

lemma MD5_Init_inv: "length (md5_buffer ctx) = 64 \<Longrightarrow> md5_inv (MD5_Init ctx) []"
  by (simp add: md5_inv_def MD5_Init_def fold_chunks_def last_part_def)

lemma padding_eq:
  assumes "idx = n mod 64"
  shows "take (if idx < 56 then 56 - idx else 120 - idx) PADDING = md5_padding n"
    "length (md5_padding n) = (if idx < 56 then 56 - idx else 120 - idx)"
proof -
  have i: "idx < 64" by (simp add: assms)
  have "(119 - n mod 64) mod 64 = (if idx < 56 then 55 - idx else 119 - idx)"
  proof (cases "idx < 56")
    case True
    then have "119 - n mod 64 = (55 - idx) + 64" unfolding assms by linarith
    then have "(119 - n mod 64) mod 64 = (55 - idx + 64) mod 64" by (simp only:)
    also have "\<dots> = 55 - idx" unfolding mod_add_self2 by (rule mod_less) simp
    finally show ?thesis using True by simp
  next
    case False
    then have "119 - n mod 64 = 119 - idx" "119 - idx < 64" by (simp_all add: assms)
    then show ?thesis using False by simp
  qed
  then show "take (if idx < 56 then 56 - idx else 120 - idx) PADDING = md5_padding n"
    "length (md5_padding n) = (if idx < 56 then 56 - idx else 120 - idx)"
    using i by (auto simp: PADDING_def md5_padding_def take_Cons' min_def)
qed

text \<open>Finishing, for words of every width: the blocks are those of the data, the padding and the two counters.\<close>

lemma MD5_Final_spec:
  fixes ctx :: "('w::len) md5_ctx"
  assumes w: "9 \<le> LENGTH('w)" and inv: "md5_inv ctx data"
  shows "\<exists>ctx'. MD5_Final ctx = Some (Encode_words (state_words (fold_chunks MD5Transform 64 (MD5_magic :: 'w md5_state)
     (data @ md5_padding (length data) @ Encode_words [count0 ctx, count1 ctx]))), ctx')"
proof -
  have ix: "md5_index (count0 ctx) = length data mod 64"
    using inv md5_index_of_nat [OF w] by (simp add: md5_inv_def)
  note P = padding_eq [OF refl, of "length data"]
  have l1: "length (md5_padding (length data)) < 2 ^ 32 - 64"
    unfolding P(2) by (rule le_less_trans [of _ 120]) auto
  obtain c1 where c1: "MD5_Update ctx (md5_padding (length data)) = Some c1" "md5_inv c1 (data @ md5_padding (length data))"
    using MD5_Update_spec [OF w inv l1] by blast
  have l2: "length (Encode_words [count0 ctx, count1 ctx]) < 2 ^ 32 - 64" by (simp add: Encode_words_def Encode_word_def)
  obtain c2 where c2: "MD5_Update c1 (Encode_words [count0 ctx, count1 ctx]) = Some c2"
      "md5_inv c2 ((data @ md5_padding (length data)) @ Encode_words [count0 ctx, count1 ctx])"
    using MD5_Update_spec [OF w c1(2) l2] by blast
  have "md5_state c2 = fold_chunks MD5Transform 64 MD5_magic (data @ md5_padding (length data) @ Encode_words [count0 ctx, count1 ctx])"
    using c2(2) by (simp add: md5_inv_def)
  then show ?thesis using c1(1) c2(1) by (simp add: MD5_Final_def ix P(1) Let_def)
qed

section \<open>The counters of words of 32 bits\<close>

definition md5_inv32 :: "32 md5_ctx \<Rightarrow> buf \<Rightarrow> bool" where
  "md5_inv32 ctx data \<longleftrightarrow> md5_inv ctx data \<and> count1 ctx = of_nat (8 * length data div 2 ^ 32)"

lemma md5_count1:
  fixes ctx :: "32 md5_ctx"
  assumes c: "count0 ctx = of_nat v" "count1 ctx = of_nat (v div 2 ^ 32)" and n: "n < 2 ^ 32"
  shows "count1 (md5_count ctx n) = of_nat ((v + 8 * n) div 2 ^ 32)"
proof -
  define W :: nat where "W = 2 ^ 32"
  define a b where "a = v mod W" and "b = 8 * n mod W"
  have ab: "a < W" "b < W" by (simp_all add: a_def b_def W_def)
  have bits: "push_bit 3 (of_nat n :: 32 word) = of_nat (8 * n)" by (simp add: push_bit_eq_mult mult.commute)
  have "unat (of_nat v + of_nat (8 * n) :: 32 word) = (v + 8 * n) mod W"
    unfolding of_nat_add [symmetric] by (simp only: unat_of_nat W_def) simp
  moreover have "unat (of_nat (8 * n) :: 32 word) = b" by (simp only: unat_of_nat b_def W_def) simp
  ultimately have "(of_nat v + of_nat (8 * n) < (of_nat (8 * n) :: 32 word)) \<longleftrightarrow> (v + 8 * n) mod W < b"
    by (simp only: word_less_nat_alt)
  also have "(v + 8 * n) mod W = (a + b) mod W" by (simp add: a_def b_def mod_add_eq)
  also have "(a + b) mod W < b \<longleftrightarrow> W \<le> a + b"
  proof (cases "W \<le> a + b")
    case True
    then have "(a + b) mod W = a + b - W" using ab by (simp add: mod_if)
    then show ?thesis using True ab by auto
  qed (use ab in simp)
  finally have carry: "(of_nat v + of_nat (8 * n) < (of_nat (8 * n) :: 32 word)) \<longleftrightarrow> W \<le> a + b" .
  have cb: "(a + b) div W = (if W \<le> a + b then 1 else 0)"
    using ab by (simp add: div_if [of "a + b"])
  have "(v + 8 * n) div W = v div W + 8 * n div W + (a + b) div W"
    unfolding a_def b_def by (rule div_add1_eq)
  also have "8 * n div W = n div 2 ^ 29"
  proof -
    have "W = 8 * 2 ^ 29" by (simp add: W_def)
    then show ?thesis by (simp only: div_mult_mult1_if) simp
  qed
  finally have s: "(v + 8 * n) div W = v div W + n div 2 ^ 29 + (if W \<le> a + b then 1 else 0)" using cb by simp
  have db: "drop_bit 29 (of_nat n :: 32 word) = of_nat (n div 2 ^ 29)"
  proof (rule word_unat_eq_iff [THEN iffD2])
    have "n div 2 ^ 29 < 2 ^ 32" using n by (simp add: div_less_iff_less_mult)
    then show "unat (drop_bit 29 (of_nat n :: 32 word)) = unat (of_nat (n div 2 ^ 29) :: 32 word)"
      using n unfolding unsigned_drop_bit_eq unsigned_of_nat by (simp add: drop_bit_eq_div take_bit_eq_mod)
  qed
  show ?thesis
    unfolding W_def [symmetric] s using carry
    by (simp add: md5_count_def Let_def bits c(1) c(2) [folded W_def] db del: of_nat_mult)
qed

lemma md5_updates_spec:
  assumes "md5_inv32 ctx data" "\<forall>x \<in> set xs. length x < 2 ^ 32 - 64"
  shows "\<exists>ctx'. md5_updates ctx xs = Some ctx' \<and> md5_inv32 ctx' (data @ concat xs)"
  using assms
proof (induction xs arbitrary: ctx data)
  case (Cons x xs)
  have len: "length x < 2 ^ 32 - 64" and inv: "md5_inv ctx data" using Cons.prems by (auto simp: md5_inv32_def)
  obtain c where c: "MD5_Update ctx x = Some c" "md5_inv c (data @ x)" "count1 c = count1 (md5_count ctx (length x))"
    using MD5_Update_spec [OF _ inv len] by auto
  have "count0 ctx = of_nat (8 * length data)" "count1 ctx = of_nat (8 * length data div 2 ^ 32)"
    using Cons.prems(1) by (simp_all add: md5_inv32_def md5_inv_def)
  from md5_count1 [OF this, of "length x"] have "count1 c = of_nat (8 * length (data @ x) div 2 ^ 32)"
    using c(3) len by (simp add: add_mult_distrib2)
  then have "md5_inv32 c (data @ x)" using c(2) by (simp add: md5_inv32_def)
  from Cons.IH [OF this] Cons.prems(2) c(1) show ?case by auto
qed simp

text \<open>Writing a word of 32 bits, and two of them.\<close>

lemma Encode_word_32: "Encode_word (w :: 32 word) = le_bytes 4 (unat w)"
proof -
  have "unat (drop_bit k w AND 0xff) = unat w div 2 ^ k mod 256" for k
  proof -
    have "(0xff :: 32 word) = mask 8" by (simp add: mask_eq_exp_minus_1)
    moreover have "unat w mod 4294967296 = unat w" by (rule mod_less) (use unsigned_less [of w, where ?'a = nat] in simp)
    ultimately show ?thesis
      by (simp only: take_bit_eq_mask [symmetric] unsigned_take_bit_eq unsigned_drop_bit_eq) (simp add: take_bit_eq_mod drop_bit_eq_div)
  qed
  from this [of 0] this [of 8] this [of 16] this [of 24] show ?thesis
    by (simp add: Encode_word_def numeral_eq_Suc [of "num.Bit0 (num.Bit0 num.One)"] div_mult2_eq [symmetric] numeral_3_eq_3)
qed

lemma Encode_count:
  "Encode_words [of_nat v :: 32 word, of_nat (v div 2 ^ 32)] = le_bytes 8 v"
proof -
  have "le_bytes 4 (unat (of_nat x :: 32 word)) = le_bytes 4 x" for x
    using le_bytes_mod [of 4 x] by (simp add: unat_of_nat)
  then have "Encode_words [of_nat v :: 32 word, of_nat (v div 2 ^ 32)] = le_bytes 4 v @ le_bytes 4 (v div 2 ^ 32)"
    by (simp only: Encode_words_def list.map concat.simps Encode_word_32 append_Nil2)
  also have "\<dots> = le_bytes (4 + 4) v" by (simp only: le_bytes_add) simp
  finally show ?thesis by simp
qed

text \<open>The only block of the padded empty message, and the four rounds on it for words of 32 and of 64 bits.\<close>

definition md5_empty_block :: buf where
  "md5_empty_block = md5_padding 0 @ replicate 8 NUL"

definition md5_empty_words :: "'w::len word list" where
  "md5_empty_words = [128, 0, 0, 0, 0, 0, 0, 0, 0, 0, 0, 0, 0, 0, 0, 0]"

lemma md5_empty_block_eq: "md5_empty_block = CHR 0x80 # replicate 63 NUL"
  by (simp add: md5_empty_block_def md5_padding_def replicate_add [symmetric])

lemma Decode_empty_block_32: "Decode md5_empty_block = (md5_empty_words :: 32 word list)"
  by code_simp

lemma Decode_empty_block_64: "Decode md5_empty_block = (md5_empty_words :: 64 word list)"
  by code_simp

lemmas md5_round_defs = md5_step_def md5_F_def md5_G_def md5_H_def md5_I_def ROTATE_LEFT_def MD5_magic_def md5_empty_words_def
  steps_FF_def steps_GG_def steps_HH_def steps_II_def Let_def

lemma md5_empty_FF_32:
  "foldl (md5_step md5_F md5_empty_words) (MD5_magic :: 32 md5_state) steps_FF =
     (4117527793, 3598818410, 1520779125, 927548327)"
  by (simp add: md5_round_defs)

lemma md5_empty_GG_32:
  "foldl (md5_step md5_G md5_empty_words) (4117527793 :: 32 word, 3598818410, 1520779125, 927548327) steps_GG =
     (326135862, 2720030495, 473023364, 2927104987)"
  by (simp add: md5_round_defs)

lemma md5_empty_HH_32:
  "foldl (md5_step md5_H md5_empty_words) (326135862 :: 32 word, 2720030495, 473023364, 2927104987) steps_HH =
     (1062596093, 3397201341, 1759006370, 581115732)"
  by (simp add: md5_round_defs)

lemma md5_empty_II_32:
  "foldl (md5_step md5_I md5_empty_words) (1062596093 :: 32 word, 3397201341, 1759006370, 581115732) steps_II =
     (1917254355, 350508294, 4283343851, 1846584438)"
  by (simp add: md5_round_defs)

lemma MD5Transform_empty_32:
  "MD5Transform MD5_magic md5_empty_block = (3649838548 :: 32 word, 78774415, 2550759657, 2118318316)"
  by (simp only: MD5Transform_def Decode_empty_block_32 Let_def md5_empty_FF_32 md5_empty_GG_32 md5_empty_HH_32 md5_empty_II_32) (simp add: MD5_magic_def)

lemma md5_empty_FF_64:
  "foldl (md5_step md5_F md5_empty_words) (MD5_magic :: 64 md5_state) steps_FF =
     (10871433800582520069, 10445878844286575515, 1585618057195662231, 6079375046028346327)"
  by (simp add: md5_round_defs)

lemma md5_empty_GG_64:
  "foldl (md5_step md5_G md5_empty_words) (10871433800582520069 :: 64 word, 10445878844286575515, 1585618057195662231, 6079375046028346327) steps_GG =
     (3720851114925492716, 15983705072902754029, 15006569089568068913, 11367238944272938529)"
  by (simp add: md5_round_defs)

lemma md5_empty_HH_64:
  "foldl (md5_step md5_H md5_empty_words) (3720851114925492716 :: 64 word, 15983705072902754029, 15006569089568068913, 11367238944272938529) steps_HH =
     (16013921822190226924, 12556789716051873983, 5441147249984637601, 2302140967492144413)"
  by (simp add: md5_round_defs)

lemma md5_empty_II_64:
  "foldl (md5_step md5_I md5_empty_words) (16013921822190226924 :: 64 word, 12556789716051873983, 5441147249984637601, 2302140967492144413) steps_II =
     (8863795446308577251, 4224312351078579556, 12192877750745007488, 14788787346903034911)"
  by (simp add: md5_round_defs)

lemma MD5Transform_empty_64:
  "MD5Transform MD5_magic md5_empty_block = (8863795448041161444 :: 64 word, 4224312355101812973, 12192877753307390590, 14788787347174768789)"
  by (simp only: MD5Transform_def Decode_empty_block_64 Let_def md5_empty_FF_64 md5_empty_GG_64 md5_empty_HH_64 md5_empty_II_64) (simp add: MD5_magic_def)

lemma md5_one_block: "fold_chunks MD5Transform 64 st ([] @ md5_padding (length []) @ replicate 8 NUL) = MD5Transform st md5_empty_block"
proof -
  have "length md5_empty_block = 64" by (simp add: md5_empty_block_eq)
  from first_chunk(2) [OF _ this, of MD5Transform st "[]"] short_chunks(2) [of "[]" 64 MD5Transform "MD5Transform st md5_empty_block"]
  show ?thesis by (simp add: md5_empty_block_def)
qed

lemma MD5_Final_empty_32:
  fixes ctx :: "32 md5_ctx"
  assumes "length (md5_buffer ctx) = 64"
  shows "\<exists>c. MD5_Final (MD5_Init ctx) = Some ([CHR 0xD4, CHR 0x1D, CHR 0x8C, CHR 0xD9, CHR 0x8F, CHR 0x00, CHR 0xB2, CHR 0x04, CHR 0xE9, CHR 0x80, CHR 0x09, CHR 0x98, CHR 0xEC, CHR 0xF8, CHR 0x42, CHR 0x7E], c)"
proof -
  have e: "Encode_words [count0 (MD5_Init ctx), count1 (MD5_Init ctx)] = replicate 8 NUL" by (simp add: MD5_Init_def) code_simp
  have "9 \<le> LENGTH(32)" by simp
  from MD5_Final_spec [OF this MD5_Init_inv [OF assms]] have
    "\<exists>c. MD5_Final (MD5_Init ctx) = Some (Encode_words (state_words (MD5Transform MD5_magic md5_empty_block :: 32 md5_state)), c)"
    unfolding e by (simp only: md5_one_block)
  moreover have "Encode_words (state_words (MD5Transform MD5_magic md5_empty_block :: 32 md5_state)) = [CHR 0xD4, CHR 0x1D, CHR 0x8C, CHR 0xD9, CHR 0x8F, CHR 0x00, CHR 0xB2, CHR 0x04, CHR 0xE9, CHR 0x80, CHR 0x09, CHR 0x98, CHR 0xEC, CHR 0xF8, CHR 0x42, CHR 0x7E]"
    unfolding MD5Transform_empty_32 by code_simp
  ultimately show ?thesis by simp
qed

lemma MD5_Final_empty_64:
  fixes ctx :: "64 md5_ctx"
  assumes "length (md5_buffer ctx) = 64"
  shows "\<exists>c. MD5_Final (MD5_Init ctx) = Some ([CHR 0xE4, CHR 0xC2, CHR 0x37, CHR 0x62, CHR 0xED, CHR 0x28, CHR 0x23, CHR 0xA2, CHR 0x7E, CHR 0x62, CHR 0xA6, CHR 0x4B, CHR 0x95, CHR 0xC0, CHR 0x24, CHR 0xE7], c)"
proof -
  have e: "Encode_words [count0 (MD5_Init ctx), count1 (MD5_Init ctx)] = replicate 8 NUL" by (simp add: MD5_Init_def) code_simp
  have "9 \<le> LENGTH(64)" by simp
  from MD5_Final_spec [OF this MD5_Init_inv [OF assms]] have
    "\<exists>c. MD5_Final (MD5_Init ctx) = Some (Encode_words (state_words (MD5Transform MD5_magic md5_empty_block :: 64 md5_state)), c)"
    unfolding e by (simp only: md5_one_block)
  moreover have "Encode_words (state_words (MD5Transform MD5_magic md5_empty_block :: 64 md5_state)) = [CHR 0xE4, CHR 0xC2, CHR 0x37, CHR 0x62, CHR 0xED, CHR 0x28, CHR 0x23, CHR 0xA2, CHR 0x7E, CHR 0x62, CHR 0xA6, CHR 0x4B, CHR 0x95, CHR 0xC0, CHR 0x24, CHR 0xE7]"
    unfolding MD5Transform_empty_64 by code_simp
  ultimately show ?thesis by simp
qed

text \<open>The width of a word decides whether the digest is the message digest. The header declares the four-byte word as
  \<^verbatim>\<open>unsigned long\<close>: with 32 bits the empty message has the digest d41d8cd98f00b204e9800998ecf8427e, the published one, while with the 64
  bits of most current platforms the macro that shall rotate shifts the upper half in and the digest is another.\<close>

lemma md5_word_width_matters:
  fixes c32 :: "32 md5_ctx" and c64 :: "64 md5_ctx"
  assumes "length (md5_buffer c32) = 64" "length (md5_buffer c64) = 64"
  shows "(\<exists>c. MD5_Final (MD5_Init c32) = Some ([CHR 0xD4, CHR 0x1D, CHR 0x8C, CHR 0xD9, CHR 0x8F, CHR 0x00, CHR 0xB2, CHR 0x04, CHR 0xE9, CHR 0x80, CHR 0x09, CHR 0x98, CHR 0xEC, CHR 0xF8, CHR 0x42, CHR 0x7E], c)) \<and>
    (\<exists>c. MD5_Final (MD5_Init c64) = Some ([CHR 0xE4, CHR 0xC2, CHR 0x37, CHR 0x62, CHR 0xED, CHR 0x28, CHR 0x23, CHR 0xA2, CHR 0x7E, CHR 0x62, CHR 0xA6, CHR 0x4B, CHR 0x95, CHR 0xC0, CHR 0x24, CHR 0xE7], c))"
  using MD5_Final_empty_32 [OF assms(1)] MD5_Final_empty_64 [OF assms(2)] by blast

section \<open>Properties\<close>

text \<open>C19. The digest with words of four bytes: whatever the pieces in which a message arrives (empty ones included), as long as no piece
  reaches the range in which the loop index wraps, the updates succeed and finishing returns the digest of the padded message, the
  compression function folded over its blocks of 64 bytes.\<close>

theorem md5_digest_of_pieces:
  fixes ctx :: "32 md5_ctx"
  assumes "length (md5_buffer ctx) = 64" "\<forall>x \<in> set xs. length x < 2 ^ 32 - 64"
  shows "\<exists>c1 c2. md5_updates (MD5_Init ctx) xs = Some c1 \<and> MD5_Final c1 = Some (md5_digest (concat xs), c2)"
proof -
  have "md5_inv32 (MD5_Init ctx) []" using MD5_Init_inv [OF assms(1)] by (simp add: md5_inv32_def MD5_Init_def)
  from md5_updates_spec [OF this assms(2)] obtain c1 where c1: "md5_updates (MD5_Init ctx) xs = Some c1" "md5_inv32 c1 (concat xs)" by auto
  have e: "Encode_words [count0 c1, count1 c1] = le_bytes 8 (8 * length (concat xs))"
    using c1(2) Encode_count [of "8 * length (concat xs)"] by (simp only: md5_inv32_def md5_inv_def)
  have inv: "md5_inv c1 (concat xs)" using c1(2) by (simp add: md5_inv32_def)
  have "9 \<le> LENGTH(32)" by simp
  from MD5_Final_spec [OF this inv] show ?thesis unfolding e md5_digest_def using c1(1) by blast
qed

theorem md5_digest_of_pieces_witness:
  "\<exists>c1 c2. md5_updates (MD5_Init \<lparr>md5_state = (0, 0, 0, 0), count0 = 0, count1 = 0, md5_buffer = replicate 64 NUL\<rparr> :: 32 md5_ctx) [''ab'', [], ''c''] = Some c1 \<and>
     MD5_Final c1 = Some (md5_digest ''abc'', c2)"
  using md5_digest_of_pieces [of "\<lparr>md5_state = (0, 0, 0, 0), count0 = 0, count1 = 0, md5_buffer = replicate 64 NUL\<rparr>" "[''ab'', [], ''c'']"] by simp

end
