(* ===== verification/Spec2Isabelle.thy ===== *)
theory Spec2Isabelle
  imports Image_Roundtrip Map_Binary Encrypted X509 Errors Md5
begin

text \<open>
  The core of the AFF4 library (the advanced forensic format, C sources under \<^verbatim>\<open>src/lib\<close> and \<^verbatim>\<open>src/include\<close>): the files that the build
  script \<^verbatim>\<open>src/lib/SConstruct\<close> compiles into the library, and of the others the map stream (\<^verbatim>\<open>map.c\<close>), the encrypted stream (\<^verbatim>\<open>encrypt.c\<close>) and the
  message digest (\<^verbatim>\<open>md5c.c\<close>), translated into executable definitions, with the properties that make each of them correct.

  \<^bold>\<open>The program.\<close> An AFF4 volume is a Zip archive whose members are named by URNs. A process-wide \<^emph>\<open>resolver\<close> keeps the attributes of
  every URN in a \<^emph>\<open>data store\<close> of typed values and keeps the open objects in two \<^emph>\<open>caches\<close>, one for each mode. Volumes and
  their segments are objects with a constructor, a \<^verbatim>\<open>finish\<close> step, operations, and a \<^verbatim>\<open>close\<close> that flushes them. The
  volume reads and writes a \<^emph>\<open>file like object\<close>; segments collect their data in a \<^emph>\<open>StringIO\<close>. Image streams compress in a
  \<^emph>\<open>thread pool\<close> that is fed by a bounded \<^emph>\<open>queue\<close> under one global lock. A map stream is made of slices of other streams; an encrypted
  stream puts chunks, each encrypted on its own, into another stream, with a key that is stored sealed with a pass phrase.

  \<^bold>\<open>Theories, from the bottom up.\<close>
  \<^item> \<open>Aff4_Prelude\<close>: the error codes, fixed-width conversions (\<open>u16\<close>, \<open>u32\<close>, \<open>u64\<close>, \<open>s32\<close>, \<open>s64\<close>), C strings, bounded memory access
    (\<open>mem_read\<close>, \<open>mem_write\<close>: the value \<open>None\<close> is an access outside the object) and the lemma collection \<open>c_int\<close>.
  \<^item> \<open>Byte_Stream\<close>, \<open>Multimap\<close>: the interfaces as locales. A byte stream has a content and a position; write, seek and read obey the
    overwrite law, from which write-seek-read is derived once and used for StringIO and for the file backed object.
    A multimap keeps a list for each key; it is the contract under which the cache serves the data store and the resolver.
  \<^item> \<open>StringIO\<close> (\<^verbatim>\<open>stringio.c\<close>): the growable buffer. The record keeps \<^verbatim>\<open>alloc_size\<close> apart from the memory that was allocated, because the
    code lets them differ.
  \<^item> \<open>Cache\<close> (\<^verbatim>\<open>aff4_utils.c\<close>): hash lists, expiry list and tally, with entries named by addresses; its invariant, the bound, and the
    interpretation of the multimap contract.
  \<^item> \<open>Data_Store\<close> (\<^verbatim>\<open>data_store.c\<close>): two name caches and a value cache; refinement of a map from (URI, attribute) to value lists, stated
    as the locale of triple stores and interpreted on the operations of the file.
  \<^item> \<open>Misc\<close> (\<^verbatim>\<open>misc.c\<close>): escaping of member names, number conversion, byte order. \<open>Encode\<close> (\<^verbatim>\<open>encode.c\<close>): base 64, base 32, hexadecimal; a
    locale of block codecs gives the round trip for data of every length from the one of a single block.
  \<^item> \<open>Sync\<close> (\<^verbatim>\<open>aff4_utils.c\<close>, \<^verbatim>\<open>queue.c\<close>): the recursive global lock, condition waits, the bounded queue and the thread pool. A wait is
    split where it gives up the lock, and a step relation interleaves workers, clients, time-outs and spurious wake-ups.
  \<^item> \<open>Url\<close>, \<open>Rdf\<close> (\<^verbatim>\<open>rdf.c\<close>): URL parsing and printing, path collapsing, URNs; value classes, their registry, their encodings,
    the triple handler and the buffered output stream of the serialiser.
  \<^item> \<open>File_Object\<close> (\<^verbatim>\<open>file.c\<close>): the file like object and its file backed class. The outcome of each system call is an argument.
  \<^item> \<open>Resolver\<close> (\<^verbatim>\<open>resolver.c\<close>, \<^verbatim>\<open>list.h\<close>): attributes over the data store, values as an intrusive linked list in an explicit store of
    list nodes, object caches, type dispatch, create and open.
  \<^item> \<open>Zip_Format\<close>, \<open>Zip\<close>, \<open>Zip_Load\<close>, \<open>Zip_Segment\<close> (\<^verbatim>\<open>aff4_zip.c\<close>, \<^verbatim>\<open>aff4_zip.h\<close>): the packed structures as lists of little-endian fields, the
    operations of volumes and segments, the search for the end record and the loading of the directory, and
    the life of a segment, of a volume that is appended to, and of the URN in the comment.
  \<^item> \<open>Image\<close>, \<open>Image_Worker\<close>, \<open>Image_Read\<close>, \<open>Image_Roundtrip\<close> (\<^verbatim>\<open>aff4_image.c\<close>): the image stream. Writing cuts the stream into bevies, each a job for the
    thread pool, whose contract is a locale interpreted on the pool of \<open>Sync\<close>; a job writes a bevy and the index of its chunks as two segments; reading finds the
    two segments of a position again. The last theory follows an image through a volume that is closed and loaded.
  \<^item> \<open>Treap\<close> (\<^verbatim>\<open>trp.h\<close>), \<open>Map_Value\<close>, \<open>Map_Text\<close>, \<open>Map_Binary\<close> (\<^verbatim>\<open>map.c\<close>): the map stream, a stream made of slices of other streams. The treaps are verified once in a locale
    whose assumption is that the comparison is the one of a key, and interpreted on the points of a map; then the lookup of positions, the
    writing of slices, reading, the text forms, and the binary form with the storage of a map in a volume. What decoding relies on of an open segment is the
    locale \<open>segment_reader\<close>, interpreted on the file backed object; what the code asks the resolver to change is a list of effects.
  \<^item> \<open>Chunks\<close>: cutting data into pieces of one size and folding a function over them, shared by the next theories.
  \<^item> \<open>Cipher\<close> (\<^verbatim>\<open>encrypt.c\<close>, \<^verbatim>\<open>aff4_crypto.h\<close>): keys, the cache of keys, the pass phrase cipher; a step relation of what changes the key store, under which it stays well typed.
    \<open>X509\<close> (\<^verbatim>\<open>encrypt.c\<close>): the cipher whose key is sealed with a certificate. \<open>Encrypted\<close> (\<^verbatim>\<open>encrypt.c\<close>): the encrypted stream. What it relies on of the stream below is the locale \<open>backing_stream\<close>, interpreted on
    the file backed object of \<open>File_Object\<close>.
  \<^item> \<open>Errors\<close> (\<^verbatim>\<open>error.c\<close>): the error state of a thread and the buffer of its messages.
  \<^item> \<open>Md5\<close> (\<^verbatim>\<open>md5c.c\<close>): the message digest, polymorphic in the width of the word type, whose declaration differs between platforms.

  \<^bold>\<open>State and operations.\<close> A struct is a record with the fields of the source, an operation is a function that carries the name of the C function and
  returns the changed records, the C result and, where the code raises an error, the error code. A call
  that would access memory outside its object, or that the allocator refuses, is \<open>None\<close>. Memory that is not initialised
  is a function argument (\<open>junk\<close>, \<open>stack\<close>, \<open>fresh\<close>), so results that hold for all of it do not depend on it.

  \<^bold>\<open>What is shown.\<close>
  \<^item> Round trips: an image that is written, stored, loaded and read, in volumes of up to 40957 bytes; a map that is written slice by slice and read, its text form and its binary form; write, seek, read of both streams; a segment that is written, closed, loaded and read, with the exact condition
    on its name under which the reader accepts it; a directory that
    is written and loaded; escaping of names; base 64 and base 32; encoded values; set and resolve of attributes; the key of a stream through its
    envelope, and an encrypted stream that is written in blocks, closed and read within a chunk.
  \<^item> Invariants: the cache; the data store; URNs under every sequence of set and add, and when a copy of them is defined; the thread pool over every interleaving;
    the key store under every sequence of constructors, serialised and decoded ciphers, also when random bytes fail.
  \<^item> Refinement and equivalence: data store and map; treaps and sorted lists; streams and byte sequences; searching and the first occurrence; the buffered
    serialiser and the plain concatenation of what its 32-bit lengths keep; the digest of a message that arrives in pieces and the compression function folded over the padded message.
  \<^item> Bounds and termination: the size of a bounded cache, the buffer of a collapsed path, the range in which numbers survive
    printing and parsing; copying between streams and iterating over values end.
  \<^item> Defects of the code, each proved as a statement about the definitions: for example the seek that shrinks a
    buffer, the name buffer that is too small for bytes above 127, the URN that loses its end in volumes of more
    than 40957 bytes, the members that become unreadable when a volume is appended to, the members whose escaped names the reader refuses, the list of values of which
    only the first and the last are reachable, the queue that outgrows its bound, the encrypted stream that skips every other chunk,
    the error messages that overflow their buffer, the digest that is not MD5 where a word has 64 bits, the binary map that loses a point,
    the certificate cipher that never sets its key schedules and opens its envelope into an array that is too small.

  \<^bold>\<open>Bounds and fuel.\<close> All loops but these are structural or have a measure. \<open>resolve_loop\<close> takes as fuel the number of stored
  values plus two: one step for each value and one for the end of the iteration. \<open>deflate_loop\<close>, \<open>chunk_loop\<close>, \<open>write_loop\<close> and \<open>read_loop\<close> are partial functions into
  \<open>option\<close>, because they end only for parameters (a compressor, a chunk or bevy size) that make progress; \<open>key_search\<close> is one too, because it
  follows the list of a cache, and is shown to return for every cache that is live. Sizes are bounded where the code uses 32-bit arithmetic: a buffer
  stays below the limit of the allocator (256 MB), offsets without Zip64 below \<open>ZIP64_LIMIT\<close>.

  \<^bold>\<open>Parameters.\<close> zlib (\<open>crc32\<close>, \<open>deflate\<close>, \<open>inflate\<close>), \<^verbatim>\<open>mktime\<close>, the clock, the generator of unique identifiers, \<^verbatim>\<open>open\<close>, the targets of a map, and the results of \<^verbatim>\<open>read\<close>, \<^verbatim>\<open>write\<close> and \<^verbatim>\<open>lseek\<close>. OpenSSL (random bytes, the
  key derivation, the block cipher in its chaining mode) is a record of functions; \<open>openssl_ok\<close> states what is documented of them: the sizes of their results and that decrypting
  inverts encrypting; it does not say that random bytes can be had, which is the separate \<open>random_ok\<close>. Its envelope interface is another record (\<open>evp_ok\<close>); the definitions that call it
  require the room for the output that is documented, the length of the input and a block. The provider of private keys and the files that hold certificates are functions. The provider of pass phrases is a function of cipher and subject.

  \<^bold>\<open>Simplifications.\<close> The tally of a cache and the number of a bevy are unbounded integers, where the source has an \<^verbatim>\<open>int\<close> that could wrap
  after \<open>2 ^ 31\<close> entries or bevies. A map stream always has a map, so the error of \<^verbatim>\<open>write_from\<close> before \<^verbatim>\<open>finish\<close> is not represented. The buffer of
  the caller of an image read has exactly the bytes that were asked for.

  \<^bold>\<open>Not modelled.\<close> The vendored libraries (\<^verbatim>\<open>libraptor\<close>, \<^verbatim>\<open>libtdb\<close>, \<^verbatim>\<open>libreplace\<close>, \<^verbatim>\<open>uuid\<close>, \<^verbatim>\<open>talloc.c\<close>): third-party code. The class macros (\<^verbatim>\<open>class.c\<close>): calls
  are resolved in the definitions. Streams and volumes that the build script does not compile (\<^verbatim>\<open>image.c\<close>,
  \<^verbatim>\<open>zip.c\<close>, \<^verbatim>\<open>dirvol.c\<close>, \<^verbatim>\<open>ewfvolume.c\<close>, \<^verbatim>\<open>aff1.c\<close>, \<^verbatim>\<open>http.c\<close>, \<^verbatim>\<open>identity.c\<close>, \<^verbatim>\<open>graph.c\<close>, \<^verbatim>\<open>link.c\<close>): written against an earlier interface. The resolver that \<^verbatim>\<open>map.c\<close> calls has an earlier interface and is
  a parameter. Bindings, tools and tests.
\<close>

section \<open>From the written stream to the volume\<close>

text \<open>C1. Acquiring an image: an uncompressed image (\<^verbatim>\<open>compression\<close> = 0) with explicit chunk and bevy sizes, whose path under the volume needs no
  escaping, is finished, blocks (each of less than \<^verbatim>\<open>2^30\<close> bytes) are written to it, and it is closed; the jobs that its
  thread pool has accepted are then run in order on the volume. A bevy stays below 128 MB, the file without Zip64 structures, the names of the
  bevies are free in the volume, and the data store has room for the attributes. Each step succeeds, the pool is in a state that it can reach,
  and afterwards the volume holds, for each slice of the stream of the size of a bevy, a member with exactly
  these bytes under the name of the bevy, and a member with the offsets of its chunks.\<close>

theorem image_acquisition:
  fixes zf :: "'z zip_file" and img :: "image_worker pool aff4_image"
  assumes img: "mode img = CHR ''w''" "stored img = Some st" "urn_value st = urn_value (urn zf)" "image_path zf (urn img) path"
      "chunk_size img = int cs" "chunks_in_segment img = int k" "compression img = 0"
    and B: "0 < cs" "0 < k" "2 * (cs * k) < 268435456" "2 * length (index_bytes cs (cs * k)) < 268435456"
    and xs: "\<forall>x \<in> set xs. length x < 2 ^ 30" and K: "cs \<le> compressBound K cs" and Z: "\<forall>c d. crc32 Z c d < 2 ^ 32"
    and zf: "names_free path 0 (members zf)" "volume_owned r (urn zf) (addr zf) (2 * Suc (length (concat xs) div (cs * k)))"
      "length (disk (backing_store zf)) + Suc (length (concat xs) div (cs * k)) * job_space cs (cs * k) \<le> ZIP64_LIMIT"
  shows "\<exists>s0 s1 s2 p f ps r'. AFF4Image_finish (\<lambda>n. ThreadPool_Con (nat n)) uuid junk img = Some (s0, 1, None) \<and>
     image_writes schedule_signalled junk s0 xs = Some s1 \<and> AFF4Image_close schedule_signalled ThreadPool_join_begin s1 = Some (s2, 1) \<and>
     thread_pool s2 = Some p \<and> pool_reach (nat (thread_count s0)) p \<and>
     run_jobs Z K now fresh junk uuid a s2 (accepted p) r zf
       = Some (zf\<lparr>backing_store := f, members := members zf @ concat (map (\<lambda>(s, t). [s, t]) ps)\<rparr>, r') \<and>
     bevies_stored path cs (disk f) 0 (slices (cs * k) (concat xs)) ps"
proof -
  obtain s0 s1 s2 p where j: "AFF4Image_finish (\<lambda>n. ThreadPool_Con (nat n)) uuid junk img = Some (s0, 1, None)"
     "image_writes schedule_signalled junk s0 xs = Some s1" "AFF4Image_close schedule_signalled ThreadPool_join_begin s1 = Some (s2, 1)"
     "thread_pool s2 = Some p" "pool_reach (nat (thread_count s0)) p" "map content (accepted p) = slices (cs * k) (concat xs)"
     "\<forall>j \<in> set (accepted p). at_end (bevy j)" "map worker_count (accepted p) = map int [0 ..< length (accepted p)]"
     and s2: "stored s2 = Some st" "urn s2 = urn img" "chunk_size s2 = int cs" "compression s2 = int ZIP_STORED"
    using image_jobs [OF img(1,2) image_path_urn [OF img(4)] img(5-7) B(1-3) xs, of uuid junk] by blast
  have len: "length (accepted p) = Suc (length (concat xs) div (cs * k))" using arg_cong [OF j(6), of length] by (simp add: length_slices)
  have "length (content w) \<le> cs * k" if "w \<in> set (accepted p)" for w
    using slice_length [of "content w" "cs * k" "concat xs"] that j(6) by (metis image_eqI set_map)
  then have js: "\<forall>w \<in> set (accepted p). at_end (bevy w) \<and> length (content w) \<le> cs * k" using j(7) by blast
  have "length (accepted p) * 140000 \<le> ZIP64_LIMIT"
    using zf(3) unfolding len by (rule order_trans [rotated]) (simp add: job_space_def mult_le_mono2 trans_le_add2 add_mult_distrib2)
  then have n: "0 + length (accepted p) < 2 ^ 32" by (simp add: ZIP64_LIMIT_def)
  have cs31: "cs < 2 ^ 31"
  proof -
    have "cs \<le> cs * k" "cs * k < 2 ^ 31" using B(2,3) by simp_all
    then show ?thesis by (rule order.strict_trans1)
  qed
  obtain f ps r' where "run_jobs Z K now fresh junk uuid a s2 (accepted p) r zf
       = Some (zf\<lparr>backing_store := f, members := members zf @ concat (map (\<lambda>(s, t). [s, t]) ps)\<rparr>, r')"
     "bevies_stored path cs (disk f) 0 (map content (accepted p)) ps"
    using run_jobs_stored [OF s2(1) img(3) _ s2(3,4) B(1) cs31 K Z js _ n _ _ B(3,4), of path r now fresh junk uuid a] img(4) s2(2) j(8) zf
    unfolding len by auto
  then show ?thesis using j(1-5) unfolding j(6) by blast
qed

text \<open>An image of two chunks of two bytes for each bevy, in the volume \<open>aff4://vol\<close>.\<close>

definition demo_codec :: chunk_codec where
  "demo_codec = \<lparr>compressBound = (\<lambda>n. n), compress2 = (\<lambda>d n. Some d), uncompress = (\<lambda>d n. Some d)\<rparr>"

theorem image_acquisition_witness:
  "\<exists>r s0 s1 s2 p (ps :: (unit zip_segment \<times> unit zip_segment) list) zf' r'. AFF4Image_finish (\<lambda>n. ThreadPool_Con (nat n)) [] (\<lambda>_. NUL) (demo_image 2 2) = Some (s0, 1, None) \<and>
     image_writes schedule_signalled (\<lambda>_. NUL) s0 [''abc'', ''de''] = Some s1 \<and>
     AFF4Image_close schedule_signalled ThreadPool_join_begin s1 = Some (s2, 1) \<and> thread_pool s2 = Some p \<and>
     run_jobs demo_zlib demo_codec demo_now (\<lambda>_. NUL) (\<lambda>_. NUL) [] 7 s2 (accepted p) r (demo_zip (CHR ''w'') ''P'' []) = Some (zf', r') \<and>
     bevies_stored ''/i'' 2 (disk (backing_store zf')) 0 [''abcd'', ''e''] ps"
proof -
  let ?z = "demo_zip (CHR ''w'') ''P'' [] :: unit zip_file" and ?xs = "[''abc'', ''de'']"
  have z: "urn ?z = demo_urn []" "mode ?z = CHR ''w''" "members ?z = []" "disk (backing_store ?z) = ''P''" by (simp_all add: demo_zip_def)
  obtain r where r: "volume_owned r (urn ?z) (addr ?z) (2 * Suc (length (concat ?xs) div (2 * 2)))"
    using demo_owned [of "2 * Suc (length (concat ?xs) div (2 * 2))" ?z] z(2) by auto
  have i: "mode (demo_image 2 2) = CHR ''w''" "stored (demo_image 2 2) = Some (demo_urn [])" "urn_value (demo_urn []) = urn_value (urn ?z)"
      "chunk_size (demo_image 2 2) = int 2" "chunks_in_segment (demo_image 2 2) = int 2" "compression (demo_image 2 2) = 0"
    by (simp_all add: demo_image_def z)
  have b: "(0 :: nat) < 2" "2 * ((2 :: nat) * 2) < 268435456" "2 * length (index_bytes 2 (2 * 2)) < 268435456" by (simp_all add: length_index_bytes)
  have x: "\<forall>x \<in> set ?xs. length x < 2 ^ 30" "2 \<le> compressBound demo_codec 2" "\<forall>c d. crc32 demo_zlib c d < 2 ^ 32" "names_free ''/i'' 0 (members ?z)"
    by (simp_all add: demo_codec_def demo_zlib_def z names_free_def find_member_None)
  have l: "length (disk (backing_store ?z)) + Suc (length (concat ?xs) div (2 * 2)) * job_space 2 (2 * 2) \<le> ZIP64_LIMIT"
    by (simp add: z job_space_def length_index_bytes ZIP64_LIMIT_def)
  have sl: "slices (2 * 2) (concat ?xs) = [''abcd'', ''e'']" by code_simp
  from image_acquisition [OF i(1-3) demo_image_path i(4-6) b(1,1-3) x r l, of "[]" "\<lambda>_. NUL" demo_now "\<lambda>_. NUL" 7]
  obtain s0 s1 s2 p f ps r' where A: "AFF4Image_finish (\<lambda>n. ThreadPool_Con (nat n)) [] (\<lambda>_. NUL) (demo_image 2 2) = Some (s0, 1, None)"
      "image_writes schedule_signalled (\<lambda>_. NUL) s0 ?xs = Some s1" "AFF4Image_close schedule_signalled ThreadPool_join_begin s1 = Some (s2, 1)"
      "thread_pool s2 = Some p"
      "run_jobs demo_zlib demo_codec demo_now (\<lambda>_. NUL) (\<lambda>_. NUL) [] 7 s2 (accepted p) r ?z
        = Some (?z\<lparr>backing_store := f, members := members ?z @ concat (map (\<lambda>(s, t). [s, t]) ps)\<rparr>, r')"
      "bevies_stored ''/i'' 2 (disk f) 0 [''abcd'', ''e''] ps"
    unfolding sl by blast
  define zf' where "zf' = ?z\<lparr>backing_store := f, members := members ?z @ concat (map (\<lambda>(s, t). [s, t]) ps)\<rparr>"
  have "bevies_stored ''/i'' 2 (disk (backing_store zf')) 0 [''abcd'', ''e''] ps" using A(6) by (simp add: zf'_def)
  then show ?thesis using A(1-5) unfolding zf'_def [symmetric] by blast
qed

end
